(* ===== verification/Libca_Prelude.thy ===== *)
theory Libca_Prelude
  imports Main "HOL-Library.Word"
begin

text \<open>
  Shared vocabulary of the development: the fixed-width integer types of
  \<^verbatim>\<open>libca/core/src/libca/core/datatype.hpp\<close>, the arithmetic of \<^verbatim>\<open>usize\<close>, and the
  lemmas on words, bytes and lists that the component theories use.

  Unsigned integers are words, so their arithmetic wraps as in C++.  A signed integer
  \<^verbatim>\<open>iN\<close> is the word with the same bits, read by \<^const>\<open>sint\<close>: a \<^verbatim>\<open>static_cast\<close>
  between \<^verbatim>\<open>iN\<close> and \<^verbatim>\<open>uN\<close> keeps the bits.  A floating-point number is its object
  representation, since the code only ever copies it with \<^verbatim>\<open>memcpy\<close>.  Sizes
  (\<^verbatim>\<open>usize\<close>) are natural numbers below \<open>2 ^ 64\<close>; the operations that can wrap are
  written with \<open>usize_add\<close>, \<open>usize_sub\<close> and \<open>usize_mul\<close>.
\<close>

unbundle bit_operations_syntax

section \<open>Integer types\<close>

type_synonym u8 = "8 word"
type_synonym u16 = "16 word"
type_synonym u32 = "32 word"
type_synonym u64 = "64 word"
type_synonym i16 = "16 word"
type_synonym i32 = "32 word"
type_synonym i64 = "64 word"
type_synonym f32 = "32 word"
type_synonym f64 = "64 word"
type_synonym usize = nat

abbreviation SIZE_MAX :: usize where
  "SIZE_MAX \<equiv> 18446744073709551615"

abbreviation PTRDIFF_MAX :: usize where
  "PTRDIFF_MAX \<equiv> 9223372036854775807"

definition usize_add :: "usize \<Rightarrow> usize \<Rightarrow> usize" where
  "usize_add a b = (a + b) mod (SIZE_MAX + 1)"

definition usize_sub :: "usize \<Rightarrow> usize \<Rightarrow> usize" where
  "usize_sub a b = (a + (SIZE_MAX + 1) - b) mod (SIZE_MAX + 1)"

definition usize_mul :: "usize \<Rightarrow> usize \<Rightarrow> usize" where
  "usize_mul a b = (a * b) mod (SIZE_MAX + 1)"

lemma usize_add_exact [simp]: "a + b \<le> SIZE_MAX \<Longrightarrow> usize_add a b = a + b"
  by (simp add: usize_add_def)

lemma usize_sub_exact [simp]:
  assumes "b \<le> a" and "a \<le> SIZE_MAX"
  shows "usize_sub a b = a - b"
proof -
  have "a + (SIZE_MAX + 1) - b = (a - b) + (SIZE_MAX + 1)"
    using assms by simp
  then show ?thesis
    using assms by (simp only: usize_sub_def mod_add_self2) simp
qed

lemma usize_mul_exact [simp]: "a * b \<le> SIZE_MAX \<Longrightarrow> usize_mul a b = a * b"
  by (simp add: usize_mul_def)

section \<open>Bits of words\<close>

named_theorems byte_join \<open>reassembling a word from its bytes\<close>

lemma and_255_take_bit: "(w::'a::len word) AND 255 = take_bit 8 w"
  using take_bit_eq_mask [of 8 w] by (simp add: mask_eq_exp_minus_1)

lemma and_127_take_bit: "(w::'a::len word) AND 127 = take_bit 7 w"
  using take_bit_eq_mask [of 7 w] by (simp add: mask_eq_exp_minus_1)

named_theorems mask_take_bit \<open>masking with \<open>2 ^ n - 1\<close> as truncation\<close>

lemma and_mask_word [mask_take_bit]:
  "(w::'a::len word) AND 1 = take_bit 1 w" "w AND 3 = take_bit 2 w" "w AND 7 = take_bit 3 w"
  "w AND 15 = take_bit 4 w" "w AND 31 = take_bit 5 w" "w AND 63 = take_bit 6 w"
  "w AND 127 = take_bit 7 w" "w AND 255 = take_bit 8 w"
  by (simp_all add: take_bit_eq_mask mask_eq_exp_minus_1)

lemma and_mask_int [mask_take_bit]:
  "(k::int) AND 1 = take_bit 1 k" "k AND 3 = take_bit 2 k" "k AND 7 = take_bit 3 k"
  "k AND 15 = take_bit 4 k" "k AND 31 = take_bit 5 k" "k AND 63 = take_bit 6 k"
  "k AND 127 = take_bit 7 k" "k AND 255 = take_bit 8 k"
  by (simp_all add: take_bit_eq_mask mask_eq_exp_minus_1)

lemma ucast_low_byte [simp]: "(ucast (w AND 255) :: u8) = ucast (w::'a::len word)"
  by (rule bit_word_eqI) (simp add: and_255_take_bit bit_simps)

lemma byte_join_step [byte_join]:
  "push_bit m (take_bit 8 (drop_bit m w)) OR take_bit m w = take_bit (m + 8) (w::'a::len word)"
  by (rule bit_word_eqI) (auto simp: bit_simps)

lemma byte_join_base [byte_join]: "ucast (ucast w :: u8) = take_bit 8 (w::'a::len word)"
  by (rule bit_word_eqI) (auto simp: bit_simps)

lemma or_eq_add_disjoint:
  fixes a b :: "'a::len word"
  assumes "a = take_bit m a"
  shows "a OR push_bit m b = a + push_bit m b"
proof (rule disjunctive_add [symmetric])
  fix n
  have "bit a n \<Longrightarrow> n < m"
    by (metis assms bit_take_bit_iff)
  then show "\<not> bit a n \<or> \<not> bit (push_bit m b) n"
    by (auto simp: bit_simps)
qed

lemma unat_drop_bit_7: "unat (drop_bit 7 w) = unat w div 128"
  unfolding unat_drop_bit_eq by (simp add: drop_bit_eq_div)

lemma unat_take_bit_word: "unat (take_bit n w) = unat w mod 2 ^ n"
  unfolding unsigned_take_bit_eq by (simp add: take_bit_eq_mod)

lemma take_bit_all [byte_join]: "LENGTH('a) \<le> n \<Longrightarrow> take_bit n (w::'a::len word) = w"
  by (simp add: take_bit_word_eq_self)

lemma bit_int_exp: "k = 2 ^ m \<Longrightarrow> bit (k::int) n \<longleftrightarrow> n = m"
  by (simp add: bit_exp_iff)

lemma bit_int_mask: "k = 2 ^ m - 1 \<Longrightarrow> bit (k::int) n \<longleftrightarrow> n < m"
  by (simp add: bit_mask_iff flip: mask_eq_exp_minus_1)

lemma bit_int_consts:
  "bit (128::int) n \<longleftrightarrow> n = 7"
  "bit (127::int) n \<longleftrightarrow> n < 7"
  "bit (255::int) n \<longleftrightarrow> n < 8"
  by (simp_all add: bit_int_exp [of _ 7] bit_int_mask [of _ 7] bit_int_mask [of _ 8])


lemma bit_word_eq_iff': "v = w \<longleftrightarrow> (\<forall>n < LENGTH('a). bit v n = bit w n)" for v w :: "'a::len word"
  by (auto intro: bit_word_eqI)

lemma unat_ucast: "unat (ucast w :: 'b::len word) = unat (w :: 'a::len word) mod 2 ^ LENGTH('b)"
  by (simp add: unsigned_ucast_eq take_bit_eq_mod)

lemma unat_of_nat_small: "m < 2 ^ LENGTH('w) \<Longrightarrow> unat (of_nat m :: 'w::len word) = m"
  by (simp add: unat_of_nat)

lemma unat_u8_less: "unat (b::u8) < 256"
  using unsigned_less [of b, where ?'a = nat] by simp

lemma unat_of_nat_u8: "m < 256 \<Longrightarrow> unat (of_nat m :: u8) = m"
  by (simp add: unat_of_nat take_bit_eq_mod)

lemma take_bit_of_nat_unat: "take_bit n w = of_nat (unat w mod 2 ^ n)" for w :: "'a::len word"
  by (metis of_nat_unat ucast_id unat_take_bit_word)

lemma u8_or_128: "(w :: u8) OR 0x80 = of_nat (unat w mod 128 + 128)"
proof -
  have "w OR 0x80 = take_bit 7 w OR push_bit 7 1"
    by (intro bit_word_eqI) (auto simp: bit_simps bit_int_consts)
  also have "\<dots> = take_bit 7 w + push_bit 7 1"
    by (rule or_eq_add_disjoint) simp
  finally show ?thesis by (simp add: take_bit_of_nat_unat)
qed

lemma u8_and_127: "(ucast ((b::u8) AND 0x7F) :: 'w::len word) = of_nat (unat b mod 128)"
proof -
  have "unat (b AND 0x7F) = unat b mod 128"
    by (simp add: and_127_take_bit unat_take_bit_word)
  then show ?thesis by (metis of_nat_unat)
qed

lemma u8_and_128: "((b::u8) AND 0x80 = 0) = (unat b < 128)"
proof -
  have "b AND 0x80 = 0 \<longleftrightarrow> \<not> bit b 7"
    by (auto simp: bit_word_eq_iff' bit_simps bit_int_consts dest: spec [of _ 7])
  also have "\<dots> \<longleftrightarrow> take_bit 7 b = b"
  proof
    assume "\<not> bit b 7"
    then show "take_bit 7 b = b"
      by (intro bit_word_eqI) (auto simp: bit_simps less_Suc_eq numeral_eq_Suc)
  next
    assume "take_bit 7 b = b"
    then show "\<not> bit b 7" by (metis bit_take_bit_iff less_irrefl)
  qed
  also have "\<dots> \<longleftrightarrow> unat b < 128"
    by (simp add: word_unat_eq_iff unat_take_bit_word mod_eq_self_iff_div_eq_0 div_eq_0_iff)
  finally show ?thesis .
qed

section \<open>Arrays as lists\<close>

text \<open>Writing the first free cell of an array and growing the used prefix by one.\<close>

lemma take_Suc_update: "n < length xs \<Longrightarrow> take (Suc n) (xs[n := v]) = take n xs @ [v]"
  by (simp add: take_Suc_conv_app_nth)

text \<open>\<open>block p i ys\<close> is \<open>p\<close> with the cells from \<open>i\<close> on overwritten by \<open>ys\<close>.\<close>

definition block :: "'a list \<Rightarrow> nat \<Rightarrow> 'a list \<Rightarrow> 'a list" where
  "block p i ys = take i p @ ys @ drop (i + length ys) p"

lemma block_first: "i < length p \<Longrightarrow> p[i := y] = block p i [y]"
  by (simp add: block_def upd_conv_take_nth_drop)

lemma block_next:
  assumes "j = i + length ys" and "j < length p"
  shows "(block p i ys)[j := y] = block p i (ys @ [y])"
proof -
  have "drop j p = p ! j # drop (Suc j) p"
    using assms(2) by (rule Cons_nth_drop_Suc [symmetric])
  then have "block p i ys = (take i p @ ys) @ p ! j # drop (Suc j) p"
    by (simp add: block_def assms(1))
  moreover have "length (take i p @ ys) = j"
    using assms by simp
  ultimately show ?thesis
    by (metis append.assoc append_Cons append_Nil assms(1) add_Suc_right block_def length_append_singleton list_update_length)
qed

lemma nth_append_Suc [simp]:
  "(xs @ ys) ! Suc (length xs) = ys ! 1"
  "(xs @ ys) ! Suc (Suc (length xs)) = ys ! 2"
  by (simp_all add: nth_append)

lemma block_Nil [simp]: "block p i [] = p"
  by (simp add: block_def)

lemma block_block:
  "Suc (i + length ys) \<le> length p \<Longrightarrow> block (block p i [y]) (Suc i) ys = block p i (y # ys)"
  by (auto simp: block_def add.commute)

text \<open>A window \<open>[i, j)\<close> of a block, split at some point.\<close>

lemma drop_add_prefix: "drop k zs = xs @ ys \<Longrightarrow> drop (k + length xs) zs = ys"
  by (metis add.commute append_eq_conv_conj drop_drop)

lemma window_split:
  assumes "i \<le> j" and "j \<le> length p" and "drop i (take j p) = xs @ ys"
  shows "p = take i p @ xs @ ys @ drop j p" and "j = i + length xs + length ys"
proof -
  have "p = take j p @ drop j p"
    by simp
  also have "take j p = take i (take j p) @ xs @ ys"
    by (metis append_take_drop_id assms(3))
  also have "take i (take j p) = take i p"
    using assms(1) by (simp add: min_def)
  finally show "p = take i p @ xs @ ys @ drop j p"
    by simp
  from arg_cong [OF assms(3), of length] assms(1,2) show "j = i + length xs + length ys"
    by simp
qed

text \<open>The byte under the cursor, in a window of the block.\<close>

lemma window_head:
  assumes "drop k (take len p) = x # xs" and "len \<le> length p"
  shows "k < len" and "p ! k = x" and "drop (Suc k) (take len p) = xs"
proof -
  show "k < len"
    using assms by (metis drop_eq_Nil length_take list.distinct(1) min.absorb2 not_le)
  then show "p ! k = x"
    using assms by (metis hd_drop_conv_nth length_take list.sel(1) min.absorb2 nth_take)
  show "drop (Suc k) (take len p) = xs"
    using assms(1) by (metis drop_Suc list.sel(3) tl_drop)
qed

section \<open>Shifts and masks as arithmetic\<close>

lemma push_or_add:
  fixes h l :: int
  assumes "0 \<le> l" and "l < 2 ^ n"
  shows "push_bit n h OR l = h * 2 ^ n + l"
proof -
  have "take_bit n l = l"
    using assms by (simp add: take_bit_int_eq_self)
  then have "push_bit n h OR l = concat_bit n l h"
    by (simp add: concat_bit_def or.commute)
  also have "\<dots> = take_bit n l + push_bit n h"
    by (rule concat_bit_eq)
  finally show ?thesis
    using \<open>take_bit n l = l\<close> by (simp add: push_bit_eq_mult)
qed

lemma nat_take_bit_less: "nat (take_bit n (k::int)) < 2 ^ n"
  by (simp add: nat_less_iff)

lemma Suc_Suc_minus_2: "2 \<le> n \<Longrightarrow> Suc (Suc (n - 2)) = n"
  by simp

lemma unat_of_nat_u64: "m < 2 ^ 64 \<Longrightarrow> unat (of_nat m :: u64) = m"
  by (simp add: unat_of_nat take_bit_eq_mod)

lemma unat_drop_bit_div: "unat (drop_bit s w) = unat w div 2 ^ s"
  unfolding unat_drop_bit_eq by (simp add: drop_bit_eq_div)

lemma mult_div_shift: "x * 2 ^ a div 2 ^ (a + b) = x div 2 ^ b" for x :: nat
  by (simp add: power_add div_mult2_eq)

lemma if_disj_eq: "(if A then x else if B then x else y) = (if \<not> (A \<or> B) then y else x)"
  by simp

end
