(* ===== verification/Core_Result.thy ===== *)
theory Core_Result
  imports Libca_Prelude
begin

text \<open>
  The error-handling types of \<^verbatim>\<open>libca/core/src/libca/core/result.hpp\<close> and
  \<^verbatim>\<open>option.hpp\<close>.  The first part is the value level every other component uses:
  a \<open>Result\<close> is \<open>Ok\<close> or \<open>Err\<close>, \<^verbatim>\<open>Option<T>\<close> is HOL's \<^typ>\<open>'a option\<close>,
  and the combinators are functions on them; a call of \<^verbatim>\<open>std::terminate\<close> is the
  outcome \<open>Terminate\<close>.  The second part is the representation level: the raw
  storage with its \<^verbatim>\<open>initialized_\<close> flag and the discriminator \<^verbatim>\<open>ok_\<close>, where
  reading or destroying an object of the wrong kind, or constructing over a live
  object, is a violation (\<open>None\<close>).
\<close>

section \<open>Results and options as values\<close>

datatype ('a, 'e) Result = Ok (ok_val: 'a) | Err (err_val: 'e)

datatype 'a outcome = Value 'a | Terminate

definition is_ok :: "('a, 'e) Result \<Rightarrow> bool" where
  "is_ok r = (case r of Ok _ \<Rightarrow> True | Err _ \<Rightarrow> False)"

definition is_err :: "('a, 'e) Result \<Rightarrow> bool" where
  "is_err r = (\<not> is_ok r)"

definition map_ok :: "('a \<Rightarrow> 'b) \<Rightarrow> ('a, 'e) Result \<Rightarrow> ('b, 'e) Result" where
  "map_ok f r = (case r of Ok v \<Rightarrow> Ok (f v) | Err e \<Rightarrow> Err e)"

definition map_error :: "('e \<Rightarrow> 'f) \<Rightarrow> ('a, 'e) Result \<Rightarrow> ('a, 'f) Result" where
  "map_error f r = (case r of Err e \<Rightarrow> Err (f e) | Ok v \<Rightarrow> Ok v)"

definition and_then :: "('a, 'e) Result \<Rightarrow> ('a \<Rightarrow> ('b, 'e) Result) \<Rightarrow> ('b, 'e) Result" where
  "and_then r f = (case r of Ok v \<Rightarrow> f v | Err e \<Rightarrow> Err e)"

definition or_else :: "('a, 'e) Result \<Rightarrow> ('e \<Rightarrow> ('a, 'f) Result) \<Rightarrow> ('a, 'f) Result" where
  "or_else r f = (case r of Err e \<Rightarrow> f e | Ok v \<Rightarrow> Ok v)"

text \<open>
  \<^verbatim>\<open>then\<close> and \<^verbatim>\<open>otherwise\<close> run a callback for its effect and return the result
  unchanged: the callback is a transformer of the caller's state.
\<close>

definition then_do :: "('a, 'e) Result \<Rightarrow> ('a \<Rightarrow> 's \<Rightarrow> 's) \<Rightarrow> 's \<Rightarrow> ('a, 'e) Result \<times> 's" where
  "then_do r f s = (case r of Ok v \<Rightarrow> (r, f v s) | Err _ \<Rightarrow> (r, s))"

definition otherwise_do :: "('a, 'e) Result \<Rightarrow> ('e \<Rightarrow> 's \<Rightarrow> 's) \<Rightarrow> 's \<Rightarrow> ('a, 'e) Result \<times> 's" where
  "otherwise_do r f s = (case r of Err e \<Rightarrow> (r, f e s) | Ok _ \<Rightarrow> (r, s))"

definition unwrap_or :: "('a, 'e) Result \<Rightarrow> 'a \<Rightarrow> 'a" where
  "unwrap_or r d = (case r of Ok v \<Rightarrow> v | Err _ \<Rightarrow> d)"

definition unwrap :: "('a, 'e) Result \<Rightarrow> 'a outcome" where
  "unwrap r = (case r of Ok v \<Rightarrow> Value v | Err _ \<Rightarrow> Terminate)"

definition unwrap_err :: "('a, 'e) Result \<Rightarrow> 'e outcome" where
  "unwrap_err r = (case r of Err e \<Rightarrow> Value e | Ok _ \<Rightarrow> Terminate)"

definition expect :: "('a, 'e) Result \<Rightarrow> 'a outcome" where
  "expect r = (if \<not> is_ok r then Terminate else Value (ok_val r))"

definition result_eq :: "('a, 'e) Result \<Rightarrow> ('a, 'e) Result \<Rightarrow> bool" where
  "result_eq l r =
     (if is_ok l \<and> is_ok r then ok_val l = ok_val r
      else if is_err l \<and> is_err r then err_val l = err_val r
      else False)"

definition result_ok :: "('a, 'e) Result \<Rightarrow> 'a option" where
  "result_ok r = (if is_ok r then Some (ok_val r) else None)"

definition result_err :: "('a, 'e) Result \<Rightarrow> 'e option" where
  "result_err r = (if is_err r then Some (err_val r) else None)"

definition option_unwrap :: "'a option \<Rightarrow> 'a outcome" where
  "option_unwrap x = (case x of None \<Rightarrow> Terminate | Some v \<Rightarrow> Value v)"

definition option_unwrap_or :: "'a option \<Rightarrow> 'a \<Rightarrow> 'a" where
  "option_unwrap_or x d = (case x of Some v \<Rightarrow> v | None \<Rightarrow> d)"

definition option_unwrap_or_else :: "'a option \<Rightarrow> (unit \<Rightarrow> 'a) \<Rightarrow> 'a" where
  "option_unwrap_or_else x f = (case x of Some v \<Rightarrow> v | None \<Rightarrow> f ())"

definition option_map :: "('a \<Rightarrow> 'b) \<Rightarrow> 'a option \<Rightarrow> 'b option" where
  "option_map f x = (case x of Some v \<Rightarrow> Some (f v) | None \<Rightarrow> None)"

definition option_and_then :: "'a option \<Rightarrow> ('a \<Rightarrow> 'b option) \<Rightarrow> 'b option" where
  "option_and_then x f = (case x of Some v \<Rightarrow> f v | None \<Rightarrow> None)"

definition option_or_else :: "'a option \<Rightarrow> (unit \<Rightarrow> 'a option) \<Rightarrow> 'a option" where
  "option_or_else x f = (case x of Some v \<Rightarrow> x | None \<Rightarrow> f ())"

text \<open>\<^verbatim>\<open>take\<close> returns the value moved out and what the option is afterwards.\<close>

definition option_take :: "'a option \<Rightarrow> 'a option \<times> 'a option" where
  "option_take x = (case x of None \<Rightarrow> (None, None) | Some v \<Rightarrow> (Some v, None))"

definition ok_or :: "'a option \<Rightarrow> 'e \<Rightarrow> ('a, 'e) Result" where
  "ok_or x e = (case x of Some v \<Rightarrow> Ok v | None \<Rightarrow> Err e)"

lemmas result_defs = is_ok_def is_err_def map_ok_def map_error_def and_then_def or_else_def
  unwrap_or_def unwrap_def unwrap_err_def expect_def result_eq_def result_ok_def result_err_def
  ok_or_def then_do_def otherwise_do_def

lemma is_ok_simps [simp]: "is_ok (Ok v)" "\<not> is_ok (Err e)" "\<not> is_err (Ok v)" "is_err (Err e)"
  by (simp_all add: is_ok_def is_err_def)

lemma map_ok_simps [simp]: "map_ok f (Ok v) = Ok (f v)" "map_ok f (Err e) = Err e"
  by (simp_all add: map_ok_def)

lemma and_then_simps [simp]: "and_then (Ok v) f = f v" "and_then (Err e) f = Err e"
  by (simp_all add: and_then_def)

lemma and_then_eq_Ok: "and_then r f = Ok v \<longleftrightarrow> (\<exists>u. r = Ok u \<and> f u = Ok v)"
  by (cases r) simp_all

lemma and_then_assoc: "and_then (and_then r f) g = and_then r (\<lambda>v. and_then (f v) g)"
  by (cases r) simp_all

lemma and_then_Ok_right: "and_then r Ok = r"
  by (cases r) simp_all

lemma and_then_cong [fundef_cong]:
  "r = r' \<Longrightarrow> (\<And>v. r' = Ok v \<Longrightarrow> f v = g v) \<Longrightarrow> and_then r f = and_then r' g"
  by (cases r') simp_all

lemma map_ok_and_then: "map_ok f (and_then r g) = and_then r (\<lambda>v. map_ok f (g v))"
  by (cases r) simp_all

lemma map_ok_eq_and_then: "map_ok f r = and_then r (\<lambda>v. Ok (f v))"
  by (cases r) simp_all

section \<open>The representation: raw storage and discriminator\<close>

datatype ('a, 'e) slot = Empty | HoldsT 'a | HoldsE 'e

datatype tag = ok_tag | err_tag

record ('a, 'e) Storage =
  st_slot :: "('a, 'e) slot"
  st_init :: bool

definition storage_new :: "('a, 'e) Storage" where
  "storage_new = \<lparr>st_slot = Empty, st_init = False\<rparr>"

text \<open>
  What a statement does to the objects: it completes, or an exception leaves it with
  the objects as they are then, or it has read, destroyed or overwritten an object that
  is not there (undefined behaviour).
\<close>

datatype 's run = Violation | Threw 's | Completed 's

definition run_then :: "'s run \<Rightarrow> ('s \<Rightarrow> 't run) \<Rightarrow> ('s \<Rightarrow> 't) \<Rightarrow> 't run" where
  "run_then r f unwind =
     (case r of Violation \<Rightarrow> Violation | Threw s \<Rightarrow> Threw (unwind s) | Completed s \<Rightarrow> f s)"

text \<open>
  Placement new over a live object would lose it without running its destructor, so
  the model allows construction in an empty slot only.  The element's constructor
  may throw: \<open>throws x\<close> says whether it does for the value \<open>x\<close>, and then there is no
  object and \<^verbatim>\<open>initialized_\<close> is not set.
\<close>

definition raw_construct ::
    "(('a, 'e) slot \<Rightarrow> bool) \<Rightarrow> ('a, 'e) slot \<Rightarrow> ('a, 'e) Storage \<Rightarrow> ('a, 'e) Storage run" where
  "raw_construct throws x s =
     (if st_slot s \<noteq> Empty then Violation
      else if throws x then Threw s
      else Completed \<lparr>st_slot = x, st_init = True\<rparr>)"

definition get_T :: "('a, 'e) Storage \<Rightarrow> 'a option" where
  "get_T s = (case st_slot s of HoldsT v \<Rightarrow> Some v | _ \<Rightarrow> None)"

definition get_E :: "('a, 'e) Storage \<Rightarrow> 'e option" where
  "get_E s = (case st_slot s of HoldsE e \<Rightarrow> Some e | _ \<Rightarrow> None)"

text \<open>Destructors do not throw.\<close>

fun storage_destroy :: "tag \<Rightarrow> ('a, 'e) Storage \<Rightarrow> ('a, 'e) Storage run" where
  "storage_destroy ok_tag s =
     (if st_init s then (case get_T s of None \<Rightarrow> Violation | Some _ \<Rightarrow> Completed storage_new)
      else Completed s)"
| "storage_destroy err_tag s =
     (if st_init s then (case get_E s of None \<Rightarrow> Violation | Some _ \<Rightarrow> Completed storage_new)
      else Completed s)"

fun constructor_copy ::
    "(('a, 'e) slot \<Rightarrow> bool) \<Rightarrow> ('a, 'e) Storage \<Rightarrow> ('a, 'e) Storage \<Rightarrow> tag \<Rightarrow> ('a, 'e) Storage run" where
  "constructor_copy throws src dst ok_tag =
     (case get_T src of None \<Rightarrow> Violation | Some v \<Rightarrow> raw_construct throws (HoldsT v) dst)"
| "constructor_copy throws src dst err_tag =
     (case get_E src of None \<Rightarrow> Violation | Some e \<Rightarrow> raw_construct throws (HoldsE e) dst)"

text \<open>
  Moving: the element's move constructor reads the source like the copy constructor,
  then the source is destroyed.  A source whose move has thrown is still alive (its
  value is then what the element's move constructor left).
\<close>

definition constructor_move ::
    "(('a, 'e) slot \<Rightarrow> bool) \<Rightarrow> ('a, 'e) Storage \<Rightarrow> ('a, 'e) Storage \<Rightarrow> tag
      \<Rightarrow> (('a, 'e) Storage \<times> ('a, 'e) Storage) run" where
  "constructor_move throws src dst t =
     run_then (constructor_copy throws src dst t)
       (\<lambda>dst'. run_then (storage_destroy t src) (\<lambda>src'. Completed (src', dst')) (\<lambda>src'. (src', dst')))
       (\<lambda>dst'. (src, dst'))"

record ('a, 'e) ResultRep =
  rr_ok :: bool
  rr_storage :: "('a, 'e) Storage"

definition tag_of :: "bool \<Rightarrow> tag" where
  "tag_of b = (if b then ok_tag else err_tag)"

text \<open>
  The objects of a program, by address: that two references denote the same object is
  that their addresses are equal.  A constructor makes the object at address \<open>this\<close>,
  and one that throws makes none.
\<close>

type_synonym addr = nat
type_synonym ('a, 'e) objects = "addr \<Rightarrow> ('a, 'e) ResultRep"

definition set_storage :: "addr \<Rightarrow> ('a, 'e) Storage \<Rightarrow> ('a, 'e) objects \<Rightarrow> ('a, 'e) objects" where
  "set_storage a s h = h(a := (h a)\<lparr>rr_storage := s\<rparr>)"

definition rep_ok :: "(('a, 'e) slot \<Rightarrow> bool) \<Rightarrow> addr \<Rightarrow> 'a \<Rightarrow> ('a, 'e) objects \<Rightarrow> ('a, 'e) objects run" where
  "rep_ok throws this v h =
     run_then (raw_construct throws (HoldsT v) storage_new)
       (\<lambda>s. Completed (h(this := \<lparr>rr_ok = True, rr_storage = s\<rparr>))) (\<lambda>s. h)"

definition rep_err :: "(('a, 'e) slot \<Rightarrow> bool) \<Rightarrow> addr \<Rightarrow> 'e \<Rightarrow> ('a, 'e) objects \<Rightarrow> ('a, 'e) objects run" where
  "rep_err throws this e h =
     run_then (raw_construct throws (HoldsE e) storage_new)
       (\<lambda>s. Completed (h(this := \<lparr>rr_ok = False, rr_storage = s\<rparr>))) (\<lambda>s. h)"

definition rep_move ::
    "(('a, 'e) slot \<Rightarrow> bool) \<Rightarrow> addr \<Rightarrow> addr \<Rightarrow> ('a, 'e) objects \<Rightarrow> ('a, 'e) objects run" where
  "rep_move throws this other h =
     run_then (constructor_move throws (rr_storage (h other)) storage_new (tag_of (rr_ok (h other))))
       (\<lambda>(src, dst). Completed ((set_storage other src h)
          (this := \<lparr>rr_ok = rr_ok (h other), rr_storage = dst\<rparr>)))
       (\<lambda>(src, dst). set_storage other src h)"

definition rep_copy ::
    "(('a, 'e) slot \<Rightarrow> bool) \<Rightarrow> addr \<Rightarrow> addr \<Rightarrow> ('a, 'e) objects \<Rightarrow> ('a, 'e) objects run" where
  "rep_copy throws this other h =
     run_then (constructor_copy throws (rr_storage (h other)) storage_new (tag_of (rr_ok (h other))))
       (\<lambda>dst. Completed (h(this := \<lparr>rr_ok = rr_ok (h other), rr_storage = dst\<rparr>))) (\<lambda>dst. h)"

text \<open>
  The two assignments, statement by statement: nothing on self-assignment; else the old
  value is destroyed, \<^verbatim>\<open>ok_\<close> is set, and the new value is constructed.
\<close>

definition rep_move_assign ::
    "(('a, 'e) slot \<Rightarrow> bool) \<Rightarrow> addr \<Rightarrow> addr \<Rightarrow> ('a, 'e) objects \<Rightarrow> ('a, 'e) objects run" where
  "rep_move_assign throws this other h =
     (if this \<noteq> other then
        run_then (storage_destroy (tag_of (rr_ok (h this))) (rr_storage (h this)))
          (\<lambda>s. let h1 = set_storage this s h;
                   h2 = h1(this := (h1 this)\<lparr>rr_ok := rr_ok (h1 other)\<rparr>)
               in run_then (constructor_move throws (rr_storage (h2 other)) (rr_storage (h2 this))
                              (tag_of (rr_ok (h2 this))))
                    (\<lambda>(src, dst). Completed (set_storage this dst (set_storage other src h2)))
                    (\<lambda>(src, dst). set_storage this dst (set_storage other src h2)))
          (\<lambda>s. set_storage this s h)
      else Completed h)"

definition rep_copy_assign ::
    "(('a, 'e) slot \<Rightarrow> bool) \<Rightarrow> addr \<Rightarrow> addr \<Rightarrow> ('a, 'e) objects \<Rightarrow> ('a, 'e) objects run" where
  "rep_copy_assign throws this other h =
     (if this \<noteq> other then
        run_then (storage_destroy (tag_of (rr_ok (h this))) (rr_storage (h this)))
          (\<lambda>s. let h1 = set_storage this s h;
                   h2 = h1(this := (h1 this)\<lparr>rr_ok := rr_ok (h1 other)\<rparr>)
               in run_then (constructor_copy throws (rr_storage (h2 other)) (rr_storage (h2 this))
                              (tag_of (rr_ok (h2 this))))
                    (\<lambda>dst. Completed (set_storage this dst h2))
                    (\<lambda>dst. set_storage this dst h2))
          (\<lambda>s. set_storage this s h)
      else Completed h)"

definition rep_destructor :: "addr \<Rightarrow> ('a, 'e) objects \<Rightarrow> ('a, 'e) objects run" where
  "rep_destructor this h =
     run_then (storage_destroy (tag_of (rr_ok (h this))) (rr_storage (h this)))
       (\<lambda>s. Completed (set_storage this s h)) (\<lambda>s. set_storage this s h)"

text \<open>
  What a representation stands for: nothing after its value has been moved away, else
  the value in the slot.  A representation is well formed when the flags agree with
  the slot.
\<close>

definition rep_abs :: "('a, 'e) ResultRep \<Rightarrow> ('a, 'e) Result option" where
  "rep_abs r = (case st_slot (rr_storage r) of
     Empty \<Rightarrow> None | HoldsT v \<Rightarrow> Some (Ok v) | HoldsE e \<Rightarrow> Some (Err e))"

definition rep_wf :: "('a, 'e) ResultRep \<Rightarrow> bool" where
  "rep_wf r = (case st_slot (rr_storage r) of
     Empty \<Rightarrow> \<not> st_init (rr_storage r)
   | HoldsT _ \<Rightarrow> st_init (rr_storage r) \<and> rr_ok r
   | HoldsE _ \<Rightarrow> st_init (rr_storage r) \<and> \<not> rr_ok r)"

lemmas rep_defs = rep_abs_def rep_wf_def rep_ok_def rep_err_def rep_move_def rep_copy_def
  rep_move_assign_def rep_copy_assign_def rep_destructor_def constructor_move_def
  raw_construct_def storage_new_def get_T_def get_E_def tag_of_def run_then_def set_storage_def

lemma rep_live_cases:
  assumes "rep_wf r" and "rep_abs r = Some x"
  obtains (T) v where "x = Ok v" "r = \<lparr>rr_ok = True, rr_storage = \<lparr>st_slot = HoldsT v, st_init = True\<rparr>\<rparr>"
    | (E) e where "x = Err e" "r = \<lparr>rr_ok = False, rr_storage = \<lparr>st_slot = HoldsE e, st_init = True\<rparr>\<rparr>"
  using assms by (cases r; cases "rr_storage r") (auto simp: rep_defs split: slot.splits)

lemma rep_moved_from:
  assumes "rep_wf r" and "rep_abs r = None"
  shows "rr_storage r = storage_new"
  using assms by (cases r; cases "rr_storage r") (auto simp: rep_defs split: slot.splits)

lemma storage_destroy_ok:
  assumes "rep_wf r"
  shows "storage_destroy (tag_of (rr_ok r)) (rr_storage r) = Completed storage_new"
  using assms by (cases r; cases "rr_storage r") (auto simp: rep_defs split: slot.splits if_splits)

text \<open>The slot of a live representation, and what an element's constructor does from it.\<close>

definition slot_of :: "('a, 'e) Result \<Rightarrow> ('a, 'e) slot" where
  "slot_of x = (case x of Ok v \<Rightarrow> HoldsT v | Err e \<Rightarrow> HoldsE e)"

lemma constructor_copy_live:
  assumes "rep_wf r" and "rep_abs r = Some x"
  shows "constructor_copy throws (rr_storage r) storage_new (tag_of (rr_ok r)) =
    (if throws (slot_of x) then Threw storage_new else Completed \<lparr>st_slot = slot_of x, st_init = True\<rparr>)"
  using assms by (cases rule: rep_live_cases) (auto simp: rep_defs slot_of_def)

lemma constructor_copy_dead:
  assumes "rep_wf r" and "rep_abs r = None"
  shows "constructor_copy throws (rr_storage r) dst t = Violation"
  using rep_moved_from [OF assms] by (cases t) (simp_all add: storage_new_def get_T_def get_E_def)

lemma rep_of_slot:
  assumes "rep_wf r" and "rep_abs r = Some x"
  shows "rep_abs \<lparr>rr_ok = rr_ok r, rr_storage = \<lparr>st_slot = slot_of x, st_init = True\<rparr>\<rparr> = Some x"
    and "rep_wf \<lparr>rr_ok = rr_ok r, rr_storage = \<lparr>st_slot = slot_of x, st_init = True\<rparr>\<rparr>"
  using assms by (cases rule: rep_live_cases; simp add: rep_defs slot_of_def)+

lemma rep_emptied:
  "rep_abs (r\<lparr>rr_storage := storage_new\<rparr>) = None" "rep_wf (r\<lparr>rr_storage := storage_new\<rparr>)"
  "rep_abs \<lparr>rr_ok = b, rr_storage = storage_new\<rparr> = None" "rep_wf \<lparr>rr_ok = b, rr_storage = storage_new\<rparr>"
  by (simp_all add: rep_defs)


lemma rep_set_all: "r\<lparr>rr_ok := b, rr_storage := s\<rparr> = \<lparr>rr_ok = b, rr_storage = s\<rparr>"
  by (cases r) simp

lemma rep_copy_assign_distinct:
  assumes "rep_wf (h this)" and "rep_wf (h other)" and "this \<noteq> other"
  shows "rep_copy_assign throws this other h =
    (case rep_abs (h other) of None \<Rightarrow> Violation
     | Some x \<Rightarrow>
         if throws (slot_of x)
         then Threw (h(this := \<lparr>rr_ok = rr_ok (h other), rr_storage = storage_new\<rparr>))
         else Completed (h(this := \<lparr>rr_ok = rr_ok (h other),
                                    rr_storage = \<lparr>st_slot = slot_of x, st_init = True\<rparr>\<rparr>)))"
  using assms(3)
  by (cases "rep_abs (h other)")
    (simp_all add: rep_copy_assign_def storage_destroy_ok [OF assms(1)] run_then_def set_storage_def
      constructor_copy_live [OF assms(2)] constructor_copy_dead [OF assms(2)] rep_set_all)

lemma rep_move_assign_distinct:
  assumes "rep_wf (h this)" and "rep_wf (h other)" and "this \<noteq> other"
  shows "rep_move_assign throws this other h =
    (case rep_abs (h other) of None \<Rightarrow> Violation
     | Some x \<Rightarrow>
         if throws (slot_of x)
         then Threw (h(this := \<lparr>rr_ok = rr_ok (h other), rr_storage = storage_new\<rparr>))
         else Completed (h(other := (h other)\<lparr>rr_storage := storage_new\<rparr>,
                           this := \<lparr>rr_ok = rr_ok (h other),
                                    rr_storage = \<lparr>st_slot = slot_of x, st_init = True\<rparr>\<rparr>)))"
  using assms(3)
  by (cases "rep_abs (h other)")
    (simp_all add: rep_move_assign_def storage_destroy_ok [OF assms(1)] run_then_def set_storage_def
      constructor_move_def constructor_copy_live [OF assms(2)] constructor_copy_dead [OF assms(2)]
      storage_destroy_ok [OF assms(2)] fun_upd_twist rep_set_all)

section \<open>Properties\<close>


text \<open>Three results, \<open>Ok 7\<close>, an error, and one whose value has been moved away.\<close>

definition three_results :: "(nat, string) objects" where
  "three_results a =
     (if a = 0 then \<lparr>rr_ok = True, rr_storage = \<lparr>st_slot = HoldsT 7, st_init = True\<rparr>\<rparr>
      else if a = 1 then \<lparr>rr_ok = False, rr_storage = \<lparr>st_slot = HoldsE ''bad'', st_init = True\<rparr>\<rparr>
      else \<lparr>rr_ok = True, rr_storage = storage_new\<rparr>)"


end
