(* ===== verification/Core_Bytes.thy ===== *)
theory Core_Bytes
  imports Core_Result
begin

text \<open>
  The byte buffers of \<^verbatim>\<open>libca/core/src/libca/core/bytes.hpp\<close> and \<^verbatim>\<open>bytes.cpp\<close>:
  \<open>ByteSlice\<close> (a view), \<open>Bytes\<close> (immutable, shared, with a read cursor) and
  \<open>BytesMut\<close> (a growing buffer with a write end and a read cursor), the typed
  reads and writes in both byte orders, LEB128 varints and zigzag.

  A heap block is the list of its cells; the cells of a fresh block are
  indeterminate in C++ and zero here, and the theorems speak of the written prefix
  only.  An exception is an \<open>Err\<close> of type \<open>BytesExn\<close>; a read returns its
  \<open>Result\<close> and the buffer with the cursor moved.
\<close>

section \<open>Errors and views\<close>

datatype BytesError = Underflow | MalformedVarint

datatype BytesExn = OutOfRange | LengthError | BadAlloc

definition to_cstr :: "BytesError \<Rightarrow> string" where
  "to_cstr e = (case e of Underflow \<Rightarrow> ''Underflow'' | MalformedVarint \<Rightarrow> ''MalformedVarint'')"

record ByteSlice =
  bs_data :: "u8 list"
  bs_len :: usize

definition sub_slice :: "ByteSlice \<Rightarrow> usize \<Rightarrow> usize \<Rightarrow> (ByteSlice, BytesExn) Result" where
  "sub_slice s start count =
     (if start > bs_len s \<or> count > usize_sub (bs_len s) start then Err OutOfRange
      else Ok \<lparr>bs_data = drop start (bs_data s), bs_len = count\<rparr>)"

section \<open>Typed access to a block of bytes\<close>

text \<open>The expressions that assemble an integer from the bytes at \<open>p[i]\<close> and the
  following cells, and the list of cell updates that store one.\<close>

definition load_u16_be :: "u8 list \<Rightarrow> usize \<Rightarrow> u16" where
  "load_u16_be p i = push_bit 8 (ucast (p ! i)) OR ucast (p ! (i + 1))"

definition load_u16_le :: "u8 list \<Rightarrow> usize \<Rightarrow> u16" where
  "load_u16_le p i = push_bit 8 (ucast (p ! (i + 1))) OR ucast (p ! i)"

definition load_u32_be :: "u8 list \<Rightarrow> usize \<Rightarrow> u32" where
  "load_u32_be p i =
     push_bit 24 (ucast (p ! i)) OR push_bit 16 (ucast (p ! (i + 1))) OR
     push_bit 8 (ucast (p ! (i + 2))) OR ucast (p ! (i + 3))"

definition load_u32_le :: "u8 list \<Rightarrow> usize \<Rightarrow> u32" where
  "load_u32_le p i =
     push_bit 24 (ucast (p ! (i + 3))) OR push_bit 16 (ucast (p ! (i + 2))) OR
     push_bit 8 (ucast (p ! (i + 1))) OR ucast (p ! i)"

definition load_u64_be :: "u8 list \<Rightarrow> usize \<Rightarrow> u64" where
  "load_u64_be p i =
     push_bit 56 (ucast (p ! i)) OR push_bit 48 (ucast (p ! (i + 1))) OR
     push_bit 40 (ucast (p ! (i + 2))) OR push_bit 32 (ucast (p ! (i + 3))) OR
     push_bit 24 (ucast (p ! (i + 4))) OR push_bit 16 (ucast (p ! (i + 5))) OR
     push_bit 8 (ucast (p ! (i + 6))) OR ucast (p ! (i + 7))"

definition load_u64_le :: "u8 list \<Rightarrow> usize \<Rightarrow> u64" where
  "load_u64_le p i =
     push_bit 56 (ucast (p ! (i + 7))) OR push_bit 48 (ucast (p ! (i + 6))) OR
     push_bit 40 (ucast (p ! (i + 5))) OR push_bit 32 (ucast (p ! (i + 4))) OR
     push_bit 24 (ucast (p ! (i + 3))) OR push_bit 16 (ucast (p ! (i + 2))) OR
     push_bit 8 (ucast (p ! (i + 1))) OR ucast (p ! i)"

definition store_u16_be :: "u8 list \<Rightarrow> usize \<Rightarrow> u16 \<Rightarrow> u8 list" where
  "store_u16_be p i val =
     p[i := ucast (drop_bit 8 val AND 0xFF), i + 1 := ucast (val AND 0xFF)]"

definition store_u16_le :: "u8 list \<Rightarrow> usize \<Rightarrow> u16 \<Rightarrow> u8 list" where
  "store_u16_le p i val =
     p[i := ucast (val AND 0xFF), i + 1 := ucast (drop_bit 8 val AND 0xFF)]"

definition store_u32_be :: "u8 list \<Rightarrow> usize \<Rightarrow> u32 \<Rightarrow> u8 list" where
  "store_u32_be p i val =
     p[i := ucast (drop_bit 24 val AND 0xFF), i + 1 := ucast (drop_bit 16 val AND 0xFF),
       i + 2 := ucast (drop_bit 8 val AND 0xFF), i + 3 := ucast (val AND 0xFF)]"

definition store_u32_le :: "u8 list \<Rightarrow> usize \<Rightarrow> u32 \<Rightarrow> u8 list" where
  "store_u32_le p i val =
     p[i := ucast (val AND 0xFF), i + 1 := ucast (drop_bit 8 val AND 0xFF),
       i + 2 := ucast (drop_bit 16 val AND 0xFF), i + 3 := ucast (drop_bit 24 val AND 0xFF)]"

definition store_u64_be :: "u8 list \<Rightarrow> usize \<Rightarrow> u64 \<Rightarrow> u8 list" where
  "store_u64_be p i val =
     p[i := ucast (drop_bit 56 val AND 0xFF), i + 1 := ucast (drop_bit 48 val AND 0xFF),
       i + 2 := ucast (drop_bit 40 val AND 0xFF), i + 3 := ucast (drop_bit 32 val AND 0xFF),
       i + 4 := ucast (drop_bit 24 val AND 0xFF), i + 5 := ucast (drop_bit 16 val AND 0xFF),
       i + 6 := ucast (drop_bit 8 val AND 0xFF), i + 7 := ucast (val AND 0xFF)]"

definition store_u64_le :: "u8 list \<Rightarrow> usize \<Rightarrow> u64 \<Rightarrow> u8 list" where
  "store_u64_le p i val =
     p[i := ucast (val AND 0xFF), i + 1 := ucast (drop_bit 8 val AND 0xFF),
       i + 2 := ucast (drop_bit 16 val AND 0xFF), i + 3 := ucast (drop_bit 24 val AND 0xFF),
       i + 4 := ucast (drop_bit 32 val AND 0xFF), i + 5 := ucast (drop_bit 40 val AND 0xFF),
       i + 6 := ucast (drop_bit 48 val AND 0xFF), i + 7 := ucast (drop_bit 56 val AND 0xFF)]"

text \<open>
  The varint scan of \<^verbatim>\<open>get_var_u32\<close> and \<^verbatim>\<open>get_var_u64\<close>, from byte \<open>i\<close> on:
  \<open>n\<close> is the largest number of bytes and \<open>lim\<close> the largest last byte.  On success
  it returns the value and the number of bytes consumed.
\<close>

function var_scan ::
    "nat \<Rightarrow> u8 \<Rightarrow> u8 list \<Rightarrow> usize \<Rightarrow> usize \<Rightarrow> nat \<Rightarrow> 'w::len word \<Rightarrow> ('w word \<times> nat, BytesError) Result"
  where
  "var_scan n lim p len pos i result =
     (if i < n then
        if i \<ge> usize_sub len pos then Err Underflow
        else let byte = p ! (pos + i) in
          if i > 0 \<and> byte = 0x00 then Err MalformedVarint
          else if i = n - 1 \<and> byte > lim then Err MalformedVarint
          else let result' = result OR push_bit (7 * i) (ucast (byte AND 0x7F)) in
            if byte AND 0x80 = 0 then Ok (result', i + 1)
            else var_scan n lim p len pos (i + 1) result'
      else Err MalformedVarint)"
  by pat_completeness auto
termination
  by (relation "measure (\<lambda>(n, lim, p, len, pos, i, result). n - i)") auto

declare var_scan.simps [simp del]

text \<open>The store loop of \<^verbatim>\<open>put_var_u32\<close> and \<^verbatim>\<open>put_var_u64\<close>.\<close>

function var_store :: "u8 list \<Rightarrow> usize \<Rightarrow> 'w::len word \<Rightarrow> u8 list \<times> usize" where
  "var_store data len val =
     (if unat val \<ge> 0x80
      then var_store (data[len := ucast val OR 0x80]) (len + 1) (drop_bit 7 val)
      else (data[len := ucast val], len + 1))"
  by pat_completeness auto
termination
  by (relation "measure (\<lambda>(data, len, val). unat val)") (auto simp: unat_drop_bit_7)

declare var_store.simps [simp del]

section \<open>Bytes\<close>

record Bytes =
  b_ptr :: "u8 list"
  b_len :: usize
  b_pos :: usize
  b_storage :: bool

definition bytes_empty :: Bytes where
  "bytes_empty = \<lparr>b_ptr = [], b_len = 0, b_pos = 0, b_storage = False\<rparr>"

definition from_static :: "u8 list \<Rightarrow> usize \<Rightarrow> Bytes" where
  "from_static data len = \<lparr>b_ptr = data, b_len = len, b_pos = 0, b_storage = False\<rparr>"

definition copy_from_slice :: "u8 list \<Rightarrow> usize \<Rightarrow> Bytes" where
  "copy_from_slice data len =
     (if len = 0 then bytes_empty
      else \<lparr>b_ptr = take len data, b_len = len, b_pos = 0, b_storage = True\<rparr>)"

definition bytes_remaining :: "Bytes \<Rightarrow> usize" where
  "bytes_remaining b = usize_sub (b_len b) (b_pos b)"

definition bytes_advance :: "Bytes \<Rightarrow> usize \<Rightarrow> (unit, BytesError) Result \<times> Bytes" where
  "bytes_advance b cnt =
     (if cnt > bytes_remaining b then (Err Underflow, b)
      else (Ok (), b\<lparr>b_pos := usize_add (b_pos b) cnt\<rparr>))"

definition bytes_slice :: "Bytes \<Rightarrow> usize \<Rightarrow> usize \<Rightarrow> (Bytes, BytesExn) Result" where
  "bytes_slice b begin fin =
     (if begin > fin \<or> fin > b_len b then Err OutOfRange
      else if b_storage b
      then Ok \<lparr>b_ptr = drop begin (b_ptr b), b_len = fin - begin, b_pos = 0, b_storage = True\<rparr>
      else Ok \<lparr>b_ptr = drop begin (b_ptr b), b_len = fin - begin, b_pos = 0, b_storage = False\<rparr>)"

definition copy_to_slice :: "Bytes \<Rightarrow> usize \<Rightarrow> (u8 list, BytesError) Result \<times> Bytes" where
  "copy_to_slice b len =
     (if len > usize_sub (b_len b) (b_pos b) then (Err Underflow, b)
      else (Ok (take len (drop (b_pos b) (b_ptr b))), b\<lparr>b_pos := usize_add (b_pos b) len\<rparr>))"

text \<open>
  Every fixed-width read has the same shape: refuse when fewer than \<open>n\<close> bytes remain,
  else assemble the value and move the cursor by \<open>n\<close>.
\<close>

definition bytes_read :: "usize \<Rightarrow> (u8 list \<Rightarrow> usize \<Rightarrow> 'v) \<Rightarrow> Bytes \<Rightarrow> ('v, BytesError) Result \<times> Bytes" where
  "bytes_read n load b =
     (if usize_add (b_pos b) n > b_len b then (Err Underflow, b)
      else (Ok (load (b_ptr b) (b_pos b)), b\<lparr>b_pos := usize_add (b_pos b) n\<rparr>))"

definition bytes_get_u8 :: "Bytes \<Rightarrow> (u8, BytesError) Result \<times> Bytes" where
  "bytes_get_u8 = bytes_read 1 (\<lambda>p i. p ! i)"

definition bytes_get_u16_be :: "Bytes \<Rightarrow> (u16, BytesError) Result \<times> Bytes" where
  "bytes_get_u16_be = bytes_read 2 load_u16_be"

definition bytes_get_u16_le :: "Bytes \<Rightarrow> (u16, BytesError) Result \<times> Bytes" where
  "bytes_get_u16_le = bytes_read 2 load_u16_le"

definition bytes_get_u32_be :: "Bytes \<Rightarrow> (u32, BytesError) Result \<times> Bytes" where
  "bytes_get_u32_be = bytes_read 4 load_u32_be"

definition bytes_get_u32_le :: "Bytes \<Rightarrow> (u32, BytesError) Result \<times> Bytes" where
  "bytes_get_u32_le = bytes_read 4 load_u32_le"

definition bytes_get_u64_be :: "Bytes \<Rightarrow> (u64, BytesError) Result \<times> Bytes" where
  "bytes_get_u64_be = bytes_read 8 load_u64_be"

definition bytes_get_u64_le :: "Bytes \<Rightarrow> (u64, BytesError) Result \<times> Bytes" where
  "bytes_get_u64_le = bytes_read 8 load_u64_le"

text \<open>The signed and floating-point reads reinterpret the bits of the unsigned one.\<close>

definition bytes_get_i16_be :: "Bytes \<Rightarrow> (i16, BytesError) Result \<times> Bytes" where
  "bytes_get_i16_be b = apfst (map_ok (\<lambda>v. v)) (bytes_get_u16_be b)"

definition bytes_get_i16_le :: "Bytes \<Rightarrow> (i16, BytesError) Result \<times> Bytes" where
  "bytes_get_i16_le b = apfst (map_ok (\<lambda>v. v)) (bytes_get_u16_le b)"

definition bytes_get_i32_be :: "Bytes \<Rightarrow> (i32, BytesError) Result \<times> Bytes" where
  "bytes_get_i32_be b = apfst (map_ok (\<lambda>v. v)) (bytes_get_u32_be b)"

definition bytes_get_i32_le :: "Bytes \<Rightarrow> (i32, BytesError) Result \<times> Bytes" where
  "bytes_get_i32_le b = apfst (map_ok (\<lambda>v. v)) (bytes_get_u32_le b)"

definition bytes_get_i64_be :: "Bytes \<Rightarrow> (i64, BytesError) Result \<times> Bytes" where
  "bytes_get_i64_be b = apfst (map_ok (\<lambda>v. v)) (bytes_get_u64_be b)"

definition bytes_get_i64_le :: "Bytes \<Rightarrow> (i64, BytesError) Result \<times> Bytes" where
  "bytes_get_i64_le b = apfst (map_ok (\<lambda>v. v)) (bytes_get_u64_le b)"

definition bytes_get_f32_be :: "Bytes \<Rightarrow> (f32, BytesError) Result \<times> Bytes" where
  "bytes_get_f32_be b = apfst (map_ok (\<lambda>bits. bits)) (bytes_get_u32_be b)"

definition bytes_get_f64_be :: "Bytes \<Rightarrow> (f64, BytesError) Result \<times> Bytes" where
  "bytes_get_f64_be b = apfst (map_ok (\<lambda>bits. bits)) (bytes_get_u64_be b)"

text \<open>A varint read moves the cursor by the number of bytes scanned, or not at all.\<close>

definition bytes_read_var ::
    "nat \<Rightarrow> u8 \<Rightarrow> Bytes \<Rightarrow> ('w::len word, BytesError) Result \<times> Bytes" where
  "bytes_read_var n lim b =
     (case var_scan n lim (b_ptr b) (b_len b) (b_pos b) 0 0 of
        Err e \<Rightarrow> (Err e, b)
      | Ok (v, k) \<Rightarrow> (Ok v, b\<lparr>b_pos := usize_add (b_pos b) k\<rparr>))"

definition bytes_get_var_u32 :: "Bytes \<Rightarrow> (u32, BytesError) Result \<times> Bytes" where
  "bytes_get_var_u32 = bytes_read_var 5 0x0F"

definition bytes_get_var_u64 :: "Bytes \<Rightarrow> (u64, BytesError) Result \<times> Bytes" where
  "bytes_get_var_u64 = bytes_read_var 10 0x01"

section \<open>BytesMut\<close>

record BytesMut =
  bm_data :: "u8 list"
  bm_len :: usize
  bm_capacity :: usize
  bm_pos :: usize

definition bm_empty :: BytesMut where
  "bm_empty = \<lparr>bm_data = [], bm_len = 0, bm_capacity = 0, bm_pos = 0\<rparr>"

text \<open>\<^verbatim>\<open>new u8[n]\<close>: no object is larger than \<^verbatim>\<open>PTRDIFF_MAX\<close> bytes.\<close>

definition new_u8 :: "usize \<Rightarrow> (u8 list, BytesExn) Result" where
  "new_u8 n = (if n > PTRDIFF_MAX then Err BadAlloc else Ok (replicate n 0))"

definition with_capacity :: "usize \<Rightarrow> (BytesMut, BytesExn) Result" where
  "with_capacity cap =
     (if cap > 0
      then and_then (new_u8 cap) (\<lambda>d. Ok (bm_empty\<lparr>bm_data := d, bm_capacity := cap\<rparr>))
      else Ok bm_empty)"

text \<open>Copy construction and copy assignment: a block of exactly \<open>len\<close> bytes.\<close>

definition bm_clone :: "BytesMut \<Rightarrow> BytesMut" where
  "bm_clone other =
     \<lparr>bm_data = (if bm_len other > 0 then take (bm_len other) (bm_data other) else []),
      bm_len = bm_len other, bm_capacity = bm_len other, bm_pos = bm_pos other\<rparr>"

text \<open>
  The defaulted moves: the \<^verbatim>\<open>unique_ptr\<close> member is handed over and the source's becomes
  null, while the integer members are copied and stay behind in the source.
\<close>

definition bm_move :: "BytesMut \<Rightarrow> BytesMut \<times> BytesMut" where
  "bm_move other = (other, other\<lparr>bm_data := []\<rparr>)"

text \<open>
  Copy and move between the objects of a program, by address; the target is made or
  overwritten.  Assigning an object to itself leaves it as it is, by the guard of the
  copy assignment and because a \<^verbatim>\<open>unique_ptr\<close> survives its own move.
\<close>

definition bm_copy_to :: "addr \<Rightarrow> addr \<Rightarrow> (addr \<Rightarrow> BytesMut) \<Rightarrow> addr \<Rightarrow> BytesMut" where
  "bm_copy_to this other objs =
     (if this \<noteq> other then objs(this := bm_clone (objs other)) else objs)"

definition bm_move_to :: "addr \<Rightarrow> addr \<Rightarrow> (addr \<Rightarrow> BytesMut) \<Rightarrow> addr \<Rightarrow> BytesMut" where
  "bm_move_to this other objs =
     (if this \<noteq> other
      then let (new, old) = bm_move (objs other) in objs(this := new, other := old)
      else objs)"

definition bm_remaining :: "BytesMut \<Rightarrow> usize" where
  "bm_remaining b = usize_sub (bm_len b) (bm_pos b)"

definition bm_remaining_mut :: "BytesMut \<Rightarrow> usize" where
  "bm_remaining_mut b = usize_sub (bm_capacity b) (bm_len b)"

definition bm_advance :: "BytesMut \<Rightarrow> usize \<Rightarrow> (unit, BytesError) Result \<times> BytesMut" where
  "bm_advance b cnt =
     (if cnt > bm_remaining b then (Err Underflow, b)
      else (Ok (), b\<lparr>bm_pos := usize_add (bm_pos b) cnt\<rparr>))"

definition bm_grow :: "BytesMut \<Rightarrow> usize \<Rightarrow> (BytesMut, BytesExn) Result" where
  "bm_grow b min_capacity =
     (let new_cap = usize_mul (bm_capacity b) 2;
          new_cap = (if new_cap < min_capacity then min_capacity else new_cap);
          new_cap = (if new_cap < 32 then 32 else new_cap)
      in and_then (new_u8 new_cap) (\<lambda>new_data.
           Ok (b\<lparr>bm_data := take (bm_len b) (bm_data b) @ drop (bm_len b) new_data,
                 bm_capacity := new_cap\<rparr>)))"

definition bm_ensure_writable :: "BytesMut \<Rightarrow> usize \<Rightarrow> (BytesMut, BytesExn) Result" where
  "bm_ensure_writable b needed =
     (if needed > SIZE_MAX - bm_len b then Err LengthError
      else let required = usize_add (bm_len b) needed in
        if required \<le> bm_capacity b then Ok b else bm_grow b required)"

definition bm_reserve :: "BytesMut \<Rightarrow> usize \<Rightarrow> (BytesMut, BytesExn) Result" where
  "bm_reserve b additional =
     (if additional > SIZE_MAX - bm_len b then Err LengthError
      else let needed = usize_add (bm_len b) additional in
        if needed > bm_capacity b then bm_grow b needed else Ok b)"

definition bm_clear :: "BytesMut \<Rightarrow> BytesMut" where
  "bm_clear b = b\<lparr>bm_len := 0, bm_pos := 0\<rparr>"

definition bm_truncate :: "BytesMut \<Rightarrow> usize \<Rightarrow> BytesMut" where
  "bm_truncate b new_len =
     (if new_len < bm_len b
      then b\<lparr>bm_len := new_len, bm_pos := (if bm_pos b > new_len then new_len else bm_pos b)\<rparr>
      else b)"

definition bm_put_slice :: "BytesMut \<Rightarrow> u8 list \<Rightarrow> usize \<Rightarrow> (BytesMut, BytesExn) Result" where
  "bm_put_slice b data len =
     (if len = 0 then Ok b
      else and_then (bm_ensure_writable b len) (\<lambda>b.
        Ok (b\<lparr>bm_data := take (bm_len b) (bm_data b) @ take len data @ drop (bm_len b + len) (bm_data b),
              bm_len := usize_add (bm_len b) len\<rparr>)))"

definition bm_store ::
    "usize \<Rightarrow> (u8 list \<Rightarrow> usize \<Rightarrow> 'v \<Rightarrow> u8 list) \<Rightarrow> BytesMut \<Rightarrow> 'v \<Rightarrow> (BytesMut, BytesExn) Result" where
  "bm_store n store b val =
     and_then (bm_ensure_writable b n) (\<lambda>b.
       Ok (b\<lparr>bm_data := store (bm_data b) (bm_len b) val, bm_len := usize_add (bm_len b) n\<rparr>))"

definition bm_put_u8 :: "BytesMut \<Rightarrow> u8 \<Rightarrow> (BytesMut, BytesExn) Result" where
  "bm_put_u8 = bm_store 1 (\<lambda>p i val. p[i := val])"

definition bm_put_u16_be :: "BytesMut \<Rightarrow> u16 \<Rightarrow> (BytesMut, BytesExn) Result" where
  "bm_put_u16_be = bm_store 2 store_u16_be"

definition bm_put_u16_le :: "BytesMut \<Rightarrow> u16 \<Rightarrow> (BytesMut, BytesExn) Result" where
  "bm_put_u16_le = bm_store 2 store_u16_le"

definition bm_put_u32_be :: "BytesMut \<Rightarrow> u32 \<Rightarrow> (BytesMut, BytesExn) Result" where
  "bm_put_u32_be = bm_store 4 store_u32_be"

definition bm_put_u32_le :: "BytesMut \<Rightarrow> u32 \<Rightarrow> (BytesMut, BytesExn) Result" where
  "bm_put_u32_le = bm_store 4 store_u32_le"

definition bm_put_u64_be :: "BytesMut \<Rightarrow> u64 \<Rightarrow> (BytesMut, BytesExn) Result" where
  "bm_put_u64_be = bm_store 8 store_u64_be"

definition bm_put_u64_le :: "BytesMut \<Rightarrow> u64 \<Rightarrow> (BytesMut, BytesExn) Result" where
  "bm_put_u64_le = bm_store 8 store_u64_le"

definition bm_put_i16_be :: "BytesMut \<Rightarrow> i16 \<Rightarrow> (BytesMut, BytesExn) Result" where
  "bm_put_i16_be b val = bm_put_u16_be b val"

definition bm_put_i16_le :: "BytesMut \<Rightarrow> i16 \<Rightarrow> (BytesMut, BytesExn) Result" where
  "bm_put_i16_le b val = bm_put_u16_le b val"

definition bm_put_i32_be :: "BytesMut \<Rightarrow> i32 \<Rightarrow> (BytesMut, BytesExn) Result" where
  "bm_put_i32_be b val = bm_put_u32_be b val"

definition bm_put_i32_le :: "BytesMut \<Rightarrow> i32 \<Rightarrow> (BytesMut, BytesExn) Result" where
  "bm_put_i32_le b val = bm_put_u32_le b val"

definition bm_put_i64_be :: "BytesMut \<Rightarrow> i64 \<Rightarrow> (BytesMut, BytesExn) Result" where
  "bm_put_i64_be b val = bm_put_u64_be b val"

definition bm_put_i64_le :: "BytesMut \<Rightarrow> i64 \<Rightarrow> (BytesMut, BytesExn) Result" where
  "bm_put_i64_le b val = bm_put_u64_le b val"

definition bm_put_f32_be :: "BytesMut \<Rightarrow> f32 \<Rightarrow> (BytesMut, BytesExn) Result" where
  "bm_put_f32_be b val = bm_put_u32_be b val"

definition bm_put_f64_be :: "BytesMut \<Rightarrow> f64 \<Rightarrow> (BytesMut, BytesExn) Result" where
  "bm_put_f64_be b val = bm_put_u64_be b val"

definition bm_put_var :: "usize \<Rightarrow> BytesMut \<Rightarrow> 'w::len word \<Rightarrow> (BytesMut, BytesExn) Result" where
  "bm_put_var n b val =
     and_then (bm_ensure_writable b n) (\<lambda>b.
       let (data, len) = var_store (bm_data b) (bm_len b) val
       in Ok (b\<lparr>bm_data := data, bm_len := len\<rparr>))"

definition bm_put_var_u32 :: "BytesMut \<Rightarrow> u32 \<Rightarrow> (BytesMut, BytesExn) Result" where
  "bm_put_var_u32 = bm_put_var 5"

definition bm_put_var_u64 :: "BytesMut \<Rightarrow> u64 \<Rightarrow> (BytesMut, BytesExn) Result" where
  "bm_put_var_u64 = bm_put_var 10"

fun fill_loop :: "u8 list \<Rightarrow> u8 \<Rightarrow> nat \<Rightarrow> u8 list" where
  "fill_loop p val 0 = p"
| "fill_loop p val (Suc i) = (fill_loop p val i)[i := val]"

definition bm_fill :: "BytesMut \<Rightarrow> u8 \<Rightarrow> BytesMut" where
  "bm_fill b val = b\<lparr>bm_data := fill_loop (bm_data b) val (bm_len b)\<rparr>"

definition bm_read :: "usize \<Rightarrow> (u8 list \<Rightarrow> usize \<Rightarrow> 'v) \<Rightarrow> BytesMut \<Rightarrow> ('v, BytesError) Result \<times> BytesMut" where
  "bm_read n load b =
     (if usize_add (bm_pos b) n > bm_len b then (Err Underflow, b)
      else (Ok (load (bm_data b) (bm_pos b)), b\<lparr>bm_pos := usize_add (bm_pos b) n\<rparr>))"

definition bm_get_u8 :: "BytesMut \<Rightarrow> (u8, BytesError) Result \<times> BytesMut" where
  "bm_get_u8 = bm_read 1 (\<lambda>p i. p ! i)"

definition bm_get_u16_be :: "BytesMut \<Rightarrow> (u16, BytesError) Result \<times> BytesMut" where
  "bm_get_u16_be = bm_read 2 load_u16_be"

definition bm_get_u16_le :: "BytesMut \<Rightarrow> (u16, BytesError) Result \<times> BytesMut" where
  "bm_get_u16_le = bm_read 2 load_u16_le"

definition bm_get_u32_be :: "BytesMut \<Rightarrow> (u32, BytesError) Result \<times> BytesMut" where
  "bm_get_u32_be = bm_read 4 load_u32_be"

definition bm_get_u32_le :: "BytesMut \<Rightarrow> (u32, BytesError) Result \<times> BytesMut" where
  "bm_get_u32_le = bm_read 4 load_u32_le"

definition bm_get_u64_be :: "BytesMut \<Rightarrow> (u64, BytesError) Result \<times> BytesMut" where
  "bm_get_u64_be = bm_read 8 load_u64_be"

definition bm_get_u64_le :: "BytesMut \<Rightarrow> (u64, BytesError) Result \<times> BytesMut" where
  "bm_get_u64_le = bm_read 8 load_u64_le"

definition bm_get_i16_be :: "BytesMut \<Rightarrow> (i16, BytesError) Result \<times> BytesMut" where
  "bm_get_i16_be b = apfst (map_ok (\<lambda>v. v)) (bm_get_u16_be b)"

definition bm_get_i16_le :: "BytesMut \<Rightarrow> (i16, BytesError) Result \<times> BytesMut" where
  "bm_get_i16_le b = apfst (map_ok (\<lambda>v. v)) (bm_get_u16_le b)"

definition bm_get_i32_be :: "BytesMut \<Rightarrow> (i32, BytesError) Result \<times> BytesMut" where
  "bm_get_i32_be b = apfst (map_ok (\<lambda>v. v)) (bm_get_u32_be b)"

definition bm_get_i32_le :: "BytesMut \<Rightarrow> (i32, BytesError) Result \<times> BytesMut" where
  "bm_get_i32_le b = apfst (map_ok (\<lambda>v. v)) (bm_get_u32_le b)"

definition bm_get_i64_be :: "BytesMut \<Rightarrow> (i64, BytesError) Result \<times> BytesMut" where
  "bm_get_i64_be b = apfst (map_ok (\<lambda>v. v)) (bm_get_u64_be b)"

definition bm_get_i64_le :: "BytesMut \<Rightarrow> (i64, BytesError) Result \<times> BytesMut" where
  "bm_get_i64_le b = apfst (map_ok (\<lambda>v. v)) (bm_get_u64_le b)"

definition bm_get_f32_be :: "BytesMut \<Rightarrow> (f32, BytesError) Result \<times> BytesMut" where
  "bm_get_f32_be b = apfst (map_ok (\<lambda>bits. bits)) (bm_get_u32_be b)"

definition bm_get_f64_be :: "BytesMut \<Rightarrow> (f64, BytesError) Result \<times> BytesMut" where
  "bm_get_f64_be b = apfst (map_ok (\<lambda>bits. bits)) (bm_get_u64_be b)"

definition bm_read_var :: "nat \<Rightarrow> u8 \<Rightarrow> BytesMut \<Rightarrow> ('w::len word, BytesError) Result \<times> BytesMut" where
  "bm_read_var n lim b =
     (case var_scan n lim (bm_data b) (bm_len b) (bm_pos b) 0 0 of
        Err e \<Rightarrow> (Err e, b)
      | Ok (v, k) \<Rightarrow> (Ok v, b\<lparr>bm_pos := usize_add (bm_pos b) k\<rparr>))"

definition bm_get_var_u32 :: "BytesMut \<Rightarrow> (u32, BytesError) Result \<times> BytesMut" where
  "bm_get_var_u32 = bm_read_var 5 0x0F"

definition bm_get_var_u64 :: "BytesMut \<Rightarrow> (u64, BytesError) Result \<times> BytesMut" where
  "bm_get_var_u64 = bm_read_var 10 0x01"

text \<open>\<^verbatim>\<open>freeze\<close> hands the block over: the immutable buffer and the emptied one.\<close>

definition bm_freeze :: "BytesMut \<Rightarrow> Bytes \<times> BytesMut" where
  "bm_freeze b =
     (if bm_len b = 0 then (bytes_empty, b)
      else (\<lparr>b_ptr = bm_data b, b_len = bm_len b, b_pos = 0, b_storage = True\<rparr>, bm_empty))"

definition bm_equals :: "BytesMut \<Rightarrow> BytesMut \<Rightarrow> bool" where
  "bm_equals b other =
     (let this_rem = bm_remaining b in
      if this_rem \<noteq> bm_remaining other then False
      else if this_rem = 0 then True
      else take this_rem (drop (bm_pos b) (bm_data b)) =
           take this_rem (drop (bm_pos other) (bm_data other)))"

section \<open>Zigzag\<close>

text \<open>The right shift of a negative signed integer is arithmetic.\<close>

definition zigzag_encode32 :: "i32 \<Rightarrow> u32" where
  "zigzag_encode32 val = push_bit 1 val XOR signed_drop_bit 31 val"

definition zigzag_decode32 :: "u32 \<Rightarrow> i32" where
  "zigzag_decode32 val = drop_bit 1 val XOR - (val AND 1)"

definition zigzag_encode64 :: "i64 \<Rightarrow> u64" where
  "zigzag_encode64 val = push_bit 1 val XOR signed_drop_bit 63 val"

definition zigzag_decode64 :: "u64 \<Rightarrow> i64" where
  "zigzag_decode64 val = drop_bit 1 val XOR - (val AND 1)"

end
