(* ===== verification/Core_Bytes_Codec.thy ===== *)
theory Core_Bytes_Codec
  imports Core_Bytes
begin

text \<open>
  Correctness of the byte buffers: the invariant of \<open>BytesMut\<close> and \<open>Bytes\<close> and its
  preservation, the contract of a wire format (\<open>wire_format\<close>: a writer appends the
  encoding of a value, the readers take it off again) with its consequences for
  sequences of values, the interpretation of that contract by every typed read and
  write of the source, LEB128 varints against their reference definition, and zigzag.
\<close>

section \<open>Invariants\<close>

definition bytes_inv :: "Bytes \<Rightarrow> bool" where
  "bytes_inv b \<longleftrightarrow> b_pos b \<le> b_len b \<and> b_len b \<le> length (b_ptr b) \<and> b_len b \<le> PTRDIFF_MAX"

definition bytes_content :: "Bytes \<Rightarrow> u8 list" where
  "bytes_content b = drop (b_pos b) (take (b_len b) (b_ptr b))"

definition bm_inv :: "BytesMut \<Rightarrow> bool" where
  "bm_inv b \<longleftrightarrow> bm_pos b \<le> bm_len b \<and> bm_len b \<le> bm_capacity b
     \<and> length (bm_data b) = bm_capacity b \<and> bm_capacity b \<le> PTRDIFF_MAX"

definition bm_written :: "BytesMut \<Rightarrow> u8 list" where
  "bm_written b = take (bm_len b) (bm_data b)"

definition bm_content :: "BytesMut \<Rightarrow> u8 list" where
  "bm_content b = drop (bm_pos b) (bm_written b)"

text \<open>Nothing but the spare room changes when room is made.\<close>

definition bm_same :: "BytesMut \<Rightarrow> BytesMut \<Rightarrow> bool" where
  "bm_same b b' \<longleftrightarrow> bm_len b' = bm_len b \<and> bm_pos b' = bm_pos b \<and> bm_written b' = bm_written b
     \<and> bm_capacity b \<le> bm_capacity b'"

lemma bm_same_content: "bm_same b b' \<Longrightarrow> bm_content b' = bm_content b"
  by (simp add: bm_same_def bm_content_def)

lemma bm_grow_Ok:
  assumes "bm_inv b" and "bm_grow b n = Ok b'" and "bm_len b \<le> n"
  shows "bm_inv b' \<and> bm_same b b' \<and> n \<le> bm_capacity b'"
  using assms
  by (auto simp: bm_grow_def Let_def new_u8_def bm_inv_def bm_same_def bm_written_def
      split: if_splits)

lemma bm_grow_total:
  assumes "bm_inv b" and "n \<le> PTRDIFF_MAX" and "2 * bm_capacity b \<le> PTRDIFF_MAX"
  shows "\<exists>b'. bm_grow b n = Ok b'"
  using assms by (auto simp: bm_grow_def Let_def new_u8_def bm_inv_def)

lemma bm_ensure_writable_Ok:
  assumes "bm_inv b" and "bm_ensure_writable b n = Ok b'"
  shows "bm_inv b' \<and> bm_same b b' \<and> bm_len b' + n \<le> bm_capacity b'"
proof -
  have r: "n \<le> SIZE_MAX - bm_len b"
    using assms(2) by (auto simp: bm_ensure_writable_def split: if_splits)
  then have u: "usize_add (bm_len b) n = bm_len b + n"
    using assms(1) by (intro usize_add_exact) (auto simp: bm_inv_def)
  show ?thesis
  proof (cases "bm_len b + n \<le> bm_capacity b")
    case True
    with assms r u show ?thesis
      by (auto simp: bm_ensure_writable_def bm_same_def)
  next
    case False
    with assms r u have "bm_grow b (bm_len b + n) = Ok b'"
      by (auto simp: bm_ensure_writable_def)
    from bm_grow_Ok [OF assms(1) this] show ?thesis
      by (auto simp: bm_same_def)
  qed
qed

lemma bm_ensure_writable_room:
  assumes "bm_inv b" and "bm_len b + n \<le> bm_capacity b"
  shows "bm_ensure_writable b n = Ok b"
proof -
  have "bm_len b + n \<le> PTRDIFF_MAX"
    using assms by (simp add: bm_inv_def)
  then show ?thesis
    using assms(2) by (simp add: bm_ensure_writable_def)
qed

lemma bm_reserve_eq: "bm_reserve b n = bm_ensure_writable b n"
  by (simp add: bm_reserve_def bm_ensure_writable_def Let_def not_le)


section \<open>Fixed-width formats\<close>

text \<open>What the loads and stores of one integer type promise: \<open>enc\<close> is the byte string.\<close>

locale fixed_codec =
  fixes n :: nat
    and enc :: "'v \<Rightarrow> u8 list"
    and store :: "u8 list \<Rightarrow> usize \<Rightarrow> 'v \<Rightarrow> u8 list"
    and load :: "u8 list \<Rightarrow> usize \<Rightarrow> 'v"
  assumes width: "0 < n" "n \<le> 8"
    and length_enc: "length (enc v) = n"
    and store_enc: "i + n \<le> length p \<Longrightarrow> store p i v = block p i (enc v)"
    and load_enc: "load (xs @ enc v @ ys) (length xs) = v"

text \<open>
  What a value's writer and readers promise on the buffers: \<open>rsv\<close> bytes of room are
  enough for the writer, it appends \<open>enc v\<close>, and a reader takes \<open>enc v\<close> off the front.
\<close>

locale wire_format =
  fixes rsv :: nat
    and enc :: "'v \<Rightarrow> u8 list"
    and put :: "BytesMut \<Rightarrow> 'v \<Rightarrow> (BytesMut, BytesExn) Result"
    and get :: "BytesMut \<Rightarrow> ('v, BytesError) Result \<times> BytesMut"
    and bget :: "Bytes \<Rightarrow> ('v, BytesError) Result \<times> Bytes"
  assumes enc_rsv: "length (enc v) \<le> rsv"
    and put_room: "bm_inv b \<Longrightarrow> bm_len b + rsv \<le> bm_capacity b \<Longrightarrow> \<exists>b'. put b v = Ok b'"
    and put_Ok: "bm_inv b \<Longrightarrow> put b v = Ok b' \<Longrightarrow>
       bm_inv b' \<and> bm_pos b' = bm_pos b \<and> bm_written b' = bm_written b @ enc v
       \<and> bm_len b' = bm_len b + length (enc v) \<and> bm_capacity b \<le> bm_capacity b'"
    and get_enc: "bm_inv b \<Longrightarrow> bm_content b = enc v @ rest \<Longrightarrow>
       \<exists>b'. get b = (Ok v, b') \<and> bm_inv b' \<and> bm_content b' = rest"
    and bget_enc: "bytes_inv c \<Longrightarrow> bytes_content c = enc v @ rest \<Longrightarrow>
       \<exists>c'. bget c = (Ok v, c') \<and> bytes_inv c' \<and> bytes_content c' = rest"

text \<open>Writing a list of values one after the other, and reading a number of them.\<close>

fun put_all :: "('b \<Rightarrow> 'v \<Rightarrow> ('b, 'x) Result) \<Rightarrow> 'b \<Rightarrow> 'v list \<Rightarrow> ('b, 'x) Result" where
  "put_all put b [] = Ok b"
| "put_all put b (v # vs) = and_then (put b v) (\<lambda>b. put_all put b vs)"

fun get_many :: "('b \<Rightarrow> ('v, 'x) Result \<times> 'b) \<Rightarrow> nat \<Rightarrow> 'b \<Rightarrow> ('v list, 'x) Result \<times> 'b" where
  "get_many get 0 b = (Ok [], b)"
| "get_many get (Suc k) b =
     (case get b of (Err e, b') \<Rightarrow> (Err e, b')
      | (Ok v, b') \<Rightarrow> apfst (map_ok ((#) v)) (get_many get k b'))"

lemma bm_content_split:
  assumes "bm_inv b" and "bm_content b = xs @ ys"
  shows "bm_data b = take (bm_pos b) (bm_data b) @ xs @ ys @ drop (bm_len b) (bm_data b)"
    and "bm_len b = bm_pos b + length xs + length ys"
  using window_split [of "bm_pos b" "bm_len b" "bm_data b" xs ys] assms
  by (simp_all add: bm_inv_def bm_content_def bm_written_def)

lemma bytes_content_split:
  assumes "bytes_inv b" and "bytes_content b = xs @ ys"
  shows "b_ptr b = take (b_pos b) (b_ptr b) @ xs @ ys @ drop (b_len b) (b_ptr b)"
    and "b_len b = b_pos b + length xs + length ys"
  using window_split [of "b_pos b" "b_len b" "b_ptr b" xs ys] assms
  by (simp_all add: bytes_inv_def bytes_content_def)

lemma bm_content_advance:
  assumes "bm_inv b" and "bm_content b = xs @ ys"
  shows "bm_inv (b\<lparr>bm_pos := bm_pos b + length xs\<rparr>)
    \<and> bm_content (b\<lparr>bm_pos := bm_pos b + length xs\<rparr>) = ys"
  using assms bm_content_split(2) [OF assms]
  by (auto simp: bm_inv_def bm_content_def bm_written_def intro: drop_add_prefix)

lemma bytes_content_advance:
  assumes "bytes_inv b" and "bytes_content b = xs @ ys"
  shows "bytes_inv (b\<lparr>b_pos := b_pos b + length xs\<rparr>)
    \<and> bytes_content (b\<lparr>b_pos := b_pos b + length xs\<rparr>) = ys"
  using assms bytes_content_split(2) [OF assms]
  by (auto simp: bytes_inv_def bytes_content_def intro: drop_add_prefix)

context fixed_codec
begin

lemma bm_store_room: "bm_inv b \<Longrightarrow> bm_len b + n \<le> bm_capacity b \<Longrightarrow> \<exists>b'. bm_store n store b v = Ok b'"
  by (simp add: bm_store_def bm_ensure_writable_room)

lemma bm_store_Ok:
  assumes "bm_inv b" and "bm_store n store b v = Ok b'"
  shows "bm_inv b' \<and> bm_pos b' = bm_pos b \<and> bm_written b' = bm_written b @ enc v
       \<and> bm_len b' = bm_len b + length (enc v) \<and> bm_capacity b \<le> bm_capacity b'"
proof -
  from assms(2) obtain c where c: "bm_ensure_writable b n = Ok c"
    and b': "b' = c\<lparr>bm_data := store (bm_data c) (bm_len c) v, bm_len := usize_add (bm_len c) n\<rparr>"
    by (auto simp: bm_store_def and_then_eq_Ok)
  from bm_ensure_writable_Ok [OF assms(1) c]
  have inv: "bm_inv c" and same: "bm_same b c" and room: "bm_len c + n \<le> bm_capacity c"
    by auto
  from inv room have u: "usize_add (bm_len c) n = bm_len c + n"
    by (intro usize_add_exact) (auto simp: bm_inv_def)
  have d: "store (bm_data c) (bm_len c) v = block (bm_data c) (bm_len c) (enc v)"
    using inv room by (intro store_enc) (simp add: bm_inv_def)
  show ?thesis
    using inv room same length_enc [of v] unfolding b' u d
    by (auto simp: bm_inv_def bm_same_def bm_written_def block_def)
qed

lemma bm_read_enc:
  assumes "bm_inv b" and "bm_content b = enc v @ rest"
  shows "\<exists>b'. bm_read n load b = (Ok v, b') \<and> bm_inv b' \<and> bm_content b' = rest"
proof -
  note sp = bm_content_split [OF assms]
  have u: "usize_add (bm_pos b) n = bm_pos b + n" "bm_pos b + n \<le> bm_len b"
    using sp(2) assms(1) by (auto simp: bm_inv_def length_enc intro!: usize_add_exact)
  have "length (take (bm_pos b) (bm_data b)) = bm_pos b"
    using assms(1) by (simp add: bm_inv_def)
  then have "load (bm_data b) (bm_pos b) = v"
    using load_enc [of "take (bm_pos b) (bm_data b)" v "rest @ drop (bm_len b) (bm_data b)"] sp(1)
    by simp
  with u bm_content_advance [OF assms] show ?thesis
    by (simp add: bm_read_def length_enc)
qed

lemma bytes_read_enc:
  assumes "bytes_inv b" and "bytes_content b = enc v @ rest"
  shows "\<exists>b'. bytes_read n load b = (Ok v, b') \<and> bytes_inv b' \<and> bytes_content b' = rest"
proof -
  note sp = bytes_content_split [OF assms]
  have u: "usize_add (b_pos b) n = b_pos b + n" "b_pos b + n \<le> b_len b"
    using sp(2) assms(1) by (auto simp: bytes_inv_def length_enc intro!: usize_add_exact)
  have "length (take (b_pos b) (b_ptr b)) = b_pos b"
    using assms(1) by (simp add: bytes_inv_def)
  then have "load (b_ptr b) (b_pos b) = v"
    using load_enc [of "take (b_pos b) (b_ptr b)" v "rest @ drop (b_len b) (b_ptr b)"] sp(1)
    by simp
  with u bytes_content_advance [OF assms] show ?thesis
    by (simp add: bytes_read_def length_enc)
qed

end

sublocale fixed_codec \<subseteq> wire_format n enc "bm_store n store" "bm_read n load" "bytes_read n load"
  by unfold_locales
    (simp_all add: length_enc bm_store_room bm_store_Ok bm_read_enc bytes_read_enc)

context wire_format
begin

lemma put_all_Ok:
  assumes "bm_inv b" and "put_all put b vs = Ok b'"
  shows "bm_inv b' \<and> bm_pos b' = bm_pos b \<and> bm_written b' = bm_written b @ concat (map enc vs)"
  using assms
proof (induction vs arbitrary: b)
  case Nil
  then show ?case by simp
next
  case (Cons v vs)
  from Cons.prems(2) obtain c where c: "put b v = Ok c" "put_all put c vs = Ok b'"
    by (auto simp: and_then_eq_Ok)
  from put_Ok [OF Cons.prems(1) c(1)] Cons.IH [OF _ c(2)] show ?case by simp
qed

lemma put_all_room:
  assumes "bm_inv b" and "bm_len b + rsv * length vs \<le> bm_capacity b"
  shows "\<exists>b'. put_all put b vs = Ok b'"
  using assms
proof (induction vs arbitrary: b)
  case Nil
  then show ?case by simp
next
  case (Cons v vs)
  then obtain c where c: "put b v = Ok c"
    using put_room [of b v] by auto
  note p = put_Ok [OF Cons.prems(1) c]
  have "bm_len c + rsv * length vs \<le> bm_capacity c"
    using p enc_rsv [of v] Cons.prems(2) by simp
  with p Cons.IH [of c] c show ?case by simp
qed

lemma get_many_enc:
  assumes "bm_inv b" and "bm_content b = concat (map enc vs) @ rest"
  shows "\<exists>b'. get_many get (length vs) b = (Ok vs, b') \<and> bm_inv b' \<and> bm_content b' = rest"
  using assms
proof (induction vs arbitrary: b)
  case Nil
  then show ?case by simp
next
  case (Cons v vs)
  then obtain c where "get b = (Ok v, c)" "bm_inv c" "bm_content c = concat (map enc vs) @ rest"
    using get_enc [of b v "concat (map enc vs) @ rest"] by auto
  with Cons.IH [of c] show ?case by auto
qed

lemma bget_many_enc:
  assumes "bytes_inv b" and "bytes_content b = concat (map enc vs) @ rest"
  shows "\<exists>b'. get_many bget (length vs) b = (Ok vs, b') \<and> bytes_inv b' \<and> bytes_content b' = rest"
  using assms
proof (induction vs arbitrary: b)
  case Nil
  then show ?case by simp
next
  case (Cons v vs)
  then obtain c where "bget b = (Ok v, c)" "bytes_inv c" "bytes_content c = concat (map enc vs) @ rest"
    using bget_enc [of b v "concat (map enc vs) @ rest"] by auto
  with Cons.IH [of c] show ?case by auto
qed

end


definition enc_u8 :: "u8 \<Rightarrow> u8 list" where
  "enc_u8 v = [v]"
definition enc_u16_be :: "u16 \<Rightarrow> u8 list" where
  "enc_u16_be v = [ucast (drop_bit 8 v), ucast v]"

definition enc_u32_be :: "u32 \<Rightarrow> u8 list" where
  "enc_u32_be v = [ucast (drop_bit 24 v), ucast (drop_bit 16 v), ucast (drop_bit 8 v), ucast v]"

definition enc_u64_be :: "u64 \<Rightarrow> u8 list" where
  "enc_u64_be v =
     [ucast (drop_bit 56 v), ucast (drop_bit 48 v), ucast (drop_bit 40 v), ucast (drop_bit 32 v),
      ucast (drop_bit 24 v), ucast (drop_bit 16 v), ucast (drop_bit 8 v), ucast v]"

lemmas store_defs = store_u16_be_def store_u16_le_def store_u32_be_def store_u32_le_def
  store_u64_be_def store_u64_le_def
lemmas load_defs = load_u16_be_def load_u16_le_def load_u32_be_def load_u32_le_def
  load_u64_be_def load_u64_le_def
lemmas enc_defs = enc_u8_def enc_u16_be_def enc_u32_be_def enc_u64_be_def

interpretation u8: fixed_codec 1 enc_u8 "\<lambda>p i val. p[i := val]" "\<lambda>p i. p ! i"
  by unfold_locales (simp_all add: enc_defs block_first)

interpretation u16_be: fixed_codec 2 enc_u16_be store_u16_be load_u16_be
  by unfold_locales
   (simp_all add: enc_defs store_defs load_defs block_first block_next byte_join)

interpretation u16_le: fixed_codec 2 "rev \<circ> enc_u16_be" store_u16_le load_u16_le
  by unfold_locales
   (simp_all add: enc_defs store_defs load_defs block_first block_next byte_join)
interpretation u32_be: fixed_codec 4 enc_u32_be store_u32_be load_u32_be
  by unfold_locales
   (simp_all add: enc_defs store_defs load_defs block_first block_next byte_join)

interpretation u32_le: fixed_codec 4 "rev \<circ> enc_u32_be" store_u32_le load_u32_le
  by unfold_locales
   (simp_all add: enc_defs store_defs load_defs block_first block_next byte_join)
interpretation u64_be: fixed_codec 8 enc_u64_be store_u64_be load_u64_be
  by unfold_locales
   (simp_all add: enc_defs store_defs load_defs block_first block_next byte_join)

interpretation u64_le: fixed_codec 8 "rev \<circ> enc_u64_be" store_u64_le load_u64_le
  by unfold_locales
   (simp_all add: enc_defs store_defs load_defs block_first block_next byte_join)
lemma bm_freeze_content:
  assumes "bm_inv b" and "bm_freeze b = (f, b')"
  shows "bytes_inv f \<and> bytes_content f = bm_written b \<and> bm_inv b' \<and> bm_written b' = []"
  using assms
  by (auto simp: bm_freeze_def bm_inv_def bytes_inv_def bytes_content_def bm_written_def
      bytes_empty_def bm_empty_def split: if_splits)

lemma with_capacity_inv:
  assumes "with_capacity cap = Ok b"
  shows "bm_inv b \<and> bm_len b = 0 \<and> bm_pos b = 0 \<and> bm_written b = [] \<and> bm_capacity b = cap"
  using assms
  by (auto simp: with_capacity_def new_u8_def bm_inv_def bm_written_def bm_empty_def split: if_splits)


context wire_format
begin

lemma stream_roundtrip:
  assumes "with_capacity cap = Ok b" and "rsv * length vs \<le> cap"
  shows "\<exists>b'. put_all put b vs = Ok b' \<and>
    fst (get_many bget (length vs) (fst (bm_freeze b'))) = Ok vs"
proof -
  note i = with_capacity_inv [OF assms(1)]
  with assms(2) obtain b' where b': "put_all put b vs = Ok b'"
    using put_all_room [of b vs] by auto
  obtain f c where f: "bm_freeze b' = (f, c)"
    by force
  with i put_all_Ok [OF _ b'] have "bytes_inv f" "bytes_content f = concat (map enc vs) @ []"
    using bm_freeze_content [of b' f c] by auto
  from bget_many_enc [OF this] b' f show ?thesis by auto
qed

end

section \<open>Varints\<close>

text \<open>The reference definition: base-128 digits, least significant first.\<close>

fun leb128 :: "nat \<Rightarrow> u8 list" where
  "leb128 n = (if n < 128 then [of_nat n] else of_nat (n mod 128 + 128) # leb128 (n div 128))"

declare leb128.simps [simp del]

lemma leb128_nonempty [simp]: "leb128 n \<noteq> []"
  by (subst leb128.simps) simp

lemma var_store_leb128:
  fixes v :: "'w::len word"
  assumes "i + length (leb128 (unat v)) \<le> length p"
  shows "var_store p i v = (block p i (leb128 (unat v)), i + length (leb128 (unat v)))"
  using assms
proof (induction p i v rule: var_store.induct)
  case (1 p i v)
  note l = leb128.simps [of "unat v"]
  show ?case
  proof (cases "128 \<le> unat v")
    case True
    let ?x = "of_nat (unat v mod 128 + 128) :: u8"
    have x: "ucast v OR 0x80 = ?x"
      by (simp add: u8_or_128 unat_ucast mod_mod_cancel)
    have s: "leb128 (unat v) = ?x # leb128 (unat (drop_bit 7 v))"
      using True l by (simp add: unat_drop_bit_7)
    have "var_store p i v = var_store (p[i := ?x]) (i + 1) (drop_bit 7 v)"
      using True by (simp add: var_store.simps [of p i v] x)
    also have "\<dots> = (block (p[i := ?x]) (i + 1) (leb128 (unat (drop_bit 7 v))),
        i + 1 + length (leb128 (unat (drop_bit 7 v))))"
      using "1.IH" True "1.prems" x s by simp
    finally show ?thesis
      using "1.prems" s by (simp add: block_first block_block)
  next
    case False
    then have "leb128 (unat v) = [ucast v]"
      using l by (simp add: of_nat_unat)
    with False "1.prems" show ?thesis
      by (simp add: var_store.simps [of p i v] block_first)
  qed
qed

text \<open>One scan step adds seven bits above the bits already read.\<close>

lemma var_scan_accum:
  fixes r :: "'w::len word"
  assumes "unat r < 2 ^ (7 * i)"
  shows "r OR push_bit (7 * i) (ucast ((b::u8) AND 0x7F))
       = of_nat (unat r + unat b mod 128 * 2 ^ (7 * i))"
proof -
  have "take_bit (7 * i) r = r"
    using assms by (simp add: word_unat_eq_iff unat_take_bit_word)
  then have "r OR push_bit (7 * i) (ucast (b AND 0x7F)) = r + push_bit (7 * i) (ucast (b AND 0x7F))"
    by (intro or_eq_add_disjoint) simp
  then show ?thesis
    by (simp add: u8_and_127 push_bit_eq_mult of_nat_unat)
qed

lemma step_bound: "r < 2 ^ (7 * i) \<Longrightarrow> r + m mod 128 * 2 ^ (7 * i) < 2 ^ (7 * Suc i)" for r m :: nat
proof -
  assume "r < 2 ^ (7 * i)"
  then have "r + m mod 128 * 2 ^ (7 * i) < (1 + m mod 128) * 2 ^ (7 * i)"
    by simp
  also have "\<dots> \<le> 128 * 2 ^ (7 * i)"
    by (intro mult_right_mono) (auto simp: Suc_le_eq)
  also have "\<dots> = 2 ^ (7 * Suc i)"
    by (simp add: power_add)
  finally show ?thesis .
qed

lemma step_value: "r + m mod 128 * 2 ^ (7 * i) + m div 128 * 2 ^ (7 * Suc i) = r + m * 2 ^ (7 * i)" for r m :: nat
proof -
  have "(2::nat) ^ (7 * Suc i) = 128 * 2 ^ (7 * i)"
    by (simp add: power_add)
  then have "m mod 128 * 2 ^ (7 * i) + m div 128 * 2 ^ (7 * Suc i) = (m mod 128 + m div 128 * 128) * 2 ^ (7 * i)"
    by (simp only: distrib_right mult.assoc)
  then show ?thesis by (simp only: add.assoc mod_div_mult_eq)
qed

text \<open>The bounds of a varint of \<open>n\<close> bytes: the last byte fills the word exactly.\<close>

definition var_width :: "'w::len itself \<Rightarrow> nat \<Rightarrow> u8 \<Rightarrow> bool" where
  "var_width w n lim \<longleftrightarrow> 2 ^ LENGTH('w) = (unat lim + 1) * 2 ^ (7 * (n - 1)) \<and> unat lim < 128 \<and> 0 < n"

lemma var_last_byte:
  assumes "var_width TYPE('w::len) n lim" and "r + m * 2 ^ (7 * (n - 1)) < 2 ^ LENGTH('w)"
  shows "m \<le> unat lim"
proof -
  have "m * 2 ^ (7 * (n - 1)) < (unat lim + 1) * 2 ^ (7 * (n - 1))"
    using assms by (simp add: var_width_def)
  then have "m < unat lim + 1"
    by (simp only: mult_less_cancel2)
  then show ?thesis by simp
qed

lemma var_value_fits:
  fixes r :: nat
  assumes "var_width TYPE('w::len) n lim" and "r < 2 ^ (7 * i)" and "i < n"
    and "c < 128" and "i = n - 1 \<Longrightarrow> c \<le> unat lim"
  shows "r + c * 2 ^ (7 * i) < 2 ^ LENGTH('w)"
proof (cases "i = n - 1")
  case True
  have "r + c * 2 ^ (7 * i) < (1 + c) * 2 ^ (7 * i)"
    using assms(2) by simp
  also have "\<dots> \<le> (unat lim + 1) * 2 ^ (7 * i)"
    using assms(5) True by (intro mult_right_mono) simp_all
  finally show ?thesis
    using assms(1) True by (simp add: var_width_def)
next
  case False
  have "r + c * 2 ^ (7 * i) < 2 ^ (7 * Suc i)"
    using step_bound [OF assms(2), of c] assms(4) by simp
  also have "\<dots> \<le> 2 ^ (7 * (n - 1))"
    using False assms(3) by (intro power_increasing) auto
  also have "\<dots> \<le> 2 ^ LENGTH('w)"
    using assms(1) by (simp add: var_width_def)
  finally show ?thesis .
qed

lemma leb128_head: "leb128 m = of_nat (if m < 128 then m else m mod 128 + 128) # (if m < 128 then [] else leb128 (m div 128))"
  by (subst leb128.simps) simp

lemma unat_leb128_head:
  "unat (of_nat (if m < 128 then m else m mod 128 + 128) :: u8) = (if m < 128 then m else m mod 128 + 128)"
  by (rule unat_of_nat_u8) (use mod_less_divisor [of 128 m] in auto)

lemma var_scan_step:
  assumes "i < n" and "\<not> usize_sub len pos \<le> i"
    and "\<not> (0 < i \<and> p ! (pos + i) = 0)" and "\<not> (i = n - 1 \<and> lim < p ! (pos + i))"
  shows "var_scan n lim p len pos i r =
    (let r' = r OR push_bit (7 * i) (ucast (p ! (pos + i) AND 0x7F))
     in if unat (p ! (pos + i)) < 128 then Ok (r', Suc i) else var_scan n lim p len pos (Suc i) r')"
  unfolding var_scan.simps [of n lim p len pos i r] u8_and_128 Let_def
  using assms by (simp only: if_True if_False) simp

text \<open>The scan reads back every canonical encoding.\<close>

lemma var_scan_leb128:
  fixes r :: "'w::len word"
  assumes "unat r < 2 ^ (7 * i)" and "i < n" and "unat r + m * 2 ^ (7 * i) < 2 ^ LENGTH('w)"
    and "0 < i \<Longrightarrow> 0 < m" and "drop (pos + i) (take len p) = leb128 m @ rest"
    and win: "pos \<le> len" "len \<le> length p" "len \<le> PTRDIFF_MAX"
    and w: "var_width TYPE('w) n lim"
  shows "var_scan n lim p len pos i r = Ok (of_nat (unat r + m * 2 ^ (7 * i)), i + length (leb128 m))"
  using assms(1-5)
proof (induction m arbitrary: i r rule: leb128.induct)
  case (1 m)
  let ?b = "p ! (pos + i)"
  let ?r = "r OR push_bit (7 * i) (ucast (?b AND 0x7F))"
  note hd = window_head [OF "1.prems"(5) [unfolded leb128_head [of m] append_Cons] win(2)]
  have room: "\<not> usize_sub len pos \<le> i"
    using hd(1) win by simp
  have ub: "unat ?b = (if m < 128 then m else m mod 128 + 128)"
    unfolding hd(2) by (rule unat_leb128_head)
  have last: "i = n - 1 \<Longrightarrow> m \<le> unat lim"
    using var_last_byte [OF w, of "unat r" m] "1.prems"(3) by simp
  have ok: "\<not> (0 < i \<and> ?b = 0)" "\<not> (i = n - 1 \<and> lim < ?b)"
    using "1.prems"(4) last ub w by (auto simp: word_less_nat_alt var_width_def split: if_splits)
  have acc: "?r = of_nat (unat r + m mod 128 * 2 ^ (7 * i))"
    using var_scan_accum [OF "1.prems"(1), of ?b] ub by simp
  note step = var_scan_step [OF "1.prems"(2) room ok]
  show ?case
  proof (cases "m < 128")
    case True
    with acc ub leb128_head [of m] show ?thesis
      by (simp add: step)
  next
    case False
    then have ni: "i \<noteq> n - 1" and nz: "0 < m div 128"
      using last w by (auto simp: var_width_def)
    have ur: "unat ?r = unat r + m mod 128 * 2 ^ (7 * i)"
      unfolding acc using var_value_fits [OF w "1.prems"(1,2), of "m mod 128"] ni
      by (intro unat_of_nat_small) simp
    have "var_scan n lim p len pos (Suc i) ?r
        = Ok (of_nat (unat ?r + m div 128 * 2 ^ (7 * Suc i)), Suc i + length (leb128 (m div 128)))"
    proof (rule "1.IH" [OF False])
      show "unat ?r < 2 ^ (7 * Suc i)"
        unfolding ur using "1.prems"(1) by (rule step_bound)
      show "unat ?r + m div 128 * 2 ^ (7 * Suc i) < 2 ^ LENGTH('w)"
        unfolding ur step_value by (rule "1.prems"(3))
    qed (use "1.prems"(2) ni nz hd(3) False in auto)
    then show ?thesis
      using ub leb128_head [of m] False unfolding ur step_value by (simp add: step Let_def)
  qed
qed

text \<open>The scan accepts nothing else: what it reads is the canonical encoding of its value.\<close>

lemma leb128_snoc: "0 < m \<Longrightarrow> c < 128 \<Longrightarrow> leb128 (c + 128 * m) = of_nat (c + 128) # leb128 m"
  by (subst leb128.simps) simp

lemma var_scan_canonical:
  fixes r v :: "'w::len word"
  assumes "var_scan n lim p len pos i r = Ok (v, k)" and "unat r < 2 ^ (7 * i)"
    and win: "pos \<le> len" "len \<le> length p" "len \<le> PTRDIFF_MAX"
    and w: "var_width TYPE('w) n lim"
  shows "\<exists>m. drop (pos + i) (take len p) = leb128 m @ drop (pos + k) (take len p)
    \<and> unat v = unat r + m * 2 ^ (7 * i) \<and> pos + k \<le> len \<and> (0 < i \<longrightarrow> 0 < m)"
  using assms
proof (induction n lim p len pos i r rule: var_scan.induct)
  case (1 n lim p len pos i r)
  let ?b = "p ! (pos + i)"
  let ?r = "r OR push_bit (7 * i) (ucast (?b AND 0x7F))"
  note unfold = var_scan.simps [of n lim p len pos i r] Let_def
  have lt: "i < n" and room: "\<not> usize_sub len pos \<le> i"
    and ok: "\<not> (0 < i \<and> ?b = 0)" "\<not> (i = n - 1 \<and> lim < ?b)"
    using "1.prems"(1) by (auto simp: unfold split: if_splits)
  note step = var_scan_step [OF lt room ok]
  have "pos + i < len"
    using room "1.prems"(3-5) by simp
  then have win: "drop (pos + i) (take len p) = ?b # drop (pos + Suc i) (take len p)"
    using "1.prems"(4) Cons_nth_drop_Suc [of "pos + i" "take len p"] by simp
  have last: "i = n - 1 \<Longrightarrow> unat ?b \<le> unat lim"
    using ok(2) by (simp add: word_less_nat_alt)
  then have "unat ?r = unat r + unat ?b mod 128 * 2 ^ (7 * i)"
    unfolding var_scan_accum [OF "1.prems"(2)]
    using var_value_fits [OF "1.prems"(6,2) lt, of "unat ?b mod 128"] mod_less_eq_dividend [of "unat ?b" 128]
    by (intro unat_of_nat_small) force
  note ur = this
  show ?case
  proof (cases "unat ?b < 128")
    case True
    then have v: "v = ?r" "k = Suc i"
      using "1.prems"(1) by (simp_all add: step)
    have "leb128 (unat ?b) = [?b]"
      using True by (subst leb128.simps) (simp add: of_nat_unat)
    moreover have "0 < i \<longrightarrow> 0 < unat ?b"
      using ok(1) by (auto simp: unat_gt_0)
    ultimately show ?thesis
      using win ur True \<open>pos + i < len\<close> unfolding v by (intro exI [of _ "unat ?b"]) auto
  next
    case False
    then have rec: "var_scan n lim p len pos (Suc i) ?r = Ok (v, k)"
      using "1.prems"(1) by (simp add: step)
    have "unat ?r < 2 ^ (7 * Suc i)"
      unfolding ur by (rule step_bound [OF "1.prems"(2)])
    then obtain m where m: "drop (pos + Suc i) (take len p) = leb128 m @ drop (pos + k) (take len p)"
      "unat v = unat ?r + m * 2 ^ (7 * Suc i)" "pos + k \<le> len" "0 < m"
      using "1.IH" [OF lt room refl ok refl] False rec "1.prems"(3-6) by (auto simp: u8_and_128)
    have b: "unat ?b mod 128 + 128 = unat ?b"
      using False unat_u8_less [of ?b] by (simp add: le_mod_geq)
    then have "leb128 (unat ?b mod 128 + 128 * m) = ?b # leb128 m"
      using leb128_snoc [OF m(4), of "unat ?b mod 128"] by (simp add: of_nat_unat del: of_nat_add)
    moreover have "unat v = unat r + (unat ?b mod 128 + 128 * m) * 2 ^ (7 * i)"
      using step_value [of "unat r" "unat ?b mod 128 + 128 * m" i] m(2) ur by simp
    ultimately show ?thesis
      using m win by (intro exI [of _ "unat ?b mod 128 + 128 * m"]) auto
  qed
qed

lemma length_leb128: "m < 2 ^ (7 * Suc k) \<Longrightarrow> length (leb128 m) \<le> Suc k"
proof (induction k arbitrary: m)
  case 0
  then show ?case by (subst leb128.simps) simp
next
  case (Suc k)
  have "m div 128 < 2 ^ (7 * Suc k)"
    using Suc.prems by (simp add: power_add div_less_iff_less_mult)
  with Suc.IH show ?case by (subst leb128.simps) simp
qed

locale var_codec =
  fixes n :: nat and lim :: u8 and w :: "'w::len itself"
  assumes width_ok: "var_width w n lim"
begin

lemma width: "var_width TYPE('w) n lim"
  using width_ok by (simp add: var_width_def)

lemma length_enc: "length (leb128 (unat (v :: 'w word))) \<le> n"
proof -
  have "unat v < 2 ^ LENGTH('w)"
    by simp
  also have "\<dots> \<le> 128 * 2 ^ (7 * (n - 1))"
    using width by (simp add: var_width_def)
  also have "\<dots> = 2 ^ (7 * Suc (n - 1))"
    by (simp add: power_add)
  finally show ?thesis
    using length_leb128 [of "unat v" "n - 1"] width by (simp add: var_width_def)
qed

lemma put_var_Ok:
  assumes "bm_inv b" and "bm_put_var n b (v :: 'w word) = Ok b'"
  shows "bm_inv b' \<and> bm_pos b' = bm_pos b \<and> bm_written b' = bm_written b @ leb128 (unat v)
    \<and> bm_len b' = bm_len b + length (leb128 (unat v)) \<and> bm_capacity b \<le> bm_capacity b'"
proof -
  from assms(2) obtain c where c: "bm_ensure_writable b n = Ok c"
    and b': "(let (data, len) = var_store (bm_data c) (bm_len c) v
              in Ok (c\<lparr>bm_data := data, bm_len := len\<rparr>)) = (Ok b' :: (BytesMut, BytesExn) Result)"
    by (auto simp: bm_put_var_def and_then_eq_Ok)
  from bm_ensure_writable_Ok [OF assms(1) c]
  have inv: "bm_inv c" and same: "bm_same b c" and room: "bm_len c + n \<le> bm_capacity c"
    by auto
  have "bm_len c + length (leb128 (unat v)) \<le> length (bm_data c)"
    using inv room length_enc [of v] by (simp add: bm_inv_def)
  from var_store_leb128 [OF this] b'
  have "b' = c\<lparr>bm_data := block (bm_data c) (bm_len c) (leb128 (unat v)),
               bm_len := bm_len c + length (leb128 (unat v))\<rparr>"
    by simp
  then show ?thesis
    using inv same room length_enc [of v]
    by (auto simp: bm_inv_def bm_same_def bm_written_def block_def)
qed

lemma bm_read_var_enc:
  assumes "bm_inv b" and "bm_content b = leb128 (unat (v :: 'w word)) @ rest"
  shows "\<exists>b'. bm_read_var n lim b = (Ok v, b') \<and> bm_inv b' \<and> bm_content b' = rest"
proof -
  have "var_scan n lim (bm_data b) (bm_len b) (bm_pos b) 0 (0 :: 'w word)
      = Ok (v, length (leb128 (unat v)))"
    using var_scan_leb128 [of "0 :: 'w word" 0 n "unat v" "bm_pos b" "bm_len b" "bm_data b" rest lim]
      assms width by (simp add: bm_inv_def bm_content_def bm_written_def var_width_def of_nat_unat)
  moreover have "usize_add (bm_pos b) (length (leb128 (unat v))) = bm_pos b + length (leb128 (unat v))"
    using bm_content_split(2) [OF assms] assms(1) by (intro usize_add_exact) (auto simp: bm_inv_def)
  ultimately show ?thesis
    using bm_content_advance [OF assms] by (simp add: bm_read_var_def)
qed

lemma bytes_read_var_enc:
  assumes "bytes_inv b" and "bytes_content b = leb128 (unat (v :: 'w word)) @ rest"
  shows "\<exists>b'. bytes_read_var n lim b = (Ok v, b') \<and> bytes_inv b' \<and> bytes_content b' = rest"
proof -
  have "var_scan n lim (b_ptr b) (b_len b) (b_pos b) 0 (0 :: 'w word)
      = Ok (v, length (leb128 (unat v)))"
    using var_scan_leb128 [of "0 :: 'w word" 0 n "unat v" "b_pos b" "b_len b" "b_ptr b" rest lim]
      assms width by (simp add: bytes_inv_def bytes_content_def var_width_def of_nat_unat)
  moreover have "usize_add (b_pos b) (length (leb128 (unat v))) = b_pos b + length (leb128 (unat v))"
    using bytes_content_split(2) [OF assms] assms(1) by (intro usize_add_exact) (auto simp: bytes_inv_def)
  ultimately show ?thesis
    using bytes_content_advance [OF assms] by (simp add: bytes_read_var_def)
qed

text \<open>A varint that is accepted is the canonical encoding of its value.\<close>

lemma bytes_read_var_canonical:
  assumes "bytes_inv b" and "bytes_read_var n lim b = (Ok (v :: 'w word), b')"
  shows "bytes_content b = leb128 (unat v) @ bytes_content b'"
proof -
  from assms(2) obtain k where k: "var_scan n lim (b_ptr b) (b_len b) (b_pos b) 0 0 = Ok (v, k)"
    and b': "b' = b\<lparr>b_pos := usize_add (b_pos b) k\<rparr>"
    by (auto simp: bytes_read_var_def split: Result.splits)
  with var_scan_canonical [OF k] assms(1) width have
    s: "drop (b_pos b) (take (b_len b) (b_ptr b)) = leb128 (unat v) @ drop (b_pos b + k) (take (b_len b) (b_ptr b))"
    and "b_pos b + k \<le> b_len b"
    by (auto simp: bytes_inv_def)
  then have "usize_add (b_pos b) k = b_pos b + k"
    using assms(1) by (intro usize_add_exact) (auto simp: bytes_inv_def)
  with s b' show ?thesis by (simp add: bytes_content_def)
qed

end

sublocale var_codec \<subseteq>
  wire_format n "\<lambda>v :: 'w word. leb128 (unat v)" "bm_put_var n" "bm_read_var n lim" "bytes_read_var n lim"
proof unfold_locales
  show "\<exists>b'. bm_put_var n b v = Ok b'"
    if "bm_inv b" and "bm_len b + n \<le> bm_capacity b" for b and v :: "'w word"
    using that by (simp add: bm_put_var_def bm_ensure_writable_room split: prod.split)
qed (use length_enc put_var_Ok bm_read_var_enc bytes_read_var_enc in auto)

interpretation var_u32: var_codec 5 "0x0F" "TYPE(32)"
  by unfold_locales (simp add: var_width_def)

interpretation var_u64: var_codec 10 "0x01" "TYPE(64)"
  by unfold_locales (simp add: var_width_def)

section \<open>Records of typed fields\<close>

text \<open>
  A message layout is a list of typed fields; \<open>put_field\<close> and \<open>get_field\<close> call the
  writer and the reader of each field's type.
\<close>

datatype field = FU8 u8 | FU16be u16 | FU16le u16 | FU32be u32 | FU32le u32 | FU64be u64 | FU64le u64
  | FI16be i16 | FI16le i16 | FI32be i32 | FI32le i32 | FI64be i64 | FI64le i64
  | FF32be f32 | FF64be f64 | FVar32 u32 | FVar64 u64

fun put_field :: "BytesMut \<Rightarrow> field \<Rightarrow> (BytesMut, BytesExn) Result" where
  "put_field b (FU8 v) = bm_put_u8 b v"
| "put_field b (FU16be v) = bm_put_u16_be b v"
| "put_field b (FU16le v) = bm_put_u16_le b v"
| "put_field b (FU32be v) = bm_put_u32_be b v"
| "put_field b (FU32le v) = bm_put_u32_le b v"
| "put_field b (FU64be v) = bm_put_u64_be b v"
| "put_field b (FU64le v) = bm_put_u64_le b v"
| "put_field b (FI16be v) = bm_put_i16_be b v"
| "put_field b (FI16le v) = bm_put_i16_le b v"
| "put_field b (FI32be v) = bm_put_i32_be b v"
| "put_field b (FI32le v) = bm_put_i32_le b v"
| "put_field b (FI64be v) = bm_put_i64_be b v"
| "put_field b (FI64le v) = bm_put_i64_le b v"
| "put_field b (FF32be v) = bm_put_f32_be b v"
| "put_field b (FF64be v) = bm_put_f64_be b v"
| "put_field b (FVar32 v) = bm_put_var_u32 b v"
| "put_field b (FVar64 v) = bm_put_var_u64 b v"

text \<open>Reading a field of the kind of the given one.\<close>

fun get_field :: "field \<Rightarrow> Bytes \<Rightarrow> (field, BytesError) Result \<times> Bytes" where
  "get_field (FU8 _) b = apfst (map_ok FU8) (bytes_get_u8 b)"
| "get_field (FU16be _) b = apfst (map_ok FU16be) (bytes_get_u16_be b)"
| "get_field (FU16le _) b = apfst (map_ok FU16le) (bytes_get_u16_le b)"
| "get_field (FU32be _) b = apfst (map_ok FU32be) (bytes_get_u32_be b)"
| "get_field (FU32le _) b = apfst (map_ok FU32le) (bytes_get_u32_le b)"
| "get_field (FU64be _) b = apfst (map_ok FU64be) (bytes_get_u64_be b)"
| "get_field (FU64le _) b = apfst (map_ok FU64le) (bytes_get_u64_le b)"
| "get_field (FI16be _) b = apfst (map_ok FI16be) (bytes_get_i16_be b)"
| "get_field (FI16le _) b = apfst (map_ok FI16le) (bytes_get_i16_le b)"
| "get_field (FI32be _) b = apfst (map_ok FI32be) (bytes_get_i32_be b)"
| "get_field (FI32le _) b = apfst (map_ok FI32le) (bytes_get_i32_le b)"
| "get_field (FI64be _) b = apfst (map_ok FI64be) (bytes_get_i64_be b)"
| "get_field (FI64le _) b = apfst (map_ok FI64le) (bytes_get_i64_le b)"
| "get_field (FF32be _) b = apfst (map_ok FF32be) (bytes_get_f32_be b)"
| "get_field (FF64be _) b = apfst (map_ok FF64be) (bytes_get_f64_be b)"
| "get_field (FVar32 _) b = apfst (map_ok FVar32) (bytes_get_var_u32 b)"
| "get_field (FVar64 _) b = apfst (map_ok FVar64) (bytes_get_var_u64 b)"

fun get_fields :: "field list \<Rightarrow> Bytes \<Rightarrow> (field list, BytesError) Result \<times> Bytes" where
  "get_fields [] b = (Ok [], b)"
| "get_fields (f # fs) b =
     (case get_field f b of (Err e, b') \<Rightarrow> (Err e, b')
      | (Ok v, b') \<Rightarrow> apfst (map_ok ((#) v)) (get_fields fs b'))"

fun enc_field :: "field \<Rightarrow> u8 list" where
  "enc_field (FU8 v) = enc_u8 v"
| "enc_field (FU16be v) = enc_u16_be v"
| "enc_field (FU16le v) = rev (enc_u16_be v)"
| "enc_field (FU32be v) = enc_u32_be v"
| "enc_field (FU32le v) = rev (enc_u32_be v)"
| "enc_field (FU64be v) = enc_u64_be v"
| "enc_field (FU64le v) = rev (enc_u64_be v)"
| "enc_field (FI16be v) = enc_u16_be v"
| "enc_field (FI16le v) = rev (enc_u16_be v)"
| "enc_field (FI32be v) = enc_u32_be v"
| "enc_field (FI32le v) = rev (enc_u32_be v)"
| "enc_field (FI64be v) = enc_u64_be v"
| "enc_field (FI64le v) = rev (enc_u64_be v)"
| "enc_field (FF32be v) = enc_u32_be v"
| "enc_field (FF64be v) = enc_u64_be v"
| "enc_field (FVar32 v) = leb128 (unat v)"
| "enc_field (FVar64 v) = leb128 (unat v)"

lemmas put_defs = bm_put_u8_def bm_put_u16_be_def bm_put_u16_le_def bm_put_u32_be_def
  bm_put_u32_le_def bm_put_u64_be_def bm_put_u64_le_def bm_put_i16_be_def bm_put_i16_le_def
  bm_put_i32_be_def bm_put_i32_le_def bm_put_i64_be_def bm_put_i64_le_def bm_put_f32_be_def
  bm_put_f64_be_def bm_put_var_u32_def bm_put_var_u64_def

lemmas bytes_get_defs = bytes_get_u8_def bytes_get_u16_be_def bytes_get_u16_le_def
  bytes_get_u32_be_def bytes_get_u32_le_def bytes_get_u64_be_def bytes_get_u64_le_def
  bytes_get_i16_be_def bytes_get_i16_le_def bytes_get_i32_be_def bytes_get_i32_le_def
  bytes_get_i64_be_def bytes_get_i64_le_def bytes_get_f32_be_def bytes_get_f64_be_def
  bytes_get_var_u32_def bytes_get_var_u64_def

lemmas codec_put_Ok = u8.put_Ok u16_be.put_Ok u16_le.put_Ok u32_be.put_Ok u32_le.put_Ok
  u64_be.put_Ok u64_le.put_Ok var_u32.put_Ok var_u64.put_Ok

lemmas codec_bget_enc = u8.bget_enc u16_be.bget_enc u16_le.bget_enc u32_be.bget_enc
  u32_le.bget_enc u64_be.bget_enc u64_le.bget_enc var_u32.bget_enc var_u64.bget_enc

lemma put_field_Ok:
  assumes "bm_inv b" and "put_field b f = Ok b'"
  shows "bm_inv b' \<and> bm_pos b' = bm_pos b \<and> bm_written b' = bm_written b @ enc_field f"
  using assms by (cases f) (auto simp: put_defs dest: codec_put_Ok)

lemma get_field_enc:
  assumes "bytes_inv b" and "bytes_content b = enc_field f @ rest"
  shows "\<exists>b'. get_field f b = (Ok f, b') \<and> bytes_inv b' \<and> bytes_content b' = rest"
  using assms by (cases f) (auto simp: bytes_get_defs dest: codec_bget_enc [OF assms(1), unfolded comp_def])

lemma put_fields_Ok:
  assumes "bm_inv b" and "put_all put_field b fs = Ok b'"
  shows "bm_inv b' \<and> bm_pos b' = bm_pos b \<and> bm_written b' = bm_written b @ concat (map enc_field fs)"
  using assms
proof (induction fs arbitrary: b)
  case Nil
  then show ?case by simp
next
  case (Cons f fs)
  from Cons.prems(2) obtain c where c: "put_field b f = Ok c" "put_all put_field c fs = Ok b'"
    by (auto simp: and_then_eq_Ok)
  from put_field_Ok [OF Cons.prems(1) c(1)] Cons.IH [OF _ c(2)] show ?case by simp
qed

lemma get_fields_enc:
  assumes "bytes_inv b" and "bytes_content b = concat (map enc_field fs) @ rest"
  shows "\<exists>b'. get_fields fs b = (Ok fs, b') \<and> bytes_inv b' \<and> bytes_content b' = rest"
  using assms
proof (induction fs arbitrary: b)
  case Nil
  then show ?case by simp
next
  case (Cons f fs)
  then obtain c where "get_field f b = (Ok f, c)" "bytes_inv c"
      "bytes_content c = concat (map enc_field fs) @ rest"
    using get_field_enc [of b f "concat (map enc_field fs) @ rest"] by auto
  with Cons.IH [of c] show ?case by auto
qed

fun bm_get_field :: "field \<Rightarrow> BytesMut \<Rightarrow> (field, BytesError) Result \<times> BytesMut" where
  "bm_get_field (FU8 _) b = apfst (map_ok FU8) (bm_get_u8 b)"
| "bm_get_field (FU16be _) b = apfst (map_ok FU16be) (bm_get_u16_be b)"
| "bm_get_field (FU16le _) b = apfst (map_ok FU16le) (bm_get_u16_le b)"
| "bm_get_field (FU32be _) b = apfst (map_ok FU32be) (bm_get_u32_be b)"
| "bm_get_field (FU32le _) b = apfst (map_ok FU32le) (bm_get_u32_le b)"
| "bm_get_field (FU64be _) b = apfst (map_ok FU64be) (bm_get_u64_be b)"
| "bm_get_field (FU64le _) b = apfst (map_ok FU64le) (bm_get_u64_le b)"
| "bm_get_field (FI16be _) b = apfst (map_ok FI16be) (bm_get_i16_be b)"
| "bm_get_field (FI16le _) b = apfst (map_ok FI16le) (bm_get_i16_le b)"
| "bm_get_field (FI32be _) b = apfst (map_ok FI32be) (bm_get_i32_be b)"
| "bm_get_field (FI32le _) b = apfst (map_ok FI32le) (bm_get_i32_le b)"
| "bm_get_field (FI64be _) b = apfst (map_ok FI64be) (bm_get_i64_be b)"
| "bm_get_field (FI64le _) b = apfst (map_ok FI64le) (bm_get_i64_le b)"
| "bm_get_field (FF32be _) b = apfst (map_ok FF32be) (bm_get_f32_be b)"
| "bm_get_field (FF64be _) b = apfst (map_ok FF64be) (bm_get_f64_be b)"
| "bm_get_field (FVar32 _) b = apfst (map_ok FVar32) (bm_get_var_u32 b)"
| "bm_get_field (FVar64 _) b = apfst (map_ok FVar64) (bm_get_var_u64 b)"

lemmas bm_get_defs = bm_get_u8_def bm_get_u16_be_def bm_get_u16_le_def
  bm_get_u32_be_def bm_get_u32_le_def bm_get_u64_be_def bm_get_u64_le_def
  bm_get_i16_be_def bm_get_i16_le_def bm_get_i32_be_def bm_get_i32_le_def
  bm_get_i64_be_def bm_get_i64_le_def bm_get_f32_be_def bm_get_f64_be_def
  bm_get_var_u32_def bm_get_var_u64_def

section \<open>Every operation keeps the invariant\<close>

lemma bm_read_inv:
  assumes "bm_inv b" and "bm_read n load b = (r, b')" and "n \<le> 8"
  shows "bm_inv b'"
proof -
  have "usize_add (bm_pos b) n = bm_pos b + n"
    using assms(1,3) by (intro usize_add_exact) (auto simp: bm_inv_def)
  with assms show ?thesis by (auto simp: bm_read_def bm_inv_def split: if_splits)
qed

lemma bm_read_var_inv:
  assumes "bm_inv b" and "var_width TYPE('w::len) n lim"
    and "bm_read_var n lim b = (r :: ('w word, BytesError) Result, b')"
  shows "bm_inv b'"
proof (cases "var_scan n lim (bm_data b) (bm_len b) (bm_pos b) 0 (0 :: 'w word)")
  case (Err e)
  with assms show ?thesis by (simp add: bm_read_var_def)
next
  case (Ok x)
  obtain v k where x: "x = (v, k)"
    by force
  have "bm_pos b + k \<le> bm_len b"
    using var_scan_canonical [OF Ok [unfolded x]] assms(1,2) by (auto simp: bm_inv_def)
  moreover from this have "usize_add (bm_pos b) k = bm_pos b + k"
    using assms(1) by (intro usize_add_exact) (auto simp: bm_inv_def)
  ultimately show ?thesis
    using assms Ok x by (auto simp: bm_read_var_def bm_inv_def)
qed

lemma bm_get_field_inv: "bm_inv b \<Longrightarrow> bm_get_field f b = (r, b') \<Longrightarrow> bm_inv b'"
  by (cases f)
    (auto simp: bm_get_defs apfst_def map_prod_def split: prod.splits
      dest: bm_read_inv bm_read_var_inv [OF _ var_u32.width] bm_read_var_inv [OF _ var_u64.width])

lemma bm_put_slice_Ok:
  assumes "bm_inv b" and "len \<le> length data" and "bm_put_slice b data len = Ok b'"
  shows "bm_inv b' \<and> bm_pos b' = bm_pos b \<and> bm_written b' = bm_written b @ take len data"
proof (cases "len = 0")
  case True
  with assms show ?thesis by (simp add: bm_put_slice_def)
next
  case False
  with assms(3) obtain c where c: "bm_ensure_writable b len = Ok c"
    and b': "b' = c\<lparr>bm_data := take (bm_len c) (bm_data c) @ take len data @ drop (bm_len c + len) (bm_data c),
              bm_len := usize_add (bm_len c) len\<rparr>"
    by (auto simp: bm_put_slice_def and_then_eq_Ok)
  from bm_ensure_writable_Ok [OF assms(1) c]
  have inv: "bm_inv c" and same: "bm_same b c" and room: "bm_len c + len \<le> bm_capacity c"
    by auto
  then have "usize_add (bm_len c) len = bm_len c + len"
    by (intro usize_add_exact) (auto simp: bm_inv_def)
  with inv same room assms(2) show ?thesis
    unfolding b' by (auto simp: bm_inv_def bm_same_def bm_written_def)
qed

lemma length_fill_loop [simp]: "length (fill_loop p v n) = length p"
  by (induction n) simp_all

lemma take_fill_loop: "n \<le> length p \<Longrightarrow> take n (fill_loop p v n) = replicate n v"
proof (induction n)
  case 0
  then show ?case by simp
next
  case (Suc n)
  then have "take (Suc n) (fill_loop p v (Suc n)) = replicate n v @ [v]"
    by (simp add: take_Suc_update)
  then show ?case by (simp add: replicate_append_same)
qed

text \<open>The operations of the class, as steps of a buffer; an exception leaves it as it was.\<close>

inductive bm_step :: "BytesMut \<Rightarrow> BytesMut \<Rightarrow> bool" where
  put: "put_field b f = Ok b' \<Longrightarrow> bm_step b b'"
| put_slice: "len \<le> length data \<Longrightarrow> bm_put_slice b data len = Ok b' \<Longrightarrow> bm_step b b'"
| get: "bm_get_field f b = (r, b') \<Longrightarrow> bm_step b b'"
| advance: "bm_advance b n = (r, b') \<Longrightarrow> bm_step b b'"
| reserve: "bm_reserve b n = Ok b' \<Longrightarrow> bm_step b b'"
| clear: "bm_step b (bm_clear b)"
| truncate: "bm_step b (bm_truncate b n)"
| fill: "bm_step b (bm_fill b v)"
| freeze: "bm_freeze b = (f, b') \<Longrightarrow> bm_step b b'"

lemma bm_step_inv: "bm_step b b' \<Longrightarrow> bm_inv b \<Longrightarrow> bm_inv b'"
proof (induction rule: bm_step.induct)
  case (advance b n r b')
  have "n \<le> bm_remaining b \<Longrightarrow> usize_add (bm_pos b) n = bm_pos b + n"
    using advance.prems by (intro usize_add_exact) (auto simp: bm_inv_def bm_remaining_def)
  with advance show ?case
    by (auto simp: bm_advance_def bm_inv_def bm_remaining_def split: if_splits)
qed (auto dest: put_field_Ok bm_put_slice_Ok bm_get_field_inv bm_ensure_writable_Ok bm_freeze_content
      simp: bm_reserve_eq, auto simp: bm_inv_def bm_clear_def bm_truncate_def bm_fill_def bm_clone_def)

text \<open>
  The programs over such buffers: \<open>bm_program objs live\<close> holds when some sequence of
  constructions, operations, copies and moves leads to the objects \<open>objs\<close>, of which those
  in \<open>live\<close> have a value.  A program may do anything with a live object; an object that
  has been moved from is only made or assigned again.
\<close>

inductive bm_program :: "(addr \<Rightarrow> BytesMut) \<Rightarrow> addr set \<Rightarrow> bool" where
  start: "bm_program objs {}"
| construct: "bm_program objs live \<Longrightarrow> bm_program (objs(this := bm_empty)) (insert this live)"
| with_capacity: "bm_program objs live \<Longrightarrow> with_capacity cap = Ok b \<Longrightarrow>
    bm_program (objs(this := b)) (insert this live)"
| operate: "bm_program objs live \<Longrightarrow> this \<in> live \<Longrightarrow> bm_step (objs this) b \<Longrightarrow>
    bm_program (objs(this := b)) live"
| copy: "bm_program objs live \<Longrightarrow> other \<in> live \<Longrightarrow>
    bm_program (bm_copy_to this other objs) (insert this live)"
| move: "bm_program objs live \<Longrightarrow> other \<in> live \<Longrightarrow>
    bm_program (bm_move_to this other objs) (insert this (live - {other}))"

lemma bm_clone_inv: "bm_inv b \<Longrightarrow> bm_inv (bm_clone b)"
  by (auto simp: bm_inv_def bm_clone_def)

lemma bm_program_inv: "bm_program objs live \<Longrightarrow> \<forall>this\<in>live. bm_inv (objs this)"
proof (induction rule: bm_program.induct)
  case (construct objs live this)
  then show ?case by (simp add: bm_inv_def bm_empty_def)
next
  case (with_capacity objs live cap b this)
  then show ?case by (auto dest: with_capacity_inv)
next
  case (operate objs live this b)
  then show ?case by (auto dest: bm_step_inv)
next
  case (copy objs live other this)
  then show ?case by (auto simp: bm_copy_to_def intro: bm_clone_inv)
next
  case (move objs live other this)
  then show ?case by (auto simp: bm_move_to_def bm_move_def)
qed simp

text \<open>A moved-from buffer that held something breaks the invariant: it counts bytes it no longer has.\<close>

lemma bm_moved_from_not_inv: "0 < bm_len b \<Longrightarrow> \<not> bm_inv (snd (bm_move b))"
  by (auto simp: bm_move_def bm_inv_def)

section \<open>Zigzag\<close>

text \<open>Both widths of zigzag at once.\<close>

lemma neg_and_one: "- (w AND 1) = (if bit w 0 then - 1 else 0)" for w :: "'a::len word"
  by (simp add: and_one_eq mod_2_eq_odd bit_0)

lemma bit_times_2: "bit (v * 2) n \<longleftrightarrow> n < LENGTH('a) \<and> 0 < n \<and> bit v (n - 1)" for v :: "'a::len word"
  using bit_double_iff [of v n] by (auto simp: mult.commute)

lemma zigzag_dec_enc:
  fixes v :: "'a::len word"
  assumes "LENGTH('a) = Suc k"
  defines "e \<equiv> push_bit 1 v XOR signed_drop_bit k v"
  shows "drop_bit 1 e XOR - (e AND 1) = v"
proof -
  have b: "bit e n \<longleftrightarrow> (0 < n \<and> bit v (n - 1)) \<noteq> bit v k" if "n \<le> k" for n
    using that assms(1) by (auto simp: e_def bit_simps bit_times_2 Suc_le_eq)
  have "bit (drop_bit 1 e XOR - (e AND 1)) n = bit v n" if "n < LENGTH('a)" for n
  proof -
    have "bit (drop_bit 1 e) n = (if n < k then bit v n \<noteq> bit v k else False)"
      using b [of "Suc n"] that assms(1) by (auto simp: bit_simps dest: bit_imp_le_length)
    moreover have "bit (- (e AND 1)) n = bit v k"
      using b [of 0] that by (auto simp: neg_and_one bit_simps)
    ultimately show ?thesis
      using that assms(1) by (auto simp: bit_xor_iff less_Suc_eq)
  qed
  then show ?thesis by (rule bit_word_eqI)
qed

lemma zigzag_enc_dec:
  fixes w :: "'a::len word"
  assumes "LENGTH('a) = Suc k"
  defines "d \<equiv> drop_bit 1 w XOR - (w AND 1)"
  shows "push_bit 1 d XOR signed_drop_bit k d = w"
proof -
  have b: "bit d n \<longleftrightarrow> (n < k \<and> bit w (Suc n)) \<noteq> bit w 0" if "n \<le> k" for n
    using that assms(1) by (auto simp: d_def bit_simps neg_and_one Suc_le_eq dest: bit_imp_le_length)
  have "bit (push_bit 1 d XOR signed_drop_bit k d) n = bit w n" if "n < LENGTH('a)" for n
    using that assms(1) b [of "n - 1"] b [of k] by (cases n) (auto simp: bit_times_2 bit_simps less_Suc_eq)
  then show ?thesis by (rule bit_word_eqI)
qed

lemma zigzag_enc_value:
  fixes v :: "'a::len word"
  assumes "LENGTH('a) = Suc k"
  shows "uint (push_bit 1 v XOR signed_drop_bit k v) = (if sint v < 0 then - 2 * sint v - 1 else 2 * sint v)"
proof -
  have s: "signed_drop_bit k v = (if bit v k then - 1 else 0)"
    using assms by (intro bit_word_eqI) (auto simp: bit_simps Suc_le_eq less_Suc_eq)
  have neg: "bit v k \<longleftrightarrow> sint v < 0"
    using assms by (simp add: bit_last_iff [symmetric])
  have r: "- (2 ^ k) \<le> sint v" "sint v < 2 ^ k"
    using sint_range_size [of v] assms by (auto simp: word_size)
  show ?thesis
  proof (cases "bit v k")
    case True
    then have "push_bit 1 v XOR signed_drop_bit k v = word_of_int (- 2 * sint v - 1)"
      by (simp add: s push_bit_eq_mult not_eq_complement)
    moreover have "take_bit LENGTH('a) (- 2 * sint v - 1) = - 2 * sint v - 1"
      using r True neg assms by (intro take_bit_int_eq_self) auto
    ultimately show ?thesis
      using True neg by (simp only: uint_word_of_int_eq if_True)
  next
    case False
    then have "push_bit 1 v XOR signed_drop_bit k v = word_of_int (2 * sint v)"
      by (simp add: s push_bit_eq_mult)
    moreover have "take_bit LENGTH('a) (2 * sint v) = 2 * sint v"
      using r False neg assms by (intro take_bit_int_eq_self) auto
    ultimately show ?thesis
      using False neg by (simp only: uint_word_of_int_eq if_False)
  qed
qed

lemma var_scan_reject:
  assumes "i < n" and "i < usize_sub len pos"
    and "0 < i \<and> p ! (pos + i) = 0 \<or> i = n - 1 \<and> lim < p ! (pos + i)"
  shows "var_scan n lim p len pos i r = Err MalformedVarint"
proof -
  have room: "(i \<ge> usize_sub len pos) = False" and lt: "(i < n) = True"
    using assms(1,2) by simp_all
  show ?thesis
  proof (cases "0 < i \<and> p ! (pos + i) = 0")
    case True
    then show ?thesis
      unfolding var_scan.simps [of n lim p len pos i r] Let_def room lt by simp
  next
    case False
    with assms(3) have top: "(i = n - 1 \<and> lim < p ! (pos + i)) = True" and "(0 < i \<and> p ! (pos + i) = 0) = False"
      by blast+
    then show ?thesis
      unfolding var_scan.simps [of n lim p len pos i r] Let_def room lt by (simp only: if_True if_False)
  qed
qed

lemma var_scan_underflow_iff:
  fixes r :: "'w::len word"
  assumes "i \<le> len - pos" and "pos \<le> len" and "len \<le> PTRDIFF_MAX" and "unat lim < 128" and "0 < n"
  shows "var_scan n lim p len pos i r = Err Underflow \<longleftrightarrow>
    len - pos < n \<and> (\<forall>j. i \<le> j \<and> j < len - pos \<longrightarrow> 128 \<le> unat (p ! (pos + j)))"
  using assms
proof (induction n lim p len pos i r rule: var_scan.induct)
  case (1 n lim p len pos i r)
  let ?b = "p ! (pos + i)"
  have u: "usize_sub len pos = len - pos"
    using "1.prems"(2,3) by simp
  consider (full) "n \<le> i" | (out) "i < n" "i = len - pos"
    | (bad) "i < n" "i < len - pos" "0 < i \<and> ?b = 0 \<or> i = n - 1 \<and> lim < ?b"
    | (go) "i < n" "i < len - pos" "\<not> (0 < i \<and> ?b = 0)" "\<not> (i = n - 1 \<and> lim < ?b)"
    using "1.prems"(1) by linarith
  then show ?case
  proof cases
    case full
    with "1.prems"(1) show ?thesis by (simp add: var_scan.simps [of n lim p len pos i r])
  next
    case out
    then have "var_scan n lim p len pos i r = Err Underflow"
      by (subst var_scan.simps) (simp add: u)
    with out show ?thesis by simp
  next
    case bad
    then have "var_scan n lim p len pos i r = Err MalformedVarint"
      by (intro var_scan_reject) (simp_all add: u)
    moreover have "\<not> (len - pos < n \<and> 128 \<le> unat ?b)"
      using bad by auto
    ultimately show ?thesis using bad by auto
  next
    case go
    have all: "(\<forall>j. i \<le> j \<and> j < len - pos \<longrightarrow> 128 \<le> unat (p ! (pos + j))) \<longleftrightarrow>
        128 \<le> unat ?b \<and> (\<forall>j. Suc i \<le> j \<and> j < len - pos \<longrightarrow> 128 \<le> unat (p ! (pos + j)))"
      using go(2) by (metis Suc_leD Suc_leI le_neq_implies_less order_refl)
    have room: "\<not> usize_sub len pos \<le> i"
      using u go(2) by simp
    show ?thesis
      unfolding all var_scan_step [OF go(1) room go(3,4)]
      using "1.IH" [OF go(1) _ refl go(3,4) refl, unfolded u] go "1.prems"
      by (auto simp: Let_def u8_and_128 not_less)
  qed
qed

lemma drop_take_all_nth:
  assumes "i \<le> j" and "j \<le> length p"
  shows "(\<forall>x\<in>set (drop i (take j p)). P x) \<longleftrightarrow> (\<forall>k < j - i. P (p ! (i + k)))"
proof -
  have "drop i (take j p) = map (\<lambda>k. p ! (i + k)) [0..<j - i]"
    using assms by (intro nth_equalityI) auto
  then show ?thesis by auto
qed

lemma put_field_room:
  assumes "bm_inv b" and "bm_len b + 10 \<le> bm_capacity b"
  shows "\<exists>b'. put_field b f = Ok b'"
  using assms by (cases f) (auto simp: put_defs intro: u8.put_room [simplified] u16_be.put_room u16_le.put_room
     u32_be.put_room u32_le.put_room u64_be.put_room u64_le.put_room var_u32.put_room var_u64.put_room)

lemma put_field_len:
  assumes "bm_inv b" and "put_field b f = Ok b'"
  shows "bm_len b' \<le> bm_len b + 10 \<and> bm_capacity b \<le> bm_capacity b'"
proof -
  have "length (enc_field f) \<le> 10"
    using var_u32.length_enc var_u64.length_enc
    by (cases f) (auto simp: enc_defs intro: order_trans [of _ 5])
  with assms show ?thesis
    by (cases f) (auto simp: put_defs dest: codec_put_Ok)
qed

lemma put_fields_room:
  assumes "bm_inv b" and "bm_len b + 10 * length fs \<le> bm_capacity b"
  shows "\<exists>b'. put_all put_field b fs = Ok b'"
  using assms
proof (induction fs arbitrary: b)
  case Nil
  then show ?case by simp
next
  case (Cons f fs)
  then obtain c where c: "put_field b f = Ok c"
    using put_field_room [of b f] by auto
  with put_field_Ok [OF Cons.prems(1) c] put_field_len [OF Cons.prems(1) c] Cons.IH [of c] Cons.prems(2)
  show ?case by simp
qed

section \<open>Appending byte strings\<close>

lemma put_all_append:
  "put_all put b (xs @ ys) = and_then (put_all put b xs) (\<lambda>b. put_all put b ys)"
  by (induction xs arbitrary: b) (simp_all add: and_then_assoc)

lemma concat_enc_u8 [simp]: "concat (map enc_u8 xs) = xs"
  by (induction xs) (simp_all add: enc_u8_def)

lemma with_capacity_total: "cap \<le> PTRDIFF_MAX \<Longrightarrow> \<exists>b. with_capacity cap = Ok b"
  by (cases "cap = 0") (simp_all add: with_capacity_def new_u8_def)

lemma put_u8s_room:
  assumes "bm_inv b" and "bm_len b + length xs \<le> bm_capacity b"
  obtains b' where "put_all bm_put_u8 b xs = Ok b'" "bm_inv b'" "bm_pos b' = bm_pos b"
    "bm_written b' = bm_written b @ xs" "bm_len b' = bm_len b + length xs"
    "bm_capacity b \<le> bm_capacity b'"
proof -
  obtain b' where b': "put_all bm_put_u8 b xs = Ok b'"
    using u8.put_all_room [of b xs] assms by (auto simp: bm_put_u8_def)
  have "bm_capacity b \<le> bm_capacity b'"
    using b' assms(1)
  proof (induction xs arbitrary: b)
    case (Cons x xs)
    then obtain c where c: "bm_put_u8 b x = Ok c" "put_all bm_put_u8 c xs = Ok b'"
      by (auto simp: and_then_eq_Ok)
    from Cons.IH [OF c(2)] u8.put_Ok [OF Cons.prems(2)] c(1) show ?case
      by (fastforce simp: bm_put_u8_def)
  qed simp
  moreover have w: "bm_inv b'" "bm_pos b' = bm_pos b" "bm_written b' = bm_written b @ xs"
    using u8.put_all_Ok [OF assms(1), of xs b'] b' by (auto simp: bm_put_u8_def)
  moreover have "bm_len b' = length (bm_written b')" "bm_len b = length (bm_written b)"
    using w(1) assms(1) by (auto simp: bm_written_def bm_inv_def)
  ultimately show ?thesis using that b' by simp
qed

section \<open>Properties\<close>

text \<open>C1: Whatever typed fields are written to a fresh buffer with ten bytes of capacity
  per field (fixed-width integers in either byte order, floats, varints, in any
  combination), no write throws, and freezing the buffer and reading fields of the
  same types returns the same values, with every byte consumed.\<close>

theorem fields_roundtrip:
  assumes "with_capacity cap = Ok b" and "10 * length fs \<le> cap"
  shows "\<exists>b' r. put_all put_field b fs = Ok b'
    \<and> get_fields fs (fst (bm_freeze b')) = (Ok fs, r) \<and> bytes_content r = []"
proof -
  note i = with_capacity_inv [OF assms(1)]
  with assms(2) obtain b' where b': "put_all put_field b fs = Ok b'"
    using put_fields_room [of b fs] by auto
  obtain f c where f: "bm_freeze b' = (f, c)"
    by force
  with i put_fields_Ok [OF _ b'] have "bytes_inv f" "bytes_content f = concat (map enc_field fs) @ []"
    using bm_freeze_content [of b' f c] by auto
  from get_fields_enc [OF this] b' f show ?thesis by auto
qed

theorem fields_roundtrip_witness:
  "\<exists>b' r. put_all put_field (bm_empty\<lparr>bm_data := replicate 40 0, bm_capacity := 40\<rparr>)
      [FU16be 0x1234, FVar32 300, FI64le (-1), FU8 7] = Ok b'
    \<and> get_fields [FU16be 0x1234, FVar32 300, FI64le (-1), FU8 7] (fst (bm_freeze b'))
        = (Ok [FU16be 0x1234, FVar32 300, FI64le (-1), FU8 7], r) \<and> bytes_content r = []"
  by (rule fields_roundtrip [of 40]) (simp_all add: with_capacity_def new_u8_def)

text \<open>C3: \<^verbatim>\<open>get_var_u32\<close> accepts canonical encodings only: whenever it returns a value, the
  bytes it consumed are exactly the LEB128 encoding of that value.\<close>

theorem varint_u32_accepts_canonical_only:
  assumes "bytes_inv b" and "bytes_get_var_u32 b = (Ok v, b')"
  shows "bytes_content b = leb128 (unat v) @ bytes_content b'"
  using assms unfolding bytes_get_var_u32_def by (rule var_u32.bytes_read_var_canonical)

theorem varint_u32_accepts_canonical_only_witness:
  "bytes_content (from_static [0xAC, 0x02, 0x07] 3) = leb128 (unat (300 :: u32)) @ [0x07]"
proof -
  have "bytes_get_var_u32 (from_static [0xAC, 0x02, 0x07] 3)
      = (Ok 300, (from_static [0xAC, 0x02, 0x07] 3)\<lparr>b_pos := 2\<rparr>)"
    by (simp add: bytes_get_var_u32_def bytes_read_var_def from_static_def var_scan.simps)
  from varint_u32_accepts_canonical_only [OF _ this] show ?thesis
    by (simp add: bytes_inv_def from_static_def bytes_content_def)
qed

text \<open>C4: A failed \<^verbatim>\<open>get_var_u32\<close> leaves the cursor where it was, and it reports
  \<^verbatim>\<open>Underflow\<close> exactly when the remaining input is a truncated varint: fewer than five
  bytes, each with its continuation bit set.  Every other failure is \<^verbatim>\<open>MalformedVarint\<close>.\<close>

theorem varint_u32_errors:
  assumes "bytes_inv b" and "bytes_get_var_u32 b = (Err e, b')"
  shows "b' = b \<and> (e = Underflow \<longleftrightarrow>
    length (bytes_content b) < 5 \<and> (\<forall>x\<in>set (bytes_content b). 128 \<le> unat x))"
proof -
  have s: "var_scan 5 0x0F (b_ptr b) (b_len b) (b_pos b) 0 (0 :: u32) = Err e" and b': "b' = b"
    using assms(2) by (auto simp: bytes_get_var_u32_def bytes_read_var_def split: Result.splits)
  have "e = Underflow \<longleftrightarrow> var_scan 5 0x0F (b_ptr b) (b_len b) (b_pos b) 0 (0 :: u32) = Err Underflow"
    using s by simp
  also have "\<dots> \<longleftrightarrow> length (bytes_content b) < 5 \<and> (\<forall>x\<in>set (bytes_content b). 128 \<le> unat x)"
    using assms(1) by (subst var_scan_underflow_iff)
      (auto simp: bytes_inv_def bytes_content_def drop_take_all_nth)
  finally show ?thesis using b' by blast
qed

theorem varint_u32_errors_witness:
  "bytes_get_var_u32 (from_static [0x80, 0x80] 2) = (Err Underflow, from_static [0x80, 0x80] 2)
   \<and> length (bytes_content (from_static [0x80, 0x80] 2)) < 5"
proof -
  have h: "bytes_get_var_u32 (from_static [0x80, 0x80] 2) = (Err Underflow, from_static [0x80, 0x80] 2)"
    by (simp add: bytes_get_var_u32_def bytes_read_var_def from_static_def var_scan.simps)
  from varint_u32_errors [OF _ h] show ?thesis
    by (simp add: h) (simp add: bytes_inv_def from_static_def bytes_content_def)
qed

text \<open>C2: In every program that makes, copies, moves and uses byte buffers, and uses no
  moved-from buffer except to assign to it, every live buffer has its cursor within the written
  bytes and the written bytes within the block it owns.\<close>

theorem bytes_mut_memory_safe:
  assumes "bm_program objs live" and "this \<in> live"
  shows "bm_pos (objs this) \<le> bm_len (objs this) \<and> bm_len (objs this) \<le> bm_capacity (objs this)
    \<and> length (bm_data (objs this)) = bm_capacity (objs this)"
  using bm_program_inv [OF assms(1)] assms(2) by (simp add: bm_inv_def)

text \<open>
  One byte of capacity, two bytes written (the second grows the block), one read, the buffer
  moved to another object and written there, and the moved-from object assigned again.
\<close>

theorem bytes_mut_memory_safe_witness:
  "\<exists>objs :: addr \<Rightarrow> BytesMut. bm_written (objs 0) = [5, 6, 7] \<and> bm_pos (objs 0) = 1 \<and> bm_written (objs 1) = [5, 6, 7]
     \<and> bm_len (objs 0) \<le> bm_capacity (objs 0) \<and> length (bm_data (objs 0)) = bm_capacity (objs 0)
     \<and> bm_len (objs 1) \<le> bm_capacity (objs 1) \<and> length (bm_data (objs 1)) = bm_capacity (objs 1)"
proof -
  define s0 where "s0 = \<lparr>bm_data = [0], bm_len = 0, bm_capacity = 1, bm_pos = 0\<rparr>"
  define s1 where "s1 = \<lparr>bm_data = [5], bm_len = 1, bm_capacity = 1, bm_pos = 0\<rparr>"
  define s2 where "s2 = \<lparr>bm_data = 5 # 6 # replicate 30 0, bm_len = 2, bm_capacity = 32, bm_pos = 0\<rparr>"
  define s3 where "s3 = s2\<lparr>bm_pos := 1\<rparr>"
  define s4 where "s4 = \<lparr>bm_data = 5 # 6 # 7 # replicate 29 0, bm_len = 3, bm_capacity = 32, bm_pos = 1\<rparr>"
  note put = bm_put_u8_def bm_store_def bm_ensure_writable_def bm_grow_def new_u8_def
  have tail: "replicate 31 0 = (0 :: u8) # replicate 30 0" "replicate 30 0 = (0 :: u8) # replicate 29 0"
    by (simp_all add: numeral_eq_Suc)
  have put_u8: "bm_put_u8 s0 5 = Ok s1" "bm_put_u8 s1 6 = Ok s2" "bm_put_u8 s3 7 = Ok s4"
    using tail by (simp_all add: put s0_def s1_def s2_def s3_def s4_def)
  have advance: "snd (bm_advance s2 1) = s3"
    by (simp add: s3_def s2_def bm_advance_def bm_remaining_def)
  define objs where "objs = (\<lambda>a :: addr. bm_empty)"
  define objs' where "objs' = bm_copy_to 0 1 ((bm_move_to 1 0 (objs(0 := s3)))(1 := s4))"
  have step: "bm_step s0 s1" "bm_step s1 s2" "bm_step s2 s3" "bm_step s3 s4"
    using bm_step.put [of s0 "FU8 5" s1] bm_step.put [of s1 "FU8 6" s2]
      bm_step.advance [of s2 1 "fst (bm_advance s2 1)" s3] bm_step.put [of s3 "FU8 7" s4]
    using advance by (simp_all add: put_u8 prod_eq_iff)
  have "bm_program (objs(0 := s0)) {0}"
    using bm_program.with_capacity [OF bm_program.start, of 1 s0 objs 0]
    by (simp add: s0_def with_capacity_def new_u8_def bm_empty_def)
  from bm_program.operate [OF this, of 0 s1] have "bm_program (objs(0 := s1)) {0}"
    by (simp add: step)
  from bm_program.operate [OF this, of 0 s2] have "bm_program (objs(0 := s2)) {0}"
    by (simp add: step)
  from bm_program.operate [OF this, of 0 s3] have "bm_program (objs(0 := s3)) {0}"
    by (simp add: step)
  from bm_program.move [OF this, of 0 1] have "bm_program (bm_move_to 1 0 (objs(0 := s3))) {1}"
    by simp
  from bm_program.operate [OF this, of 1 s4]
  have "bm_program ((bm_move_to 1 0 (objs(0 := s3)))(1 := s4)) {1}"
    by (simp add: step bm_move_to_def bm_move_def)
  from bm_program.copy [OF this, of 1 0] have prog: "bm_program objs' {0, 1}"
    by (simp add: objs'_def)
  have "bm_written (objs' 0) = [5, 6, 7] \<and> bm_pos (objs' 0) = 1 \<and> bm_written (objs' 1) = [5, 6, 7]"
    by (simp add: objs'_def bm_copy_to_def bm_clone_def s4_def bm_written_def)
  with bytes_mut_memory_safe [OF prog, of 0] bytes_mut_memory_safe [OF prog, of 1]
  show ?thesis by blast
qed

text \<open>Zigzag maps the signed 32-bit integers one-to-one onto the unsigned ones, and
  integers of small magnitude to small numbers: \<open>n \<ge> 0\<close> to \<open>2n\<close> and \<open>n < 0\<close> to
  \<open>-2n - 1\<close>.\<close>

theorem zigzag32_bijective:
  "zigzag_decode32 (zigzag_encode32 v) = v \<and> zigzag_encode32 (zigzag_decode32 w) = w
   \<and> uint (zigzag_encode32 v) = (if sint v < 0 then - 2 * sint v - 1 else 2 * sint v)"
  unfolding zigzag_decode32_def zigzag_encode32_def
  using zigzag_dec_enc [of 31 v] zigzag_enc_dec [of 31 w] zigzag_enc_value [of 31 v]
  by (simp only: len_of_numeral_defs)

end
