(* ===== verification/Crypto_Text.thy ===== *)
theory Crypto_Text
  imports Core_Bytes
begin

text \<open>
  The text encodings of \<^verbatim>\<open>libca/crypto/src/libca/crypto\<close>: \<^verbatim>\<open>hex.cpp\<close>,
  \<^verbatim>\<open>base64.cpp\<close>, \<^verbatim>\<open>base32.cpp\<close>, and the byte-string helpers of
  \<^verbatim>\<open>crypto_util.cpp\<close>.  A \<^verbatim>\<open>std::string\<close> is a HOL string, a \<open>ByteSlice\<close>
  argument the list of the bytes it views.  The integer expressions are those of the
  source after promotion, on \<^typ>\<open>int\<close>.  A decoder writes to a \<open>BytesMut\<close>, so its
  outer result is the exception of the allocation and its inner one the \<open>CryptoError\<close>.
\<close>

datatype CryptoError = INVALID_ARGUMENT | INVALID_HEX | INVALID_BASE64 | INVALID_BASE32
  | RANDOM_FAILED | UNSUPPORTED_ALGORITHM | AUTHENTICATION_FAILED | BACKEND_FAILED

type_synonym 'a fallible = "(('a, CryptoError) Result, BytesExn) Result"

definition crypto_error_to_string :: "CryptoError \<Rightarrow> string" where
  "crypto_error_to_string e =
     (case e of
        INVALID_ARGUMENT \<Rightarrow> ''invalid argument''
      | INVALID_HEX \<Rightarrow> ''invalid hex input''
      | INVALID_BASE64 \<Rightarrow> ''invalid base64 input''
      | INVALID_BASE32 \<Rightarrow> ''invalid base32 input''
      | RANDOM_FAILED \<Rightarrow> ''secure random generation failed''
      | UNSUPPORTED_ALGORITHM \<Rightarrow> ''unsupported algorithm''
      | AUTHENTICATION_FAILED \<Rightarrow> ''authentication failed''
      | BACKEND_FAILED \<Rightarrow> ''backend operation failed'')"

text \<open>\<^verbatim>\<open>return Ok(output.freeze())\<close> at the end of a decoder.\<close>

definition frozen :: "BytesMut fallible \<Rightarrow> Bytes fallible" where
  "frozen r = map_ok (map_ok (\<lambda>output. fst (bm_freeze output))) r"

section \<open>Hexadecimal\<close>

definition from_hex :: "char \<Rightarrow> int" where
  "from_hex ch =
     (let c = of_char ch in
      if of_char (CHR ''0'') \<le> c \<and> c \<le> of_char (CHR ''9'') then c - of_char (CHR ''0'')
      else if of_char (CHR ''a'') \<le> c \<and> c \<le> of_char (CHR ''f'') then c - of_char (CHR ''a'') + 10
      else if of_char (CHR ''A'') \<le> c \<and> c \<le> of_char (CHR ''F'') then c - of_char (CHR ''A'') + 10
      else -1)"

definition HEX :: string where
  "HEX = ''0123456789abcdef''"

fun hex_encode :: "u8 list \<Rightarrow> string" where
  "hex_encode [] = []"
| "hex_encode (byte # data) =
     HEX ! nat (drop_bit 4 (uint byte) AND 0x0F) # HEX ! nat (uint byte AND 0x0F) # hex_encode data"

fun hex_decode_loop :: "BytesMut \<Rightarrow> string \<Rightarrow> BytesMut fallible" where
  "hex_decode_loop output [] = Ok (Ok output)"
| "hex_decode_loop output [_] = Ok (Err INVALID_HEX)"
| "hex_decode_loop output (c0 # c1 # text) =
     (let high = from_hex c0; low = from_hex c1 in
      if high < 0 \<or> low < 0 then Ok (Err INVALID_HEX)
      else and_then (bm_put_u8 output (word_of_int (push_bit 4 high OR low)))
             (\<lambda>output. hex_decode_loop output text))"

definition hex_decode :: "string \<Rightarrow> Bytes fallible" where
  "hex_decode text =
     (if length text mod 2 \<noteq> 0 then Ok (Err INVALID_HEX)
      else frozen (and_then (with_capacity (length text div 2)) (\<lambda>output. hex_decode_loop output text)))"

section \<open>Base64\<close>

definition kBase64Chars :: string where
  "kBase64Chars = ''ABCDEFGHIJKLMNOPQRSTUVWXYZabcdefghijklmnopqrstuvwxyz0123456789+/''"

definition kBase64Pad :: char where
  "kBase64Pad = CHR ''=''"

text \<open>The reverse tables are filled by a loop over the alphabet.\<close>

definition reverse_table :: "string \<Rightarrow> int list" where
  "reverse_table cs =
     fold (\<lambda>i m. m[of_char (cs ! i) := int i]) [0..<length cs] (replicate 256 (-1))"

definition base64_char_index :: "char \<Rightarrow> int" where
  "base64_char_index c = reverse_table kBase64Chars ! of_char c"

definition base64_sym :: "int \<Rightarrow> char" where
  "base64_sym i = kBase64Chars ! nat i"

text \<open>One round of the loop for a group of three, two or one remaining bytes.\<close>

fun base64_encode :: "u8 list \<Rightarrow> string" where
  "base64_encode [] = []"
| "base64_encode [first] =
     [base64_sym (drop_bit 2 (uint first) AND 0x3F),
      base64_sym (push_bit 4 (uint first AND 0x3)),
      kBase64Pad, kBase64Pad]"
| "base64_encode [first, second] =
     [base64_sym (drop_bit 2 (uint first) AND 0x3F),
      base64_sym (push_bit 4 (uint first AND 0x3) OR (drop_bit 4 (uint second) AND 0xF)),
      base64_sym (push_bit 2 (uint second AND 0xF)),
      kBase64Pad]"
| "base64_encode (first # second # third # src) =
     [base64_sym (drop_bit 2 (uint first) AND 0x3F),
      base64_sym (push_bit 4 (uint first AND 0x3) OR (drop_bit 4 (uint second) AND 0xF)),
      base64_sym (push_bit 2 (uint second AND 0xF) OR (drop_bit 6 (uint third) AND 0x3)),
      base64_sym (uint third AND 0x3F)] @ base64_encode src"

text \<open>The bytes of one group of four characters; \<open>at_end\<close> says that it ends the input.\<close>

definition base64_group :: "bool \<Rightarrow> char \<Rightarrow> char \<Rightarrow> char \<Rightarrow> char \<Rightarrow> BytesMut \<Rightarrow> BytesMut fallible" where
  "base64_group at_end c0 c1 c2 c3 output =
     (let b0 = base64_char_index c0; b1 = base64_char_index c1;
          pad2 = (c2 = kBase64Pad); pad3 = (c3 = kBase64Pad) in
      if b0 < 0 \<or> b1 < 0 then Ok (Err INVALID_BASE64)
      else if pad2 \<and> \<not> pad3 then Ok (Err INVALID_BASE64)
      else if (pad2 \<or> pad3) \<and> \<not> at_end then Ok (Err INVALID_BASE64)
      else if pad2 \<and> b1 AND 0x0F \<noteq> 0 then Ok (Err INVALID_BASE64)
      else and_then (bm_put_u8 output (word_of_int (push_bit 2 b0 OR (drop_bit 4 b1 AND 0x03)))) (\<lambda>output.
        if pad2 then Ok (Ok output)
        else let b2 = base64_char_index c2 in
          if b2 < 0 then Ok (Err INVALID_BASE64)
          else if pad3 \<and> b2 AND 0x03 \<noteq> 0 then Ok (Err INVALID_BASE64)
          else and_then
             (bm_put_u8 output (word_of_int (push_bit 4 (b1 AND 0x0F) OR (drop_bit 2 b2 AND 0x0F)))) (\<lambda>output.
            if pad3 then Ok (Ok output)
            else let b3 = base64_char_index c3 in
              if b3 < 0 then Ok (Err INVALID_BASE64)
              else map_ok Ok (bm_put_u8 output (word_of_int (push_bit 6 (b2 AND 0x03) OR b3))))))"

fun base64_decode_loop :: "BytesMut \<Rightarrow> string \<Rightarrow> BytesMut fallible" where
  "base64_decode_loop output (c0 # c1 # c2 # c3 # src) =
     and_then (base64_group (src = []) c0 c1 c2 c3 output) (\<lambda>r.
       case r of Err e \<Rightarrow> Ok (Err e) | Ok output \<Rightarrow> base64_decode_loop output src)"
| "base64_decode_loop output _ = Ok (Ok output)"

definition base64_decode :: "string \<Rightarrow> Bytes fallible" where
  "base64_decode src =
     (if length src mod 4 \<noteq> 0 then Ok (Err INVALID_BASE64)
      else frozen (and_then (with_capacity (usize_mul (length src) 3 div 4))
             (\<lambda>output. base64_decode_loop output src)))"

section \<open>Base32\<close>

definition kBase32Chars :: string where
  "kBase32Chars = ''ABCDEFGHIJKLMNOPQRSTUVWXYZ234567''"

definition kBase32Pad :: char where
  "kBase32Pad = CHR ''=''"

definition base32_char_index :: "char \<Rightarrow> int" where
  "base32_char_index c = reverse_table kBase32Chars ! of_char c"

text \<open>\<^verbatim>\<open>kBase32Chars[(acc >> s) & 0x1F]\<close> for each of the shifts.\<close>

definition base32_syms :: "u64 \<Rightarrow> nat list \<Rightarrow> string" where
  "base32_syms acc shifts = map (\<lambda>s. kBase32Chars ! unat (drop_bit s acc AND 0x1F)) shifts"

text \<open>\<^verbatim>\<open>acc = (acc << 8) | byte\<close> over a list of bytes, from zero.\<close>

definition acc_bytes :: "u8 list \<Rightarrow> u64" where
  "acc_bytes bs = foldl (\<lambda>acc b. push_bit 8 acc OR ucast b) 0 bs"

definition base32_tail :: "u8 list \<Rightarrow> bool \<Rightarrow> string" where
  "base32_tail src padding =
     (let tail_len = length src in
      if tail_len \<noteq> 0 then
        let acc = push_bit (8 * (5 - tail_len)) (acc_bytes src);
            out_chars = (tail_len * 8 + 4) div 5
        in base32_syms acc (map (\<lambda>c. 35 - 5 * c) [0..<out_chars])
           @ (if padding then replicate (8 - out_chars) kBase32Pad else [])
      else [])"

fun base32_encode :: "u8 list \<Rightarrow> bool \<Rightarrow> string" where
  "base32_encode (s0 # s1 # s2 # s3 # s4 # src) padding =
     (let acc = push_bit 32 (ucast s0) OR push_bit 24 (ucast s1) OR push_bit 16 (ucast s2)
                  OR push_bit 8 (ucast s3) OR ucast s4
      in base32_syms acc (map (\<lambda>j. 5 * j) (rev [0..<8]))) @ base32_encode src padding"
| "base32_encode src padding = base32_tail src padding"

text \<open>\<^verbatim>\<open>acc = (acc << 5) | v\<close> over a list of characters, \<open>None\<close> on an invalid one.\<close>

fun acc_syms :: "u64 \<Rightarrow> string \<Rightarrow> u64 option" where
  "acc_syms acc [] = Some acc"
| "acc_syms acc (c # cs) =
     (let v = base32_char_index c in
      if v < 0 then None else acc_syms (push_bit 5 acc OR word_of_int v) cs)"

text \<open>\<^verbatim>\<open>output.put_u8((acc >> s) & 0xFF)\<close> for each of the shifts.\<close>

fun put_shifts :: "BytesMut \<Rightarrow> u64 \<Rightarrow> nat list \<Rightarrow> (BytesMut, BytesExn) Result" where
  "put_shifts output acc [] = Ok output"
| "put_shifts output acc (s # shifts) =
     and_then (bm_put_u8 output (ucast (drop_bit s acc AND 0xFF))) (\<lambda>output. put_shifts output acc shifts)"

definition base32_decode_tail :: "BytesMut \<Rightarrow> string \<Rightarrow> BytesMut fallible" where
  "base32_decode_tail output src =
     (let n = length src in
      if n = 0 then Ok (Ok output)
      else case acc_syms 0 src of
        None \<Rightarrow> Ok (Err INVALID_BASE32)
      | Some acc \<Rightarrow>
          let total_bits = n * 5; unused_bits = total_bits mod 8 in
          if unused_bits \<noteq> 0 \<and> acc AND (push_bit unused_bits 1 - 1) \<noteq> 0 then Ok (Err INVALID_BASE32)
          else map_ok Ok (put_shifts output (push_bit (5 * (8 - n)) acc)
                 (map (\<lambda>b. 32 - 8 * b) [0..<total_bits div 8])))"

fun base32_decode_loop :: "BytesMut \<Rightarrow> string \<Rightarrow> BytesMut fallible" where
  "base32_decode_loop output (c0 # c1 # c2 # c3 # c4 # c5 # c6 # c7 # src) =
     (case acc_syms 0 [c0, c1, c2, c3, c4, c5, c6, c7] of
        None \<Rightarrow> Ok (Err INVALID_BASE32)
      | Some acc \<Rightarrow>
          and_then (put_shifts output acc (map (\<lambda>b. 8 * b) (rev [0..<5])))
            (\<lambda>output. base32_decode_loop output src))"
| "base32_decode_loop output src = base32_decode_tail output src"

definition base32_data_len :: "string \<Rightarrow> usize" where
  "base32_data_len src = length (takeWhile (\<lambda>c. c \<noteq> kBase32Pad) src)"

definition base32_decode :: "string \<Rightarrow> Bytes fallible" where
  "base32_decode src =
     (let len = length src; data_len = base32_data_len src; group_rem = data_len mod 8 in
      if data_len \<noteq> len \<and>
         ((\<exists>c\<in>set (drop data_len src). c \<noteq> kBase32Pad)
          \<or> group_rem = 0 \<or> group_rem = 1 \<or> group_rem = 3 \<or> group_rem = 6
          \<or> 8 - group_rem \<noteq> len - data_len)
      then Ok (Err INVALID_BASE32)
      else if data_len = len \<and> (len mod 8 = 1 \<or> len mod 8 = 3 \<or> len mod 8 = 6)
      then Ok (Err INVALID_BASE32)
      else frozen (and_then (with_capacity (usize_mul data_len 5 div 8 + 1))
             (\<lambda>output. base32_decode_loop output (take data_len src))))"

section \<open>Byte-string helpers\<close>

definition constant_time_eq :: "u8 list \<Rightarrow> u8 list \<Rightarrow> bool" where
  "constant_time_eq lhs rhs =
     (if length lhs \<noteq> length rhs then False
      else fold (\<lambda>(l, r) diff. diff OR (l XOR r)) (zip lhs rhs) 0 = 0)"

fun secure_zero :: "u8 list \<Rightarrow> usize \<Rightarrow> u8 list" where
  "secure_zero p 0 = p"
| "secure_zero p (Suc i) = (secure_zero p i)[i := 0]"

end
