(* ===== verification/Crypto_Text_Props.thy ===== *)
theory Crypto_Text_Props
  imports Core_Bytes_Codec Crypto_Text
begin

text \<open>
  Correctness of the text encodings.  The locale \<open>text_codec\<close> states the contract of an
  encoder and its strict decoder over a byte buffer and derives the round trip, the
  rejection of everything else and the canonicity of accepted input; hex, Base64 and
  Base32 interpret it.
\<close>

unbundle bit_operations_syntax

text \<open>Up to this length no capacity computation of a decoder wraps around.\<close>

abbreviation TEXT_MAX :: nat where "TEXT_MAX \<equiv> SIZE_MAX div 5"

text \<open>
  The contract of a text encoding: \<open>dec\<close> is what a string stands for, \<open>loop\<close> the
  decoder's loop over a buffer with \<open>cap\<close> bytes of room, \<open>wf\<close> the length checks made first.
\<close>

locale text_codec =
  fixes enc :: "u8 list \<Rightarrow> string"
    and dec :: "string \<Rightarrow> u8 list option"
    and wf :: "string \<Rightarrow> bool"
    and cap :: "string \<Rightarrow> nat"
    and body :: "string \<Rightarrow> string"
    and loop :: "BytesMut \<Rightarrow> string \<Rightarrow> BytesMut fallible"
    and decode :: "string \<Rightarrow> Bytes fallible"
    and canon :: "string \<Rightarrow> string"
    and err :: CryptoError
  assumes decode_eq: "decode t =
      (if wf t then frozen (and_then (with_capacity (cap t)) (\<lambda>b. loop b (body t))) else Ok (Err err))"
    and dec_wf: "dec t = Some xs \<Longrightarrow> wf t"
    and cap_max: "length t \<le> TEXT_MAX \<Longrightarrow> cap t \<le> PTRDIFF_MAX"
    and dec_cap: "dec t = Some xs \<Longrightarrow> length t \<le> TEXT_MAX \<Longrightarrow> length xs \<le> cap t"
    and loop_Some: "dec t = Some xs \<Longrightarrow> loop b (body t) = map_ok Ok (put_all bm_put_u8 b xs)"
    and loop_None: "dec t = None \<Longrightarrow> wf t \<Longrightarrow> length t \<le> TEXT_MAX \<Longrightarrow> bm_inv b \<Longrightarrow> bm_len b + cap t \<le> bm_capacity b
      \<Longrightarrow> loop b (body t) = Ok (Err err)"
    and dec_enc: "dec (enc xs) = Some xs"
    and enc_dec: "dec t = Some xs \<Longrightarrow> enc xs = canon t"
begin

lemma decode_Some:
  assumes "dec t = Some xs" and "length t \<le> TEXT_MAX"
  shows "\<exists>b. decode t = Ok (Ok b) \<and> bytes_inv b \<and> bytes_content b = xs"
proof -
  obtain b where b: "with_capacity (cap t) = Ok b"
    using with_capacity_total [OF cap_max [OF assms(2)]] by blast
  from with_capacity_inv [OF b] have i: "bm_inv b" "bm_len b = 0" "bm_pos b = 0" "bm_written b = []"
    "cap t \<le> bm_capacity b" by (auto simp: bm_written_def)
  with dec_cap [OF assms] obtain b' where b': "put_all bm_put_u8 b xs = Ok b'" "bm_inv b'"
      "bm_pos b' = 0" "bm_written b' = xs"
    by (elim put_u8s_room [of b xs]) auto
  have "decode t = Ok (Ok (fst (bm_freeze b')))"
    using b b'(1) loop_Some [OF assms(1)] dec_wf [OF assms(1)]
    by (simp add: decode_eq frozen_def)
  with bm_freeze_content [OF b'(2), of "fst (bm_freeze b')" "snd (bm_freeze b')"] b'(3,4)
  show ?thesis by (auto simp: bm_content_def)
qed

lemma decode_None:
  assumes "dec t = None" and "length t \<le> TEXT_MAX"
  shows "decode t = Ok (Err err)"
proof (cases "wf t")
  case True
  obtain b where b: "with_capacity (cap t) = Ok b"
    using with_capacity_total [OF cap_max [OF assms(2)]] by blast
  from with_capacity_inv [OF b] loop_None [OF assms(1) True assms(2), of b] have "loop b (body t) = Ok (Err err)"
    by auto
  with b True show ?thesis by (simp add: decode_eq frozen_def)
qed (simp add: decode_eq)

lemma roundtrip:
  assumes "length (enc xs) \<le> TEXT_MAX"
  shows "\<exists>b. decode (enc xs) = Ok (Ok b) \<and> bytes_inv b \<and> bytes_content b = xs"
  using decode_Some [OF dec_enc assms] .

lemma accepts_canonical:
  assumes "length t \<le> TEXT_MAX"
  shows "(\<exists>b. decode t = Ok (Ok b) \<and> enc (bytes_content b) = canon t)
       \<or> decode t = Ok (Err err) \<and> (\<forall>xs. enc xs \<noteq> t)"
proof (cases "dec t")
  case None
  then have "\<forall>xs. enc xs \<noteq> t"
    using dec_enc by (metis option.distinct(1))
  with decode_None [OF None assms] show ?thesis by blast
next
  case (Some xs)
  from decode_Some [OF Some assms] enc_dec [OF Some] show ?thesis by auto
qed

lemma enc_inj: "enc xs = enc ys \<Longrightarrow> xs = ys"
  by (metis dec_enc option.inject)

end

section \<open>Hexadecimal\<close>

fun hex_dec :: "string \<Rightarrow> u8 list option" where
  "hex_dec [] = Some []"
| "hex_dec [_] = None"
| "hex_dec (c0 # c1 # t) =
     (if from_hex c0 < 0 \<or> from_hex c1 < 0 then None
      else map_option ((#) (word_of_int (push_bit 4 (from_hex c0) OR from_hex c1))) (hex_dec t))"

definition lower_hex :: "char \<Rightarrow> char" where
  "lower_hex c = HEX ! nat (from_hex c)"

lemma from_hex_range: "from_hex c < 16"
  by (simp add: from_hex_def Let_def)

lemma from_hex_HEX: "i < 16 \<Longrightarrow> from_hex (HEX ! i) = int i"
proof -
  have "\<forall>i\<in>set [0..<16]. from_hex (HEX ! i) = int i" by code_simp
  then show "i < 16 \<Longrightarrow> from_hex (HEX ! i) = int i" by simp
qed

lemma hex_encode_Cons:
  "hex_encode (b # data) =
     HEX ! nat (take_bit 4 (drop_bit 4 (uint b))) # HEX ! nat (take_bit 4 (uint b)) # hex_encode data"
  by (simp only: hex_encode.simps mask_take_bit)

lemma hex_byte:
  "word_of_int (push_bit 4 (take_bit 4 (drop_bit 4 (uint b))) OR take_bit 4 (uint b)) = (b :: u8)"
  by (rule bit_word_eqI) (auto simp: bit_simps bit_word_of_int_iff bit_uint_iff)

lemma hex_digits:
  assumes "0 \<le> h" and "h < 16" and "0 \<le> l" and "l < 16"
  shows "take_bit 4 (drop_bit 4 (uint (word_of_int (push_bit 4 h OR l) :: u8))) = h"
    and "take_bit 4 (uint (word_of_int (push_bit 4 h OR l) :: u8)) = l"
proof -
  have "h * 16 + l < 256"
    using assms by simp
  then have u: "uint (word_of_int (push_bit 4 h OR l) :: u8) = h * 16 + l"
    unfolding push_or_add [OF assms(3), of 4 h, simplified, OF assms(4)] uint_word_of_int_eq
    using assms by (intro take_bit_int_eq_self) simp_all
  show "take_bit 4 (drop_bit 4 (uint (word_of_int (push_bit 4 h OR l) :: u8))) = h"
    unfolding u using assms by (simp add: drop_bit_eq_div take_bit_int_eq_self)
  show "take_bit 4 (uint (word_of_int (push_bit 4 h OR l) :: u8)) = l"
    unfolding u using assms by (simp add: take_bit_eq_mod)
qed

interpretation hex: text_codec hex_encode hex_dec "\<lambda>t. length t mod 2 = 0" "\<lambda>t. length t div 2" "\<lambda>t. t"
  hex_decode_loop hex_decode "map lower_hex" INVALID_HEX
proof
  fix t xs b
  show "hex_decode t = (if length t mod 2 = 0 then frozen (and_then (with_capacity (length t div 2))
     (\<lambda>b. hex_decode_loop b t)) else Ok (Err INVALID_HEX))"
    by (simp add: hex_decode_def)
  show "length t mod 2 = 0" if "hex_dec t = Some xs"
    using that by (induction t arbitrary: xs rule: hex_dec.induct) (auto split: if_splits)
  show "length t div 2 \<le> PTRDIFF_MAX" if "length t \<le> TEXT_MAX"
    using that by simp
  show "length xs \<le> length t div 2" if "hex_dec t = Some xs"
    using that by (induction t arbitrary: xs rule: hex_dec.induct) (auto split: if_splits)
  show "hex_decode_loop b t = map_ok Ok (put_all bm_put_u8 b xs)" if "hex_dec t = Some xs"
    using that by (induction t arbitrary: xs b rule: hex_dec.induct) (auto simp: map_ok_and_then split: if_splits)
  show "hex_decode_loop b t = Ok (Err INVALID_HEX)"
    if "hex_dec t = None" "length t mod 2 = 0" "bm_inv b" "bm_len b + length t div 2 \<le> bm_capacity b"
    using that
  proof (induction t arbitrary: b rule: hex_dec.induct)
    case (3 c0 c1 t)
    from "3.prems"(3,4) obtain b' where b': "bm_put_u8 b (word_of_int (push_bit 4 (from_hex c0) OR from_hex c1)) = Ok b'"
       "bm_inv b'" "bm_len b' = bm_len b + 1" "bm_capacity b \<le> bm_capacity b'"
      by (elim put_u8s_room [of b "[word_of_int (push_bit 4 (from_hex c0) OR from_hex c1)]"]) 
        (auto simp: and_then_eq_Ok)
    with "3.IH" [of b'] "3.prems" show ?case
      by (auto simp: Let_def split: if_splits)
  qed auto
  show "hex_dec (hex_encode xs) = Some xs"
    by (induction xs) (simp_all add: hex_encode_Cons from_hex_HEX hex_byte nat_take_bit_less [of 4, simplified] del: hex_encode.simps(2))
  show "hex_encode xs = map lower_hex t" if "hex_dec t = Some xs"
    using that
  proof (induction t arbitrary: xs rule: hex_dec.induct)
    case (3 c0 c1 t)
    then obtain ys where ys: "hex_dec t = Some ys" "0 \<le> from_hex c0" "0 \<le> from_hex c1"
      "xs = word_of_int (push_bit 4 (from_hex c0) OR from_hex c1) # ys"
      by (auto split: if_splits)
    with 3 show ?case
      by (simp add: hex_encode_Cons hex_digits from_hex_range lower_hex_def del: hex_encode.simps(2))
  qed (auto)
qed

section \<open>Reverse tables\<close>

lemma reverse_table_fold:
  assumes "distinct cs" and "k \<le> length cs"
  defines "m \<equiv> fold (\<lambda>i m. m[of_char (cs ! i) := int i]) [0..<k] (replicate 256 (-1))"
  shows "length m = 256 \<and> (\<forall>i<k. m ! of_char (cs ! i) = int i) \<and>
    (\<forall>c. c \<notin> set (take k cs) \<longrightarrow> m ! of_char c = -1)"
  using assms(2) unfolding m_def
proof (induction k)
  case 0
  then show ?case by (auto simp: nat_of_char_less_256)
next
  case (Suc k)
  let ?m = "fold (\<lambda>i m. m[of_char (cs ! i) := int i]) [0..<k] (replicate 256 (-1))"
  have ne: False if "i < k" "cs ! k = cs ! i" for i
    using assms(1) Suc.prems that by (simp add: nth_eq_iff_index_eq)
  from Suc show ?case
    by (auto simp: less_Suc_eq nth_list_update take_Suc_conv_app_nth nat_of_char_less_256 dest: ne)
qed

lemma reverse_table_index:
  assumes "distinct cs"
  shows "i < length cs \<Longrightarrow> reverse_table cs ! of_char (cs ! i) = int i"
    and "c \<notin> set cs \<Longrightarrow> reverse_table cs ! of_char c = -1"
  using reverse_table_fold [OF assms order_refl] by (auto simp: reverse_table_def)

lemma reverse_table_member:
  assumes "distinct cs" and "0 \<le> reverse_table cs ! of_char c"
  shows "reverse_table cs ! of_char c < int (length cs) \<and> cs ! nat (reverse_table cs ! of_char c) = c"
proof -
  have "c \<in> set cs"
    using reverse_table_index(2) [OF assms(1), of c] assms(2) by fastforce
  then obtain i where "i < length cs" "c = cs ! i"
    by (auto simp: in_set_conv_nth)
  then show ?thesis using reverse_table_index(1) [OF assms(1)] by simp
qed

lemma base64_alphabet: "distinct kBase64Chars" "length kBase64Chars = 64" "kBase64Pad \<notin> set kBase64Chars"
  by code_simp+

lemma base64_index_sym: "0 \<le> i \<Longrightarrow> i < 64 \<Longrightarrow> base64_char_index (base64_sym i) = i"
  using reverse_table_index(1) [OF base64_alphabet(1), of "nat i"]
  by (simp add: base64_char_index_def base64_sym_def base64_alphabet)

lemma base64_sym_index:
  assumes "0 \<le> base64_char_index c"
  shows "base64_sym (base64_char_index c) = c \<and> base64_char_index c < 64"
  using reverse_table_member [OF base64_alphabet(1), of c] assms
  by (simp add: base64_char_index_def base64_sym_def base64_alphabet)

lemma base64_index_pad: "base64_char_index kBase64Pad = -1"
  unfolding base64_char_index_def by (rule reverse_table_index(2)) (simp_all add: base64_alphabet)

lemma base64_sym_pad: "0 \<le> i \<Longrightarrow> i < 64 \<Longrightarrow> base64_sym i \<noteq> kBase64Pad"
  using base64_index_sym [of i] base64_index_pad by auto

section \<open>Base64\<close>

text \<open>Sextets of three bytes and back.\<close>

lemmas sextet_bits = bit_simps bit_word_of_int_iff bit_uint_iff Suc_Suc_minus_2

lemma sextets_to_bytes:
  fixes a b c :: u8
  defines "s0 \<equiv> take_bit 6 (drop_bit 2 (uint a))"
    and "s1 \<equiv> push_bit 4 (take_bit 2 (uint a)) OR take_bit 4 (drop_bit 4 (uint b))"
    and "s2 \<equiv> push_bit 2 (take_bit 4 (uint b)) OR take_bit 2 (drop_bit 6 (uint c))"
    and "s3 \<equiv> take_bit 6 (uint c)"
  shows "word_of_int (push_bit 2 s0 OR take_bit 2 (drop_bit 4 s1)) = a"
    and "word_of_int (push_bit 4 (take_bit 4 s1) OR take_bit 4 (drop_bit 2 s2)) = b"
    and "word_of_int (push_bit 6 (take_bit 2 s2) OR s3) = c"
  unfolding s0_def s1_def s2_def s3_def
  subgoal by (rule bit_word_eqI) (auto simp: sextet_bits not_less)
  subgoal by (rule bit_word_eqI) (auto simp: sextet_bits not_less)
  subgoal by (rule bit_word_eqI) (auto simp: sextet_bits not_less)
  done

lemma sextet_range:
  fixes x :: int
  shows "0 \<le> take_bit 6 x" "take_bit 6 x < 64"
    and "0 \<le> push_bit 4 (take_bit 2 x) OR take_bit 4 y" "push_bit 4 (take_bit 2 x) OR take_bit 4 y < 64"
    and "0 \<le> push_bit 2 (take_bit 4 x) OR take_bit 2 y" "push_bit 2 (take_bit 4 x) OR take_bit 2 y < 64"
proof -
  show "0 \<le> take_bit 6 x" "take_bit 6 x < 64"
    using take_bit_int_less_exp [of 6 x] by simp_all
  have "push_bit 4 (take_bit 2 x) OR take_bit 4 y = take_bit 2 x * 16 + take_bit 4 y"
    using push_or_add [of "take_bit 4 y" 4 "take_bit 2 x"] take_bit_int_less_exp [of 4 y] by simp
  then show "0 \<le> push_bit 4 (take_bit 2 x) OR take_bit 4 y" "push_bit 4 (take_bit 2 x) OR take_bit 4 y < 64"
    using take_bit_int_less_exp [of 2 x] take_bit_int_less_exp [of 4 y] by auto
  have "push_bit 2 (take_bit 4 x) OR take_bit 2 y = take_bit 4 x * 4 + take_bit 2 y"
    using push_or_add [of "take_bit 2 y" 2 "take_bit 4 x"] take_bit_int_less_exp [of 2 y] by simp
  then show "0 \<le> push_bit 2 (take_bit 4 x) OR take_bit 2 y" "push_bit 2 (take_bit 4 x) OR take_bit 2 y < 64"
    using take_bit_int_less_exp [of 4 x] take_bit_int_less_exp [of 2 y] by auto
qed

lemma bytes_to_sextets:
  fixes i j k l :: int
  assumes "0 \<le> i" "i < 64" "0 \<le> j" "j < 64" "0 \<le> k" "k < 64" "0 \<le> l" "l < 64"
  defines "a \<equiv> word_of_int (push_bit 2 i OR take_bit 2 (drop_bit 4 j)) :: u8"
    and "b \<equiv> word_of_int (push_bit 4 (take_bit 4 j) OR take_bit 4 (drop_bit 2 k)) :: u8"
    and "c \<equiv> word_of_int (push_bit 6 (take_bit 2 k) OR l) :: u8"
  shows "take_bit 6 (drop_bit 2 (uint a)) = i"
    and "push_bit 4 (take_bit 2 (uint a)) OR take_bit 4 (drop_bit 4 (uint b)) = j"
    and "push_bit 2 (take_bit 4 (uint b)) OR take_bit 2 (drop_bit 6 (uint c)) = k"
    and "take_bit 6 (uint c) = l"
proof -
  have t: "i = take_bit 6 i" "j = take_bit 6 j" "k = take_bit 6 k" "l = take_bit 6 l"
    using assms(1-8) by (simp_all add: take_bit_int_eq_self)
  have bt: "bit i n \<Longrightarrow> n < 6" "bit j n \<Longrightarrow> n < 6" "bit k n \<Longrightarrow> n < 6" "bit l n \<Longrightarrow> n < 6" for n
    using t by (metis bit_take_bit_iff)+
  show "take_bit 6 (drop_bit 2 (uint a)) = i"
    unfolding a_def by (rule bit_eqI) (auto simp: sextet_bits not_less dest: bt)
  show "push_bit 4 (take_bit 2 (uint a)) OR take_bit 4 (drop_bit 4 (uint b)) = j"
    unfolding a_def b_def by (rule bit_eqI) (auto simp: sextet_bits not_less dest: bt)
  show "push_bit 2 (take_bit 4 (uint b)) OR take_bit 2 (drop_bit 6 (uint c)) = k"
    unfolding b_def c_def by (rule bit_eqI) (auto simp: sextet_bits not_less dest: bt)
  show "take_bit 6 (uint c) = l"
    unfolding c_def by (rule bit_eqI) (auto simp: sextet_bits not_less dest: bt)
qed


text \<open>What a group of four characters stands for.\<close>

definition b64_group :: "bool \<Rightarrow> char \<Rightarrow> char \<Rightarrow> char \<Rightarrow> char \<Rightarrow> u8 list option" where
  "b64_group at_end c0 c1 c2 c3 =
     (let b0 = base64_char_index c0; b1 = base64_char_index c1;
          b2 = base64_char_index c2; b3 = base64_char_index c3;
          x = word_of_int (push_bit 2 b0 OR take_bit 2 (drop_bit 4 b1));
          y = word_of_int (push_bit 4 (take_bit 4 b1) OR take_bit 4 (drop_bit 2 b2));
          z = word_of_int (push_bit 6 (take_bit 2 b2) OR b3) in
      if b0 < 0 \<or> b1 < 0 then None
      else if c2 = kBase64Pad then
        (if c3 = kBase64Pad \<and> at_end \<and> take_bit 4 b1 = 0 then Some [x] else None)
      else if b2 < 0 then None
      else if c3 = kBase64Pad then (if at_end \<and> take_bit 2 b2 = 0 then Some [x, y] else None)
      else if b3 < 0 then None
      else Some [x, y, z])"

fun base64_dec :: "string \<Rightarrow> u8 list option" where
  "base64_dec [] = Some []"
| "base64_dec (c0 # c1 # c2 # c3 # t) =
     (case b64_group (t = []) c0 c1 c2 c3 of None \<Rightarrow> None
      | Some xs \<Rightarrow> map_option ((@) xs) (base64_dec t))"
| "base64_dec _ = None"

lemma base64_group_Some:
  assumes "b64_group e c0 c1 c2 c3 = Some xs"
  shows "base64_group e c0 c1 c2 c3 b = map_ok Ok (put_all bm_put_u8 b xs)"
  using assms unfolding b64_group_def base64_group_def mask_take_bit Let_def
  by (auto simp: map_ok_eq_and_then and_then_assoc split: if_splits)

lemma b64_group_length: "b64_group e c0 c1 c2 c3 = Some xs \<Longrightarrow> length xs \<le> 3"
  by (auto simp: b64_group_def Let_def split: if_splits)

lemma base64_group_None:
  assumes "b64_group e c0 c1 c2 c3 = None" and "bm_inv b" and "bm_len b + 3 \<le> bm_capacity b"
  shows "base64_group e c0 c1 c2 c3 b = Ok (Err INVALID_BASE64)"
proof -
  have one: "\<exists>b'. bm_put_u8 c x = Ok b' \<and> bm_inv b' \<and> bm_len b' = bm_len c + 1 \<and> bm_capacity c \<le> bm_capacity b'"
    if "bm_inv c" "bm_len c < bm_capacity c" for c x
    using that by (elim put_u8s_room [of c "[x]"]) (auto simp: and_then_eq_Ok)
  obtain b1 where b1: "bm_put_u8 b (word_of_int (push_bit 2 (base64_char_index c0)
        OR take_bit 2 (drop_bit 4 (base64_char_index c1)))) = Ok b1"
    "bm_inv b1" "bm_len b1 < bm_capacity b1"
    using one [OF assms(2)] assms(3) by fastforce
  obtain b2 where b2: "bm_put_u8 b1 (word_of_int (push_bit 4 (take_bit 4 (base64_char_index c1))
        OR take_bit 4 (drop_bit 2 (base64_char_index c2)))) = Ok b2"
    using one [OF b1(2,3)] by blast
  show ?thesis
    using assms(1) b1(1) b2 unfolding b64_group_def base64_group_def mask_take_bit Let_def
    by (auto split: if_splits)
qed

lemmas base64_encode_take_bit = base64_encode.simps [unfolded mask_take_bit]

lemma b64_syms [simp]:
  "base64_char_index (base64_sym (take_bit 6 x)) = take_bit 6 x"
  "base64_char_index (base64_sym (push_bit 4 (take_bit 2 x) OR take_bit 4 y)) = push_bit 4 (take_bit 2 x) OR take_bit 4 y"
  "base64_char_index (base64_sym (push_bit 2 (take_bit 4 x) OR take_bit 2 y)) = push_bit 2 (take_bit 4 x) OR take_bit 2 y"
  "base64_sym (take_bit 6 x) \<noteq> kBase64Pad"
  "base64_sym (push_bit 2 (take_bit 4 x) OR take_bit 2 y) \<noteq> kBase64Pad"
  using sextet_range by (simp_all add: base64_index_sym base64_sym_pad)

lemma b64_group_3:
  "b64_group e (base64_sym (take_bit 6 (drop_bit 2 (uint a))))
     (base64_sym (push_bit 4 (take_bit 2 (uint a)) OR take_bit 4 (drop_bit 4 (uint b))))
     (base64_sym (push_bit 2 (take_bit 4 (uint b)) OR take_bit 2 (drop_bit 6 (uint c))))
     (base64_sym (take_bit 6 (uint c))) = Some [a, b, c]"
  unfolding b64_group_def Let_def b64_syms sextets_to_bytes
  by (simp add: sextet_range not_less)

lemma b64_group_2:
  assumes "c = 0"
  shows "b64_group True (base64_sym (take_bit 6 (drop_bit 2 (uint a))))
     (base64_sym (push_bit 4 (take_bit 2 (uint a)) OR take_bit 4 (drop_bit 4 (uint b))))
     (base64_sym (push_bit 2 (take_bit 4 (uint b)) OR take_bit 2 (drop_bit 6 (uint (c :: u8))))) kBase64Pad = Some [a, b]"
proof -
  have "take_bit 2 (push_bit 2 (take_bit 4 (uint b)) OR take_bit 2 (drop_bit 6 (uint c))) = 0"
    using assms by (intro bit_eqI) (auto simp: bit_simps)
  then show ?thesis
    unfolding b64_group_def Let_def b64_syms sextets_to_bytes
    by (simp add: sextet_range not_less)
qed

lemma b64_group_1:
  assumes "b = 0"
  shows "b64_group True (base64_sym (take_bit 6 (drop_bit 2 (uint a))))
     (base64_sym (push_bit 4 (take_bit 2 (uint a)) OR take_bit 4 (drop_bit 4 (uint (b :: u8))))) kBase64Pad kBase64Pad = Some [a]"
proof -
  have "take_bit 4 (push_bit 4 (take_bit 2 (uint a)) OR take_bit 4 (drop_bit 4 (uint b))) = 0"
    using assms by (intro bit_eqI) (auto simp: bit_simps)
  then show ?thesis
    unfolding b64_group_def Let_def b64_syms sextets_to_bytes
    by (simp add: sextet_range not_less)
qed

lemmas b64_groups = b64_group_3 b64_group_2 [OF refl, simplified] b64_group_1 [OF refl, simplified]

lemma base64_dec_enc: "base64_dec (base64_encode xs) = Some xs"
  by (induction xs rule: base64_encode.induct)
    (simp_all only: base64_encode_take_bit base64_dec.simps b64_groups append.simps list.simps option.simps simp_thms)

lemma b64_group_enc:
  assumes "b64_group (t = []) c0 c1 c2 c3 = Some xs"
  shows "(\<exists>a b c. xs = [a, b, c] \<and> (\<forall>ys. base64_encode (xs @ ys) = c0 # c1 # c2 # c3 # base64_encode ys))
    \<or> t = [] \<and> base64_encode xs = [c0, c1, c2, c3]"
proof -
  let ?i = "base64_char_index c0" and ?j = "base64_char_index c1"
  let ?k = "base64_char_index c2" and ?l = "base64_char_index c3"
  have ij: "0 \<le> ?i" "0 \<le> ?j"
    using assms by (auto simp: b64_group_def Let_def split: if_splits)
  note r = ij(1) base64_sym_index [OF ij(1), THEN conjunct2] ij(2) base64_sym_index [OF ij(2), THEN conjunct2]
  note s = base64_sym_index [THEN conjunct1]
  consider (one) "c2 = kBase64Pad" "c3 = kBase64Pad" "t = []" "take_bit 4 ?j = 0"
      "xs = [word_of_int (push_bit 2 ?i OR take_bit 2 (drop_bit 4 ?j))]"
    | (two) "0 \<le> ?k" "c3 = kBase64Pad" "t = []" "take_bit 2 ?k = 0"
      "xs = [word_of_int (push_bit 2 ?i OR take_bit 2 (drop_bit 4 ?j)),
             word_of_int (push_bit 4 (take_bit 4 ?j) OR take_bit 4 (drop_bit 2 ?k))]"
    | (three) "0 \<le> ?k" "0 \<le> ?l"
      "xs = [word_of_int (push_bit 2 ?i OR take_bit 2 (drop_bit 4 ?j)),
             word_of_int (push_bit 4 (take_bit 4 ?j) OR take_bit 4 (drop_bit 2 ?k)),
             word_of_int (push_bit 6 (take_bit 2 ?k) OR ?l)]"
    using assms by (auto simp: b64_group_def Let_def split: if_splits)
  then show ?thesis
  proof cases
    case one
    then show ?thesis
      using bytes_to_sextets(1,2) [OF r, of 0 0]
      by (simp add: base64_encode_take_bit s ij del: base64_encode.simps)
  next
    case two
    then show ?thesis
      using bytes_to_sextets(1-3) [OF r two(1) base64_sym_index [OF two(1), THEN conjunct2], of 0]
      by (simp add: base64_encode_take_bit s ij del: base64_encode.simps)
  next
    case three
    note b = bytes_to_sextets [OF r three(1) base64_sym_index [OF three(1), THEN conjunct2]
        three(2) base64_sym_index [OF three(2), THEN conjunct2]]
    show ?thesis
      unfolding three(3) by (simp add: base64_encode_take_bit b s ij three del: base64_encode.simps)
  qed
qed

lemma base64_enc_dec: "base64_dec t = Some xs \<Longrightarrow> base64_encode xs = t"
proof (induction t arbitrary: xs rule: base64_dec.induct)
  case (2 c0 c1 c2 c3 t)
  then obtain ys zs where g: "b64_group (t = []) c0 c1 c2 c3 = Some ys" and "base64_dec t = Some zs" "xs = ys @ zs"
    by (auto split: option.splits)
  with 2 b64_group_enc [OF g] show ?case by fastforce
qed simp_all


lemma usize_mul_3: "n \<le> TEXT_MAX \<Longrightarrow> usize_mul n 3 = 3 * n"
  by (subst usize_mul_exact) simp_all

lemma base64_dec_length: "base64_dec t = Some xs \<Longrightarrow> 4 * length xs \<le> 3 * length t \<and> length t mod 4 = 0"
proof (induction t arbitrary: xs rule: base64_dec.induct)
  case (2 c0 c1 c2 c3 t)
  then obtain ys zs where g: "b64_group (t = []) c0 c1 c2 c3 = Some ys" and "base64_dec t = Some zs" "xs = ys @ zs"
    by (auto split: option.splits)
  with "2.IH" [OF g] b64_group_length [OF g] show ?case by simp
qed simp_all

lemma base64_loop_Some:
  "base64_dec t = Some xs \<Longrightarrow> base64_decode_loop b t = map_ok Ok (put_all bm_put_u8 b xs)"
proof (induction t arbitrary: xs b rule: base64_dec.induct)
  case (2 c0 c1 c2 c3 t)
  then obtain ys zs where g: "b64_group (t = []) c0 c1 c2 c3 = Some ys" and d: "base64_dec t = Some zs" "xs = ys @ zs"
    by (auto split: option.splits)
  show ?case
    using "2.IH" [OF g d(1)]
    by (simp add: d base64_group_Some [OF g] put_all_append map_ok_eq_and_then and_then_assoc)
qed simp_all

lemma base64_loop_None:
  assumes "base64_dec t = None" and "length t mod 4 = 0" and "bm_inv b"
    and "4 * bm_len b + 3 * length t \<le> 4 * bm_capacity b"
  shows "base64_decode_loop b t = Ok (Err INVALID_BASE64)"
  using assms
proof (induction t arbitrary: b rule: base64_dec.induct)
  case (2 c0 c1 c2 c3 t)
  show ?case
  proof (cases "b64_group (t = []) c0 c1 c2 c3")
    case None
    with base64_group_None [OF None "2.prems"(3)] "2.prems"(4) show ?thesis by simp
  next
    case (Some ys)
    note l = b64_group_length [OF Some]
    with "2.prems"(3,4) obtain b' where b': "put_all bm_put_u8 b ys = Ok b'" "bm_inv b'"
        "bm_len b' = bm_len b + length ys" "bm_capacity b \<le> bm_capacity b'"
      by (elim put_u8s_room [of b ys]) auto
    have "base64_decode_loop b' t = Ok (Err INVALID_BASE64)"
      using "2.prems" l b' Some by (intro "2.IH" [OF Some]) (auto split: option.splits)
    then show ?thesis
      by (simp add: base64_group_Some [OF Some] b')
  qed
qed simp_all

interpretation base64: text_codec base64_encode base64_dec "\<lambda>t. length t mod 4 = 0"
  "\<lambda>t. usize_mul (length t) 3 div 4" "\<lambda>t. t" base64_decode_loop base64_decode "\<lambda>t. t" INVALID_BASE64
proof
  fix t xs b
  show "base64_decode t = (if length t mod 4 = 0 then frozen (and_then
      (with_capacity (usize_mul (length t) 3 div 4)) (\<lambda>b. base64_decode_loop b t)) else Ok (Err INVALID_BASE64))"
    by (simp add: base64_decode_def)
  show "usize_mul (length t) 3 div 4 \<le> PTRDIFF_MAX" if "length t \<le> TEXT_MAX"
    using that by (simp add: usize_mul_3)
  show "length xs \<le> usize_mul (length t) 3 div 4" if "base64_dec t = Some xs" "length t \<le> TEXT_MAX"
    using base64_dec_length [OF that(1), THEN conjunct1] that(2)
    by (simp add: usize_mul_3 less_eq_div_iff_mult_less_eq mult.commute)
  show "base64_decode_loop b t = Ok (Err INVALID_BASE64)"
    if "base64_dec t = None" "length t mod 4 = 0" "length t \<le> TEXT_MAX" "bm_inv b"
      "bm_len b + usize_mul (length t) 3 div 4 \<le> bm_capacity b"
  proof (rule base64_loop_None [OF that(1,2,4)])
    from that(2) obtain k where "length t = 4 * k" by auto
    then show "4 * bm_len b + 3 * length t \<le> 4 * bm_capacity b"
      using that(3,5) by (simp add: usize_mul_3)
  qed
qed (simp_all add: base64_dec_length base64_loop_Some base64_dec_enc base64_enc_dec)

section \<open>Base32\<close>

text \<open>
  Accumulators: \<open>join k\<close> shifts a list of \<open>k\<close>-bit digits together, most significant
  first; \<open>digits k n\<close> cuts the low \<open>k * n\<close> bits of a number into digits.
\<close>

definition join :: "nat \<Rightarrow> nat list \<Rightarrow> nat" where
  "join k = foldl (\<lambda>a d. a * 2 ^ k + d) 0"

fun digits :: "nat \<Rightarrow> nat \<Rightarrow> nat \<Rightarrow> nat list" where
  "digits k 0 x = []"
| "digits k (Suc n) x = digits k n (x div 2 ^ k) @ [x mod 2 ^ k]"

lemma join_snoc: "join k (ds @ [d]) = join k ds * 2 ^ k + d"
  by (simp add: join_def)

lemma length_digits [simp]: "length (digits k n x) = n"
  by (induction n arbitrary: x) simp_all

lemma join_digits: "join k (digits k n x) = x mod 2 ^ (k * n)"
proof (induction n arbitrary: x)
  case (Suc n)
  have "x mod 2 ^ (k * Suc n) = 2 ^ k * (x div 2 ^ k mod 2 ^ (k * n)) + x mod 2 ^ k"
    by (simp add: power_add mod_mult2_eq)
  with Suc show ?case by (simp add: join_snoc mult.commute)
qed (simp add: join_def)

lemma digits_join: "\<forall>d\<in>set ds. d < 2 ^ k \<Longrightarrow> digits k (length ds) (join k ds) = ds"
  by (induction ds rule: rev_induct) (simp_all add: join_snoc)

lemma join_bound: "\<forall>d\<in>set ds. d < 2 ^ k \<Longrightarrow> join k ds < 2 ^ (k * length ds)"
  using join_digits [of k "length ds" "join k ds"] digits_join [of ds k]
  by (metis mod_less_divisor zero_less_numeral zero_less_power)

lemma digits_bound: "\<forall>d\<in>set (digits k n x). d < 2 ^ k"
  by (induction n arbitrary: x) auto

lemma digits_nth: "digits k n x = map (\<lambda>j. x div 2 ^ (k * j) mod 2 ^ k) (rev [0..<n])"
proof (induction n arbitrary: x)
  case (Suc n)
  have "rev [0..<Suc n] = map Suc (rev [0..<n]) @ [0]"
    by (simp add: rev_map map_Suc_upt upt_conv_Cons del: upt_Suc flip: rev_map map_Suc_upt)
  then show ?case
    by (simp add: Suc power_add div_mult2_eq del: upt_Suc)
qed simp

text \<open>Shifting a digit into a word accumulator.\<close>

lemma push_or_nat:
  fixes a :: u64
  assumes "unat a * 2 ^ k + d < 2 ^ 64" and "d < 2 ^ k"
  shows "unat (push_bit k a OR of_nat d) = unat a * 2 ^ k + d"
proof -
  have "d < 2 ^ 64" using assms(1) by linarith
  then have d: "of_nat d = take_bit k (of_nat d :: u64)"
    using assms(2) by (simp add: word_unat_eq_iff unat_take_bit_word unat_of_nat_small)
  have "push_bit k a OR of_nat d = push_bit k a + of_nat d"
    using or_eq_add_disjoint [OF d, of a] by (simp add: or.commute add.commute)
  also have "\<dots> = of_nat (unat a * 2 ^ k + d)"
    by (simp add: push_bit_eq_mult)
  finally have e: "push_bit k a OR of_nat d = of_nat (unat a * 2 ^ k + d)" .
  show ?thesis by (subst e) (rule unat_of_nat_u64 [OF assms(1)])
qed

lemma word_join:
  assumes "\<forall>d\<in>set ds. d < 2 ^ k" and "k * length ds \<le> 64"
  shows "unat (foldl (\<lambda>a d. push_bit k a OR of_nat d) (0::u64) ds) = join k ds"
  using assms
proof (induction ds rule: rev_induct)
  case (snoc d ds)
  have "join k (ds @ [d]) < 2 ^ 64"
    using join_bound [OF snoc.prems(1)] snoc.prems(2)
    by (meson less_le_trans one_le_numeral power_increasing)
  with snoc show ?case
    by (simp add: join_snoc push_or_nat)
qed (simp add: join_def)


text \<open>Digits read from the top of a field of \<open>T\<close> digits.\<close>

lemma digits_top:
  assumes "n \<le> T"
  shows "map (\<lambda>c. x * 2 ^ (k * (T - n)) div 2 ^ (k * (T - 1 - c)) mod 2 ^ k) [0..<n] = digits k n x"
proof -
  have "x * 2 ^ (k * (T - n)) div 2 ^ (k * (T - 1 - c)) = x div 2 ^ (k * (n - 1 - c))" if "c < n" for c
  proof -
    have "T - 1 - c = (T - n) + (n - 1 - c)"
      using assms that by simp
    then show ?thesis
      by (simp only: distrib_left mult_div_shift)
  qed
  then show ?thesis
    unfolding digits_nth by (intro nth_equalityI) (simp_all add: rev_nth)
qed

lemma unat_shift_mask:
  fixes a :: u64
  shows "unat (drop_bit s a AND 0x1F) = unat a div 2 ^ s mod 2 ^ 5"
    and "(ucast (drop_bit s a AND 0xFF) :: u8) = of_nat (unat a div 2 ^ s mod 2 ^ 8)"
proof -
  show "unat (drop_bit s a AND 0x1F) = unat a div 2 ^ s mod 2 ^ 5"
    unfolding mask_take_bit unat_take_bit_word unat_drop_bit_div ..
  have "unat (drop_bit s a AND 0xFF) = unat a div 2 ^ s mod 2 ^ 8"
    unfolding mask_take_bit unat_take_bit_word unat_drop_bit_div ..
  then show "(ucast (drop_bit s a AND 0xFF) :: u8) = of_nat (unat a div 2 ^ s mod 2 ^ 8)"
    by (metis of_nat_unat)
qed

definition sym32 :: "nat \<Rightarrow> char" where
  "sym32 d = kBase32Chars ! d"

lemma base32_alphabet: "distinct kBase32Chars" "length kBase32Chars = 32" "kBase32Pad \<notin> set kBase32Chars"
  by code_simp+

lemma base32_index_sym: "d < 32 \<Longrightarrow> base32_char_index (sym32 d) = int d"
  using reverse_table_index(1) [OF base32_alphabet(1), of d]
  by (simp add: base32_char_index_def sym32_def base32_alphabet)

lemma base32_sym_index:
  assumes "0 \<le> base32_char_index c"
  shows "sym32 (nat (base32_char_index c)) = c \<and> nat (base32_char_index c) < 32"
  using reverse_table_member [OF base32_alphabet(1), of c] assms
  by (auto simp: base32_char_index_def sym32_def base32_alphabet)

lemma base32_index_pad: "base32_char_index kBase32Pad = -1"
  unfolding base32_char_index_def by (rule reverse_table_index(2)) (simp_all add: base32_alphabet)

lemma base32_syms_digits:
  "base32_syms acc (map (\<lambda>j. 5 * j) (rev [0..<8])) = map sym32 (digits 5 8 (unat acc))"
  unfolding base32_syms_def unat_shift_mask digits_nth by (simp add: sym32_def comp_def)

text \<open>The digits of a string, and what a data part stands for.\<close>

definition b32_vals :: "string \<Rightarrow> nat list option" where
  "b32_vals t = (if \<exists>c\<in>set t. base32_char_index c < 0 then None
     else Some (map (nat \<circ> base32_char_index) t))"

lemma acc_syms_foldl:
  "acc_syms a t = map_option (foldl (\<lambda>a d. push_bit 5 a OR of_nat d) a) (b32_vals t)"
proof (induction t arbitrary: a)
  case Nil
  then show ?case by (simp add: b32_vals_def)
next
  case (Cons c t)
  show ?case
    by (simp add: Cons Let_def) (auto simp: b32_vals_def)
qed

lemma b32_vals_Some:
  assumes "b32_vals t = Some ds"
  shows "length ds = length t \<and> (\<forall>d\<in>set ds. d < 2 ^ 5) \<and> map sym32 ds = t"
  using assms base32_sym_index by (auto simp: b32_vals_def not_less map_idI split: if_splits)

lemma b32_vals_syms: "\<forall>d\<in>set ds. d < 32 \<Longrightarrow> b32_vals (map sym32 ds) = Some ds"
  by (auto simp: b32_vals_def base32_index_sym intro!: map_idI)

lemma acc_syms_join:
  assumes "length t \<le> 12"
  shows "map_option unat (acc_syms 0 t) = map_option (join 5) (b32_vals t)"
proof (cases "b32_vals t")
  case (Some ds)
  with b32_vals_Some [OF Some] word_join [of ds 5] assms show ?thesis
    by (simp add: acc_syms_foldl)
qed (simp add: acc_syms_foldl)

lemma acc_bytes_join: "length bs \<le> 8 \<Longrightarrow> unat (acc_bytes bs) = join 8 (map unat bs)"
proof -
  have "foldl (\<lambda>acc b. push_bit 8 acc OR ucast b) a bs
      = foldl (\<lambda>a d. push_bit 8 a OR of_nat d) a (map unat bs)" for a :: u64
    by (induction bs arbitrary: a) simp_all
  moreover assume "length bs \<le> 8"
  ultimately show ?thesis
    using word_join [of "map unat bs" 8] unat_u8_less by (auto simp: acc_bytes_def)
qed

lemma base32_encode_group:
  assumes "length bs = 5"
  shows "base32_encode (bs @ src) p =
    map sym32 (digits 5 8 (join 8 (map unat bs))) @ base32_encode src p"
proof -
  obtain s0 s1 s2 s3 s4 where bs: "bs = [s0, s1, s2, s3, s4]"
    using assms by (auto simp: numeral_eq_Suc length_Suc_conv)
  have "push_bit 32 (ucast s0) OR push_bit 24 (ucast s1) OR push_bit 16 (ucast s2)
          OR push_bit 8 (ucast s3) OR ucast s4 = acc_bytes bs"
    by (simp add: bs acc_bytes_def or.assoc)
  with acc_bytes_join [of bs] assms show ?thesis
    by (simp only: bs append.simps base32_encode.simps Let_def base32_syms_digits)
qed

lemma base32_encode_tail: "length src < 5 \<Longrightarrow> base32_encode src p = base32_tail src p"
  by (cases "(src, p)" rule: base32_encode.cases) simp_all

text \<open>The number of characters of a tail of \<open>m\<close> bytes.\<close>

definition out_chars :: "nat \<Rightarrow> nat" where
  "out_chars m = (m * 8 + 4) div 5"

lemma base32_tail_digits:
  assumes "0 < length bs" and "length bs < 5"
  defines "m \<equiv> length bs"
  defines "n \<equiv> out_chars m"
  shows "base32_tail bs p = map sym32 (digits 5 n (join 8 (map unat bs) * 2 ^ (5 * n - 8 * m)))
     @ (if p then replicate (8 - n) kBase32Pad else [])"
proof -
  let ?J = "join 8 (map unat bs)"
  have m: "0 < m" "m < 5" and n: "n \<le> 8" "8 * m \<le> 5 * n"
    using assms(1,2) by (auto simp: m_def n_def out_chars_def)
  have J: "?J < 2 ^ (8 * m)"
    using join_bound [of "map unat bs" 8] unat_u8_less by (simp add: m_def)
  have "?J * 2 ^ (8 * (5 - m)) < 2 ^ (8 * m) * 2 ^ (8 * (5 - m))"
    using J by simp
  also have "\<dots> = 2 ^ 40"
    unfolding power_add [symmetric] using m by (intro arg_cong [of _ _ "(^) 2"]) simp
  also have "\<dots> < 2 ^ 64" by simp
  finally have lt: "?J * 2 ^ (8 * (5 - m)) < 2 ^ 64" .
  have acc: "unat (push_bit (8 * (5 - m)) (acc_bytes bs)) = ?J * 2 ^ (8 * (5 - m))"
    using push_or_nat [of "acc_bytes bs" "8 * (5 - m)" 0] lt m(2) acc_bytes_join [of bs]
    by (simp add: m_def)
  have "8 * (5 - m) = (5 * n - 8 * m) + 5 * (8 - n)"
    using m n by simp
  then have sh: "?J * 2 ^ (8 * (5 - m)) = (?J * 2 ^ (5 * n - 8 * m)) * 2 ^ (5 * (8 - n))"
    by (simp add: power_add mult.assoc)
  have "35 - 5 * c = 5 * (8 - 1 - c)" for c :: nat
    by simp
  then have "base32_syms (push_bit (8 * (5 - m)) (acc_bytes bs)) (map (\<lambda>c. 35 - 5 * c) [0..<n])
      = map sym32 (digits 5 n (?J * 2 ^ (5 * n - 8 * m)))"
    unfolding base32_syms_def unat_shift_mask acc sh digits_top [OF n(1), symmetric]
    by (simp add: sym32_def)
  with m(1) show ?thesis
    by (simp add: base32_tail_def Let_def m_def n_def out_chars_def mult.commute)
qed

text \<open>What the data part of a string stands for.\<close>

definition b32_tail :: "string \<Rightarrow> u8 list option" where
  "b32_tail t = (case b32_vals t of None \<Rightarrow> None | Some ds \<Rightarrow>
     let m = 5 * length t div 8; u = 5 * length t mod 8 in
     if join 5 ds mod 2 ^ u \<noteq> 0 then None
     else Some (map of_nat (digits 8 m (join 5 ds div 2 ^ u))))"

function b32_body :: "string \<Rightarrow> u8 list option" where
  "b32_body t =
     (if length t < 8 then b32_tail t
      else case b32_vals (take 8 t) of None \<Rightarrow> None
        | Some ds \<Rightarrow> map_option ((@) (map of_nat (digits 8 5 (join 5 ds)))) (b32_body (drop 8 t)))"
  by auto
termination by (relation "measure length") auto

declare b32_body.simps [simp del]

lemma bytes_digits: "map unat (map of_nat (digits 8 n x) :: u8 list) = digits 8 n x"
  using digits_bound [of 8 n x] by (auto simp: unat_of_nat_u8 intro!: map_idI)

lemma digits_bytes: "map of_nat (digits 8 (length bs) (join 8 (map unat bs))) = (bs :: u8 list)"
  using digits_join [of "map unat bs" 8] unat_u8_less by (simp add: map_idI)

lemma b32_vals_digits: "b32_vals (map sym32 (digits 5 n x)) = Some (digits 5 n x)"
  using digits_bound [of 5 n x] by (intro b32_vals_syms) simp

lemma b32_body_group:
  assumes "length bs = 5"
  shows "b32_body (map sym32 (digits 5 8 (join 8 (map unat bs))) @ t) = map_option ((@) bs) (b32_body t)"
proof -
  have "join 8 (map unat bs) < 2 ^ (8 * 5)"
    using join_bound [of "map unat bs" 8] assms unat_u8_less by simp
  then show ?thesis
    using digits_bytes [of bs] assms
    by (subst b32_body.simps) (simp add: b32_vals_digits join_digits)
qed

lemma b32_tail_enc:
  assumes "0 < length bs" and "length bs < 5"
  shows "b32_tail (base32_tail bs False) = Some bs" and "length (base32_tail bs False) < 8"
    and "length (base32_tail bs False) \<notin> {1, 3, 6}"
proof -
  let ?m = "length bs"
  let ?n = "out_chars ?m" and ?J = "join 8 (map unat bs)"
  have nm: "5 * ?n div 8 = ?m" "5 * ?n mod 8 = 5 * ?n - 8 * ?m" "?n < 8" "?n \<notin> {1, 3, 6}"
      "8 * ?m + (5 * ?n - 8 * ?m) = 5 * ?n"
  proof -
    have "?m = 1 \<or> ?m = 2 \<or> ?m = 3 \<or> ?m = 4"
      using assms by linarith
    then show "5 * ?n div 8 = ?m" "5 * ?n mod 8 = 5 * ?n - 8 * ?m" "?n < 8" "?n \<notin> {1, 3, 6}"
      "8 * ?m + (5 * ?n - 8 * ?m) = 5 * ?n"
      by (elim disjE; simp add: out_chars_def)+
  qed
  have "?J < 2 ^ (8 * ?m)"
    using join_bound [of "map unat bs" 8] unat_u8_less by simp
  then have "?J * 2 ^ (5 * ?n - 8 * ?m) < 2 ^ (8 * ?m) * 2 ^ (5 * ?n - 8 * ?m)"
    by simp
  then have "?J * 2 ^ (5 * ?n - 8 * ?m) < 2 ^ (5 * ?n)"
    using nm(5) by (simp flip: power_add)
  then show "b32_tail (base32_tail bs False) = Some bs"
    using nm(1,2) digits_bytes [of bs]
    by (simp add: base32_tail_digits [OF assms] b32_tail_def b32_vals_digits join_digits Let_def)
  show "length (base32_tail bs False) < 8" "length (base32_tail bs False) \<notin> {1, 3, 6}"
    using nm(3,4) by (simp_all add: base32_tail_digits [OF assms])
qed

lemma base32_encode_induct [case_names tail group]:
  assumes "\<And>xs. length xs < 5 \<Longrightarrow> P xs"
    and "\<And>bs xs. length bs = 5 \<Longrightarrow> P xs \<Longrightarrow> P (bs @ xs)"
  shows "P (xs :: 'a list)"
proof (induction xs rule: length_induct)
  case (1 xs)
  show ?case
  proof (cases "length xs < 5")
    case False
    then have "P (take 5 xs @ drop 5 xs)"
      using 1 by (intro assms(2)) auto
    then show ?thesis by simp
  qed (rule assms(1))
qed

lemma base32_tail_Nil [simp]: "base32_tail [] p = []"
  by (simp add: base32_tail_def)

lemma b32_body_Nil [simp]: "b32_body [] = Some []"
  by (subst b32_body.simps) (simp add: b32_tail_def b32_vals_def join_def)

lemma b32_body_enc: "b32_body (base32_encode xs False) = Some xs"
proof (induction xs rule: base32_encode_induct)
  case (tail xs)
  then show ?case
    using b32_tail_enc(1,2) [of xs]
    by (cases "xs = []") (simp_all add: base32_encode_tail b32_body.simps [of "base32_tail xs False"])
next
  case (group bs xs)
  then show ?case by (simp add: base32_encode_group b32_body_group)
qed

lemma base32_encode_length: "length (base32_encode xs False) mod 8 \<notin> {1, 3, 6}"
proof (induction xs rule: base32_encode_induct)
  case (tail xs)
  then show ?case
    using b32_tail_enc(2,3) [of xs] by (cases "xs = []") (simp_all add: base32_encode_tail)
qed (simp add: base32_encode_group)

lemma base32_encode_no_pad: "kBase32Pad \<notin> set (base32_encode xs False)"
proof (induction xs rule: base32_encode_induct)
  case (tail xs)
  then show ?case
    using base32_index_sym digits_bound base32_index_pad
    by (cases "xs = []") (fastforce simp: base32_encode_tail base32_tail_digits)+
next
  case (group bs xs)
  then show ?case
    using base32_index_sym digits_bound [of 5] base32_index_pad
    by (fastforce simp: base32_encode_group)
qed

definition padding32 :: "nat \<Rightarrow> string" where
  "padding32 n = replicate ((8 - n mod 8) mod 8) kBase32Pad"

lemma base32_encode_pad:
  "base32_encode xs True = base32_encode xs False @ padding32 (length (base32_encode xs False))"
proof (induction xs rule: base32_encode_induct)
  case (tail xs)
  show ?case
  proof (cases "xs = []")
    case False
    then have l: "0 < length xs" by simp
    have "out_chars (length xs) < 8" "0 < out_chars (length xs)"
      using tail l by (simp_all only: out_chars_def div_greater_zero_iff div_less_iff_less_mult) linarith+
    then show ?thesis
      using tail by (simp add: base32_encode_tail base32_tail_digits [OF l tail] padding32_def)
  qed (use tail in \<open>simp add: base32_encode_tail padding32_def\<close>)
qed (simp add: base32_encode_group padding32_def)

lemma base32_tail_dec:
  assumes "b32_tail t = Some xs" and "0 < length t" "length t < 8" "length t \<notin> {1, 3, 6}"
  shows "base32_tail xs False = t \<and> length xs = 5 * length t div 8 \<and> 0 < length xs \<and> length xs < 5"
proof -
  define n where "n = length t"
  define m where "m = 5 * n div 8"
  define u where "u = 5 * n mod 8"
  obtain ds where ds: "b32_vals t = Some ds" "join 5 ds mod 2 ^ u = 0"
      and xs: "xs = map of_nat (digits 8 m (join 5 ds div 2 ^ u))"
    using assms(1) by (auto simp: b32_tail_def Let_def n_def m_def u_def split: option.splits if_splits)
  note v = b32_vals_Some [OF ds(1)]
  have "n = 2 \<or> n = 4 \<or> n = 5 \<or> n = 7"
    using assms(2-4) unfolding n_def by (simp only: insert_iff empty_iff) arith
  then have m: "0 < m" "m < 5" "out_chars m = n" "5 * n - 8 * m = u" "8 * m + u = 5 * n"
    by (auto simp: m_def u_def out_chars_def)
  have J: "join 5 ds div 2 ^ u * 2 ^ u = join 5 ds"
    using ds(2) by auto
  have "join 5 ds < 2 ^ (8 * m + u)"
    using join_bound [of ds 5] v by (simp add: m(5) n_def)
  then have "join 5 ds div 2 ^ u < 2 ^ (8 * m)"
    by (simp add: div_less_iff_less_mult power_add)
  then have jx: "join 8 (map unat xs) = join 5 ds div 2 ^ u"
    by (simp only: xs bytes_digits join_digits mod_less)
  have "length xs = m"
    by (simp add: xs)
  then have "base32_tail xs False = map sym32 (digits 5 n (join 5 ds))"
    using m base32_tail_digits [of xs False] jx J by simp
  also have "\<dots> = t"
    using digits_join [of ds 5] v by (simp add: n_def)
  finally show ?thesis using \<open>length xs = m\<close> m by (simp add: m_def n_def)
qed

lemma base32_body_dec:
  assumes "b32_body t = Some xs" and "length t mod 8 \<notin> {1, 3, 6}"
  shows "base32_encode xs False = t \<and> length xs = 5 * length t div 8"
  using assms
proof (induction t arbitrary: xs rule: b32_body.induct)
  case (1 t)
  show ?case
  proof (cases "length t < 8")
    case True
    show ?thesis
    proof (cases "t = []")
      case False
      with True "1.prems" base32_tail_dec [of t xs] show ?thesis
        by (simp add: b32_body.simps [of t] base32_encode_tail)
    qed (use "1.prems" in \<open>simp add: base32_encode_tail\<close>)
  next
    case False
    then obtain ds ys where ds: "b32_vals (take 8 t) = Some ds" and ys: "b32_body (drop 8 t) = Some ys"
      and xs: "xs = map of_nat (digits 8 5 (join 5 ds)) @ ys"
      using "1.prems" by (auto simp: b32_body.simps [of t] split: option.splits)
    have "length (drop 8 t) mod 8 \<notin> {1, 3, 6}"
      using "1.prems"(2) False by (simp add: le_mod_geq)
    with "1.IH" [OF False ds ys] have IH: "base32_encode ys False = drop 8 t" "length ys = 5 * (length t - 8) div 8"
      by auto
    note v = b32_vals_Some [OF ds]
    let ?bs = "map of_nat (digits 8 5 (join 5 ds)) :: u8 list"
    have "join 8 (map unat ?bs) = join 5 ds"
      using join_bound [of ds 5] v False by (simp only: bytes_digits join_digits) simp
    then have "base32_encode xs False = map sym32 (digits 5 8 (join 5 ds)) @ drop 8 t"
      using base32_encode_group [of ?bs ys False] by (simp add: xs IH)
    also have "\<dots> = t"
      using digits_join [of ds 5] v False by simp
    finally show ?thesis
      using IH(2) False by (simp add: xs)
  qed
qed

lemma put_shifts_eq:
  "put_shifts b acc ss = put_all bm_put_u8 b (map (\<lambda>s. of_nat (unat acc div 2 ^ s mod 2 ^ 8)) ss)"
  by (induction ss arbitrary: b) (simp_all only: put_shifts.simps put_all.simps list.map unat_shift_mask)

lemma put_shifts_group:
  "put_shifts b acc (map (\<lambda>b. 8 * b) (rev [0..<5])) = put_all bm_put_u8 b (map of_nat (digits 8 5 (unat acc)))"
  unfolding put_shifts_eq digits_nth by (simp add: comp_def)

lemma acc_syms_take_8:
  "map_option unat (acc_syms 0 (take 8 t)) = map_option (join 5) (b32_vals (take 8 t))"
  by (rule acc_syms_join) simp

lemma base32_loop_cases:
  "base32_decode_loop b t =
     (if length t < 8 then base32_decode_tail b t
      else case acc_syms 0 (take 8 t) of None \<Rightarrow> Ok (Err INVALID_BASE32)
        | Some acc \<Rightarrow> and_then (put_shifts b acc (map (\<lambda>b. 8 * b) (rev [0..<5])))
            (\<lambda>b. base32_decode_loop b (drop 8 t)))"
  by (cases "(b, t)" rule: base32_decode_loop.cases) (auto simp del: acc_syms.simps split: option.splits)

lemma acc_mask_zero: "acc AND (push_bit u 1 - 1) = 0 \<longleftrightarrow> unat acc mod 2 ^ u = 0" for acc :: u64
proof -
  have "push_bit u 1 - 1 = (mask u :: u64)"
    by (simp add: mask_eq_exp_minus_1 push_bit_eq_mult)
  then have "acc AND (push_bit u 1 - 1) = take_bit u acc"
    by (simp only: take_bit_eq_mask)
  then show ?thesis
    by (simp only: word_unat_eq_iff unat_take_bit_word) simp
qed

lemma base32_decode_tail_eq:
  assumes "length t < 8" and "length t \<notin> {1, 3, 6}"
  shows "base32_decode_tail b t =
    (case b32_tail t of None \<Rightarrow> Ok (Err INVALID_BASE32) | Some xs \<Rightarrow> map_ok Ok (put_all bm_put_u8 b xs))"
proof (cases "b32_vals t")
  case None
  then show ?thesis
    using acc_syms_join [of t] assms(1)
    by (cases "t = []") (simp_all add: base32_decode_tail_def b32_tail_def b32_vals_def Let_def)
next
  case (Some ds)
  let ?n = "length t"
  define m where "m = 5 * ?n div 8"
  define u where "u = 5 * ?n mod 8"
  have "m \<le> 5" "8 * m + u = 5 * ?n"
    using assms(1) by (auto simp: m_def u_def)
  then have mu: "m \<le> 5" "8 * m + u = 5 * ?n" "5 * (8 - ?n) + u = 8 * (5 - m)"
    using assms(1) by (simp_all add: diff_mult_distrib2)
  note v = b32_vals_Some [OF Some]
  obtain acc where acc: "acc_syms 0 t = Some acc" "unat acc = join 5 ds"
    using acc_syms_join [of t] Some assms(1) by auto
  have J: "join 5 ds < 2 ^ (5 * ?n)"
    using join_bound [of ds 5] v by simp
  have put: "put_shifts b (push_bit (5 * (8 - ?n)) acc) (map (\<lambda>b. 32 - 8 * b) [0..<m])
     = put_all bm_put_u8 b (map of_nat (digits 8 m (join 5 ds div 2 ^ u)))" if z: "join 5 ds mod 2 ^ u = 0"
  proof -
    have "join 5 ds * 2 ^ (5 * (8 - ?n)) < 2 ^ (5 * ?n) * 2 ^ (5 * (8 - ?n))"
      using J by simp
    also have "\<dots> = 2 ^ 40"
      unfolding power_add [symmetric] using assms(1) by (intro arg_cong [of _ _ "(^) 2"]) simp
    also have "\<dots> < 2 ^ 64" by simp
    finally have "unat (push_bit (5 * (8 - ?n)) acc) = join 5 ds * 2 ^ (5 * (8 - ?n))"
      using push_or_nat [of acc "5 * (8 - ?n)" 0] acc(2) by simp
    also have "\<dots> = join 5 ds div 2 ^ u * 2 ^ (8 * (5 - m))"
    proof -
      have "join 5 ds = join 5 ds div 2 ^ u * 2 ^ u"
        using z by auto
      then show ?thesis
        unfolding mu(3) [symmetric] power_add by (simp add: ac_simps)
    qed
    finally have a: "unat (push_bit (5 * (8 - ?n)) acc) = join 5 ds div 2 ^ u * 2 ^ (8 * (5 - m))" .
    have "32 - 8 * c = 8 * (5 - 1 - c)" for c :: nat
      by simp
    then show ?thesis
      unfolding put_shifts_eq a digits_top [OF mu(1), symmetric] by (simp add: comp_def)
  qed
  show ?thesis
  proof (cases "t = []")
    case True
    with Some show ?thesis
      by (simp add: base32_decode_tail_def b32_tail_def b32_vals_def join_def)
  next
    case False
    have "u = 0 \<Longrightarrow> ?n = 0"
      using assms(1) mu(2) by presburger
    then have d: "base32_decode_tail b t = (if acc AND (push_bit u 1 - 1) \<noteq> 0 then Ok (Err INVALID_BASE32)
        else map_ok Ok (put_shifts b (push_bit (5 * (8 - ?n)) acc) (map (\<lambda>b. 32 - 8 * b) [0..<m])))"
      using False acc(1) unfolding base32_decode_tail_def Let_def m_def u_def mult.commute [of ?n 5] by simp
    have e: "b32_tail t = (if join 5 ds mod 2 ^ u \<noteq> 0 then None
        else Some (map of_nat (digits 8 m (join 5 ds div 2 ^ u))))"
      unfolding b32_tail_def Let_def m_def u_def Some by (simp only: option.simps)
    show ?thesis
      unfolding d e acc_mask_zero acc(2) using put
      by (cases "join 5 ds mod 2 ^ u = 0") (simp_all only: option.simps if_True if_False simp_thms)
  qed
qed

lemma base32_group_len [simp]: "length (map of_nat (digits 8 5 x) :: u8 list) = 5"
  by simp

lemma base32_loop_Some:
  "b32_body t = Some xs \<Longrightarrow> length t mod 8 \<notin> {1, 3, 6} \<Longrightarrow>
     base32_decode_loop b t = map_ok Ok (put_all bm_put_u8 b xs)"
proof (induction t arbitrary: xs b rule: b32_body.induct)
  case (1 t)
  show ?case
  proof (cases "length t < 8")
    case True
    with "1.prems" show ?thesis
      using base32_decode_tail_eq [of t b] by (simp add: base32_loop_cases [of b t] b32_body.simps [of t])
  next
    case False
    then obtain ds ys where ds: "b32_vals (take 8 t) = Some ds" and ys: "b32_body (drop 8 t) = Some ys"
      and xs: "xs = map of_nat (digits 8 5 (join 5 ds)) @ ys"
      using "1.prems" by (auto simp: b32_body.simps [of t] split: option.splits)
    have "length (drop 8 t) mod 8 \<notin> {1, 3, 6}"
      using "1.prems"(2) False by (simp add: le_mod_geq)
    note IH = "1.IH" [OF False ds ys this]
    obtain acc where "acc_syms 0 (take 8 t) = Some acc" "unat acc = join 5 ds"
      using acc_syms_take_8 [of t] ds by auto
    then show ?thesis
      using False
      by (simp add: base32_loop_cases [of b t] put_shifts_group IH xs put_all_append map_ok_eq_and_then and_then_assoc)
  qed
qed

lemma base32_loop_None:
  "b32_body t = None \<Longrightarrow> length t mod 8 \<notin> {1, 3, 6} \<Longrightarrow> bm_inv b \<Longrightarrow>
     bm_len b + 5 * length t div 8 \<le> bm_capacity b \<Longrightarrow> base32_decode_loop b t = Ok (Err INVALID_BASE32)"
proof (induction t arbitrary: b rule: b32_body.induct)
  case (1 t)
  show ?case
  proof (cases "length t < 8")
    case True
    with "1.prems" show ?thesis
      using base32_decode_tail_eq [of t b] by (simp add: base32_loop_cases [of b t] b32_body.simps [of t])
  next
    case False
    show ?thesis
    proof (cases "b32_vals (take 8 t)")
      case None
      then show ?thesis
        using acc_syms_take_8 [of t] False by (simp add: base32_loop_cases [of b t] split: option.splits)
    next
      case (Some ds)
      let ?bs = "map of_nat (digits 8 5 (join 5 ds)) :: u8 list"
      obtain acc where acc: "acc_syms 0 (take 8 t) = Some acc" "unat acc = join 5 ds"
        using acc_syms_take_8 [of t] Some by auto
      obtain k where k: "length t = 8 + k"
        using False by (metis le_Suc_ex not_less)
      with "1.prems"(3,4) obtain b' where b': "put_all bm_put_u8 b ?bs = Ok b'" "bm_inv b'"
          "bm_len b' = bm_len b + 5" "bm_capacity b \<le> bm_capacity b'"
        by (elim put_u8s_room [of b ?bs]) auto
      have "base32_decode_loop b' (drop 8 t) = Ok (Err INVALID_BASE32)"
        using "1.prems" b' k Some False
        by (intro "1.IH" [OF False Some]) (auto simp: b32_body.simps [of t])
      then show ?thesis
        using acc b'(1) False by (simp add: base32_loop_cases [of b t] put_shifts_group)
    qed
  qed
qed

text \<open>The checks made before decoding, and what a string stands for.\<close>

definition base32_wf :: "string \<Rightarrow> bool" where
  "base32_wf t \<longleftrightarrow> (let n = base32_data_len t in n mod 8 \<notin> {1, 3, 6} \<and>
     (t = take n t \<or> t = take n t @ padding32 n))"

definition base32_dec :: "string \<Rightarrow> u8 list option" where
  "base32_dec t = (if base32_wf t then b32_body (take (base32_data_len t) t) else None)"

definition base32_canon :: "string \<Rightarrow> string" where
  "base32_canon t = (let d = take (base32_data_len t) t in d @ padding32 (length d))"


lemma base32_data_len_le: "base32_data_len t \<le> length t"
  by (simp add: base32_data_len_def length_takeWhile_le)

lemma base32_rest_pads:
  "(\<exists>c\<in>set (drop n t). c \<noteq> kBase32Pad) \<longleftrightarrow> drop n t \<noteq> replicate (length t - n) kBase32Pad"
  by (metis in_set_replicate length_drop replicate_eqI)

lemma base32_wf_checks:
  "base32_wf t \<longleftrightarrow> \<not> (let len = length t; n = base32_data_len t; r = n mod 8 in
     n \<noteq> len \<and> ((\<exists>c\<in>set (drop n t). c \<noteq> kBase32Pad) \<or> r = 0 \<or> r = 1 \<or> r = 3 \<or> r = 6 \<or> 8 - r \<noteq> len - n)
     \<or> n = len \<and> (len mod 8 = 1 \<or> len mod 8 = 3 \<or> len mod 8 = 6))"
proof -
  define n where "n = base32_data_len t"
  have le: "n \<le> length t"
    by (simp add: n_def base32_data_len_le)
  have "t = take n t \<longleftrightarrow> n = length t"
    using le by (metis length_take min.absorb2 take_all order_refl)
  moreover have "t = take n t @ padding32 n \<longleftrightarrow>
      drop n t = replicate (length t - n) kBase32Pad \<and> length t - n = (8 - n mod 8) mod 8"
    using le by (metis append_eq_conv_conj append_take_drop_id length_drop length_replicate length_take
        min.absorb2 padding32_def)
  ultimately show ?thesis
    unfolding base32_wf_def Let_def base32_rest_pads n_def [symmetric] using le
    by (cases "n = length t"; cases "n mod 8 = 0") auto
qed

lemma base32_decode_eq:
  "base32_decode t =
     (if base32_wf t then frozen (and_then (with_capacity (usize_mul (base32_data_len t) 5 div 8 + 1))
        (\<lambda>b. base32_decode_loop b (take (base32_data_len t) t))) else Ok (Err INVALID_BASE32))"
  unfolding base32_wf_checks base32_decode_def Let_def by (rule if_disj_eq)

lemma usize_mul_5: "n \<le> TEXT_MAX \<Longrightarrow> usize_mul n 5 = 5 * n"
  by (subst usize_mul_exact) simp_all

lemma base32_data_len_append:
  "kBase32Pad \<notin> set d \<Longrightarrow> base32_data_len (d @ replicate k kBase32Pad) = length d"
proof -
  assume "kBase32Pad \<notin> set d"
  then have e: "takeWhile (\<lambda>c. c \<noteq> kBase32Pad) d = d"
    by (auto simp: takeWhile_eq_all_conv)
  show ?thesis
    by (cases k) (simp_all add: base32_data_len_def takeWhile_append e)
qed

lemma base32_dec_enc: "base32_dec (base32_encode xs p) = Some xs"
proof -
  let ?d = "base32_encode xs False"
  have e: "base32_encode xs p = ?d @ (if p then padding32 (length ?d) else [])"
    using base32_encode_pad [of xs] by simp
  have n: "base32_data_len (base32_encode xs p) = length ?d"
    unfolding e using base32_data_len_append [OF base32_encode_no_pad, of xs 0]
      base32_data_len_append [OF base32_encode_no_pad, of xs]
    by (simp add: padding32_def)
  have t: "take (length ?d) (base32_encode xs p) = ?d"
    unfolding e by simp
  have "base32_wf (base32_encode xs p)"
    unfolding base32_wf_def Let_def n t using base32_encode_length [of xs] e by (simp split: if_splits)
  then show ?thesis
    unfolding base32_dec_def n t by (simp add: b32_body_enc)
qed

lemma base32_dec_body:
  assumes "base32_dec t = Some xs"
  shows "base32_encode xs False = take (base32_data_len t) t
    \<and> length xs = 5 * base32_data_len t div 8 \<and> base32_wf t"
proof -
  have "b32_body (take (base32_data_len t) t) = Some xs" "base32_wf t"
    using assms by (auto simp: base32_dec_def split: if_splits)
  then show ?thesis
    using base32_body_dec [of "take (base32_data_len t) t" xs] base32_data_len_le [of t]
    by (simp add: base32_wf_def Let_def min_def)
qed

interpretation base32: text_codec "\<lambda>xs. base32_encode xs True" base32_dec base32_wf
  "\<lambda>t. usize_mul (base32_data_len t) 5 div 8 + 1" "\<lambda>t. take (base32_data_len t) t"
  base32_decode_loop base32_decode base32_canon INVALID_BASE32
proof
  fix t xs b
  note le = base32_data_len_le [of t]
  show "usize_mul (base32_data_len t) 5 div 8 + 1 \<le> PTRDIFF_MAX" if "length t \<le> TEXT_MAX"
    using that le by (subst usize_mul_5) auto
  show "length xs \<le> usize_mul (base32_data_len t) 5 div 8 + 1" if "base32_dec t = Some xs" "length t \<le> TEXT_MAX"
    using base32_dec_body [OF that(1)] that(2) le by (simp add: usize_mul_5)
  show "base32_decode_loop b (take (base32_data_len t) t) = map_ok Ok (put_all bm_put_u8 b xs)"
    if "base32_dec t = Some xs"
    using that le by (intro base32_loop_Some) (auto simp: base32_dec_def base32_wf_def Let_def min_def split: if_splits)
  show "base32_decode_loop b (take (base32_data_len t) t) = Ok (Err INVALID_BASE32)"
    if "base32_dec t = None" "base32_wf t" "length t \<le> TEXT_MAX" "bm_inv b"
      "bm_len b + (usize_mul (base32_data_len t) 5 div 8 + 1) \<le> bm_capacity b"
    using that le by (intro base32_loop_None)
      (auto simp: base32_dec_def base32_wf_def Let_def min_def usize_mul_5)
  show "base32_encode xs True = base32_canon t" if "base32_dec t = Some xs"
    using base32_dec_body [OF that] by (simp add: base32_encode_pad base32_canon_def Let_def)
qed (simp_all add: base32_decode_eq base32_dec_enc base32_dec_body)

text \<open>Every accepted string is an encoding, padded or not; every rejected one is none.\<close>

lemma base32_dec_encoding:
  assumes "base32_dec t = Some xs"
  shows "\<exists>q. base32_encode xs q = t"
proof -
  let ?n = "base32_data_len t"
  have d: "base32_encode xs False = take ?n t" "length (take ?n t) = ?n"
    using base32_dec_body [OF assms] base32_data_len_le [of t] by simp_all
  have "t = base32_encode xs False \<or> t = base32_encode xs True"
    using base32_dec_body [OF assms] d
    by (simp add: base32_wf_def Let_def base32_encode_pad [of xs])
  then show ?thesis by metis
qed

lemma base32_accepts:
  assumes "length t \<le> TEXT_MAX"
  shows "(\<exists>b q. base32_decode t = Ok (Ok b) \<and> base32_encode (bytes_content b) q = t)
       \<or> base32_decode t = Ok (Err INVALID_BASE32) \<and> (\<forall>ys q. base32_encode ys q \<noteq> t)"
proof (cases "base32_dec t")
  case None
  then have "base32_encode ys q \<noteq> t" for ys q
    using base32_dec_enc [of ys q] by auto
  with base32.decode_None [OF None assms] show ?thesis by blast
next
  case (Some xs)
  with base32.decode_Some [OF Some assms] base32_dec_encoding [OF Some] show ?thesis by blast
qed

section \<open>Byte-string comparison and clearing\<close>

lemma ct_fold_zero:
  fixes d :: u8
  assumes "length lhs = length rhs"
  shows "fold (\<lambda>(l, r) diff. diff OR (l XOR r)) (zip lhs rhs) d = 0 \<longleftrightarrow> d = 0 \<and> lhs = rhs"
  using assms
proof (induction lhs rhs arbitrary: d rule: list_induct2)
  case (Cons x xs y ys)
  have "d OR (x XOR y) = 0 \<longleftrightarrow> d = 0 \<and> x = y"
    by (metis or_eq_0_iff xor_self_eq xor.assoc xor.left_neutral xor.right_neutral)
  with Cons show ?case by auto
qed simp

lemma secure_zero_take: "n \<le> length p \<Longrightarrow> secure_zero p n = replicate n 0 @ drop n p"
proof (induction n)
  case (Suc n)
  then show ?case
    by (simp add: list_update_append replicate_append_same flip: Cons_nth_drop_Suc)
qed simp

section \<open>Properties\<close>

text \<open>Hexadecimal: decoding what \<^verbatim>\<open>hex_encode\<close> wrote returns the bytes, for every byte
  string short enough that its encoding fits a \<^verbatim>\<open>std::string\<close>; no allocation fails.\<close>

theorem hex_roundtrip:
  assumes "length (hex_encode xs) \<le> TEXT_MAX"
  shows "\<exists>b. hex_decode (hex_encode xs) = Ok (Ok b) \<and> bytes_inv b \<and> bytes_content b = xs"
  using assms by (rule hex.roundtrip)

theorem hex_roundtrip_witness:
  "\<exists>b. hex_decode (hex_encode [0xDE, 0xAD, 0x01]) = Ok (Ok b) \<and> bytes_content b = [0xDE, 0xAD, 0x01]"
  using hex_roundtrip [of "[0xDE, 0xAD, 0x01]"] by auto

text \<open>C7: Base64: every byte string is decoded back from its encoding.\<close>

theorem base64_roundtrip:
  assumes "length (base64_encode xs) \<le> TEXT_MAX"
  shows "\<exists>b. base64_decode (base64_encode xs) = Ok (Ok b) \<and> bytes_inv b \<and> bytes_content b = xs"
  using assms by (rule base64.roundtrip)

theorem base64_roundtrip_witness:
  "\<exists>b. base64_decode (base64_encode [0x4D, 0x61, 0x6E, 0x21]) = Ok (Ok b)
     \<and> bytes_content b = [0x4D, 0x61, 0x6E, 0x21]"
  using base64_roundtrip [of "[0x4D, 0x61, 0x6E, 0x21]"] by auto

text \<open>C6: Base64 is strict: a string is either the encoding of exactly the bytes it decodes
  to, or no encoding of anything and rejected with \<^verbatim>\<open>INVALID_BASE64\<close>.\<close>

theorem base64_strict:
  assumes "length t \<le> TEXT_MAX"
  shows "(\<exists>b. base64_decode t = Ok (Ok b) \<and> base64_encode (bytes_content b) = t)
       \<or> base64_decode t = Ok (Err INVALID_BASE64) \<and> (\<forall>xs. base64_encode xs \<noteq> t)"
  using assms by (rule base64.accepts_canonical)

theorem base64_strict_witness:
  "base64_decode ''QR=='' = Ok (Err INVALID_BASE64) \<and> (\<forall>xs. base64_encode xs \<noteq> ''QR=='')"
proof -
  have "base64_char_index (CHR ''Q'') = 16" "base64_char_index (CHR ''R'') = 17"
    using base64_index_sym [of 16] base64_index_sym [of 17]
    by (simp_all add: base64_sym_def kBase64Chars_def)
  then have "base64_dec ''QR=='' = None"
    by (simp add: b64_group_def kBase64Pad_def)
  then have "base64_decode ''QR=='' = Ok (Err INVALID_BASE64)"
    by (rule base64.decode_None) simp
  then have "\<nexists>b. base64_decode ''QR=='' = Ok (Ok b) \<and> base64_encode (bytes_content b) = ''QR==''"
    by simp
  moreover have "length ''QR=='' \<le> TEXT_MAX" by simp
  ultimately show ?thesis
    using base64_strict by blast
qed

text \<open>C8: Base32 is strict: every byte string is decoded back from its encoding, with or without
  padding, and any string is either exactly the padded or the unpadded encoding of the bytes it
  decodes to, or no encoding of anything and rejected with \<^verbatim>\<open>INVALID_BASE32\<close>.\<close>

theorem base32_correct:
  assumes "length t \<le> TEXT_MAX" and "length (base32_encode xs p) \<le> TEXT_MAX"
  shows "(\<exists>b. base32_decode (base32_encode xs p) = Ok (Ok b) \<and> bytes_content b = xs)
    \<and> ((\<exists>b q. base32_decode t = Ok (Ok b) \<and> base32_encode (bytes_content b) q = t)
       \<or> base32_decode t = Ok (Err INVALID_BASE32) \<and> (\<forall>ys q. base32_encode ys q \<noteq> t))"
  using base32.decode_Some [OF base32_dec_enc assms(2)] base32_accepts [OF assms(1)] by blast

text \<open>The second string has one padding character where three belong.\<close>

theorem base32_correct_witness:
  "(\<exists>b. base32_decode (base32_encode [0x66, 0x6F, 0x6F] False) = Ok (Ok b)
      \<and> bytes_content b = [0x66, 0x6F, 0x6F])
   \<and> base32_decode ''MZXW6='' = Ok (Err INVALID_BASE32)"
proof -
  have l: "length ''MZXW6='' \<le> TEXT_MAX" "length (base32_encode [0x66, 0x6F, 0x6F] False) \<le> TEXT_MAX"
    by (simp_all add: base32_tail_digits out_chars_def)
  have "replicate 3 (CHR ''='') \<noteq> ''=''"
    by (simp add: numeral_3_eq_3)
  then have "base32_dec ''MZXW6='' = None"
    by (auto simp: base32_dec_def base32_wf_def base32_data_len_def kBase32Pad_def padding32_def)
  then have "base32_encode ys q \<noteq> ''MZXW6=''" for ys q
    using base32_dec_enc [of ys q] by auto
  with base32_correct [OF l] show ?thesis by blast
qed

text \<open>\<^verbatim>\<open>constant_time_eq\<close> is equality of byte strings.\<close>

theorem constant_time_eq_iff:
  "constant_time_eq lhs rhs \<longleftrightarrow> lhs = rhs"
  by (auto simp: constant_time_eq_def ct_fold_zero)

end
