(* ===== verification/Crypto_Cipher.thy ===== *)
theory Crypto_Cipher
  imports Crypto_Text
begin

text \<open>
  The stream ciphers of \<^verbatim>\<open>rc4.cpp\<close> and \<^verbatim>\<open>chacha20.cpp\<close>, the checksum of
  \<^verbatim>\<open>crc.cpp\<close> and the hash of \<^verbatim>\<open>murmur3.cpp\<close>.  Arrays are lists; a byte is an
  index by \<^const>\<open>unat\<close>.  Clearing local key material at the end of a function has no
  effect on its result and is left out.
\<close>

section \<open>RC4\<close>

definition rc4_swap :: "u8 list \<Rightarrow> u8 \<Rightarrow> u8 \<Rightarrow> u8 list" where
  "rc4_swap state i j = (state[unat i := state ! unat j])[unat j := state ! unat i]"

definition rc4_ksa_step :: "u8 list \<Rightarrow> nat \<Rightarrow> u8 \<times> u8 list \<Rightarrow> u8 \<times> u8 list" where
  "rc4_ksa_step key i = (\<lambda>(j, state).
     let j = j + state ! i + key ! (i mod length key)
     in (j, rc4_swap state (of_nat i) j))"

definition rc4_ksa :: "u8 list \<Rightarrow> u8 list" where
  "rc4_ksa key = snd (fold (rc4_ksa_step key) [0..<256] (0, map of_nat [0..<256]))"

text \<open>One round of the generator: the advanced state and the keystream byte.\<close>

definition rc4_round :: "u8 \<times> u8 \<times> u8 list \<Rightarrow> u8 \<times> (u8 \<times> u8 \<times> u8 list)" where
  "rc4_round = (\<lambda>(i, j, state).
     let i = i + 1;
         j = j + state ! unat i;
         state = rc4_swap state i j
     in (state ! unat (state ! unat i + state ! unat j), (i, j, state)))"

fun rc4_loop :: "BytesMut \<Rightarrow> u8 \<times> u8 \<times> u8 list \<Rightarrow> u8 list \<Rightarrow> (BytesMut, BytesExn) Result" where
  "rc4_loop output s [] = Ok output"
| "rc4_loop output s (d # data) =
     (let (k, s) = rc4_round s
      in and_then (bm_put_u8 output (d XOR k)) (\<lambda>output. rc4_loop output s data))"

definition rc4_crypt :: "u8 list \<Rightarrow> u8 list \<Rightarrow> Bytes fallible" where
  "rc4_crypt key data =
     (if length key = 0 \<or> length key > 256 then Ok (Err INVALID_ARGUMENT)
      else frozen (and_then (with_capacity (length data))
             (\<lambda>output. map_ok Ok (rc4_loop output (0, 0, rc4_ksa key) data))))"

section \<open>ChaCha20\<close>

definition load_le32 :: "u8 list \<Rightarrow> u32" where
  "load_le32 data = ucast (data ! 0) OR push_bit 8 (ucast (data ! 1))
     OR push_bit 16 (ucast (data ! 2)) OR push_bit 24 (ucast (data ! 3))"

definition store_le32 :: "u32 \<Rightarrow> u8 list" where
  "store_le32 v = [ucast (v AND 0xFF), ucast (drop_bit 8 v AND 0xFF),
     ucast (drop_bit 16 v AND 0xFF), ucast (drop_bit 24 v AND 0xFF)]"

definition rotl32 :: "u32 \<Rightarrow> nat \<Rightarrow> u32" where
  "rotl32 v bits = push_bit bits v OR drop_bit (32 - bits) v"

definition quarter_round :: "u32 \<Rightarrow> u32 \<Rightarrow> u32 \<Rightarrow> u32 \<Rightarrow> u32 \<times> u32 \<times> u32 \<times> u32" where
  "quarter_round a b c d =
     (let a = a + b; d = rotl32 (d XOR a) 16;
          c = c + d; b = rotl32 (b XOR c) 12;
          a = a + b; d = rotl32 (d XOR a) 8;
          c = c + d; b = rotl32 (b XOR c) 7
      in (a, b, c, d))"

text \<open>A call on four cells of the working array.\<close>

definition qround :: "nat \<Rightarrow> nat \<Rightarrow> nat \<Rightarrow> nat \<Rightarrow> u32 list \<Rightarrow> u32 list" where
  "qround i j k l w =
     (let (a, b, c, d) = quarter_round (w ! i) (w ! j) (w ! k) (w ! l)
      in w[i := a, j := b, k := c, l := d])"

definition double_round :: "u32 list \<Rightarrow> u32 list" where
  "double_round w =
     qround 3 4 9 14 (qround 2 7 8 13 (qround 1 6 11 12 (qround 0 5 10 15
    (qround 3 7 11 15 (qround 2 6 10 14 (qround 1 5 9 13 (qround 0 4 8 12 w)))))))"

definition chacha20_init_state :: "u8 list \<Rightarrow> u32 \<Rightarrow> u8 list \<Rightarrow> u32 list" where
  "chacha20_init_state key counter nonce =
     [0x61707865, 0x3320646e, 0x79622d32, 0x6b206574,
      load_le32 (drop 0 key), load_le32 (drop 4 key), load_le32 (drop 8 key), load_le32 (drop 12 key),
      load_le32 (drop 16 key), load_le32 (drop 20 key), load_le32 (drop 24 key), load_le32 (drop 28 key),
      counter, load_le32 (drop 0 nonce), load_le32 (drop 4 nonce), load_le32 (drop 8 nonce)]"

definition chacha20_block_impl :: "u32 list \<Rightarrow> u8 list" where
  "chacha20_block_impl state =
     (let working = (double_round ^^ 10) state
      in concat (map (\<lambda>i. store_le32 (working ! i + state ! i)) [0..<16]))"

definition chacha20_block :: "u8 list \<Rightarrow> u32 \<Rightarrow> u8 list \<Rightarrow> (Bytes, CryptoError) Result" where
  "chacha20_block key counter nonce =
     (if length key \<noteq> 32 \<or> length nonce \<noteq> 12 then Err INVALID_ARGUMENT
      else Ok (copy_from_slice (chacha20_block_impl (chacha20_init_state key counter nonce)) 64))"

text \<open>\<open>data\<close> is the part of the input from \<^verbatim>\<open>offset\<close> on.\<close>

fun put_xor :: "BytesMut \<Rightarrow> u8 list \<Rightarrow> u8 list \<Rightarrow> (BytesMut, BytesExn) Result" where
  "put_xor output (d # data) (k # ks) =
     and_then (bm_put_u8 output (d XOR k)) (\<lambda>output. put_xor output data ks)"
| "put_xor output _ _ = Ok output"

function chacha20_loop :: "BytesMut \<Rightarrow> u32 list \<Rightarrow> u32 \<Rightarrow> u8 list \<Rightarrow> (BytesMut, BytesExn) Result" where
  "chacha20_loop output state counter data =
     (if data = [] then Ok output
      else let state = state[12 := counter];
               block = chacha20_block_impl state;
               tk = (if length data < 64 then length data else 64)
           in and_then (put_xor output (take tk data) block)
                (\<lambda>output. chacha20_loop output state (counter + 1) (drop tk data)))"
  by auto
termination
  by (relation "measure (\<lambda>(_, _, _, data). length data)") auto

declare chacha20_loop.simps [simp del]

definition chacha20_xor :: "u8 list \<Rightarrow> u32 \<Rightarrow> u8 list \<Rightarrow> u8 list \<Rightarrow> Bytes fallible" where
  "chacha20_xor key counter nonce data =
     (if length key \<noteq> 32 \<or> length nonce \<noteq> 12 then Ok (Err INVALID_ARGUMENT)
      else frozen (and_then (with_capacity (length data)) (\<lambda>output.
             map_ok Ok (chacha20_loop output (chacha20_init_state key counter nonce) counter data))))"

section \<open>CRC-16\<close>

definition kCrc16Table :: "u16 list" where
  "kCrc16Table =
    [0x0000, 0x1021, 0x2042, 0x3063, 0x4084, 0x50a5, 0x60c6, 0x70e7, 0x8108, 0x9129, 0xa14a, 0xb16b,
     0xc18c, 0xd1ad, 0xe1ce, 0xf1ef, 0x1231, 0x0210, 0x3273, 0x2252, 0x52b5, 0x4294, 0x72f7, 0x62d6,
     0x9339, 0x8318, 0xb37b, 0xa35a, 0xd3bd, 0xc39c, 0xf3ff, 0xe3de, 0x2462, 0x3443, 0x0420, 0x1401,
     0x64e6, 0x74c7, 0x44a4, 0x5485, 0xa56a, 0xb54b, 0x8528, 0x9509, 0xe5ee, 0xf5cf, 0xc5ac, 0xd58d,
     0x3653, 0x2672, 0x1611, 0x0630, 0x76d7, 0x66f6, 0x5695, 0x46b4, 0xb75b, 0xa77a, 0x9719, 0x8738,
     0xf7df, 0xe7fe, 0xd79d, 0xc7bc, 0x48c4, 0x58e5, 0x6886, 0x78a7, 0x0840, 0x1861, 0x2802, 0x3823,
     0xc9cc, 0xd9ed, 0xe98e, 0xf9af, 0x8948, 0x9969, 0xa90a, 0xb92b, 0x5af5, 0x4ad4, 0x7ab7, 0x6a96,
     0x1a71, 0x0a50, 0x3a33, 0x2a12, 0xdbfd, 0xcbdc, 0xfbbf, 0xeb9e, 0x9b79, 0x8b58, 0xbb3b, 0xab1a,
     0x6ca6, 0x7c87, 0x4ce4, 0x5cc5, 0x2c22, 0x3c03, 0x0c60, 0x1c41, 0xedae, 0xfd8f, 0xcdec, 0xddcd,
     0xad2a, 0xbd0b, 0x8d68, 0x9d49, 0x7e97, 0x6eb6, 0x5ed5, 0x4ef4, 0x3e13, 0x2e32, 0x1e51, 0x0e70,
     0xff9f, 0xefbe, 0xdfdd, 0xcffc, 0xbf1b, 0xaf3a, 0x9f59, 0x8f78, 0x9188, 0x81a9, 0xb1ca, 0xa1eb,
     0xd10c, 0xc12d, 0xf14e, 0xe16f, 0x1080, 0x00a1, 0x30c2, 0x20e3, 0x5004, 0x4025, 0x7046, 0x6067,
     0x83b9, 0x9398, 0xa3fb, 0xb3da, 0xc33d, 0xd31c, 0xe37f, 0xf35e, 0x02b1, 0x1290, 0x22f3, 0x32d2,
     0x4235, 0x5214, 0x6277, 0x7256, 0xb5ea, 0xa5cb, 0x95a8, 0x8589, 0xf56e, 0xe54f, 0xd52c, 0xc50d,
     0x34e2, 0x24c3, 0x14a0, 0x0481, 0x7466, 0x6447, 0x5424, 0x4405, 0xa7db, 0xb7fa, 0x8799, 0x97b8,
     0xe75f, 0xf77e, 0xc71d, 0xd73c, 0x26d3, 0x36f2, 0x0691, 0x16b0, 0x6657, 0x7676, 0x4615, 0x5634,
     0xd94c, 0xc96d, 0xf90e, 0xe92f, 0x99c8, 0x89e9, 0xb98a, 0xa9ab, 0x5844, 0x4865, 0x7806, 0x6827,
     0x18c0, 0x08e1, 0x3882, 0x28a3, 0xcb7d, 0xdb5c, 0xeb3f, 0xfb1e, 0x8bf9, 0x9bd8, 0xabbb, 0xbb9a,
     0x4a75, 0x5a54, 0x6a37, 0x7a16, 0x0af1, 0x1ad0, 0x2ab3, 0x3a92, 0xfd2e, 0xed0f, 0xdd6c, 0xcd4d,
     0xbdaa, 0xad8b, 0x9de8, 0x8dc9, 0x7c26, 0x6c07, 0x5c64, 0x4c45, 0x3ca2, 0x2c83, 0x1ce0, 0x0cc1,
     0xef1f, 0xff3e, 0xcf5d, 0xdf7c, 0xaf9b, 0xbfba, 0x8fd9, 0x9ff8, 0x6e17, 0x7e36, 0x4e55, 0x5e74,
     0x2e93, 0x3eb2, 0x0ed1, 0x1ef0]"

definition crc16_step :: "u16 \<Rightarrow> u8 \<Rightarrow> u16" where
  "crc16_step crc s = push_bit 8 crc XOR kCrc16Table ! unat ((drop_bit 8 crc XOR ucast s) AND 0x00FF)"

definition crc16_calculate :: "u8 list \<Rightarrow> u16 \<Rightarrow> u16" where
  "crc16_calculate data crc = foldl crc16_step crc data"

section \<open>MurmurHash3\<close>

definition murmur_mix :: "u32 \<Rightarrow> u32" where
  "murmur_mix k = rotl32 (k * 0xcc9e2d51) 15 * 0x1b873593"

definition murmur_block :: "u32 \<Rightarrow> u32 \<Rightarrow> u32" where
  "murmur_block h k = rotl32 (h XOR murmur_mix k) 13 * 5 + 0xe6546b64"

text \<open>The blocks of four bytes, then the tail of up to three.\<close>

fun murmur_body :: "u32 \<Rightarrow> u8 list \<Rightarrow> u32" where
  "murmur_body h (b0 # b1 # b2 # b3 # data) =
     murmur_body (murmur_block h (ucast b0 OR push_bit 8 (ucast b1) OR push_bit 16 (ucast b2)
       OR push_bit 24 (ucast b3))) data"
| "murmur_body h data =
     (if data = [] then h
      else h XOR murmur_mix (foldl (OR) 0 (map (\<lambda>i. push_bit (8 * i) (ucast (data ! i))) [0..<length data])))"

definition fmix32 :: "u32 \<Rightarrow> u32" where
  "fmix32 h =
     (let h = h XOR drop_bit 16 h; h = h * 0x85ebca6b;
          h = h XOR drop_bit 13 h; h = h * 0xc2b2ae35
      in h XOR drop_bit 16 h)"

definition murmur3_32 :: "u8 list \<Rightarrow> u32 \<Rightarrow> u32" where
  "murmur3_32 data seed = fmix32 (murmur_body seed data XOR of_nat (length data))"

end
