(* ===== verification/Crypto_Cipher_Props.thy ===== *)
theory Crypto_Cipher_Props
  imports Crypto_Text_Props Crypto_Cipher
begin

text \<open>
  Correctness of the stream ciphers, the checksum and the hash of \<open>Crypto_Cipher\<close>: the
  contract \<open>keystream_cipher\<close> with RC4 and ChaCha20 as its instances, RC4's state as a
  permutation, seeking in a ChaCha20 stream, the CRC-16 table against bitwise polynomial
  division, and MurmurHash3 as a bijection of its seed.
\<close>

unbundle bit_operations_syntax

section \<open>Keystream ciphers\<close>

text \<open>
  The contract of a stream cipher: with valid parameters it answers with the input
  combined with the first bytes of a keystream \<open>gen\<close>, and with the error otherwise.
\<close>

locale keystream_cipher =
  fixes valid :: bool
    and gen :: "nat \<Rightarrow> u8 list"
    and crypt :: "u8 list \<Rightarrow> Bytes fallible"
  assumes length_gen: "length (gen n) = n"
    and gen_prefix: "take n (gen (n + m)) = gen n"
    and crypt_valid: "valid \<Longrightarrow> length data \<le> PTRDIFF_MAX \<Longrightarrow>
      \<exists>b. crypt data = Ok (Ok b) \<and> bytes_inv b \<and> bytes_content b = map2 (XOR) data (gen (length data))"
    and crypt_invalid: "\<not> valid \<Longrightarrow> crypt data = Ok (Err INVALID_ARGUMENT)"
begin

lemma xor_gen_twice: "map2 (XOR) (map2 (XOR) data (gen (length data))) (gen (length data)) = data"
  by (rule nth_equalityI) (simp_all add: length_gen xor.assoc)

lemma crypt_crypt:
  assumes "valid" and "length data \<le> PTRDIFF_MAX"
  shows "\<exists>c d. crypt data = Ok (Ok c) \<and> length (bytes_content c) = length data
    \<and> crypt (bytes_content c) = Ok (Ok d) \<and> bytes_content d = data"
proof -
  obtain c where c: "crypt data = Ok (Ok c)" "bytes_content c = map2 (XOR) data (gen (length data))"
    using crypt_valid [OF assms] by blast
  then have l: "length (bytes_content c) = length data"
    by (simp add: length_gen)
  then obtain d where "crypt (bytes_content c) = Ok (Ok d)"
      "bytes_content d = map2 (XOR) (bytes_content c) (gen (length data))"
    using crypt_valid [OF assms(1), of "bytes_content c"] assms(2) by auto
  with c l show ?thesis by (auto simp: xor_gen_twice)
qed

lemma crypt_prefix:
  assumes "valid" and "length (xs @ ys) \<le> PTRDIFF_MAX"
  shows "\<exists>b c. crypt (xs @ ys) = Ok (Ok b) \<and> crypt xs = Ok (Ok c)
    \<and> take (length xs) (bytes_content b) = bytes_content c"
  using crypt_valid [OF assms] crypt_valid [OF assms(1), of xs] assms(2)
    gen_prefix [of "length xs" "length ys"]
  by (auto simp: take_map take_zip)

end

section \<open>RC4\<close>

fun rc4_gen :: "u8 \<times> u8 \<times> u8 list \<Rightarrow> nat \<Rightarrow> u8 list" where
  "rc4_gen s 0 = []"
| "rc4_gen s (Suc n) = (let (k, s) = rc4_round s in k # rc4_gen s n)"

lemma length_rc4_gen: "length (rc4_gen s n) = n"
  by (induction n arbitrary: s) (simp_all split: prod.splits)

lemma rc4_gen_prefix: "take n (rc4_gen s (n + m)) = rc4_gen s n"
  by (induction n arbitrary: s) (simp_all split: prod.splits)

lemma rc4_loop_gen: "rc4_loop out s data = put_all bm_put_u8 out (map2 (XOR) data (rc4_gen s (length data)))"
  by (induction data arbitrary: out s) (simp_all split: prod.splits)

text \<open>Writing a byte string to a fresh buffer of exactly its length.\<close>

lemma frozen_put_all:
  assumes "length xs = n" and "n \<le> PTRDIFF_MAX"
  shows "\<exists>b. frozen (and_then (with_capacity n) (\<lambda>out. map_ok Ok (put_all bm_put_u8 out xs))) = Ok (Ok b)
    \<and> bytes_inv b \<and> bytes_content b = xs"
proof -
  obtain b where b: "with_capacity n = Ok b"
    using with_capacity_total [OF assms(2)] by blast
  from with_capacity_inv [OF b] have i: "bm_inv b" "bm_len b = 0" "bm_pos b = 0" "bm_written b = []"
    "n \<le> bm_capacity b" by (auto simp: bm_written_def)
  with assms(1) obtain b' where b': "put_all bm_put_u8 b xs = Ok b'" "bm_inv b'"
      "bm_pos b' = 0" "bm_written b' = xs"
    by (elim put_u8s_room [of b xs]) auto
  with bm_freeze_content [OF b'(2), of "fst (bm_freeze b')" "snd (bm_freeze b')"] b
  show ?thesis by (auto simp: bm_content_def frozen_def)
qed

interpretation rc4: keystream_cipher "0 < length key \<and> length key \<le> 256"
  "rc4_gen (0, 0, rc4_ksa key)" "rc4_crypt key" for key
  using frozen_put_all [OF _, of "map2 (XOR) data (rc4_gen s (length data))" for data s]
  by unfold_locales
    (auto simp: length_rc4_gen rc4_gen_prefix rc4_crypt_def rc4_loop_gen)

text \<open>The S-box stays a permutation of the bytes.\<close>

definition sbox :: "u8 list \<Rightarrow> bool" where
  "sbox st \<longleftrightarrow> length st = 256 \<and> distinct st"

lemma rc4_swap_sbox: "sbox st \<Longrightarrow> sbox (rc4_swap st i j)"
proof -
  assume s: "sbox st"
  then have "unat i < length st" "unat j < length st"
    using unat_u8_less by (auto simp: sbox_def)
  with s show ?thesis
    unfolding sbox_def rc4_swap_def by (simp add: distinct_swap)
qed

lemma rc4_round_sbox: "sbox st \<Longrightarrow> rc4_round (i, j, st) = (k, i', j', st') \<Longrightarrow> sbox st'"
  by (auto simp: rc4_round_def Let_def rc4_swap_sbox)

lemma sbox_init: "sbox (map of_nat [0..<256])"
  unfolding sbox_def distinct_map
  by (auto intro!: inj_onI dest: arg_cong [of _ _ "unat :: u8 \<Rightarrow> nat"] simp: unat_of_nat_u8)

lemma rc4_ksa_sbox: "sbox (rc4_ksa key)"
proof -
  have "sbox (snd (fold (rc4_ksa_step key) is p))" if "sbox (snd p)" for "is" p
    using that
  proof (induction "is" arbitrary: p)
    case (Cons i "is")
    then show ?case by (cases p) (simp add: rc4_ksa_step_def Let_def rc4_swap_sbox)
  qed simp
  from this [of "(0, map of_nat [0..<256])"] sbox_init show ?thesis
    by (simp add: rc4_ksa_def)
qed

section \<open>ChaCha20\<close>

lemma length_chacha20_block_impl: "length (chacha20_block_impl st) = 64"
  by (simp add: chacha20_block_impl_def Let_def length_concat comp_def store_le32_def sum_list_triv)

lemma put_xor_put_all: "put_xor out data ks = put_all bm_put_u8 out (map2 (XOR) data ks)"
  by (induction out data ks rule: put_xor.induct) (simp_all cong: and_then_cong)

text \<open>The keystream: the blocks of successive counters.\<close>

function chacha_gen :: "u32 list \<Rightarrow> u32 \<Rightarrow> nat \<Rightarrow> u8 list" where
  "chacha_gen st c n =
     (if n = 0 then [] else take n (chacha20_block_impl (st[12 := c])) @ chacha_gen st (c + 1) (n - 64))"
  by auto
termination by (relation "measure (\<lambda>(_, _, n). n)") auto

declare chacha_gen.simps [simp del]

lemma chacha_gen_0 [simp]: "chacha_gen st c 0 = []"
  by (simp add: chacha_gen.simps)

lemma length_chacha_gen: "length (chacha_gen st c n) = n"
proof (induction st c n rule: chacha_gen.induct)
  case (1 st c n)
  then show ?case
    by (subst chacha_gen.simps) (auto simp: length_chacha20_block_impl)
qed

lemma chacha_gen_prefix: "take n (chacha_gen st c (n + m)) = chacha_gen st c n"
proof (induction st c n rule: chacha_gen.induct)
  case (1 st c n)
  show ?case
  proof (cases "n = 0")
    case False
    have "take (n - 64) (chacha_gen st (c + 1) (n + m - 64)) = chacha_gen st (c + 1) (n - 64)"
      using 1 [OF False] by (cases "n \<le> 64") simp_all
    then show ?thesis
      using False by (simp add: chacha_gen.simps [of st c] length_chacha20_block_impl min_def)
  qed simp
qed

lemma zip_take_right: "length xs \<le> n \<Longrightarrow> zip xs (take n ys) = zip xs ys"
proof (induction xs arbitrary: n ys)
  case (Cons x xs)
  then show ?case by (cases n; cases ys) simp_all
qed simp

lemma chacha20_loop_gen:
  "chacha20_loop out st c data = put_all bm_put_u8 out (map2 (XOR) data (chacha_gen st c (length data)))"
proof (induction out st c data rule: chacha20_loop.induct)
  case (1 out st c data)
  show ?case
  proof (cases "data = []")
    case True
    then show ?thesis by (simp add: chacha20_loop.simps)
  next
    case False
    define B where "B = chacha20_block_impl (st[12 := c])"
    define n where "n = (if length data < 64 then length data else 64)"
    have g: "chacha_gen (st[12 := c]) c' n = chacha_gen st c' n" for c' n
      by (induction st c' n rule: chacha_gen.induct) (simp add: chacha_gen.simps [of "_ [12 := _]"] chacha_gen.simps)
    have IH: "chacha20_loop o' (st[12 := c]) (c + 1) (drop n data)
        = put_all bm_put_u8 o' (map2 (XOR) (drop n data) (chacha_gen st (c + 1) (length data - n)))"
      if "put_xor out (take n data) B = Ok o'" for o'
      using "1.IH" [OF False refl refl refl, folded B_def n_def, OF that] by (simp add: g)
    have n: "length (take n data) = n" "length (take n B) = n" "length data - 64 = length data - n"
        "take (length data) B = take n B"
      by (auto simp: n_def B_def length_chacha20_block_impl)
    have "zip data (chacha_gen st c (length data))
        = zip (take n data @ drop n data) (take n B @ chacha_gen st (c + 1) (length data - n))"
      using False n by (simp add: chacha_gen.simps [of st c] flip: B_def)
    also have "\<dots> = zip (take n data) B @ zip (drop n data) (chacha_gen st (c + 1) (length data - n))"
      using n(1,2) zip_take_right [of "take n data" n B] by (simp only: zip_append n)
    finally show ?thesis
      unfolding chacha20_loop.simps [of out st c data] Let_def B_def [symmetric] n_def [symmetric]
      using False by (simp add: put_all_append put_xor_put_all IH cong: and_then_cong)
  qed
qed

interpretation chacha20: keystream_cipher "length key = 32 \<and> length nonce = 12"
  "chacha_gen (chacha20_init_state key counter nonce) counter" "chacha20_xor key counter nonce" for key counter nonce
  using frozen_put_all [OF _, of "map2 (XOR) data (chacha_gen s c (length data))" for data s c]
  by unfold_locales
    (auto simp: length_chacha_gen chacha_gen_prefix chacha20_xor_def chacha20_loop_gen)

lemma chacha_gen_seek:
  "chacha_gen st c (64 * k + n) = chacha_gen st c (64 * k) @ chacha_gen st (c + of_nat k) n"
proof (induction k arbitrary: c)
  case (Suc k)
  have l: "64 * Suc k + n - 64 = 64 * k + n" "64 * Suc k - 64 = 64 * k"
    by simp_all
  have "chacha_gen st c (64 * Suc k + n) = chacha20_block_impl (st[12 := c]) @ chacha_gen st (c + 1) (64 * k + n)"
    by (subst chacha_gen.simps, subst l) (simp add: length_chacha20_block_impl)
  moreover have "chacha_gen st c (64 * Suc k) = chacha20_block_impl (st[12 := c]) @ chacha_gen st (c + 1) (64 * k)"
    by (subst chacha_gen.simps, subst l) (simp add: length_chacha20_block_impl)
  ultimately show ?case
    by (simp add: Suc add.assoc)
qed simp

lemma chacha_gen_state:
  "chacha_gen (chacha20_init_state key c nonce) c' n = chacha_gen (chacha20_init_state key d nonce) c' n"
proof (induction "chacha20_init_state key c nonce" c' n rule: chacha_gen.induct)
  case (1 c' n)
  have "(chacha20_init_state key c nonce)[12 := c'] = (chacha20_init_state key d nonce)[12 := c']"
    by (simp add: chacha20_init_state_def)
  with 1 show ?case
    by (simp add: chacha_gen.simps [of _ c' n])
qed

section \<open>CRC-16\<close>

text \<open>The reference: polynomial division by \<open>x^16 + x^12 + x^5 + 1\<close>, bit by bit.\<close>

definition crc_bit :: "u16 \<Rightarrow> u16" where
  "crc_bit c = (if bit c 15 then push_bit 1 c XOR 0x1021 else push_bit 1 c)"

definition crc_byte :: "u16 \<Rightarrow> u8 \<Rightarrow> u16" where
  "crc_byte crc b = (crc_bit ^^ 8) (crc XOR push_bit 8 (ucast b))"

lemma crc_bit_xor: "crc_bit (a XOR b) = crc_bit a XOR crc_bit b"
  by (auto simp: crc_bit_def bit_xor_iff push_bit_xor ac_simps)

lemma crc_bits_xor: "(crc_bit ^^ n) (a XOR b) = (crc_bit ^^ n) a XOR (crc_bit ^^ n) b"
  by (induction n) (simp_all add: crc_bit_xor)

lemma crc_bits_low: "n \<le> 8 \<Longrightarrow> (crc_bit ^^ n) (take_bit 8 c) = push_bit n (take_bit 8 c)"
proof (induction n)
  case (Suc n)
  have "\<not> bit (push_bit n (take_bit 8 c)) 15"
    using Suc.prems by (auto simp: bit_simps)
  with Suc show ?case by (simp add: crc_bit_def)
qed simp

definition crc8 :: "u16 \<Rightarrow> u16" where
  "crc8 c = crc_bit (crc_bit (crc_bit (crc_bit (crc_bit (crc_bit (crc_bit (crc_bit c)))))))"

lemma crc8_eq: "(crc_bit ^^ 8) c = crc8 c"
  by (simp add: crc8_def eval_nat_numeral)

lemma crc_table: "map (\<lambda>i. crc8 (push_bit 8 (of_nat i))) [0..<256] = kCrc16Table"
  by (simp add: upt_conv_Cons push_bit_eq_mult kCrc16Table_def) (simp add: crc8_def crc_bit_def)

lemma crc_table_nth: "i < 256 \<Longrightarrow> kCrc16Table ! i = (crc_bit ^^ 8) (push_bit 8 (of_nat i))"
  unfolding crc_table [symmetric] crc8_eq by simp

lemma crc16_step_byte: "crc16_step crc b = crc_byte crc b"
proof -
  define w where "w = drop_bit 8 crc XOR ucast b"
  have "w = take_bit 8 w"
    unfolding w_def by (rule bit_word_eqI) (auto simp: bit_simps dest: bit_imp_le_length)
  then have t: "take_bit 8 w = w" by simp
  then have m: "w AND 0x00FF = w"
    by (simp only: and_255_take_bit)
  have "unat w = unat w mod 2 ^ 8"
    using arg_cong [OF t, of unat] by (simp only: unat_take_bit_word)
  then have l: "unat w < 256" by simp
  have s: "crc XOR push_bit 8 (ucast b) = take_bit 8 crc XOR push_bit 8 w"
    unfolding w_def by (rule bit_word_eqI) (auto simp: bit_simps)
  have "crc_byte crc b = push_bit 8 (take_bit 8 crc) XOR (crc_bit ^^ 8) (push_bit 8 w)"
    unfolding crc_byte_def s crc_bits_xor by (simp add: crc_bits_low)
  moreover have "push_bit 8 (take_bit 8 crc) = push_bit 8 crc"
    by (rule bit_word_eqI) (auto simp: bit_simps)
  moreover have "(crc_bit ^^ 8) (push_bit 8 w) = kCrc16Table ! unat w"
    using crc_table_nth [OF l] by simp
  ultimately show ?thesis
    by (simp add: crc16_step_def m flip: w_def)
qed

section \<open>MurmurHash3\<close>

lemma rotl32_inj: "0 < n \<Longrightarrow> n < 32 \<Longrightarrow> rotl32 a n = rotl32 b n \<Longrightarrow> a = b"
proof (rule bit_word_eqI)
  fix i
  assume n: "0 < n" "n < 32" and e: "rotl32 a n = rotl32 b n" and "i < LENGTH(32)"
  have r: "bit (rotl32 v n) ((i + n) mod 32) = bit v i" if "i < 32" for v
    using n that unfolding rotl32_def
    by (cases "i + n < 32") (auto simp: bit_simps le_mod_geq dest: bit_imp_le_length)
  from r [of a] r [of b] e \<open>i < LENGTH(32)\<close> show "bit a i = bit b i" by simp
qed

lemma xor_shift_inj:
  fixes a b :: "'w::len word"
  assumes "0 < k" and "a XOR drop_bit k a = b XOR drop_bit k b"
  shows "a = b"
proof (rule bit_word_eqI)
  fix n assume "n < LENGTH('w)"
  show "bit a n = bit b n"
  proof (induction "LENGTH('w) - n" arbitrary: n rule: less_induct)
    case less
    show ?case
    proof (cases "n < LENGTH('w)")
      case True
      then have "bit a (n + k) = bit b (n + k)"
        using assms(1) by (intro less) simp
      moreover have "bit (a XOR drop_bit k a) n = bit (b XOR drop_bit k b) n"
        by (simp only: assms(2))
      ultimately show ?thesis
        by (auto simp: bit_simps add.commute)
    qed (auto dest: bit_imp_le_length)
  qed
qed

lemma mult_inj:
  fixes a b c d :: u32
  assumes "c * d = 1" and "a * c = b * c"
  shows "a = b"
proof -
  have "a * (c * d) = b * (c * d)"
    using assms(2) by (simp only: mult.assoc [symmetric])
  then show ?thesis by (simp only: assms(1) mult_1_right)
qed

text \<open>The multipliers are odd, so they have inverses modulo \<open>2 ^ 32\<close>.\<close>

lemma murmur_mult_inj_1: "a * 0x85ebca6b = b * 0x85ebca6b \<Longrightarrow> a = b" for a b :: u32
  by (rule mult_inj [where c = "0x85ebca6b" and d = "0xa5cb9243"], simp, assumption)

lemma murmur_mult_inj_2: "a * 0xc2b2ae35 = b * 0xc2b2ae35 \<Longrightarrow> a = b" for a b :: u32
  by (rule mult_inj [where c = "0xc2b2ae35" and d = "0x7ed1b41d"], simp, assumption)

lemma murmur_mult_inj_5: "a * 5 = b * 5 \<Longrightarrow> a = b" for a b :: u32
  by (rule mult_inj [where c = 5 and d = "0xcccccccd"], simp, assumption)

lemma fmix32_inj:
  assumes "fmix32 a = fmix32 b"
  shows "a = b"
proof -
  have shift: "x = y" if "x XOR drop_bit k x = y XOR drop_bit k y" "0 < k" for k and x y :: u32
    using that by (rule xor_shift_inj [rotated])
  show ?thesis
    by (insert assms, unfold fmix32_def Let_def, drule shift, simp, drule murmur_mult_inj_2, drule shift, simp,
        drule murmur_mult_inj_1, drule shift, simp, assumption)
qed

lemma xor_right_inj: "a XOR c = b XOR c \<Longrightarrow> a = b" for a b c :: u32
  by (metis xor.assoc xor.right_neutral xor_self_eq)

lemma murmur_block_inj: "murmur_block a k = murmur_block b k \<Longrightarrow> a = b"
proof -
  assume "murmur_block a k = murmur_block b k"
  then have "rotl32 (a XOR murmur_mix k) 13 * 5 = rotl32 (b XOR murmur_mix k) 13 * 5"
    by (simp add: murmur_block_def)
  then have "rotl32 (a XOR murmur_mix k) 13 = rotl32 (b XOR murmur_mix k) 13"
    by (rule murmur_mult_inj_5)
  from rotl32_inj [OF _ _ this] show "a = b"
    by (auto dest: xor_right_inj)
qed

lemma murmur_body_inj: "murmur_body a data = murmur_body b data \<Longrightarrow> a = b"
  by (induction a data arbitrary: b rule: murmur_body.induct)
    (auto dest: murmur_block_inj xor_right_inj split: if_splits)

text \<open>The test vector of RFC 8439, section 2.1.1.\<close>

lemma quarter_round_vector:
  "quarter_round 0x11111111 0x01020304 0x9b8d6f43 0x01234567
     = (0xea2a92f4, 0xcb1cf8ce, 0x4581472e, 0x5881c4bb)"
  by (simp add: quarter_round_def rotl32_def)

section \<open>Properties\<close>

text \<open>RC4 with a key of 1 to 256 bytes succeeds on every input, keeps its length, and
  applying it again with the same key gives the input back; any other key length is
  \<^verbatim>\<open>INVALID_ARGUMENT\<close>.\<close>

theorem rc4_involution:
  assumes "length data \<le> PTRDIFF_MAX"
  shows "if 0 < length key \<and> length key \<le> 256
    then \<exists>c d. rc4_crypt key data = Ok (Ok c) \<and> length (bytes_content c) = length data
           \<and> rc4_crypt key (bytes_content c) = Ok (Ok d) \<and> bytes_content d = data
    else rc4_crypt key data = Ok (Err INVALID_ARGUMENT)"
  using rc4.crypt_crypt [of key, OF _ assms] rc4.crypt_invalid [of key data] by auto

theorem rc4_involution_witness:
  "\<exists>c d. rc4_crypt [1, 2, 3] [0xFF, 0, 7] = Ok (Ok c) \<and> length (bytes_content c) = 3
     \<and> rc4_crypt [1, 2, 3] (bytes_content c) = Ok (Ok d) \<and> bytes_content d = [0xFF, 0, 7]"
proof -
  have "length [0xFF, 0, 7 :: u8] \<le> PTRDIFF_MAX" "length [0xFF, 0, 7 :: u8] = 3" "0 < length [1, 2, 3 :: u8]" "length [1, 2, 3 :: u8] \<le> 256"
    by simp_all
  with rc4_involution [of "[0xFF, 0, 7]" "[1, 2, 3]"] show ?thesis by (simp add: numeral_3_eq_3)
qed

text \<open>After key scheduling, RC4's state is a permutation of the 256 bytes, whatever the key.\<close>

theorem rc4_schedule_permutes:
  "length (rc4_ksa key) = 256 \<and> set (rc4_ksa key) = UNIV"
proof -
  have "card (UNIV :: u8 set) = 256"
    by (simp add: card_word)
  moreover have "card (set (rc4_ksa key)) = 256"
    using rc4_ksa_sbox [of key] by (simp add: sbox_def distinct_card)
  ultimately have "set (rc4_ksa key) = UNIV"
    by (intro card_subset_eq) simp_all
  with rc4_ksa_sbox [of key] show ?thesis by (simp add: sbox_def)
qed

text \<open>C11: ChaCha20 is an involution on every input with a 32-byte key and a 12-byte nonce.\<close>

theorem chacha20_involution:
  assumes "length key = 32" and "length nonce = 12" and "length data \<le> PTRDIFF_MAX"
  shows "\<exists>c d. chacha20_xor key ctr nonce data = Ok (Ok c) \<and> length (bytes_content c) = length data
    \<and> chacha20_xor key ctr nonce (bytes_content c) = Ok (Ok d) \<and> bytes_content d = data"
  using assms by (intro chacha20.crypt_crypt) simp_all

theorem chacha20_involution_witness:
  "\<exists>c d. chacha20_xor (replicate 32 7) 1 (replicate 12 0) [1, 2, 3] = Ok (Ok c) \<and> length (bytes_content c) = 3
    \<and> chacha20_xor (replicate 32 7) 1 (replicate 12 0) (bytes_content c) = Ok (Ok d) \<and> bytes_content d = [1, 2, 3]"
proof -
  have "length (replicate 32 7 :: u8 list) = 32" "length (replicate 12 0 :: u8 list) = 12"
    "length [1, 2, 3 :: u8] \<le> PTRDIFF_MAX" "length [1, 2, 3 :: u8] = 3"
    by simp_all
  from chacha20_involution [OF this(1-3), of 1, unfolded this(4)] show ?thesis .
qed

text \<open>C9: Seeking: encrypting the part of a message that starts at block \<open>k\<close> with the
  block counter advanced by \<open>k\<close> (modulo \<open>2 ^ 32\<close>) gives the corresponding part of the
  ciphertext of the whole.\<close>

theorem chacha20_seek:
  assumes "length key = 32" and "length nonce = 12" and "length (xs @ ys) \<le> PTRDIFF_MAX"
    and "length xs = 64 * k"
  shows "\<exists>a b c. chacha20_xor key ctr nonce (xs @ ys) = Ok (Ok a)
    \<and> chacha20_xor key ctr nonce xs = Ok (Ok b)
    \<and> chacha20_xor key (ctr + of_nat k) nonce ys = Ok (Ok c)
    \<and> bytes_content a = bytes_content b @ bytes_content c"
proof -
  have v: "length key = 32 \<and> length nonce = 12" and l: "length xs \<le> PTRDIFF_MAX" "length ys \<le> PTRDIFF_MAX"
    using assms by simp_all
  note r = chacha20.crypt_valid [OF v]
  let ?g = "chacha_gen (chacha20_init_state key ctr nonce)"
  have g: "?g ctr (length (xs @ ys)) = ?g ctr (length xs) @
      chacha_gen (chacha20_init_state key (ctr + of_nat k) nonce) (ctr + of_nat k) (length ys)"
    using chacha_gen_seek [of "chacha20_init_state key ctr nonce" ctr k "length ys"] assms(4)
      chacha_gen_state [of key ctr nonce _ _ "ctr + of_nat k"] by simp
  have "map2 (XOR) (xs @ ys) (?g ctr (length (xs @ ys))) = map2 (XOR) xs (?g ctr (length xs)) @
      map2 (XOR) ys (chacha_gen (chacha20_init_state key (ctr + of_nat k) nonce) (ctr + of_nat k) (length ys))"
    unfolding g by (simp add: length_chacha_gen)
  with r [OF assms(3), of ctr] r [OF l(1), of ctr] r [OF l(2), of "ctr + of_nat k"]
  show ?thesis by auto
qed

theorem chacha20_seek_witness:
  "\<exists>a b c. chacha20_xor (replicate 32 7) (-1) (replicate 12 0) (replicate 64 0 @ [1, 2]) = Ok (Ok a)
    \<and> chacha20_xor (replicate 32 7) (-1) (replicate 12 0) (replicate 64 0) = Ok (Ok b)
    \<and> chacha20_xor (replicate 32 7) (-1 + of_nat 1) (replicate 12 0) [1, 2] = Ok (Ok c)
    \<and> bytes_content a = bytes_content b @ bytes_content c"
  by (rule chacha20_seek) simp_all

text \<open>C10: The table-driven CRC-16 computes the remainder of bitwise division by the CCITT
  polynomial \<^verbatim>\<open>0x1021\<close>, for every input and every initial value.\<close>

theorem crc16_table_correct:
  "crc16_calculate data crc = foldl crc_byte crc data"
  by (simp add: crc16_calculate_def crc16_step_byte [abs_def])

text \<open>For every input, distinct seeds give distinct MurmurHash3 values: the hash is a
  bijection of the seed.\<close>

theorem murmur3_seed_bijective:
  "bij (murmur3_32 data)"
proof -
  have "inj (murmur3_32 data)"
    unfolding murmur3_32_def by (intro injI) (blast dest: fmix32_inj xor_right_inj murmur_body_inj)
  then show ?thesis
    by (simp add: bij_def finite_UNIV_inj_surj)
qed

end
