(* ===== verification/Crypto_Hash.thy ===== *)
theory Crypto_Hash
  imports Crypto_Text
begin

text \<open>
  The hash functions of \<^verbatim>\<open>md5.cpp\<close>, \<^verbatim>\<open>sha1.cpp\<close>, \<^verbatim>\<open>sha256.cpp\<close> and
  \<^verbatim>\<open>sha512.cpp\<close>.  The classes share their members and, text for text, the
  buffering of \<^verbatim>\<open>add\<close>; it is written once here, over the block size and the
  compression function, and each class instantiates it.  Words are those of a
  little-endian machine.
\<close>

section \<open>Members and buffering\<close>

record 'w hasher =
  num_bytes :: u64
  buffer_size :: usize
  buffer :: "u8 list"
  hash :: "'w list"

text \<open>The members as their initialisers leave them.\<close>

definition blank_hasher :: "nat \<Rightarrow> nat \<Rightarrow> 'w::zero hasher" where
  "blank_hasher B words = \<lparr>num_bytes = 0, buffer_size = 0, buffer = replicate B 0, hash = replicate words 0\<rparr>"

text \<open>\<^verbatim>\<open>buffer_[buffer_size_++] = *current++\<close>\<close>

definition push_byte :: "u8 \<Rightarrow> 'w hasher \<Rightarrow> 'w hasher" where
  "push_byte x s = s\<lparr>buffer := (buffer s)[buffer_size s := x], buffer_size := buffer_size s + 1\<rparr>"

fun fill_block :: "usize \<Rightarrow> 'w hasher \<Rightarrow> u8 list \<Rightarrow> 'w hasher \<times> u8 list" where
  "fill_block B s [] = (s, [])"
| "fill_block B s (x # data) =
     (if buffer_size s < B then fill_block B (push_byte x s) data else (s, x # data))"

function absorb_blocks ::
    "usize \<Rightarrow> ('w list \<Rightarrow> u8 list \<Rightarrow> 'w list) \<Rightarrow> 'w hasher \<Rightarrow> u8 list \<Rightarrow> 'w hasher \<times> u8 list" where
  "absorb_blocks B process_block s data =
     (if B > 0 \<and> length data \<ge> B
      then absorb_blocks B process_block
             (s\<lparr>hash := process_block (hash s) (take B data), num_bytes := num_bytes s + of_nat B\<rparr>) (drop B data)
      else (s, data))"
  by auto
termination by (relation "measure (\<lambda>(_, _, _, data). length data)") auto

declare absorb_blocks.simps [simp del]

definition hasher_add ::
    "usize \<Rightarrow> ('w list \<Rightarrow> u8 list \<Rightarrow> 'w list) \<Rightarrow> 'w hasher \<Rightarrow> u8 list \<Rightarrow> 'w hasher" where
  "hasher_add B process_block s data =
     (let (s, data) = (if buffer_size s > 0 then fill_block B s data else (s, data));
          s = (if buffer_size s = B
               then s\<lparr>hash := process_block (hash s) (buffer s), num_bytes := num_bytes s + of_nat B,
                      buffer_size := 0\<rparr>
               else s)
      in if data = [] then s
         else let (s, data) = absorb_blocks B process_block s data
              in fold push_byte data s)"

text \<open>
  The padding: zero the rest of the buffer and, when the padding runs over, the start of
  a second block, one index running through both; write the length field at \<open>padded\<close>;
  absorb one or two blocks.  The second block is a local array without an initialiser:
  what it holds before it is written is left open, as \<^const>\<open>undefined\<close>.
\<close>

definition uninitialised :: "nat \<Rightarrow> u8 list" where
  "uninitialised n = replicate n undefined"

lemma length_uninitialised [simp]: "length (uninitialised n) = n"
  by (simp add: uninitialised_def)

definition zero_range :: "nat \<Rightarrow> nat \<Rightarrow> u8 list \<Rightarrow> u8 list" where
  "zero_range i j p = fold (\<lambda>k p. p[k := 0]) [i..<j] p"

definition write_at :: "u8 list \<Rightarrow> nat \<Rightarrow> u8 list \<Rightarrow> u8 list" where
  "write_at p i ys = fold (\<lambda>(k, y) p. p[i + k := y]) (enumerate 0 ys) p"

definition hasher_pad ::
    "usize \<Rightarrow> usize \<Rightarrow> u8 list \<Rightarrow> ('w list \<Rightarrow> u8 list \<Rightarrow> 'w list) \<Rightarrow> 'w hasher \<Rightarrow> u8 list \<Rightarrow> u8 list
      \<Rightarrow> 'w hasher" where
  "hasher_pad B padded len_field process_block s buf extra =
     (let buf = zero_range (buffer_size s + 1) B buf;
          extra = zero_range (buffer_size s + 1 - B) (padded - B) extra;
          (buf, extra) = (if padded < B then (write_at buf padded len_field, extra)
                          else (buf, write_at extra (padded - B) len_field));
          h = process_block (hash s) buf;
          h = (if padded > B then process_block h extra else h)
      in s\<lparr>buffer := buf, hash := h\<rparr>)"

definition be_bytes32 :: "u32 \<Rightarrow> u8 list" where
  "be_bytes32 v = [ucast (drop_bit 24 v AND 0xFF), ucast (drop_bit 16 v AND 0xFF),
     ucast (drop_bit 8 v AND 0xFF), ucast (v AND 0xFF)]"

definition be_bytes64 :: "u64 \<Rightarrow> u8 list" where
  "be_bytes64 v = [ucast (drop_bit 56 v AND 0xFF), ucast (drop_bit 48 v AND 0xFF),
     ucast (drop_bit 40 v AND 0xFF), ucast (drop_bit 32 v AND 0xFF),
     ucast (drop_bit 24 v AND 0xFF), ucast (drop_bit 16 v AND 0xFF),
     ucast (drop_bit 8 v AND 0xFF), ucast (v AND 0xFF)]"

text \<open>\<^verbatim>\<open>process_buffer\<close> of the classes with blocks of 64 bytes.\<close>

definition padded_length64 :: "usize \<Rightarrow> usize" where
  "padded_length64 n =
     (let p = n * 8 + 1; lower11Bits = p mod 512;
          p = (if lower11Bits \<le> 448 then p + (448 - lower11Bits) else p + (512 + 448 - lower11Bits))
      in p div 8)"

definition process_buffer64 ::
    "(u64 \<Rightarrow> u8 list) \<Rightarrow> ('w list \<Rightarrow> u8 list \<Rightarrow> 'w list) \<Rightarrow> 'w hasher \<Rightarrow> 'w hasher" where
  "process_buffer64 length_bytes process_block s =
     (let extra = uninitialised 64;
          n = buffer_size s;
          (buf, extra) = (if n < 64 then ((buffer s)[n := 128], extra) else (buffer s, extra[0 := 128]));
          msgBits = 8 * (num_bytes s + of_nat n)
      in hasher_pad 64 (padded_length64 n) (length_bytes msgBits) process_block s buf extra)"

text \<open>\<^verbatim>\<open>get_hash\<close>: the digest, and the object with its old hash words put back.\<close>

definition get_hash_restoring :: "('w hasher \<Rightarrow> 'w hasher) \<Rightarrow> ('w \<Rightarrow> u8 list) \<Rightarrow> 'w hasher \<Rightarrow> u8 list \<times> 'w hasher" where
  "get_hash_restoring process_buffer out s =
     (let oldHash = hash s; s = process_buffer s
      in (concat (map out (hash s)), s\<lparr>hash := oldHash\<rparr>))"

text \<open>The loop of the \<^verbatim>\<open>get_hash\<close> that returns a string; every class has the same.\<close>

definition dec2hex :: string where
  "dec2hex = ''0123456789abcdef''"

definition digest_hex :: "u8 list \<Rightarrow> string" where
  "digest_hex rawHash =
     concat (map (\<lambda>x. [dec2hex ! unat (drop_bit 4 x AND 15), dec2hex ! unat (x AND 15)]) rawHash)"

definition rotate_right32 :: "u32 \<Rightarrow> nat \<Rightarrow> u32" where
  "rotate_right32 a c = drop_bit (c mod 32) a OR push_bit ((32 - c mod 32) mod 32) a"

definition rotate_left32 :: "u32 \<Rightarrow> nat \<Rightarrow> u32" where
  "rotate_left32 a c = push_bit (c mod 32) a OR drop_bit ((32 - c mod 32) mod 32) a"

definition byteswap :: "u32 \<Rightarrow> u32" where
  "byteswap x = drop_bit 24 x OR (drop_bit 8 x AND 0x0000FF00) OR (push_bit 8 x AND 0x00FF0000) OR push_bit 24 x"

section \<open>MD5\<close>

definition md5_f1 :: "u32 \<Rightarrow> u32 \<Rightarrow> u32 \<Rightarrow> u32" where "md5_f1 b c d = d XOR (b AND (c XOR d))"
definition md5_f2 :: "u32 \<Rightarrow> u32 \<Rightarrow> u32 \<Rightarrow> u32" where "md5_f2 b c d = c XOR (d AND (b XOR c))"
definition md5_f3 :: "u32 \<Rightarrow> u32 \<Rightarrow> u32 \<Rightarrow> u32" where "md5_f3 b c d = b XOR c XOR d"
definition md5_f4 :: "u32 \<Rightarrow> u32 \<Rightarrow> u32 \<Rightarrow> u32" where "md5_f4 b c d = c XOR (b OR NOT d)"

text \<open>Four consecutive lines, updating \<open>a\<close>, \<open>d\<close>, \<open>c\<close>, \<open>b\<close>; a line is its word, constant and shift.\<close>

definition md5_line :: "(u32 \<Rightarrow> u32 \<Rightarrow> u32 \<Rightarrow> u32) \<Rightarrow> u32 list \<Rightarrow> nat \<times> u32 \<times> nat \<Rightarrow> u32 \<Rightarrow> u32 \<Rightarrow> u32 \<Rightarrow> u32 \<Rightarrow> u32" where
  "md5_line f words l a b c d =
     (case l of (i, k, n) \<Rightarrow> rotate_left32 (a + f b c d + words ! i + k) n + b)"

fun md5_quads :: "(u32 \<Rightarrow> u32 \<Rightarrow> u32 \<Rightarrow> u32) \<Rightarrow> u32 list \<Rightarrow> (nat \<times> u32 \<times> nat) list list
    \<Rightarrow> u32 \<times> u32 \<times> u32 \<times> u32 \<Rightarrow> u32 \<times> u32 \<times> u32 \<times> u32" where
  "md5_quads f words ([l0, l1, l2, l3] # qs) (a, b, c, d) =
     (let a = md5_line f words l0 a b c d;
          d = md5_line f words l1 d a b c;
          c = md5_line f words l2 c d a b;
          b = md5_line f words l3 b c d a
      in md5_quads f words qs (a, b, c, d))"
| "md5_quads f words _ s = s"

definition md5_round1 :: "(nat \<times> u32 \<times> nat) list list" where
  "md5_round1 =
     [[(0, 0xd76aa478, 7), (1, 0xe8c7b756, 12), (2, 0x242070db, 17), (3, 0xc1bdceee, 22)],
      [(4, 0xf57c0faf, 7), (5, 0x4787c62a, 12), (6, 0xa8304613, 17), (7, 0xfd469501, 22)],
      [(8, 0x698098d8, 7), (9, 0x8b44f7af, 12), (10, 0xffff5bb1, 17), (11, 0x895cd7be, 22)],
      [(12, 0x6b901122, 7), (13, 0xfd987193, 12), (14, 0xa679438e, 17), (15, 0x49b40821, 22)]]"

definition md5_round2 :: "(nat \<times> u32 \<times> nat) list list" where
  "md5_round2 =
     [[(1, 0xf61e2562, 5), (6, 0xc040b340, 9), (11, 0x265e5a51, 14), (0, 0xe9b6c7aa, 20)],
      [(5, 0xd62f105d, 5), (10, 0x02441453, 9), (15, 0xd8a1e681, 14), (4, 0xe7d3fbc8, 20)],
      [(9, 0x21e1cde6, 5), (14, 0xc33707d6, 9), (3, 0xf4d50d87, 14), (8, 0x455a14ed, 20)],
      [(13, 0xa9e3e905, 5), (2, 0xfcefa3f8, 9), (7, 0x676f02d9, 14), (12, 0x8d2a4c8a, 20)]]"

definition md5_round3 :: "(nat \<times> u32 \<times> nat) list list" where
  "md5_round3 =
     [[(5, 0xfffa3942, 4), (8, 0x8771f681, 11), (11, 0x6d9d6122, 16), (14, 0xfde5380c, 23)],
      [(1, 0xa4beea44, 4), (4, 0x4bdecfa9, 11), (7, 0xf6bb4b60, 16), (10, 0xbebfbc70, 23)],
      [(13, 0x289b7ec6, 4), (0, 0xeaa127fa, 11), (3, 0xd4ef3085, 16), (6, 0x04881d05, 23)],
      [(9, 0xd9d4d039, 4), (12, 0xe6db99e5, 11), (15, 0x1fa27cf8, 16), (2, 0xc4ac5665, 23)]]"

definition md5_round4 :: "(nat \<times> u32 \<times> nat) list list" where
  "md5_round4 =
     [[(0, 0xf4292244, 6), (7, 0x432aff97, 10), (14, 0xab9423a7, 15), (5, 0xfc93a039, 21)],
      [(12, 0x655b59c3, 6), (3, 0x8f0ccc92, 10), (10, 0xffeff47d, 15), (1, 0x85845dd1, 21)],
      [(8, 0x6fa87e4f, 6), (15, 0xfe2ce6e0, 10), (6, 0xa3014314, 15), (13, 0x4e0811a1, 21)],
      [(4, 0xf7537e82, 6), (11, 0xbd3af235, 10), (2, 0x2ad7d2bb, 15), (9, 0xeb86d391, 21)]]"

definition md5_process_block :: "u32 list \<Rightarrow> u8 list \<Rightarrow> u32 list" where
  "md5_process_block h data =
     (let words = map (\<lambda>i. load_u32_le data (4 * i)) [0..<16];
          s = (h ! 0, h ! 1, h ! 2, h ! 3);
          s = md5_quads md5_f1 words md5_round1 s;
          s = md5_quads md5_f2 words md5_round2 s;
          s = md5_quads md5_f3 words md5_round3 s;
          (a, b, c, d) = md5_quads md5_f4 words md5_round4 s
      in [h ! 0 + a, h ! 1 + b, h ! 2 + c, h ! 3 + d])"

definition md5_reset :: "u32 hasher \<Rightarrow> u32 hasher" where
  "md5_reset s = s\<lparr>num_bytes := 0, buffer_size := 0,
     hash := [0x67452301, 0xefcdab89, 0x98badcfe, 0x10325476]\<rparr>"

definition md5_new :: "u32 hasher" where
  "md5_new = md5_reset (blank_hasher 64 4)"

definition md5_add :: "u32 hasher \<Rightarrow> u8 list \<Rightarrow> u32 hasher" where
  "md5_add = hasher_add 64 md5_process_block"

text \<open>The length field and the digest are written low byte first.\<close>

fun low_bytes :: "nat \<Rightarrow> u64 \<Rightarrow> u8 list" where
  "low_bytes 0 msgBits = []"
| "low_bytes (Suc n) msgBits = ucast (msgBits AND 0xFF) # low_bytes n (drop_bit 8 msgBits)"

definition md5_process_buffer :: "u32 hasher \<Rightarrow> u32 hasher" where
  "md5_process_buffer = process_buffer64 (low_bytes 8) md5_process_block"

definition md5_get_hash :: "u32 hasher \<Rightarrow> u8 list \<times> u32 hasher" where
  "md5_get_hash = get_hash_restoring md5_process_buffer
     (\<lambda>v. [ucast (v AND 0xFF), ucast (drop_bit 8 v AND 0xFF), ucast (drop_bit 16 v AND 0xFF),
           ucast (drop_bit 24 v AND 0xFF)])"

definition md5_get_hash_str :: "u32 hasher \<Rightarrow> string \<times> u32 hasher" where
  "md5_get_hash_str s = apfst digest_hex (md5_get_hash s)"

definition md5_call :: "u32 hasher \<Rightarrow> u8 list \<Rightarrow> string \<times> u32 hasher" where
  "md5_call s data = md5_get_hash_str (md5_add (md5_reset s) data)"

section \<open>SHA-1\<close>

definition sha1_f1 :: "u32 \<Rightarrow> u32 \<Rightarrow> u32 \<Rightarrow> u32" where "sha1_f1 b c d = d XOR (b AND (c XOR d))"
definition sha1_f2 :: "u32 \<Rightarrow> u32 \<Rightarrow> u32 \<Rightarrow> u32" where "sha1_f2 b c d = b XOR c XOR d"
definition sha1_f3 :: "u32 \<Rightarrow> u32 \<Rightarrow> u32 \<Rightarrow> u32" where "sha1_f3 b c d = (b AND c) OR (b AND d) OR (c AND d)"

definition sha1_words :: "u8 list \<Rightarrow> u32 list" where
  "sha1_words data =
     fold (\<lambda>i w. w @ [rotate_left32 (w ! (i - 3) XOR w ! (i - 8) XOR w ! (i - 14) XOR w ! (i - 16)) 1])
       [16..<80] (map (\<lambda>i. byteswap (load_u32_le data (4 * i))) [0..<16])"

text \<open>The five lines of a loop body.\<close>

definition sha1_five :: "(u32 \<Rightarrow> u32 \<Rightarrow> u32 \<Rightarrow> u32) \<Rightarrow> u32 \<Rightarrow> u32 list \<Rightarrow> nat
    \<Rightarrow> u32 \<times> u32 \<times> u32 \<times> u32 \<times> u32 \<Rightarrow> u32 \<times> u32 \<times> u32 \<times> u32 \<times> u32" where
  "sha1_five f k words i = (\<lambda>(a, b, c, d, e).
     let off = 5 * i;
         e = e + (rotate_left32 a 5 + f b c d + words ! off + k); b = rotate_left32 b 30;
         d = d + (rotate_left32 e 5 + f a b c + words ! (off + 1) + k); a = rotate_left32 a 30;
         c = c + (rotate_left32 d 5 + f e a b + words ! (off + 2) + k); e = rotate_left32 e 30;
         b = b + (rotate_left32 c 5 + f d e a + words ! (off + 3) + k); d = rotate_left32 d 30;
         a = a + (rotate_left32 b 5 + f c d e + words ! (off + 4) + k); c = rotate_left32 c 30
     in (a, b, c, d, e))"

definition sha1_process_block :: "u32 list \<Rightarrow> u8 list \<Rightarrow> u32 list" where
  "sha1_process_block h data =
     (let words = sha1_words data;
          s = (h ! 0, h ! 1, h ! 2, h ! 3, h ! 4);
          s = fold (sha1_five sha1_f1 0x5a827999 words) [0..<4] s;
          s = fold (sha1_five sha1_f2 0x6ed9eba1 words) [4..<8] s;
          s = fold (sha1_five sha1_f3 0x8f1bbcdc words) [8..<12] s;
          (a, b, c, d, e) = fold (sha1_five sha1_f2 0xca62c1d6 words) [12..<16] s
      in [h ! 0 + a, h ! 1 + b, h ! 2 + c, h ! 3 + d, h ! 4 + e])"

definition sha1_reset :: "u32 hasher \<Rightarrow> u32 hasher" where
  "sha1_reset s = s\<lparr>num_bytes := 0, buffer_size := 0,
     hash := [0x67452301, 0xefcdab89, 0x98badcfe, 0x10325476, 0xc3d2e1f0]\<rparr>"

definition sha1_new :: "u32 hasher" where
  "sha1_new = sha1_reset (blank_hasher 64 5)"

definition sha1_add :: "u32 hasher \<Rightarrow> u8 list \<Rightarrow> u32 hasher" where
  "sha1_add = hasher_add 64 sha1_process_block"

definition sha1_process_buffer :: "u32 hasher \<Rightarrow> u32 hasher" where
  "sha1_process_buffer = process_buffer64 be_bytes64 sha1_process_block"

definition sha1_get_hash :: "u32 hasher \<Rightarrow> u8 list \<times> u32 hasher" where
  "sha1_get_hash = get_hash_restoring sha1_process_buffer be_bytes32"

definition sha1_get_hash_str :: "u32 hasher \<Rightarrow> string \<times> u32 hasher" where
  "sha1_get_hash_str s = apfst digest_hex (sha1_get_hash s)"

definition sha1_call :: "u32 hasher \<Rightarrow> u8 list \<Rightarrow> string \<times> u32 hasher" where
  "sha1_call s data = sha1_get_hash_str (sha1_add (sha1_reset s) data)"

section \<open>SHA-256\<close>

definition sha256_f1 :: "u32 \<Rightarrow> u32 \<Rightarrow> u32 \<Rightarrow> u32" where
  "sha256_f1 e f g =
     (rotate_right32 e 6 XOR rotate_right32 e 11 XOR rotate_right32 e 25) + ((e AND f) XOR (NOT e AND g))"

definition sha256_f2 :: "u32 \<Rightarrow> u32 \<Rightarrow> u32 \<Rightarrow> u32" where
  "sha256_f2 a b c =
     (rotate_right32 a 2 XOR rotate_right32 a 13 XOR rotate_right32 a 22) + (((a OR b) AND c) OR (a AND b))"

definition sha256_words :: "u8 list \<Rightarrow> u32 list" where
  "sha256_words data =
     fold (\<lambda>i w. w @ [w ! (i - 16)
         + (rotate_right32 (w ! (i - 15)) 7 XOR rotate_right32 (w ! (i - 15)) 18 XOR drop_bit 3 (w ! (i - 15)))
         + w ! (i - 7)
         + (rotate_right32 (w ! (i - 2)) 17 XOR rotate_right32 (w ! (i - 2)) 19 XOR drop_bit 10 (w ! (i - 2)))])
       [16..<64] (map (\<lambda>i. byteswap (load_u32_le data (4 * i))) [0..<16])"

definition sha256_K :: "u32 list" where
  "sha256_K = concat
    [[0x428a2f98, 0x71374491, 0xb5c0fbcf, 0xe9b5dba5, 0x3956c25b, 0x59f111f1, 0x923f82a4, 0xab1c5ed5],
     [0xd807aa98, 0x12835b01, 0x243185be, 0x550c7dc3, 0x72be5d74, 0x80deb1fe, 0x9bdc06a7, 0xc19bf174],
     [0xe49b69c1, 0xefbe4786, 0x0fc19dc6, 0x240ca1cc, 0x2de92c6f, 0x4a7484aa, 0x5cb0a9dc, 0x76f988da],
     [0x983e5152, 0xa831c66d, 0xb00327c8, 0xbf597fc7, 0xc6e00bf3, 0xd5a79147, 0x06ca6351, 0x14292967],
     [0x27b70a85, 0x2e1b2138, 0x4d2c6dfc, 0x53380d13, 0x650a7354, 0x766a0abb, 0x81c2c92e, 0x92722c85],
     [0xa2bfe8a1, 0xa81a664b, 0xc24b8b70, 0xc76c51a3, 0xd192e819, 0xd6990624, 0xf40e3585, 0x106aa070],
     [0x19a4c116, 0x1e376c08, 0x2748774c, 0x34b0bcb5, 0x391c0cb3, 0x4ed8aa4a, 0x5b9cca4f, 0x682e6ff3],
     [0x748f82ee, 0x78a5636f, 0x84c87814, 0x8cc70208, 0x90befffa, 0xa4506ceb, 0xbef9a3f7, 0xc67178f2]]"

definition sha256_step :: "u32 list \<Rightarrow> nat \<Rightarrow> u32 \<times> u32 \<times> u32 \<times> u32 \<times> u32 \<times> u32 \<times> u32 \<times> u32
    \<Rightarrow> u32 \<times> u32 \<times> u32 \<times> u32 \<times> u32 \<times> u32 \<times> u32 \<times> u32" where
  "sha256_step words i = (\<lambda>(a, b, c, d, e, f, g, h).
     let temp1 = h + sha256_f1 e f g + sha256_K ! i + words ! i;
         temp2 = sha256_f2 a b c
     in (temp1 + temp2, a, b, c, d + temp1, e, f, g))"

definition sha256_process_block :: "u32 list \<Rightarrow> u8 list \<Rightarrow> u32 list" where
  "sha256_process_block hs data =
     (let (a, b, c, d, e, f, g, h) = fold (sha256_step (sha256_words data)) [0..<64]
            (hs ! 0, hs ! 1, hs ! 2, hs ! 3, hs ! 4, hs ! 5, hs ! 6, hs ! 7)
      in [hs ! 0 + a, hs ! 1 + b, hs ! 2 + c, hs ! 3 + d, hs ! 4 + e, hs ! 5 + f, hs ! 6 + g, hs ! 7 + h])"

definition sha256_reset :: "u32 hasher \<Rightarrow> u32 hasher" where
  "sha256_reset s = s\<lparr>num_bytes := 0, buffer_size := 0,
     hash := [0x6a09e667, 0xbb67ae85, 0x3c6ef372, 0xa54ff53a, 0x510e527f, 0x9b05688c, 0x1f83d9ab, 0x5be0cd19]\<rparr>"

definition sha256_new :: "u32 hasher" where
  "sha256_new = sha256_reset (blank_hasher 64 8)"

definition sha256_add :: "u32 hasher \<Rightarrow> u8 list \<Rightarrow> u32 hasher" where
  "sha256_add = hasher_add 64 sha256_process_block"

definition sha256_process_buffer :: "u32 hasher \<Rightarrow> u32 hasher" where
  "sha256_process_buffer = process_buffer64 be_bytes64 sha256_process_block"

definition sha256_get_hash :: "u32 hasher \<Rightarrow> u8 list \<times> u32 hasher" where
  "sha256_get_hash = get_hash_restoring sha256_process_buffer be_bytes32"

definition sha256_get_hash_str :: "u32 hasher \<Rightarrow> string \<times> u32 hasher" where
  "sha256_get_hash_str s = apfst digest_hex (sha256_get_hash s)"

definition sha256_call :: "u32 hasher \<Rightarrow> u8 list \<Rightarrow> string \<times> u32 hasher" where
  "sha256_call s data = sha256_get_hash_str (sha256_add (sha256_reset s) data)"

definition sha256 :: "u8 list \<Rightarrow> Bytes" where
  "sha256 data = copy_from_slice (fst (sha256_get_hash (sha256_add sha256_new data))) 32"

definition sha256_hex :: "u8 list \<Rightarrow> string" where
  "sha256_hex data = fst (sha256_get_hash_str (sha256_add sha256_new data))"

section \<open>SHA-512 and SHA-384\<close>

definition rotate64 :: "u64 \<Rightarrow> nat \<Rightarrow> u64" where
  "rotate64 a c = drop_bit c a OR push_bit (64 - c) a"

definition sigma1 :: "u64 \<Rightarrow> u64 \<Rightarrow> u64 \<Rightarrow> u64" where
  "sigma1 e f g = (rotate64 e 14 XOR rotate64 e 18 XOR rotate64 e 41) + ((e AND f) XOR (NOT e AND g))"

definition sigma0 :: "u64 \<Rightarrow> u64 \<Rightarrow> u64 \<Rightarrow> u64" where
  "sigma0 a b c = (rotate64 a 28 XOR rotate64 a 34 XOR rotate64 a 39) + (((a OR b) AND c) OR (a AND b))"

definition SHA512_K :: "u64 list" where
  "SHA512_K = concat
    [[0x428a2f98d728ae22, 0x7137449123ef65cd, 0xb5c0fbcfec4d3b2f, 0xe9b5dba58189dbbc],
     [0x3956c25bf348b538, 0x59f111f1b605d019, 0x923f82a4af194f9b, 0xab1c5ed5da6d8118],
     [0xd807aa98a3030242, 0x12835b0145706fbe, 0x243185be4ee4b28c, 0x550c7dc3d5ffb4e2],
     [0x72be5d74f27b896f, 0x80deb1fe3b1696b1, 0x9bdc06a725c71235, 0xc19bf174cf692694],
     [0xe49b69c19ef14ad2, 0xefbe4786384f25e3, 0x0fc19dc68b8cd5b5, 0x240ca1cc77ac9c65],
     [0x2de92c6f592b0275, 0x4a7484aa6ea6e483, 0x5cb0a9dcbd41fbd4, 0x76f988da831153b5],
     [0x983e5152ee66dfab, 0xa831c66d2db43210, 0xb00327c898fb213f, 0xbf597fc7beef0ee4],
     [0xc6e00bf33da88fc2, 0xd5a79147930aa725, 0x06ca6351e003826f, 0x142929670a0e6e70],
     [0x27b70a8546d22ffc, 0x2e1b21385c26c926, 0x4d2c6dfc5ac42aed, 0x53380d139d95b3df],
     [0x650a73548baf63de, 0x766a0abb3c77b2a8, 0x81c2c92e47edaee6, 0x92722c851482353b],
     [0xa2bfe8a14cf10364, 0xa81a664bbc423001, 0xc24b8b70d0f89791, 0xc76c51a30654be30],
     [0xd192e819d6ef5218, 0xd69906245565a910, 0xf40e35855771202a, 0x106aa07032bbd1b8],
     [0x19a4c116b8d2d0c8, 0x1e376c085141ab53, 0x2748774cdf8eeb99, 0x34b0bcb5e19b48a8],
     [0x391c0cb3c5c95a63, 0x4ed8aa4ae3418acb, 0x5b9cca4f7763e373, 0x682e6ff3d6b2b8a3],
     [0x748f82ee5defb2fc, 0x78a5636f43172f60, 0x84c87814a1f0ab72, 0x8cc702081a6439ec],
     [0x90befffa23631e28, 0xa4506cebde82bde9, 0xbef9a3f7b2c67915, 0xc67178f2e372532b],
     [0xca273eceea26619c, 0xd186b8c721c0c207, 0xeada7dd6cde0eb1e, 0xf57d4f7fee6ed178],
     [0x06f067aa72176fba, 0x0a637dc5a2c898a6, 0x113f9804bef90dae, 0x1b710b35131c471b],
     [0x28db77f523047d84, 0x32caab7b40c72493, 0x3c9ebe0a15c9bebc, 0x431d67c49c100d4c],
     [0x4cc5d4becb3e42b6, 0x597f299cfc657e2a, 0x5fcb6fab3ad6faec, 0x6c44198c4a475817]]"

definition sha512_words :: "u8 list \<Rightarrow> u64 list" where
  "sha512_words input =
     fold (\<lambda>i w.
         let s0 = rotate64 (w ! (i - 15)) 1 XOR rotate64 (w ! (i - 15)) 8 XOR drop_bit 7 (w ! (i - 15));
             s1 = rotate64 (w ! (i - 2)) 19 XOR rotate64 (w ! (i - 2)) 61 XOR drop_bit 6 (w ! (i - 2))
         in w @ [w ! (i - 16) + s0 + w ! (i - 7) + s1])
       [16..<80]
       (map (\<lambda>i. fold (\<lambda>j w. push_bit 8 w OR ucast (input ! (i * 8 + j))) [0..<8] 0) [0..<16])"

definition sha512_step :: "u64 list \<Rightarrow> nat \<Rightarrow> u64 \<times> u64 \<times> u64 \<times> u64 \<times> u64 \<times> u64 \<times> u64 \<times> u64
    \<Rightarrow> u64 \<times> u64 \<times> u64 \<times> u64 \<times> u64 \<times> u64 \<times> u64 \<times> u64" where
  "sha512_step words i = (\<lambda>(a, b, c, d, e, f, g, h).
     let temp1 = h + sigma1 e f g + SHA512_K ! i + words ! i;
         temp2 = sigma0 a b c
     in (temp1 + temp2, a, b, c, d + temp1, e, f, g))"

definition sha512_compress :: "u64 list \<Rightarrow> u8 list \<Rightarrow> u64 list" where
  "sha512_compress hs data =
     (let (a, b, c, d, e, f, g, h) = fold (sha512_step (sha512_words data)) [0..<80]
            (hs ! 0, hs ! 1, hs ! 2, hs ! 3, hs ! 4, hs ! 5, hs ! 6, hs ! 7)
      in [hs ! 0 + a, hs ! 1 + b, hs ! 2 + c, hs ! 3 + d, hs ! 4 + e, hs ! 5 + f, hs ! 6 + g, hs ! 7 + h])"

definition sha512_add :: "u64 hasher \<Rightarrow> u8 list \<Rightarrow> u64 hasher" where
  "sha512_add = hasher_add 128 sha512_compress"

definition padded_length128 :: "usize \<Rightarrow> usize" where
  "padded_length128 n =
     (let p = n + 1; lower7bits = p mod 128
      in if lower7bits \<le> 112 then p + (112 - lower7bits) else p + (128 + 112 - lower7bits))"

definition sha512_finalize :: "u64 hasher \<Rightarrow> u64 hasher" where
  "sha512_finalize s =
     (let n = buffer_size s;
          total_bytes = num_bytes s + of_nat n;
          high_bits = drop_bit 61 total_bytes;
          low_bits = push_bit 3 total_bytes
      in hasher_pad 128 (padded_length128 n) (be_bytes64 high_bits @ be_bytes64 low_bits) sha512_compress s
           ((buffer s)[n := 128]) (uninitialised 128))"

definition sha512_reset :: "u64 hasher \<Rightarrow> u64 hasher" where
  "sha512_reset s = s\<lparr>num_bytes := 0, buffer_size := 0,
     hash := [0x6a09e667f3bcc908, 0xbb67ae8584caa73b, 0x3c6ef372fe94f82b, 0xa54ff53a5f1d36f1,
       0x510e527fade682d1, 0x9b05688c2b3e6c1f, 0x1f83d9abfb41bd6b, 0x5be0cd19137e2179]\<rparr>"

definition sha512_new :: "u64 hasher" where
  "sha512_new = sha512_reset (blank_hasher 128 8)"

definition sha384_reset :: "u64 hasher \<Rightarrow> u64 hasher" where
  "sha384_reset s = s\<lparr>num_bytes := 0, buffer_size := 0,
     hash := [0xcbbb9d5dc1059ed8, 0x629a292a367cd507, 0x9159015a3070dd17, 0x152fecd8f70e5939,
       0x67332667ffc00b31, 0x8eb44a8768581511, 0xdb0c2e0d64f98fa7, 0x47b5481dbefa4fa4]\<rparr>"

definition sha384_new :: "u64 hasher" where
  "sha384_new = sha384_reset (blank_hasher 128 8)"

definition sha512_get_hash :: "u64 hasher \<Rightarrow> u8 list \<times> u64 hasher" where
  "sha512_get_hash = get_hash_restoring sha512_finalize be_bytes64"

text \<open>SHA-384 writes out, and puts back, the first six of the eight words only.\<close>

definition sha384_get_hash :: "u64 hasher \<Rightarrow> u8 list \<times> u64 hasher" where
  "sha384_get_hash s =
     (let oldHash = hash s; s = sha512_finalize s
      in (concat (map be_bytes64 (take 6 (hash s))), s\<lparr>hash := take 6 oldHash @ drop 6 (hash s)\<rparr>))"

definition sha512_get_hash_str :: "u64 hasher \<Rightarrow> string \<times> u64 hasher" where
  "sha512_get_hash_str s = apfst digest_hex (sha512_get_hash s)"

definition sha512_call :: "u64 hasher \<Rightarrow> u8 list \<Rightarrow> string \<times> u64 hasher" where
  "sha512_call s data = sha512_get_hash_str (sha512_add (sha512_reset s) data)"

definition sha384_get_hash_str :: "u64 hasher \<Rightarrow> string \<times> u64 hasher" where
  "sha384_get_hash_str s = apfst digest_hex (sha384_get_hash s)"

definition sha384_call :: "u64 hasher \<Rightarrow> u8 list \<Rightarrow> string \<times> u64 hasher" where
  "sha384_call s data = sha384_get_hash_str (sha512_add (sha384_reset s) data)"

definition sha512 :: "u8 list \<Rightarrow> Bytes" where
  "sha512 data = copy_from_slice (fst (sha512_get_hash (sha512_add sha512_new data))) 64"

definition sha512_hex :: "u8 list \<Rightarrow> string" where
  "sha512_hex data = fst (sha512_get_hash_str (sha512_add sha512_new data))"

definition sha384 :: "u8 list \<Rightarrow> Bytes" where
  "sha384 data = copy_from_slice (fst (sha384_get_hash (sha512_add sha384_new data))) 48"

definition sha384_hex :: "u8 list \<Rightarrow> string" where
  "sha384_hex data = fst (sha384_get_hash_str (sha512_add sha384_new data))"

end
