(* ===== verification/Crypto_Hash_Props.thy ===== *)
theory Crypto_Hash_Props
  imports Core_Bytes_Codec Crypto_Hash
begin

text \<open>
  Correctness of the hash classes.  The locale \<open>merkle_damgard\<close> relates a hasher to the
  message it has absorbed and shows that every way of cutting a message into pieces gives
  the digest of the padded message, and that taking the hash leaves the hasher as it was;
  MD5, SHA-1, SHA-256, SHA-512 and SHA-384's buffering interpret it.
\<close>

unbundle bit_operations_syntax

section \<open>Loops over arrays\<close>

lemma length_zero_range [simp]: "length (zero_range i j p) = length p"
proof -
  have "length (fold (\<lambda>k p. p[k := 0]) ks p) = length p" for ks
    by (induction ks arbitrary: p) simp_all
  then show ?thesis by (simp add: zero_range_def)
qed

lemma zero_range_eq:
  assumes "i \<le> j" and "j \<le> length p"
  shows "zero_range i j p = take i p @ replicate (j - i) 0 @ drop j p"
  using assms
proof (induction "j - i" arbitrary: i p)
  case 0
  then show ?case by (simp add: zero_range_def)
next
  case (Suc d)
  then have ij: "i < j" by simp
  then have "zero_range i j p = zero_range (Suc i) j (p[i := 0])"
    by (simp add: zero_range_def upt_conv_Cons)
  also have "\<dots> = take (Suc i) (p[i := 0]) @ replicate (j - Suc i) 0 @ drop j p"
    using Suc ij by (subst Suc.hyps(1)) (simp_all)
  also have "\<dots> = take i p @ replicate (j - i) 0 @ drop j p"
    using Suc.prems ij by (simp add: take_Suc_update Suc_diff_Suc flip: replicate_Suc)
  finally show ?case .
qed

lemma write_at_eq: "i + length ys \<le> length p \<Longrightarrow> write_at p i ys = block p i ys"
proof (induction ys arbitrary: i p rule: rev_induct)
  case (snoc y ys)
  then have "write_at p i (ys @ [y]) = (block p i ys)[i + length ys := y]"
    by (simp add: write_at_def enumerate_append_eq)
  also have "\<dots> = block p i (ys @ [y])"
    using snoc.prems by (simp add: block_def list_update_append flip: Cons_nth_drop_Suc)
  finally show ?case .
qed (simp add: write_at_def block_def)

section \<open>Merkle-Damgard hashing of whole messages\<close>

text \<open>Compressing the full blocks of a message, and what is left over.\<close>

function md_fold :: "nat \<Rightarrow> ('h \<Rightarrow> u8 list \<Rightarrow> 'h) \<Rightarrow> 'h \<Rightarrow> u8 list \<Rightarrow> 'h" where
  "md_fold B f h m = (if 0 < B \<and> B \<le> length m then md_fold B f (f h (take B m)) (drop B m) else h)"
  by auto
termination by (relation "measure (\<lambda>(_, _, _, m). length m)") auto

declare md_fold.simps [simp del]

definition md_tail :: "nat \<Rightarrow> u8 list \<Rightarrow> u8 list" where
  "md_tail B m = drop (length m - length m mod B) m"

text \<open>The padding of a message of \<open>n\<close> bytes whose length field is \<open>l\<close>.\<close>

definition md_padding :: "nat \<Rightarrow> u8 list \<Rightarrow> nat \<Rightarrow> u8 list" where
  "md_padding B l n = (let r = n mod B; k = (if r + 1 + length l \<le> B then B else 2 * B) in
     [0x80] @ replicate (k - length l - r - 1) 0 @ l)"

lemma md_fold_short [simp]: "length m < B \<Longrightarrow> md_fold B f h m = h"
  by (subst md_fold.simps) simp

lemma md_fold_block: "0 < B \<Longrightarrow> length b = B \<Longrightarrow> md_fold B f h (b @ m) = md_fold B f (f h b) m"
  by (subst md_fold.simps) simp

lemma md_fold_append:
  assumes "0 < B" and "length x mod B = 0"
  shows "md_fold B f h (x @ y) = md_fold B f (md_fold B f h x) y"
  using assms(2)
proof (induction B f h x rule: md_fold.induct)
  case (1 B f h x)
  show ?case
  proof (cases "0 < B \<and> B \<le> length x")
    case True
    then have "x = take B x @ drop B x" "length (take B x) = B" by simp_all
    with 1 True show ?thesis
      by (metis append.assoc length_drop md_fold_block mod_if le_mod_geq not_less)
  next
    case False
    with 1 show ?thesis by (cases "B = 0") (auto simp: md_fold.simps [of 0])
  qed
qed

lemma length_md_tail: "length (md_tail B m) = length m mod B"
  by (simp add: md_tail_def)

lemma md_split: "m = take (length m - length m mod B) m @ md_tail B m"
  by (simp add: md_tail_def)

lemma mod_sub_mod: "(n - n mod B) mod B = (0::nat)"
  by (simp add: minus_mod_eq_mult_div)

lemma md_fold_tail:
  assumes "0 < B"
  shows "md_fold B f h (m @ y) = md_fold B f (md_fold B f h m) (md_tail B m @ y)"
proof -
  let ?x = "take (length m - length m mod B) m"
  have x: "length ?x mod B = 0"
    by (simp add: min_absorb2 mod_sub_mod)
  have m: "md_fold B f h m = md_fold B f h ?x"
    using md_fold_append [OF assms x, of f h "md_tail B m"] md_split [of m B] assms
    by (simp add: length_md_tail)
  have "md_fold B f h (m @ y) = md_fold B f h (?x @ (md_tail B m @ y))"
    using md_split [of m B] by (metis append.assoc)
  also have "\<dots> = md_fold B f (md_fold B f h ?x) (md_tail B m @ y)"
    by (rule md_fold_append [OF assms x])
  finally show ?thesis by (simp only: m)
qed

lemma md_tail_blocks:
  assumes "length x mod B = 0"
  shows "md_tail B (x @ z) = md_tail B z"
proof -
  have r: "length (x @ z) mod B = length z mod B"
    using assms by (metis add_0 length_append mod_add_left_eq)
  define k where "k = length z - length z mod B"
  have "length z mod B \<le> length z" by simp
  then have e: "length (x @ z) - length z mod B = length x + k"
    by (simp only: length_append Nat.add_diff_assoc k_def)
  show ?thesis unfolding md_tail_def r e k_def [symmetric] by simp
qed

lemma md_tail_append: "md_tail B (m @ y) = md_tail B (md_tail B m @ y)"
  using md_tail_blocks [of "take (length m - length m mod B) m" B "md_tail B m @ y"] md_split [of m B]
  by (metis append.assoc length_take min.absorb2 diff_le_self mod_sub_mod)

lemma md_tail_short: "length m < B \<Longrightarrow> md_tail B m = m"
  by (simp add: md_tail_def)

section \<open>The buffering loops\<close>

lemma fill_buffer_eq:
  fixes data :: "u8 list"
  assumes "length (buffer s) = B" and "buffer_size s \<le> B"
  defines "j \<equiv> min (B - buffer_size s) (length data)"
  shows "fill_block B s data =
    (s\<lparr>buffer := block (buffer s) (buffer_size s) (take j data), buffer_size := buffer_size s + j\<rparr>, drop j data)"
  using assms(1,2) unfolding j_def
proof (induction B s data rule: fill_block.induct)
  case (2 B s x data)
  show ?case
  proof (cases "buffer_size s < B")
    case True
    let ?s = "push_byte x s"
    have s: "buffer_size ?s = Suc (buffer_size s)" "buffer ?s = (buffer s)[buffer_size s := x]"
      by (simp_all add: push_byte_def)
    have d: "B - buffer_size s = Suc (B - Suc (buffer_size s))"
      using True by simp
    have "block ((buffer s)[buffer_size s := x]) (Suc (buffer_size s)) ys
        = block (buffer s) (buffer_size s) (x # ys)" for ys
      using True 2 by (simp add: block_def take_Suc_update)
    then show ?thesis
      using True 2 s d by (simp add: push_byte_def)
  qed (use 2 in \<open>simp add: block_def\<close>)
qed (simp add: block_def)

lemma fold_push_byte:
  assumes "buffer_size s + length data \<le> length (buffer s)"
  shows "fold push_byte data s =
    s\<lparr>buffer := block (buffer s) (buffer_size s) data, buffer_size := buffer_size s + length data\<rparr>"
  using assms
proof (induction data arbitrary: s)
  case (Cons x data)
  have "block ((buffer s)[buffer_size s := x]) (Suc (buffer_size s)) data
        = block (buffer s) (buffer_size s) (x # data)"
    using Cons.prems by (simp add: block_def take_Suc_update)
  with Cons show ?case by (simp add: push_byte_def)
qed (simp add: block_def)

lemma absorb_blocks_eq:
  assumes "0 < B"
  shows "absorb_blocks B f s data =
    (s\<lparr>hash := md_fold B f (hash s) data, num_bytes := num_bytes s + of_nat (length data - length data mod B)\<rparr>,
     md_tail B data)"
  using assms
proof (induction B f s data rule: absorb_blocks.induct)
  case (1 B f s data)
  show ?case
  proof (cases "B \<le> length data")
    case True
    have d: "data = take B data @ drop B data" by simp
    have tl: "md_tail B data = md_tail B (drop B data)"
      using md_tail_blocks [of "take B data" B "drop B data"] True by simp
    obtain k where k: "length data = B + k"
      using True by (metis le_Suc_ex)
    have "k mod B \<le> k" by simp
    then have "length data - length data mod B = B + ((length data - B) - (length data - B) mod B)"
      unfolding k by (simp only: mod_add_self1 diff_add_inverse Nat.add_diff_assoc)
    with True 1 tl show ?thesis
      by (subst absorb_blocks.simps) (simp add: md_fold.simps [of B f "hash s" data] add.assoc)
  next
    case False
    then show ?thesis
      by (subst absorb_blocks.simps) (simp add: md_tail_short)
  qed
qed

section \<open>The contract of a hash class\<close>

text \<open>
  \<open>process_buffer\<close> pads with a length field of \<open>L\<close> bytes; \<open>len_field\<close> computes it
  from the number of bytes.  A hasher represents a message when its hash words are those
  of the full blocks and its buffer holds the rest.
\<close>

locale merkle_damgard =
  fixes B L :: nat
    and process_block :: "'w list \<Rightarrow> u8 list \<Rightarrow> 'w list"
    and iv :: "'w list"
    and len_field :: "u64 \<Rightarrow> u8 list"
    and process_buffer :: "'w hasher \<Rightarrow> 'w hasher"
  assumes L_pos: "0 < L" and L_less_B: "L < B"
    and length_field: "length (len_field n) = L"
    and process_buffer_eq: "length (buffer s) = B \<Longrightarrow> buffer_size s < B \<Longrightarrow>
      \<exists>extra. length extra = B \<and> process_buffer s =
        hasher_pad B (if buffer_size s + 1 + L \<le> B then B - L else 2 * B - L)
          (len_field (num_bytes s + of_nat (buffer_size s))) process_block s
          ((buffer s)[buffer_size s := 0x80]) extra"
begin

definition represents :: "'w hasher \<Rightarrow> u8 list \<Rightarrow> bool" where
  "represents s m \<longleftrightarrow> length (buffer s) = B \<and> buffer_size s = length m mod B
     \<and> take (buffer_size s) (buffer s) = md_tail B m
     \<and> num_bytes s = of_nat (length m - length m mod B) \<and> hash s = md_fold B process_block iv m"

lemma B_pos: "0 < B"
  using L_less_B by simp

lemma total_length:
  "length (m @ x) = (length m - length m mod B) + length (md_tail B m @ x)"
  by (simp add: length_md_tail)

lemma represents_short:
  assumes "length (buffer s) = B" and "length (md_tail B m @ x) < B"
    and "buffer_size s = length (md_tail B m @ x)" and "take (buffer_size s) (buffer s) = md_tail B m @ x"
    and "hash s = md_fold B process_block iv m" and "num_bytes s = of_nat (length m - length m mod B)"
  shows "represents s (m @ x)"
proof -
  define q where "q = length m - length m mod B"
  define k where "k = length (md_tail B m @ x)"
  have l: "length (m @ x) = q + k"
    using total_length [of m x] by (simp only: q_def k_def)
  have k: "k < B" "q mod B = 0"
    using assms(2) mod_sub_mod [of "length m" B] by (simp_all only: k_def q_def)
  then have "length (m @ x) mod B = length (md_tail B m @ x)"
    unfolding l by (simp only: k_def [symmetric]) (metis add_0 mod_add_left_eq mod_less)
  moreover from this have "length (m @ x) - length (m @ x) mod B = length m - length m mod B"
    unfolding l q_def [symmetric] k_def [symmetric] by simp
  moreover have "md_fold B process_block iv (m @ x) = md_fold B process_block iv m"
    using md_fold_tail [OF B_pos, of process_block iv m x] md_fold_short [OF assms(2)] by simp
  moreover have "md_tail B (m @ x) = md_tail B m @ x"
    using md_tail_append [of B m x] md_tail_short [OF assms(2)] by simp
  ultimately show ?thesis
    using assms by (simp only: represents_def) 
qed

lemma represents_block:
  assumes "length (md_tail B m @ x) = B" and "length (buffer s) = B" and "buffer_size s = 0"
    and "hash s = process_block (md_fold B process_block iv m) (md_tail B m @ x)"
    and "num_bytes s = of_nat (length m - length m mod B) + of_nat B"
  shows "represents s (m @ x)"
proof -
  define q where "q = length m - length m mod B"
  have l: "length (m @ x) = q + B"
    using total_length [of m x] assms(1) by (simp only: q_def)
  have mod: "length (m @ x) mod B = 0"
    unfolding l using mod_sub_mod [of "length m" B, folded q_def] by simp
  have nil: "md_fold B process_block h [] = h" for h
    using B_pos by (intro md_fold_short) simp
  have "md_fold B process_block iv (m @ x) = process_block (md_fold B process_block iv m) (md_tail B m @ x)"
    using md_fold_tail [OF B_pos, of process_block iv m x]
      md_fold_block [OF B_pos assms(1), of process_block "md_fold B process_block iv m" "[]"]
    by (simp only: append_Nil2 nil)
  moreover have "md_tail B (m @ x) = []"
    using length_md_tail [of B "m @ x"] mod by simp
  moreover have "of_nat (length (m @ x)) = (of_nat (length m - length m mod B) + of_nat B :: u64)"
    unfolding l q_def by (simp only: of_nat_add)
  ultimately show ?thesis
    using assms(2-5) mod by (simp add: represents_def)
qed

lemma represents_absorb:
  assumes "represents s m" and "buffer_size s = 0"
  shows "represents (case absorb_blocks B process_block s data of (s, data) \<Rightarrow> fold push_byte data s) (m @ data)"
proof -
  have m: "length m mod B = 0" and tl: "md_tail B m = []"
    using assms length_md_tail [of B m] by (auto simp: represents_def)
  have len: "length (md_tail B data) < B"
    using B_pos by (simp add: length_md_tail)
  have mod: "length (m @ data) mod B = length data mod B"
    using m by (metis add_0 length_append mod_add_left_eq)
  have "length data mod B \<le> length data" by simp
  then have "length (m @ data) - length data mod B = length m + (length data - length data mod B)"
    by (simp only: length_append Nat.add_diff_assoc)
  then have nb: "of_nat (length (m @ data) - length data mod B)
      = (of_nat (length m) + of_nat (length data - length data mod B) :: u64)"
    by (simp only: of_nat_add)
  have "md_tail B (m @ data) = md_tail B data"
    by (rule md_tail_blocks [OF m])
  moreover have "md_fold B process_block iv (m @ data) = md_fold B process_block (md_fold B process_block iv m) data"
    by (rule md_fold_append [OF B_pos m])
  ultimately show ?thesis
    using assms len m mod nb B_pos
    by (simp add: absorb_blocks_eq fold_push_byte represents_def block_def length_md_tail)
qed

lemma represents_add:
  assumes "represents s m"
  shows "represents (hasher_add B process_block s data) (m @ data)"
proof (cases "buffer_size s > 0")
  case False
  then have "buffer_size s \<noteq> B" "buffer_size s = 0"
    using B_pos by auto
  with represents_absorb [OF assms, of data] assms show ?thesis
    by (simp add: hasher_add_def)
next
  case True
  define j where "j = min (B - buffer_size s) (length data)"
  define s1 where "s1 = s\<lparr>buffer := block (buffer s) (buffer_size s) (take j data), buffer_size := buffer_size s + j\<rparr>"
  note r = assms [unfolded represents_def]
  have bs: "length (buffer s) = B" "buffer_size s < B"
    using r B_pos by auto
  have f: "fill_block B s data = (s1, drop j data)"
    unfolding s1_def j_def using bs by (intro fill_buffer_eq) auto
  have j: "j \<le> length data" "buffer_size s + j \<le> B"
    using bs by (auto simp: j_def)
  have s1: "length (buffer s1) = B" "buffer_size s1 = length (md_tail B m @ take j data)"
      "take (buffer_size s1) (buffer s1) = md_tail B m @ take j data"
      "hash s1 = hash s" "num_bytes s1 = num_bytes s"
    using r bs j by (auto simp: s1_def block_def length_md_tail)
  show ?thesis
  proof (cases "buffer_size s1 = B")
    case True
    define s2 where "s2 = s1\<lparr>hash := process_block (hash s1) (buffer s1), num_bytes := num_bytes s1 + of_nat B,
        buffer_size := 0\<rparr>"
    have "take (buffer_size s1) (buffer s1) = buffer s1"
      using s1(1) True by simp
    then have "represents s2 (m @ take j data)"
      using s1 r True by (intro represents_block) (auto simp: s2_def)
    from represents_absorb [OF this, of "drop j data"] this
    have "represents (if drop j data = [] then s2 else
        case absorb_blocks B process_block s2 (drop j data) of (s, data) \<Rightarrow> fold push_byte data s)
      ((m @ take j data) @ drop j data)"
      by (auto simp: s2_def)
    then show ?thesis
      using \<open>buffer_size s > 0\<close> f True
      by (simp add: hasher_add_def s2_def [symmetric] Let_def split: if_splits prod.splits)
  next
    case False
    then have "j = length data"
      using s1(2) j bs r by (auto simp: j_def length_md_tail min_def split: if_splits)
    moreover have "represents s1 (m @ take j data)"
      using s1 r False j by (intro represents_short) (auto simp: length_md_tail)
    ultimately show ?thesis
      using \<open>buffer_size s > 0\<close> f False by (simp add: hasher_add_def)
  qed
qed

lemma represents_adds:
  "represents s m \<Longrightarrow> represents (foldl (hasher_add B process_block) s ds) (m @ concat ds)"
proof (induction ds arbitrary: s m)
  case (Cons d ds)
  from Cons.IH [OF represents_add [OF Cons.prems, of d]] show ?case by simp
qed simp

lemma padded_blocks:
  assumes "represents s m"
  defines "n \<equiv> buffer_size s" and "l \<equiv> len_field (of_nat (length m))"
  shows "hash (process_buffer s) = md_fold B process_block iv (m @ md_padding B l (length m))"
    and "represents (process_buffer s\<lparr>hash := hash s\<rparr>) m"
proof -
  note r = assms(1) [unfolded represents_def]
  have n: "n < B" "length (buffer s) = B" "length (md_tail B m) = n" "length m mod B = n"
    using r B_pos by (auto simp: n_def length_md_tail)
  have tot: "num_bytes s + of_nat (buffer_size s) = of_nat (length m)"
  proof -
    have nb: "num_bytes s = of_nat (length m - length m mod B)" "buffer_size s = length m mod B"
      using r by blast+
    show ?thesis unfolding nb of_nat_add [symmetric] by (rule arg_cong [of _ _ of_nat]) simp
  qed
  have lf: "len_field (num_bytes s + of_nat n) = l"
    by (simp only: n_def tot l_def)
  obtain extra where extra: "length extra = B"
    and pad: "process_buffer s = hasher_pad B (if n + 1 + L \<le> B then B - L else 2 * B - L)
        (len_field (num_bytes s + of_nat n)) process_block s ((buffer s)[n := 0x80]) extra"
    using process_buffer_eq [of s] n by (auto simp: n_def)
  have tk: "take n (buffer s) = md_tail B m"
    using r unfolding n_def by blast
  have l: "length l = L"
    by (simp add: l_def length_field)
  define buf where "buf = md_tail B m @ [0x80] @ replicate (B - n - 1) 0"
  have z: "zero_range (n + 1) B ((buffer s)[n := 0x80]) = buf"
    using n(1,2) tk by (simp add: zero_range_eq buf_def take_Suc_update)
  have fold: "md_fold B process_block iv (m @ md_padding B l (length m))
      = md_fold B process_block (hash s) (md_tail B m @ md_padding B l (length m))"
    using r md_fold_tail [OF B_pos, of process_block iv m "md_padding B l (length m)"] by simp
  have nil: "md_fold B process_block h [] = h" for h
    using B_pos by (intro md_fold_short) simp
  have one: "md_fold B process_block h b = process_block h b" if "length b = B" for h b
    using md_fold_block [OF B_pos that, of process_block h "[]"] by (simp add: nil)
  have "hash (process_buffer s) = md_fold B process_block iv (m @ md_padding B l (length m))
      \<and> represents (process_buffer s\<lparr>hash := hash s\<rparr>) m"
  proof (cases "n + 1 + L \<le> B")
    case True
    define b1 where "b1 = md_tail B m @ md_padding B l (length m)"
    obtain k where k: "B = n + 1 + L + k"
      using True by (metis le_Suc_ex)
    have ks: "B - L = n + Suc k" "B - n - 1 = k + L" "B - L - n - 1 = k" "n + Suc k + L = B"
      using k by simp_all
    have "md_tail B m @ md_padding B l (length m) = md_tail B m @ 0x80 # replicate k 0 @ l"
      using True by (simp add: md_padding_def Let_def n(4) l ks(3) [simplified])
    moreover have "write_at buf (B - L) l = block buf (B - L) l"
      using n(1,3) l L_less_B by (intro write_at_eq) (simp add: buf_def)
    moreover have "block buf (B - L) l = md_tail B m @ 0x80 # replicate k 0 @ l"
      using n(3) l ks by (simp add: block_def buf_def)
    ultimately have "write_at buf (B - L) l = b1"
      by (simp only: b1_def)
    then have p: "process_buffer s = s\<lparr>buffer := b1, hash := process_block (hash s) b1\<rparr>"
      using pad True L_pos L_less_B z
      by (simp add: hasher_pad_def Let_def lf flip: n_def)
    have "length b1 = B" "take n b1 = md_tail B m"
      using True n l by (auto simp: b1_def md_padding_def Let_def)
    then show ?thesis
      using r fold one [of b1] by (simp add: p b1_def represents_def n_def)
  next
    case False
    define ext where "ext = replicate (B - L) 0 @ l"
    have zr: "zero_range 0 (B - L) extra = replicate (B - L) 0 @ drop (B - L) extra"
      using extra by (subst zero_range_eq) simp_all
    have we: "write_at (replicate (B - L) 0 @ drop (B - L) extra) (B - L) l = ext"
      using l L_less_B extra by (subst write_at_eq) (auto simp: ext_def block_def)
    have "2 * B - L - B = B - L" "\<not> 2 * B - L < B" "B < 2 * B - L"
      using L_less_B by auto
    then have p: "process_buffer s = s\<lparr>buffer := buf, hash := process_block (process_block (hash s) buf) ext\<rparr>"
      using pad n(1) False z zr we
      by (simp add: hasher_pad_def Let_def lf flip: n_def)
    have len: "length buf = B" "length ext = B" "take n buf = md_tail B m"
      using n l L_less_B by (auto simp: buf_def ext_def)
    have "2 * B - L - n - 1 = (B - n - 1) + (B - L)"
      using n L_less_B by simp
    then have "replicate (2 * B - L - n - 1) (0::u8) = replicate (B - n - 1) 0 @ replicate (B - L) 0"
      by (simp only: replicate_add)
    then have "md_tail B m @ md_padding B l (length m) = buf @ ext"
      using False l n(4) by (simp only: buf_def ext_def md_padding_def Let_def if_False append_assoc)
    then have "md_fold B process_block (hash s) (md_tail B m @ md_padding B l (length m))
        = process_block (process_block (hash s) buf) ext"
      using md_fold_block [OF B_pos len(1), of process_block "hash s" ext] one [OF len(2)] by simp
    then show ?thesis
      using r fold len by (simp add: p represents_def n_def)
  qed
  then show "hash (process_buffer s) = md_fold B process_block iv (m @ md_padding B l (length m))"
    and "represents (process_buffer s\<lparr>hash := hash s\<rparr>) m"
    by blast+
qed

lemma get_hash_represents:
  assumes "represents s m"
  shows "fst (get_hash_restoring process_buffer out s)
      = concat (map out (md_fold B process_block iv (m @ md_padding B (len_field (of_nat (length m))) (length m))))"
    and "represents (snd (get_hash_restoring process_buffer out s)) m"
  using padded_blocks [OF assms] by (simp_all add: get_hash_restoring_def Let_def)

end

section \<open>The four classes\<close>

lemma padded_length64_eq: "n < 64 \<Longrightarrow> padded_length64 n = (if n + 1 + 8 \<le> 64 then 64 - 8 else 2 * 64 - 8)"
  by (auto simp: padded_length64_def Let_def)

lemma padded_length128_eq: "n < 128 \<Longrightarrow> padded_length128 n = (if n + 1 + 16 \<le> 128 then 128 - 16 else 2 * 128 - 16)"
  by (cases "n = 127") (auto simp: padded_length128_def Let_def)

lemma length_low_bytes [simp]: "length (low_bytes n w) = n"
  by (induction n arbitrary: w) simp_all

lemma length_be_bytes [simp]: "length (be_bytes64 v) = 8" "length (be_bytes32 w) = 4"
  by (simp_all add: be_bytes64_def be_bytes32_def)

interpretation md5: merkle_damgard 64 8 md5_process_block "hash md5_new" "\<lambda>n. low_bytes 8 (8 * n)" md5_process_buffer
  by unfold_locales
    (auto simp: md5_process_buffer_def process_buffer64_def Let_def padded_length64_eq intro!: exI [of _ "uninitialised 64"])

interpretation sha1: merkle_damgard 64 8 sha1_process_block "hash sha1_new" "\<lambda>n. be_bytes64 (8 * n)" sha1_process_buffer
  by unfold_locales
    (auto simp: sha1_process_buffer_def process_buffer64_def Let_def padded_length64_eq intro!: exI [of _ "uninitialised 64"])

interpretation sha256: merkle_damgard 64 8 sha256_process_block "hash sha256_new" "\<lambda>n. be_bytes64 (8 * n)"
  sha256_process_buffer
  by unfold_locales
    (auto simp: sha256_process_buffer_def process_buffer64_def Let_def padded_length64_eq intro!: exI [of _ "uninitialised 64"])

interpretation sha512: merkle_damgard 128 16 sha512_compress "hash sha512_new"
  "\<lambda>n. be_bytes64 (drop_bit 61 n) @ be_bytes64 (push_bit 3 n)" sha512_finalize
  by unfold_locales
    (auto simp: sha512_finalize_def Let_def padded_length128_eq intro!: exI [of _ "uninitialised 128"])

interpretation sha384: merkle_damgard 128 16 sha512_compress "hash sha384_new"
  "\<lambda>n. be_bytes64 (drop_bit 61 n) @ be_bytes64 (push_bit 3 n)" sha512_finalize
  by unfold_locales
    (auto simp: sha512_finalize_def Let_def padded_length128_eq intro!: exI [of _ "uninitialised 128"])

lemma sha256_new_represents: "sha256.represents (sha256_reset s) []" if "length (buffer s) = 64"
  using that unfolding sha256.represents_def by (simp add: sha256_new_def sha256_reset_def md_tail_def)

text \<open>The digest of a whole message: compress the padded message block by block.\<close>

definition md_digest :: "nat \<Rightarrow> ('w list \<Rightarrow> u8 list \<Rightarrow> 'w list) \<Rightarrow> 'w list \<Rightarrow> (u64 \<Rightarrow> u8 list) \<Rightarrow> ('w \<Rightarrow> u8 list)
    \<Rightarrow> u8 list \<Rightarrow> u8 list" where
  "md_digest B f iv len_field out m =
     concat (map out (md_fold B f iv (m @ md_padding B (len_field (of_nat (length m))) (length m))))"

context merkle_damgard
begin

lemma digest_stream:
  fixes out :: "'w \<Rightarrow> u8 list" and ds :: "u8 list list"
  assumes "represents s []"
  defines "g \<equiv> get_hash_restoring process_buffer out" and "D \<equiv> md_digest B process_block iv len_field out"
    and "s' \<equiv> foldl (hasher_add B process_block) s ds"
  shows "fst (g s') = D (concat ds) \<and> fst (g (snd (g s'))) = D (concat ds)
    \<and> fst (g (hasher_add B process_block (snd (g s')) d)) = D (concat ds @ d)"
proof -
  have r: "represents s' (concat ds)"
    using represents_adds [OF assms(1), of ds] by (simp add: s'_def)
  note g = get_hash_represents [where out = out, folded g_def]
  from g(1) [OF r] g(1) [OF g(2) [OF r]] g(1) [OF represents_add [OF g(2) [OF r], of d]]
  show ?thesis by (simp add: D_def md_digest_def)
qed

end

definition sha256_spec :: "u8 list \<Rightarrow> u8 list" where
  "sha256_spec = md_digest 64 sha256_process_block
     [0x6a09e667, 0xbb67ae85, 0x3c6ef372, 0xa54ff53a, 0x510e527f, 0x9b05688c, 0x1f83d9ab, 0x5be0cd19]
     (\<lambda>n. be_bytes64 (8 * n)) be_bytes32"

definition sha1_spec :: "u8 list \<Rightarrow> u8 list" where
  "sha1_spec = md_digest 64 sha1_process_block [0x67452301, 0xefcdab89, 0x98badcfe, 0x10325476, 0xc3d2e1f0]
     (\<lambda>n. be_bytes64 (8 * n)) be_bytes32"

definition sha512_spec :: "u8 list \<Rightarrow> u8 list" where
  "sha512_spec = md_digest 128 sha512_compress
     [0x6a09e667f3bcc908, 0xbb67ae8584caa73b, 0x3c6ef372fe94f82b, 0xa54ff53a5f1d36f1,
      0x510e527fade682d1, 0x9b05688c2b3e6c1f, 0x1f83d9abfb41bd6b, 0x5be0cd19137e2179]
     (\<lambda>n. be_bytes64 (drop_bit 61 n) @ be_bytes64 (push_bit 3 n)) be_bytes64"

definition sha384_spec :: "u8 list \<Rightarrow> u8 list" where
  "sha384_spec m = take 48 (md_digest 128 sha512_compress
     [0xcbbb9d5dc1059ed8, 0x629a292a367cd507, 0x9159015a3070dd17, 0x152fecd8f70e5939,
      0x67332667ffc00b31, 0x8eb44a8768581511, 0xdb0c2e0d64f98fa7, 0x47b5481dbefa4fa4]
     (\<lambda>n. be_bytes64 (drop_bit 61 n) @ be_bytes64 (push_bit 3 n)) be_bytes64 m)"

definition md5_spec :: "u8 list \<Rightarrow> u8 list" where
  "md5_spec = md_digest 64 md5_process_block [0x67452301, 0xefcdab89, 0x98badcfe, 0x10325476]
     (\<lambda>n. low_bytes 8 (8 * n))
     (\<lambda>v. [ucast (v AND 0xFF), ucast (drop_bit 8 v AND 0xFF), ucast (drop_bit 16 v AND 0xFF),
           ucast (drop_bit 24 v AND 0xFF)])"

lemma hash_new:
  "hash sha256_new = [0x6a09e667, 0xbb67ae85, 0x3c6ef372, 0xa54ff53a, 0x510e527f, 0x9b05688c, 0x1f83d9ab, 0x5be0cd19]"
  "hash sha1_new = [0x67452301, 0xefcdab89, 0x98badcfe, 0x10325476, 0xc3d2e1f0]"
  "hash md5_new = [0x67452301, 0xefcdab89, 0x98badcfe, 0x10325476]"
  "hash sha512_new = [0x6a09e667f3bcc908, 0xbb67ae8584caa73b, 0x3c6ef372fe94f82b, 0xa54ff53a5f1d36f1,
      0x510e527fade682d1, 0x9b05688c2b3e6c1f, 0x1f83d9abfb41bd6b, 0x5be0cd19137e2179]"
  "hash sha384_new = [0xcbbb9d5dc1059ed8, 0x629a292a367cd507, 0x9159015a3070dd17, 0x152fecd8f70e5939,
      0x67332667ffc00b31, 0x8eb44a8768581511, 0xdb0c2e0d64f98fa7, 0x47b5481dbefa4fa4]"
  by (simp_all add: sha256_new_def sha256_reset_def sha1_new_def sha1_reset_def md5_new_def md5_reset_def
      sha512_new_def sha512_reset_def sha384_new_def sha384_reset_def)

lemma reset_represents:
  "length (buffer s) = 64 \<Longrightarrow> sha1.represents (sha1_reset s) []"
  "length (buffer s) = 64 \<Longrightarrow> md5.represents (md5_reset s) []"
  "length (buffer t) = 128 \<Longrightarrow> sha512.represents (sha512_reset t) []"
  "length (buffer t) = 128 \<Longrightarrow> sha384.represents (sha384_reset t) []"
  unfolding sha1.represents_def md5.represents_def sha512.represents_def sha384.represents_def
  by (simp_all add: sha1_new_def sha1_reset_def md5_new_def md5_reset_def sha512_new_def sha512_reset_def
      sha384_new_def sha384_reset_def md_tail_def)

lemma length_md_fold:
  assumes "\<And>h b. length (f h b) = n" and "length iv = n"
  shows "length (md_fold B f iv m) = n"
  using assms
proof (induction B f iv m rule: md_fold.induct)
  case (1 B f h m)
  then show ?case by (subst md_fold.simps) simp
qed

lemma length_compress:
  "length (sha256_process_block h b) = 8" "length (sha1_process_block h b) = 5" "length (sha512_compress h' b) = 8"
  by (simp_all add: sha256_process_block_def sha1_process_block_def sha512_compress_def Let_def split: prod.splits)

lemma length_concat_const: "(\<And>x. length (f x) = k) \<Longrightarrow> length (concat (map f xs)) = length xs * k"
  by (induction xs) simp_all

lemma take_concat_const: "(\<And>x. length (f x) = k) \<Longrightarrow> take (n * k) (concat (map f xs)) = concat (map f (take n xs))"
proof (induction xs arbitrary: n)
  case (Cons x xs)
  then show ?case by (cases n) simp_all
qed simp

lemma length_spec:
  "length (sha256_spec m) = 32" "length (sha1_spec m) = 20" "length (sha512_spec m) = 64"
proof -
  show "length (sha256_spec m) = 32"
    using length_md_fold [of sha256_process_block 8 "hash sha256_new", OF length_compress(1)]
    by (simp add: sha256_spec_def md_digest_def length_concat_const [of _ 4] hash_new)
  show "length (sha1_spec m) = 20"
    using length_md_fold [of sha1_process_block 5 "hash sha1_new", OF length_compress(2)]
    by (simp add: sha1_spec_def md_digest_def length_concat_const [of _ 4] hash_new)
  show "length (sha512_spec m) = 64"
    using length_md_fold [of sha512_compress 8 "hash sha512_new", OF length_compress(3)]
    by (simp add: sha512_spec_def md_digest_def length_concat_const [of _ 8] hash_new)
qed

text \<open>
  \<^verbatim>\<open>SHA384::get_hash\<close> puts back six of the eight hash words: the hasher is unchanged
  only if padding and compressing happened to leave the last two words alone.
\<close>

lemma sha384_restores_iff:
  assumes "length (hash s) = 8"
  shows "hash (snd (sha384_get_hash s)) = hash s \<longleftrightarrow> drop 6 (hash (sha512_finalize s)) = drop 6 (hash s)"
proof -
  define x where "x = hash s"
  have "take 6 x @ y = x \<longleftrightarrow> y = drop 6 x" for y
    by (metis append_take_drop_id same_append_eq)
  then show ?thesis
    by (simp add: sha384_get_hash_def Let_def flip: x_def)
qed

text \<open>The first digest of a SHA-384 object is right: the truncated digest over its own words.\<close>

lemma sha384_first_digest:
  assumes "length (buffer t) = 128"
  shows "fst (sha384_get_hash (foldl sha512_add (sha384_reset t) ds)) = sha384_spec (concat ds)"
proof -
  let ?s = "foldl sha512_add (sha384_reset t) ds"
  have "sha384.represents ?s (concat ds)"
    using sha384.represents_adds [OF reset_represents(4) [OF assms], of ds] by (simp add: sha512_add_def)
  from sha384.get_hash_represents(1) [OF this, of be_bytes64]
  have "concat (map be_bytes64 (hash (sha512_finalize ?s))) =
      md_digest 128 sha512_compress (hash sha384_new)
        (\<lambda>n. be_bytes64 (drop_bit 61 n) @ be_bytes64 (push_bit 3 n)) be_bytes64 (concat ds)"
    by (simp add: get_hash_restoring_def Let_def md_digest_def)
  then show ?thesis
    by (simp add: sha384_get_hash_def Let_def sha384_spec_def hash_new
        flip: take_concat_const [of be_bytes64 8 6, simplified])
qed

section \<open>Properties\<close>

text \<open>C12: SHA-256 streaming: however a message is cut into pieces, resetting any hasher and
  adding the pieces one after the other yields the digest of the padded message; taking
  the hash is repeatable and does not disturb a hasher that is fed more data afterwards.\<close>

theorem sha256_streaming:
  assumes "length (buffer s) = 64"
  shows "let s' = foldl sha256_add (sha256_reset s) ds in
    fst (sha256_get_hash s') = sha256_spec (concat ds)
    \<and> fst (sha256_get_hash (snd (sha256_get_hash s'))) = sha256_spec (concat ds)
    \<and> fst (sha256_get_hash (sha256_add (snd (sha256_get_hash s')) d)) = sha256_spec (concat ds @ d)"
  using sha256.digest_stream [OF sha256_new_represents [OF assms], where out = be_bytes32]
  unfolding sha256_get_hash_def sha256_add_def Let_def sha256_spec_def hash_new by blast

theorem sha256_streaming_witness:
  "let s' = foldl sha256_add (sha256_reset sha256_new) [[0x61], [0x62, 0x63]] in
    fst (sha256_get_hash s') = sha256_spec [0x61, 0x62, 0x63]"
  using sha256_streaming [of sha256_new "[[0x61], [0x62, 0x63]]"]
  by (simp add: Let_def sha256_new_def sha256_reset_def blank_hasher_def)

text \<open>
  \<open>streams reset add get_hash spec s\<close>: for every way of cutting messages into pieces, the
  object \<open>s\<close>, reset and fed the pieces, yields the digest of what it was fed; it yields it
  again when asked again; and it can be fed more afterwards.
\<close>

definition streams :: "('s \<Rightarrow> 's) \<Rightarrow> ('s \<Rightarrow> u8 list \<Rightarrow> 's) \<Rightarrow> ('s \<Rightarrow> u8 list \<times> 's) \<Rightarrow> (u8 list \<Rightarrow> u8 list)
    \<Rightarrow> 's \<Rightarrow> bool" where
  "streams reset add get_hash spec s \<longleftrightarrow> (\<forall>ds d.
     let s' = foldl add (reset s) ds; (digest, s'') = get_hash s'
     in digest = spec (concat ds)
        \<and> fst (get_hash s'') = spec (concat ds)
        \<and> fst (get_hash (add s'' d)) = spec (concat ds @ d))"

text \<open>C13: MD5, SHA-1 and SHA-512 stream as SHA-256 does: pieces, repeated digests and going on
  after a digest all give the digest of the padded message.  SHA-384 gives the digest of the
  pieces at the first call of \<^verbatim>\<open>get_hash\<close> (it is the one class that does not go on correctly
  afterwards).\<close>

theorem hash_streaming:
  assumes "length (buffer s) = 64" and "length (buffer t) = 128"
  shows "streams md5_reset md5_add md5_get_hash md5_spec s
    \<and> streams sha1_reset sha1_add sha1_get_hash sha1_spec s
    \<and> streams sha512_reset sha512_add sha512_get_hash sha512_spec t
    \<and> fst (sha384_get_hash (foldl sha512_add (sha384_reset t) ds)) = sha384_spec (concat ds)"
proof (intro conjI)
  show "streams md5_reset md5_add md5_get_hash md5_spec s"
    using md5.digest_stream [OF reset_represents(2) [OF assms(1)]]
    unfolding streams_def md5_get_hash_def md5_add_def md5_spec_def hash_new Let_def case_prod_beta by blast
  show "streams sha1_reset sha1_add sha1_get_hash sha1_spec s"
    using sha1.digest_stream [OF reset_represents(1) [OF assms(1)]]
    unfolding streams_def sha1_get_hash_def sha1_add_def sha1_spec_def hash_new Let_def case_prod_beta by blast
  show "streams sha512_reset sha512_add sha512_get_hash sha512_spec t"
    using sha512.digest_stream [OF reset_represents(3) [OF assms(2)]]
    unfolding streams_def sha512_get_hash_def sha512_add_def sha512_spec_def hash_new Let_def case_prod_beta by blast
  show "fst (sha384_get_hash (foldl sha512_add (sha384_reset t) ds)) = sha384_spec (concat ds)"
    by (rule sha384_first_digest [OF assms(2)])
qed

theorem hash_streaming_witness:
  "streams md5_reset md5_add md5_get_hash md5_spec md5_new
    \<and> fst (sha384_get_hash (foldl sha512_add (sha384_reset sha512_new) [[1], [2]])) = sha384_spec [1, 2]"
  using hash_streaming [of md5_new sha512_new "[[1], [2]]"]
  by (simp add: md5_new_def md5_reset_def sha512_new_def sha512_reset_def blank_hasher_def)

end
