(* ===== verification/Crypto_Mac.thy ===== *)
theory Crypto_Mac
  imports Crypto_Hash
begin

text \<open>
  Keyed hashing of \<^verbatim>\<open>hmac.cpp\<close>, \<^verbatim>\<open>hkdf.cpp\<close> and \<^verbatim>\<open>pbkdf2.cpp\<close>.  The template
  parameter \<^verbatim>\<open>HashT\<close> is its block size, its digest size and the function
  \<open>digest\<close> that constructs a hasher, adds the bytes and takes the hash.  The buffers
  are those of \<open>Core_Bytes\<close>, so every function can end with an exception of an
  allocation; clearing local key material is left out.
\<close>

section \<open>The hash types\<close>

definition sha1_digest :: "u8 list \<Rightarrow> u8 list" where
  "sha1_digest data = fst (sha1_get_hash (sha1_add sha1_new data))"

definition sha256_digest :: "u8 list \<Rightarrow> u8 list" where
  "sha256_digest data = fst (sha256_get_hash (sha256_add sha256_new data))"

definition sha512_digest :: "u8 list \<Rightarrow> u8 list" where
  "sha512_digest data = fst (sha512_get_hash (sha512_add sha512_new data))"

section \<open>HMAC\<close>

text \<open>The key, or its hash when it is longer than a block, in a block of zeros.\<close>

definition hmac_key_block :: "usize \<Rightarrow> (u8 list \<Rightarrow> u8 list) \<Rightarrow> u8 list \<Rightarrow> u8 list" where
  "hmac_key_block B digest key =
     (if length key > B then write_at (replicate B 0) 0 (digest key)
      else write_at (replicate B 0) 0 key)"

fun hmac_pads :: "u8 list \<Rightarrow> BytesMut \<Rightarrow> BytesMut \<Rightarrow> (BytesMut \<times> BytesMut, BytesExn) Result" where
  "hmac_pads [] inner outer = Ok (inner, outer)"
| "hmac_pads (k # key_block) inner outer =
     and_then (bm_put_u8 inner (k XOR 0x36)) (\<lambda>inner.
     and_then (bm_put_u8 outer (k XOR 0x5c)) (\<lambda>outer. hmac_pads key_block inner outer))"

text \<open>\<^verbatim>\<open>hasher.add(buffer.as_ptr(), buffer.len())\<close> on a buffer whose cursor is at the start.\<close>

definition bm_view :: "BytesMut \<Rightarrow> u8 list" where
  "bm_view b = take (bm_len b) (drop (bm_pos b) (bm_data b))"

definition hmac_impl :: "usize \<Rightarrow> usize \<Rightarrow> (u8 list \<Rightarrow> u8 list) \<Rightarrow> u8 list \<Rightarrow> u8 list \<Rightarrow> (Bytes, BytesExn) Result" where
  "hmac_impl B D digest key data =
     and_then (with_capacity (usize_add B (length data))) (\<lambda>inner.
     and_then (with_capacity (B + D)) (\<lambda>outer.
     and_then (hmac_pads (hmac_key_block B digest key) inner outer) (\<lambda>(inner, outer).
     and_then (bm_put_slice inner data (length data)) (\<lambda>inner.
     let inner_digest = digest (bm_view inner) in
     and_then (bm_put_slice outer inner_digest D) (\<lambda>outer.
     let result = digest (bm_view outer) in
     Ok (copy_from_slice result D))))))"

definition hmac_sha1 :: "u8 list \<Rightarrow> u8 list \<Rightarrow> (Bytes, BytesExn) Result" where
  "hmac_sha1 = hmac_impl 64 20 sha1_digest"

definition hmac_sha256 :: "u8 list \<Rightarrow> u8 list \<Rightarrow> (Bytes, BytesExn) Result" where
  "hmac_sha256 = hmac_impl 64 32 sha256_digest"

definition hmac_sha512 :: "u8 list \<Rightarrow> u8 list \<Rightarrow> (Bytes, BytesExn) Result" where
  "hmac_sha512 = hmac_impl 128 64 sha512_digest"

text \<open>\<^verbatim>\<open>ByteSlice(b.as_ptr(), b.len())\<close> of an immutable buffer.\<close>

definition bytes_view :: "Bytes \<Rightarrow> u8 list" where
  "bytes_view b = take (b_len b) (drop (b_pos b) (b_ptr b))"

definition hmac_sha1_hex :: "u8 list \<Rightarrow> u8 list \<Rightarrow> (string, BytesExn) Result" where
  "hmac_sha1_hex key data = map_ok (\<lambda>d. hex_encode (bytes_view d)) (hmac_sha1 key data)"

definition hmac_sha512_hex :: "u8 list \<Rightarrow> u8 list \<Rightarrow> (string, BytesExn) Result" where
  "hmac_sha512_hex key data = map_ok (\<lambda>d. hex_encode (bytes_view d)) (hmac_sha512 key data)"

definition hmac_sha256_hex :: "u8 list \<Rightarrow> u8 list \<Rightarrow> (string, BytesExn) Result" where
  "hmac_sha256_hex key data = map_ok (\<lambda>d. hex_encode (bytes_view d)) (hmac_sha256 key data)"

section \<open>HKDF\<close>

text \<open>
  The loop of \<^verbatim>\<open>hkdf_expand_common\<close>.  \<open>t_input\<close> is cleared and refilled in every
  round; \<^verbatim>\<open>produced\<close> grows, so \<open>length - produced\<close> decreases.
\<close>

function hkdf_loop ::
    "usize \<Rightarrow> (u8 list \<Rightarrow> u8 list \<Rightarrow> (Bytes, BytesExn) Result) \<Rightarrow> u8 list \<Rightarrow> u8 list \<Rightarrow> usize
      \<Rightarrow> BytesMut \<Rightarrow> BytesMut \<Rightarrow> u8 list \<Rightarrow> usize \<Rightarrow> u8 \<Rightarrow> (BytesMut, BytesExn) Result" where
  "hkdf_loop D hmac prk info len okm t_input t_prev produced counter =
     (if D = 0 \<or> produced \<ge> len then Ok okm
      else
        and_then (if produced > 0 then bm_put_slice (bm_clear t_input) t_prev D else Ok (bm_clear t_input)) (\<lambda>t_input.
        and_then (bm_put_slice t_input info (length info)) (\<lambda>t_input.
        and_then (bm_put_u8 t_input counter) (\<lambda>t_input.
        and_then (hmac prk (bm_view t_input)) (\<lambda>t.
        let tk = (if len - produced < D then len - produced else D) in
        and_then (bm_put_slice okm (bytes_view t) tk) (\<lambda>okm.
        hkdf_loop D hmac prk info len okm t_input (take D (bytes_view t)) (produced + tk) (counter + 1)))))))"
  by auto
termination
  by (relation "measure (\<lambda>(D, hmac, prk, info, len, okm, t_input, t_prev, produced, counter). len - produced)")
     (auto split: if_splits)

declare hkdf_loop.simps [simp del]

definition hkdf_expand_common ::
    "usize \<Rightarrow> (u8 list \<Rightarrow> u8 list \<Rightarrow> (Bytes, BytesExn) Result) \<Rightarrow> u8 list \<Rightarrow> u8 list \<Rightarrow> usize \<Rightarrow> Bytes fallible" where
  "hkdf_expand_common D hmac prk info len =
     (if length prk < D then Ok (Err INVALID_ARGUMENT)
      else if len > 255 * D then Ok (Err INVALID_ARGUMENT)
      else frozen (and_then (with_capacity len) (\<lambda>okm.
             and_then (with_capacity (usize_add (usize_add D (length info)) 1)) (\<lambda>t_input.
             map_ok Ok (hkdf_loop D hmac prk info len okm t_input (replicate D 0) 0 1)))))"

definition hkdf_sha256_extract :: "u8 list \<Rightarrow> u8 list \<Rightarrow> (Bytes, BytesExn) Result" where
  "hkdf_sha256_extract salt ikm = hmac_sha256 salt ikm"

definition hkdf_sha256_expand :: "u8 list \<Rightarrow> u8 list \<Rightarrow> usize \<Rightarrow> Bytes fallible" where
  "hkdf_sha256_expand = hkdf_expand_common 32 hmac_sha256"

definition hkdf_sha256_derive :: "u8 list \<Rightarrow> u8 list \<Rightarrow> u8 list \<Rightarrow> usize \<Rightarrow> Bytes fallible" where
  "hkdf_sha256_derive salt ikm info len =
     and_then (hkdf_sha256_extract salt ikm) (\<lambda>prk. hkdf_sha256_expand (bytes_view prk) info len)"

definition hkdf_sha1_extract :: "u8 list \<Rightarrow> u8 list \<Rightarrow> (Bytes, BytesExn) Result" where
  "hkdf_sha1_extract salt ikm = hmac_sha1 salt ikm"

definition hkdf_sha1_expand :: "u8 list \<Rightarrow> u8 list \<Rightarrow> usize \<Rightarrow> Bytes fallible" where
  "hkdf_sha1_expand = hkdf_expand_common 20 hmac_sha1"

definition hkdf_sha1_derive :: "u8 list \<Rightarrow> u8 list \<Rightarrow> u8 list \<Rightarrow> usize \<Rightarrow> Bytes fallible" where
  "hkdf_sha1_derive salt ikm info len =
     and_then (hkdf_sha1_extract salt ikm) (\<lambda>prk. hkdf_sha1_expand (bytes_view prk) info len)"

definition hkdf_sha512_extract :: "u8 list \<Rightarrow> u8 list \<Rightarrow> (Bytes, BytesExn) Result" where
  "hkdf_sha512_extract salt ikm = hmac_sha512 salt ikm"

definition hkdf_sha512_expand :: "u8 list \<Rightarrow> u8 list \<Rightarrow> usize \<Rightarrow> Bytes fallible" where
  "hkdf_sha512_expand = hkdf_expand_common 64 hmac_sha512"

definition hkdf_sha512_derive :: "u8 list \<Rightarrow> u8 list \<Rightarrow> u8 list \<Rightarrow> usize \<Rightarrow> Bytes fallible" where
  "hkdf_sha512_derive salt ikm info len =
     and_then (hkdf_sha512_extract salt ikm) (\<lambda>prk. hkdf_sha512_expand (bytes_view prk) info len)"

section \<open>PBKDF2\<close>

text \<open>The inner loop: \<open>n\<close> more rounds from the last \<open>u\<close> and the accumulator \<open>t\<close>.\<close>

fun pbkdf2_iterate :: "u8 list \<Rightarrow> nat \<Rightarrow> u8 list \<Rightarrow> u8 list \<Rightarrow> (u8 list, BytesExn) Result" where
  "pbkdf2_iterate password 0 u t = Ok t"
| "pbkdf2_iterate password (Suc n) u t =
     and_then (hmac_sha256 password u) (\<lambda>un.
       let u = take 32 (bytes_view un) in pbkdf2_iterate password n u (map2 (XOR) t u))"

fun pbkdf2_blocks :: "u8 list \<Rightarrow> u8 list \<Rightarrow> usize \<Rightarrow> usize \<Rightarrow> nat list \<Rightarrow> BytesMut \<Rightarrow> BytesMut
    \<Rightarrow> (BytesMut, BytesExn) Result" where
  "pbkdf2_blocks password salt iterations dk_len [] u1_input dk = Ok dk"
| "pbkdf2_blocks password salt iterations dk_len (blk # blks) u1_input dk =
     and_then (bm_put_slice (bm_clear u1_input) salt (length salt)) (\<lambda>u1_input.
     and_then (bm_put_u32_be u1_input (of_nat blk)) (\<lambda>u1_input.
     and_then (hmac_sha256 password (bm_view u1_input)) (\<lambda>u1.
     let u = take 32 (bytes_view u1); t = take 32 (bytes_view u1) in
     and_then (pbkdf2_iterate password (iterations - 1) u t) (\<lambda>t.
     let remaining = dk_len - bm_len dk;
         tk = (if remaining < 32 then remaining else 32) in
     and_then (bm_put_slice dk t tk) (\<lambda>dk.
     pbkdf2_blocks password salt iterations dk_len blks u1_input dk)))))"

definition pbkdf2_hmac_sha256 :: "u8 list \<Rightarrow> u8 list \<Rightarrow> usize \<Rightarrow> usize \<Rightarrow> Bytes fallible" where
  "pbkdf2_hmac_sha256 password salt iterations dk_len =
     (if iterations = 0 then Ok (Err INVALID_ARGUMENT)
      else if dk_len = 0 then Ok (Err INVALID_ARGUMENT)
      else if dk_len > 0xFFFFFFFF * 32 then Ok (Err INVALID_ARGUMENT)
      else let block_count = (dk_len + 32 - 1) div 32 in
        frozen (and_then (with_capacity dk_len) (\<lambda>dk.
                and_then (with_capacity (usize_add (length salt) 4)) (\<lambda>u1_input.
                map_ok Ok (pbkdf2_blocks password salt iterations dk_len [1..<block_count + 1] u1_input dk)))))"

end
