(* ===== verification/Crypto_Mac_Props.thy ===== *)
theory Crypto_Mac_Props
  imports Crypto_Mac Crypto_Hash_Props Core_Bytes_Codec
begin

text \<open>
  HMAC, HKDF and PBKDF2 against RFC 2104, RFC 5869 and RFC 8018.  The code works on growing
  buffers that may throw; the lemmas show that the buffers it reserves are large enough and
  that what it computes is the function of the standard.
\<close>

section \<open>The functions of the standards\<close>

definition hmac_spec :: "nat \<Rightarrow> (u8 list \<Rightarrow> u8 list) \<Rightarrow> u8 list \<Rightarrow> u8 list \<Rightarrow> u8 list" where
  "hmac_spec B H key text =
     (let k = (if length key > B then H key else key); k0 = k @ replicate (B - length k) 0
      in H (map (\<lambda>b. b XOR 0x5c) k0 @ H (map (\<lambda>b. b XOR 0x36) k0 @ text)))"

text \<open>The blocks \<open>T(i)\<close> of HKDF-Expand.\<close>

fun hkdf_T :: "(u8 list \<Rightarrow> u8 list) \<Rightarrow> u8 list \<Rightarrow> nat \<Rightarrow> u8 list" where
  "hkdf_T mac info 0 = []"
| "hkdf_T mac info (Suc i) = mac (hkdf_T mac info i @ info @ [of_nat (Suc i)])"

definition blocks_for :: "nat \<Rightarrow> nat \<Rightarrow> nat" where
  "blocks_for D len = (len + D - 1) div D"

definition hkdf_spec :: "nat \<Rightarrow> (u8 list \<Rightarrow> u8 list) \<Rightarrow> u8 list \<Rightarrow> nat \<Rightarrow> u8 list" where
  "hkdf_spec D mac info len = take len (concat (map (hkdf_T mac info) [1..<Suc (blocks_for D len)]))"

text \<open>The iterates \<open>U\<close> of PBKDF2 and the block \<open>F\<close> they sum up to.\<close>

fun pbkdf2_U :: "(u8 list \<Rightarrow> u8 list) \<Rightarrow> u8 list \<Rightarrow> nat \<Rightarrow> nat \<Rightarrow> u8 list" where
  "pbkdf2_U hm salt i 0 = hm (salt @ enc_u32_be (of_nat i))"
| "pbkdf2_U hm salt i (Suc j) = hm (pbkdf2_U hm salt i j)"

definition pbkdf2_F :: "(u8 list \<Rightarrow> u8 list) \<Rightarrow> u8 list \<Rightarrow> nat \<Rightarrow> nat \<Rightarrow> u8 list" where
  "pbkdf2_F hm salt c i = fold (\<lambda>j t. map2 (XOR) t (pbkdf2_U hm salt i j)) [1..<c] (pbkdf2_U hm salt i 0)"

definition pbkdf2_spec :: "(u8 list \<Rightarrow> u8 list) \<Rightarrow> u8 list \<Rightarrow> nat \<Rightarrow> nat \<Rightarrow> u8 list" where
  "pbkdf2_spec hm salt c dk_len = take dk_len (concat (map (pbkdf2_F hm salt c) [1..<Suc (blocks_for 32 dk_len)]))"

section \<open>Buffers that are large enough\<close>

text \<open>A computation that does not throw and ends with \<open>P\<close>.\<close>

definition yields :: "('a, 'e) Result \<Rightarrow> ('a \<Rightarrow> bool) \<Rightarrow> bool" where
  "yields r P \<longleftrightarrow> (\<exists>v. r = Ok v \<and> P v)"

lemma yields_Ok [simp]: "yields (Ok v) P \<longleftrightarrow> P v"
  by (simp add: yields_def)

lemma yields_and_then: "yields r P \<Longrightarrow> (\<And>v. P v \<Longrightarrow> yields (f v) Q) \<Longrightarrow> yields (and_then r f) Q"
  by (auto simp: yields_def)

lemma yields_map_ok: "yields r P \<Longrightarrow> (\<And>v. P v \<Longrightarrow> Q (f v)) \<Longrightarrow> yields (map_ok f r) Q"
  by (auto simp: yields_def)

definition holds :: "nat \<Rightarrow> u8 list \<Rightarrow> BytesMut \<Rightarrow> bool" where
  "holds c t b \<longleftrightarrow> bm_inv b \<and> bm_pos b = 0 \<and> bm_written b = t \<and> c \<le> bm_capacity b"

lemma holds_len: "holds c t b \<Longrightarrow> bm_len b = length t"
  by (auto simp: holds_def bm_inv_def bm_written_def)

lemma holds_view: "holds c t b \<Longrightarrow> bm_view b = t"
  by (simp add: holds_def bm_view_def bm_written_def)

lemma holds_clear: "holds c t b \<Longrightarrow> holds c [] (bm_clear b)"
  by (auto simp: holds_def bm_clear_def bm_inv_def bm_written_def)

lemma holds_freeze: "holds c t b \<Longrightarrow> bytes_view (fst (bm_freeze b)) = t"
  by (auto simp: holds_def bm_freeze_def bm_inv_def bm_written_def bytes_view_def bytes_empty_def)

lemma new_buffer: "c \<le> PTRDIFF_MAX \<Longrightarrow> yields (with_capacity c) (holds c [])"
  using with_capacity_total [of c] with_capacity_inv [of c] by (auto simp: yields_def holds_def)

lemma put_byte:
  assumes "holds c t b" and "length t < c"
  shows "yields (bm_put_u8 b v) (holds c (t @ [v]))"
proof -
  have r: "bm_inv b" "bm_len b + 1 \<le> bm_capacity b" using assms holds_len [OF assms(1)] by (auto simp: holds_def)
  from u8.put_room [OF this, of v] obtain b' where b': "bm_put_u8 b v = Ok b'" by (auto simp: bm_put_u8_def)
  with u8.put_Ok [OF r(1)] assms(1) show ?thesis
    by (fastforce simp: yields_def bm_put_u8_def holds_def enc_u8_def)
qed

lemma put_word:
  assumes "holds c t b" and "length t + 4 \<le> c"
  shows "yields (bm_put_u32_be b v) (holds c (t @ enc_u32_be v))"
proof -
  have r: "bm_inv b" "bm_len b + 4 \<le> bm_capacity b" using assms holds_len [OF assms(1)] by (auto simp: holds_def)
  from u32_be.put_room [OF this, of v] obtain b' where b': "bm_put_u32_be b v = Ok b'" by (auto simp: bm_put_u32_be_def)
  with u32_be.put_Ok [OF r(1)] assms(1) show ?thesis
    by (fastforce simp: yields_def bm_put_u32_be_def holds_def)
qed

lemma put_bytes:
  assumes "holds c t b" and "length t + n \<le> c" and "n \<le> length xs"
  shows "yields (bm_put_slice b xs n) (holds c (t @ take n xs))"
proof -
  have r: "bm_inv b" "bm_len b + n \<le> bm_capacity b" using assms holds_len [OF assms(1)] by (auto simp: holds_def)
  obtain b' where b': "bm_put_slice b xs n = Ok b'" "bm_capacity b' = bm_capacity b"
    using bm_ensure_writable_room [OF r] by (cases "n = 0") (auto simp: bm_put_slice_def)
  with bm_put_slice_Ok [OF r(1) assms(3) b'(1)] assms(1) show ?thesis by (auto simp: yields_def holds_def)
qed

section \<open>HMAC\<close>

lemma pads_put:
  assumes "holds c i inner" and "holds d j outer" and "length i + length ks \<le> c" and "length j + length ks \<le> d"
  shows "yields (hmac_pads ks inner outer)
    (\<lambda>(inner, outer). holds c (i @ map (\<lambda>b. b XOR 0x36) ks) inner \<and> holds d (j @ map (\<lambda>b. b XOR 0x5c) ks) outer)"
  using assms
proof (induction ks arbitrary: i j inner outer)
  case (Cons k ks)
  show ?case
    unfolding hmac_pads.simps
  proof (intro yields_and_then)
    show "yields (bm_put_u8 inner (k XOR 0x36)) (holds c (i @ [k XOR 0x36]))" by (rule put_byte) (use Cons.prems in auto)
    show "yields (bm_put_u8 outer (k XOR 0x5c)) (holds d (j @ [k XOR 0x5c]))" by (rule put_byte) (use Cons.prems in auto)
    fix inner' outer' assume "holds c (i @ [k XOR 0x36]) inner'" "holds d (j @ [k XOR 0x5c]) outer'"
    from Cons.IH [OF this] Cons.prems
    show "yields (hmac_pads ks inner' outer') (\<lambda>(inner, outer). holds c (i @ map (\<lambda>b. b XOR 0x36) (k # ks)) inner
        \<and> holds d (j @ map (\<lambda>b. b XOR 0x5c) (k # ks)) outer)" by simp
  qed
qed simp

text \<open>What HMAC needs of a hash.\<close>

locale mac_hash =
  fixes B D :: nat and digest :: "u8 list \<Rightarrow> u8 list"
  assumes length_digest: "length (digest m) = D"
    and digest_fits: "0 < D" "D \<le> B" "B \<le> 128"
begin

lemma key_block:
  "hmac_key_block B digest key = (let k = (if length key > B then digest key else key) in k @ replicate (B - length k) 0)"
proof -
  have "write_at (replicate B 0) 0 k = k @ replicate (B - length k) 0" if "length k \<le> B" for k
    using that by (subst write_at_eq) (simp_all add: block_def)
  then show ?thesis using digest_fits length_digest by (simp add: hmac_key_block_def Let_def)
qed

lemma length_key_block: "length (hmac_key_block B digest key) = B"
  using digest_fits length_digest by (simp add: key_block Let_def)

lemma length_hmac_spec: "length (hmac_spec B digest key data) = D"
  by (simp add: hmac_spec_def Let_def length_digest)

lemma hmac_yields:
  assumes "B + length data \<le> PTRDIFF_MAX"
  shows "yields (hmac_impl B D digest key data) (\<lambda>r. bytes_view r = hmac_spec B digest key data)"
proof -
  let ?k = "hmac_key_block B digest key"
  let ?i = "map (\<lambda>b. b XOR 0x36) ?k @ data" and ?o = "map (\<lambda>b. b XOR 0x5c) ?k"
  have spec: "hmac_spec B digest key data = digest (?o @ digest ?i)" by (simp add: hmac_spec_def key_block Let_def)
  have cap: "usize_add B (length data) = B + length data" using assms by simp
  show ?thesis
    unfolding hmac_impl_def cap
  proof (intro yields_and_then)
    show "yields (with_capacity (B + length data)) (holds (B + length data) [])" using assms by (rule new_buffer)
    show "yields (with_capacity (B + D)) (holds (B + D) [])" by (rule new_buffer) (use digest_fits in simp)
    fix inner outer
    assume "holds (B + length data) [] inner" "holds (B + D) [] outer"
    then show "yields (hmac_pads ?k inner outer)
        (\<lambda>(inner, outer). holds (B + length data) (map (\<lambda>b. b XOR 0x36) ?k) inner \<and> holds (B + D) ?o outer)"
      using pads_put [of "B + length data" "[]" inner "B + D" "[]" outer ?k] by (simp add: length_key_block)
  next
    fix p assume p: "case p of (inner, outer) \<Rightarrow> holds (B + length data) (map (\<lambda>b. b XOR 0x36) ?k) inner \<and> holds (B + D) ?o outer"
    obtain inner outer where io: "p = (inner, outer)" by (cases p)
    show "yields (case p of (inner, outer) \<Rightarrow> and_then (bm_put_slice inner data (length data)) (\<lambda>inner.
        let inner_digest = digest (bm_view inner) in and_then (bm_put_slice outer inner_digest D) (\<lambda>outer.
        let result = digest (bm_view outer) in Ok (copy_from_slice result D))))
        (\<lambda>r. bytes_view r = hmac_spec B digest key data)"
      unfolding io prod.case Let_def
    proof (intro yields_and_then)
      show "yields (bm_put_slice inner data (length data)) (holds (B + length data) ?i)"
        using put_bytes [of "B + length data" _ inner "length data" data] p by (simp add: io length_key_block)
      fix inner' assume "holds (B + length data) ?i inner'"
      then have v: "bm_view inner' = ?i" by (rule holds_view)
      show "yields (bm_put_slice outer (digest (bm_view inner')) D) (holds (B + D) (?o @ digest ?i))"
        using put_bytes [of "B + D" ?o outer D "digest ?i"] p by (simp add: io v length_key_block length_digest)
      fix outer' assume "holds (B + D) (?o @ digest ?i) outer'"
      then have "bm_view outer' = ?o @ digest ?i" by (rule holds_view)
      then show "yields (Ok (copy_from_slice (digest (bm_view outer')) D)) (\<lambda>r. bytes_view r = hmac_spec B digest key data)"
        using digest_fits(1) by (simp add: spec copy_from_slice_def bytes_view_def length_digest)
    qed
  qed
qed

end

lemma digest_is_spec:
  "sha1_digest = sha1_spec" "sha256_digest = sha256_spec" "sha512_digest = sha512_spec"
proof -
  have r: "sha1.represents sha1_new []" "sha256.represents sha256_new []" "sha512.represents sha512_new []"
    using reset_represents(1) sha256_new_represents reset_represents(3)
    by (simp_all add: sha1_new_def sha256_new_def sha512_new_def blank_hasher_def)
  show "sha1_digest = sha1_spec"
    using sha1.digest_stream [OF r(1), where out = be_bytes32 and ds = "[m]" for m]
    by (simp add: fun_eq_iff sha1_digest_def sha1_get_hash_def sha1_add_def sha1_spec_def hash_new)
  show "sha256_digest = sha256_spec"
    using sha256.digest_stream [OF r(2), where out = be_bytes32 and ds = "[m]" for m]
    by (simp add: fun_eq_iff sha256_digest_def sha256_get_hash_def sha256_add_def sha256_spec_def hash_new)
  show "sha512_digest = sha512_spec"
    using sha512.digest_stream [OF r(3), where out = be_bytes64 and ds = "[m]" for m]
    by (simp add: fun_eq_iff sha512_digest_def sha512_get_hash_def sha512_add_def sha512_spec_def hash_new)
qed

interpretation mac1: mac_hash 64 20 sha1_digest
  by unfold_locales (simp_all add: digest_is_spec length_spec)

interpretation mac256: mac_hash 64 32 sha256_digest
  by unfold_locales (simp_all add: digest_is_spec length_spec)

interpretation mac512: mac_hash 128 64 sha512_digest
  by unfold_locales (simp_all add: digest_is_spec length_spec)


section \<open>HKDF\<close>

lemma concat_snoc: "concat (map f [1..<Suc (Suc i)]) = concat (map f [1..<Suc i]) @ f (Suc i)"
  by simp

lemma blocks_for_bounds: "0 < D \<Longrightarrow> len \<le> blocks_for D len * D" "0 < D \<Longrightarrow> i < blocks_for D len \<Longrightarrow> i * D < len"
proof -
  assume D: "0 < D"
  have d: "len + D - 1 = blocks_for D len * D + (len + D - 1) mod D" by (simp add: blocks_for_def)
  with mod_less_divisor [OF D, of "len + D - 1"] show "len \<le> blocks_for D len * D" using D by linarith
  assume "i < blocks_for D len"
  then have "(i + 1) * D \<le> blocks_for D len * D" by (intro mult_le_mono1) simp
  with d D show "i * D < len" by (simp add: algebra_simps)
qed

text \<open>A text cut from a sequence of blocks.\<close>

lemma length_blocks:
  fixes f :: "nat \<Rightarrow> 'a list"
  assumes "\<And>i. length (f (Suc i)) = D"
  shows "length (concat (map f [1..<Suc i])) = i * D"
proof (induction i)
  case (Suc i)
  show ?case unfolding concat_snoc length_append Suc.IH using assms [of i] by simp
qed simp

lemma concat_prefix: "i \<le> n \<Longrightarrow> \<exists>r. concat (map f [1..<Suc n]) = concat (map f [1..<Suc i]) @ r"
proof -
  assume "i \<le> n"
  then have "[1..<Suc n] = [1..<Suc i] @ [Suc i..<Suc n]" using upt_add_eq_append [of 1 "Suc i" "n - i"] by simp
  then show ?thesis by simp
qed

lemma take_blocks:
  fixes f :: "nat \<Rightarrow> 'a list"
  assumes "\<And>i. length (f (Suc i)) = D" and "i \<le> n"
  shows "take (i * D) (take len (concat (map f [1..<Suc n]))) = take (min (i * D) len) (concat (map f [1..<Suc i]))"
  using concat_prefix [OF assms(2), of f] length_blocks [of f D i, OF assms(1)] by (auto simp del: upt_Suc)

lemma take_blocks_Suc:
  fixes f :: "nat \<Rightarrow> 'a list"
  assumes l: "\<And>i. length (f (Suc i)) = D" and "i < n" and "i * D < len"
  shows "take (Suc i * D) (take len (concat (map f [1..<Suc n])))
    = take (i * D) (take len (concat (map f [1..<Suc n]))) @ take (min (len - i * D) D) (f (Suc i))"
proof -
  have m: "min (Suc i * D) len - i * D = min (len - i * D) D" "min (Suc i * D) len \<ge> i * D" using assms(3) by auto
  have "take (Suc i * D) (take len (concat (map f [1..<Suc n])))
      = take (min (Suc i * D) len) (concat (map f [1..<Suc i]) @ f (Suc i))"
    using take_blocks [of f D "Suc i" n len, OF l] assms(2) unfolding concat_snoc by simp
  also have "\<dots> = take (i * D) (take len (concat (map f [1..<Suc n]))) @ take (min (len - i * D) D) (f (Suc i))"
    using take_blocks [of f D i n len, OF l] assms(2,3) length_blocks [of f D i, OF l] m by (simp add: take_append)
  finally show ?thesis .
qed

text \<open>A keyed hash with a fixed key, on messages of at most \<open>M\<close> bytes.\<close>

locale keyed =
  fixes D M :: nat and call :: "u8 list \<Rightarrow> (Bytes, BytesExn) Result" and mac :: "u8 list \<Rightarrow> u8 list"
  assumes call_yields: "length m \<le> M \<Longrightarrow> yields (call m) (\<lambda>r. bytes_view r = mac m)"
    and length_mac: "length (mac m) = D"
    and D_pos: "0 < D"
begin

lemma length_T: "0 < i \<Longrightarrow> length (hkdf_T mac info i) = D"
  by (cases i) (simp_all add: length_mac)

text \<open>One round of the loop.\<close>

lemma T_input:
  assumes "holds (D + length info + 1) t b" and "t_prev = hkdf_T mac info i \<or> i = 0"
  shows "yields (and_then (if 0 < i * D then bm_put_slice (bm_clear b) t_prev D else Ok (bm_clear b)) (\<lambda>b.
      and_then (bm_put_slice b info (length info)) (\<lambda>b. bm_put_u8 b (of_nat (Suc i)))))
    (holds (D + length info + 1) (hkdf_T mac info i @ info @ [of_nat (Suc i)]))"
proof (intro yields_and_then)
  note c = holds_clear [OF assms(1)]
  show "yields (if 0 < i * D then bm_put_slice (bm_clear b) t_prev D else Ok (bm_clear b))
      (holds (D + length info + 1) (hkdf_T mac info i))"
    using c put_bytes [OF c, of D "hkdf_T mac info i"] assms(2) length_T [of i info] D_pos by (cases i) auto
  fix b' assume b': "holds (D + length info + 1) (hkdf_T mac info i) b'"
  have l: "length (hkdf_T mac info i) \<le> D" by (cases i) (simp_all add: length_mac)
  show "yields (bm_put_slice b' info (length info)) (holds (D + length info + 1) (hkdf_T mac info i @ info))"
    using put_bytes [OF b', of "length info" info] l by simp
  fix b'' assume "holds (D + length info + 1) (hkdf_T mac info i @ info) b''"
  from put_byte [OF this, of "of_nat (Suc i)"] l
  show "yields (bm_put_u8 b'' (of_nat (Suc i))) (holds (D + length info + 1) (hkdf_T mac info i @ info @ [of_nat (Suc i)]))"
    by simp
qed

lemma take_spec_Suc:
  assumes "i < blocks_for D len"
  shows "take (Suc i * D) (hkdf_spec D mac info len)
    = take (i * D) (hkdf_spec D mac info len) @ take (min (len - i * D) D) (hkdf_T mac info (Suc i))"
  unfolding hkdf_spec_def by (rule take_blocks_Suc [OF _ assms blocks_for_bounds(2) [OF D_pos assms]]) (simp add: length_mac)

lemma hkdf_loop_yields:
  assumes M: "D + length info + 1 \<le> M" and hm: "hm prk = call"
  shows "i \<le> blocks_for D len \<Longrightarrow> holds (D + length info + 1) t b \<Longrightarrow> t_prev = hkdf_T mac info i \<or> i = 0 \<Longrightarrow>
    holds len (take (i * D) (hkdf_spec D mac info len)) okm \<Longrightarrow>
    yields (hkdf_loop D hm prk info len okm b t_prev (min (i * D) len) (of_nat (Suc i)))
      (holds len (hkdf_spec D mac info len))"
proof (induction "blocks_for D len - i" arbitrary: i t b t_prev okm)
  case 0
  then have "len \<le> i * D" using blocks_for_bounds(1) [OF D_pos, of len] by simp
  moreover have "length (hkdf_spec D mac info len) \<le> len" by (simp add: hkdf_spec_def)
  ultimately show ?case using 0(5) by (subst hkdf_loop.simps) (simp add: min_def)
next
  case (Suc n)
  let ?m = "hkdf_T mac info i @ info @ [of_nat (Suc i)]" and ?tk = "min (len - i * D) D"
  have b: "i < blocks_for D len" using Suc(2) by simp
  have i: "i * D < len" by (rule blocks_for_bounds(2) [OF D_pos b])
  have tk: "(if len - i * D < D then len - i * D else D) = ?tk" "i * D + ?tk = min (Suc i * D) len" using i by auto
  have c: "(D = 0 \<or> len \<le> i * D) = False" "min (i * D) len = i * D" "(of_nat (Suc i) :: u8) + 1 = of_nat (Suc (Suc i))"
    using i D_pos by simp_all
  have l: "length ?m \<le> M" "length (hkdf_T mac info (Suc i)) = D" using M length_mac by (cases i; simp)+
  have eq: "hkdf_loop D hm prk info len okm b t_prev (min (i * D) len) (of_nat (Suc i))
      = and_then (and_then (if 0 < i * D then bm_put_slice (bm_clear b) t_prev D else Ok (bm_clear b)) (\<lambda>b.
          and_then (bm_put_slice b info (length info)) (\<lambda>b. bm_put_u8 b (of_nat (Suc i))))) (\<lambda>b.
        and_then (call (bm_view b)) (\<lambda>r. and_then (bm_put_slice okm (bytes_view r) ?tk) (\<lambda>okm.
          hkdf_loop D hm prk info len okm b (take D (bytes_view r)) (min (Suc i * D) len) (of_nat (Suc (Suc i))))))"
    unfolding and_then_assoc by (subst hkdf_loop.simps) (simp only: c hm if_False Let_def tk)
  show ?case
    unfolding eq
  proof (rule yields_and_then [OF T_input [OF Suc(4,5)]],
      rule yields_and_then [where P = "\<lambda>r. bytes_view r = hkdf_T mac info (Suc i)"], goal_cases)
    case (1 b')
    then show ?case using call_yields [OF l(1)] by (simp add: holds_view)
  next
    case (2 b' r)
    note b' = 2(1)
    have r: "bytes_view r = hkdf_T mac info (Suc i)" using 2(2) .
    show ?case
    proof (rule yields_and_then)
      show "yields (bm_put_slice okm (bytes_view r) ?tk) (holds len (take (Suc i * D) (hkdf_spec D mac info len)))"
        unfolding r take_spec_Suc [OF b] by (rule put_bytes [OF Suc(6)]) (use l(2) i in auto)
      fix okm' assume "holds len (take (Suc i * D) (hkdf_spec D mac info len)) okm'"
      from Suc(1) [OF _ _ b' _ this, of "take D (bytes_view r)"] Suc(2) b l(2)
      show "yields (hkdf_loop D hm prk info len okm' b' (take D (bytes_view r)) (min (Suc i * D) len) (of_nat (Suc (Suc i))))
          (holds len (hkdf_spec D mac info len))" by (simp only: r) simp
    qed
  qed
qed

lemma hkdf_expand_yields:
  assumes M: "D + length info + 1 \<le> M" "M \<le> PTRDIFF_MAX" "255 * D \<le> PTRDIFF_MAX" and "hm prk = call" and "D \<le> length prk"
  shows "map_ok (map_ok bytes_view) (hkdf_expand_common D hm prk info len)
    = Ok (if len > 255 * D then Err INVALID_ARGUMENT else Ok (hkdf_spec D mac info len))"
proof (cases "len > 255 * D")
  case False
  have "yields (and_then (with_capacity len) (\<lambda>okm.
      and_then (with_capacity (usize_add (usize_add D (length info)) 1)) (\<lambda>t_input.
      hkdf_loop D hm prk info len okm t_input (replicate D 0) 0 1))) (holds len (hkdf_spec D mac info len))"
  proof (intro yields_and_then)
    show "yields (with_capacity len) (holds len [])" by (rule new_buffer) (use M(3) False in simp)
    show "yields (with_capacity (usize_add (usize_add D (length info)) 1)) (holds (D + length info + 1) [])"
      using new_buffer [of "D + length info + 1"] M by simp
    fix okm t_input assume "holds len [] okm" "holds (D + length info + 1) [] t_input"
    with hkdf_loop_yields [where hm = hm and prk = prk, OF M(1) assms(4), of 0 len "[]" t_input "replicate D 0" okm]
    show "yields (hkdf_loop D hm prk info len okm t_input (replicate D 0) 0 1) (holds len (hkdf_spec D mac info len))"
      by simp
  qed
  then obtain b where b: "and_then (with_capacity len) (\<lambda>okm.
      and_then (with_capacity (usize_add (usize_add D (length info)) 1)) (\<lambda>t_input.
      hkdf_loop D hm prk info len okm t_input (replicate D 0) 0 1)) = Ok b" "holds len (hkdf_spec D mac info len) b"
    by (auto simp: yields_def)
  have "hkdf_expand_common D hm prk info len = Ok (Ok (fst (bm_freeze b)))"
    using False assms(5) b(1) by (simp add: hkdf_expand_common_def frozen_def flip: map_ok_and_then)
  then show ?thesis using False holds_freeze [OF b(2)] by simp
qed (use assms(5) in \<open>simp add: hkdf_expand_common_def\<close>)

end


section \<open>The functions of the module\<close>

lemma hmac_calls:
  assumes "length data \<le> PTRDIFF_MAX - 128"
  shows "map_ok bytes_view (hmac_sha1 key data) = Ok (hmac_spec 64 sha1_spec key data)"
    and "map_ok bytes_view (hmac_sha256 key data) = Ok (hmac_spec 64 sha256_spec key data)"
    and "map_ok bytes_view (hmac_sha512 key data) = Ok (hmac_spec 128 sha512_spec key data)"
  using mac1.hmac_yields [of data key] mac256.hmac_yields [of data key] mac512.hmac_yields [of data key] assms
  by (auto simp: yields_def hmac_sha1_def hmac_sha256_def hmac_sha512_def digest_is_spec)

lemma keyed_hmac:
  "keyed 20 (PTRDIFF_MAX - 128) (hmac_sha1 key) (hmac_spec 64 sha1_spec key)"
  "keyed 32 (PTRDIFF_MAX - 128) (hmac_sha256 key) (hmac_spec 64 sha256_spec key)"
  "keyed 64 (PTRDIFF_MAX - 128) (hmac_sha512 key) (hmac_spec 128 sha512_spec key)"
  using mac1.hmac_yields mac256.hmac_yields mac512.hmac_yields
    mac1.length_hmac_spec mac256.length_hmac_spec mac512.length_hmac_spec
  by (auto intro!: keyed.intro simp: hmac_sha1_def hmac_sha256_def hmac_sha512_def digest_is_spec)

interpretation k1: keyed 20 "PTRDIFF_MAX - 128" "hmac_sha1 key" "hmac_spec 64 sha1_spec key" for key
  by (rule keyed_hmac)

interpretation k256: keyed 32 "PTRDIFF_MAX - 128" "hmac_sha256 key" "hmac_spec 64 sha256_spec key" for key
  by (rule keyed_hmac)

interpretation k512: keyed 64 "PTRDIFF_MAX - 128" "hmac_sha512 key" "hmac_spec 128 sha512_spec key" for key
  by (rule keyed_hmac)

section \<open>PBKDF2\<close>

lemma length_U: "length (pbkdf2_U (hmac_spec 64 sha256_spec password) salt i j) = 32"
  by (cases j) (simp_all add: k256.length_mac)

lemma iterate_yields:
  assumes "f = hmac_spec 64 sha256_spec password"
  shows "yields (pbkdf2_iterate password n (pbkdf2_U f salt i j) t)
    (\<lambda>r. r = fold (\<lambda>j t. map2 (XOR) t (pbkdf2_U f salt i j)) [Suc j..<Suc j + n] t)"
proof (induction n arbitrary: j t)
  case (Suc n)
  show ?case
    unfolding pbkdf2_iterate.simps Let_def
  proof (rule yields_and_then)
    show "yields (hmac_sha256 password (pbkdf2_U f salt i j)) (\<lambda>r. bytes_view r = pbkdf2_U f salt i (Suc j))"
      using k256.call_yields [of "pbkdf2_U f salt i j" password] by (simp add: assms length_U)
    fix r assume r: "bytes_view r = pbkdf2_U f salt i (Suc j)"
    have "[Suc j..<Suc j + Suc n] = Suc j # [Suc (Suc j)..<Suc (Suc j) + n]" by (simp add: upt_rec del: upt_Suc)
    with Suc.IH [of "Suc j"] length_U [of password salt i "Suc j"]
    show "yields (pbkdf2_iterate password n (take 32 (bytes_view r)) (map2 (XOR) t (take 32 (bytes_view r))))
      (\<lambda>r. r = fold (\<lambda>j t. map2 (XOR) t (pbkdf2_U f salt i j)) [Suc j..<Suc j + Suc n] t)"
      by (simp add: r assms del: upt_Suc)
  qed
qed simp


lemma length_map2_fold:
  "(\<And>j. length (g j) = D) \<Longrightarrow> length t = D \<Longrightarrow> length (fold (\<lambda>j t. map2 (XOR) t (g j)) js t) = D"
  by (induction js arbitrary: t) simp_all

lemma length_F: "length (pbkdf2_F (hmac_spec 64 sha256_spec password) salt c i) = 32"
  unfolding pbkdf2_F_def by (rule length_map2_fold) (simp_all add: length_U k256.length_mac)

lemma blocks_yield:
  assumes f: "f = hmac_spec 64 sha256_spec password" and c: "0 < c" and salt: "length salt + 4 \<le> PTRDIFF_MAX - 128"
  shows "i \<le> blocks_for 32 len \<Longrightarrow> holds (length salt + 4) x b \<Longrightarrow>
    holds len (take (i * 32) (pbkdf2_spec f salt c len)) dk \<Longrightarrow>
    yields (pbkdf2_blocks password salt c len [Suc i..<Suc (blocks_for 32 len)] b dk) (holds len (pbkdf2_spec f salt c len))"
proof (induction "blocks_for 32 len - i" arbitrary: i x b dk)
  case 0
  then have "i = blocks_for 32 len" by simp
  then have "len \<le> i * 32" "[Suc i..<Suc (blocks_for 32 len)] = []" using blocks_for_bounds(1) [of 32 len] by simp_all
  moreover have "length (pbkdf2_spec f salt c len) \<le> len" by (simp add: pbkdf2_spec_def)
  ultimately show ?case using 0(4) by simp
next
  case (Suc n)
  let ?spec = "pbkdf2_spec f salt c len" and ?tk = "min (len - i * 32) 32"
    and ?m = "salt @ enc_u32_be (of_nat (Suc i))" and ?U = "pbkdf2_U f salt (Suc i) 0"
  have b: "i < blocks_for 32 len" using Suc(2) by simp
  have i: "i * 32 < len" by (rule blocks_for_bounds(2) [OF _ b]) simp
  have l: "length (take (i * 32) ?spec) = i * 32"
    using take_blocks [of "pbkdf2_F f salt c" 32 i "blocks_for 32 len" len] b i
      length_blocks [of "pbkdf2_F f salt c" 32 i] length_F [of password salt c]
    by (simp add: pbkdf2_spec_def f del: upt_Suc)
  have upt: "[Suc i..<Suc (blocks_for 32 len)] = Suc i # [Suc (Suc i)..<Suc (blocks_for 32 len)]"
    using b by (simp add: upt_rec del: upt_Suc)
  have step: "take (Suc i * 32) ?spec = take (i * 32) ?spec @ take ?tk (pbkdf2_F f salt c (Suc i))"
    unfolding pbkdf2_spec_def by (rule take_blocks_Suc [OF _ b i]) (simp add: f length_F)
  have tk: "(if len - bm_len dk < 32 then len - bm_len dk else 32) = ?tk"
    using holds_len [OF Suc(5)] l by (auto simp: min_def)
  have mac: "yields (hmac_sha256 password ?m) (\<lambda>r. take 32 (bytes_view r) = ?U)"
    using k256.call_yields [of ?m password] salt length_U [of password salt "Suc i" 0]
    by (auto simp: enc_u32_be_def f yields_def)
  have iter: "yields (pbkdf2_iterate password (c - 1) ?U ?U) (\<lambda>t. t = pbkdf2_F f salt c (Suc i))"
    using iterate_yields [OF f, of "c - 1" salt "Suc i" 0 ?U] c by (simp add: pbkdf2_F_def)
  show ?case
    unfolding upt pbkdf2_blocks.simps
  proof (rule yields_and_then [where P = "holds (length salt + 4) salt"],
      goal_cases)
    case 1
    show ?case using put_bytes [OF holds_clear [OF Suc(4)], of "length salt" salt] by simp
  next
    case (2 b1)
    show ?case
    proof (rule yields_and_then [where P = "holds (length salt + 4) ?m"], goal_cases)
      case 1
      show ?case using put_word [OF 2] by simp
    next
      case (2 b2)
      show ?case
      proof (rule yields_and_then [where P = "\<lambda>r. take 32 (bytes_view r) = ?U"], goal_cases)
        case 1
        show ?case using mac by (simp add: holds_view [OF 2])
      next
        case (2 r)
        show ?case
          unfolding Let_def 2
        proof (rule yields_and_then [OF iter], goal_cases)
          case (1 t)
          show ?case
            unfolding tk 1
          proof (rule yields_and_then [where P = "holds len (take (Suc i * 32) ?spec)"], goal_cases)
            case 1
            show ?case unfolding step by (rule put_bytes [OF Suc(5)]) (use l i in \<open>simp_all add: f length_F\<close>)
          next
            case (2 dk')
            show ?case using Suc(1) [OF _ _ \<open>holds (length salt + 4) ?m b2\<close> 2] Suc(2) b by simp
          qed
        qed
      qed
    qed
  qed
qed


lemma derive_by:
  assumes "map_ok bytes_view e = Ok k" and "\<And>prk. bytes_view prk = k \<Longrightarrow> map_ok (map_ok bytes_view) (g prk) = r"
  shows "map_ok (map_ok bytes_view) (and_then e g) = r"
proof -
  obtain prk where "e = Ok prk" "bytes_view prk = k" using assms(1) by (cases e) auto
  then show ?thesis using assms(2) by simp
qed

section \<open>Properties\<close>

text \<open>C14: HMAC-SHA1, HMAC-SHA256 and HMAC-SHA512 are the function of RFC 2104 on the hash of the
  padded message, for every key and every message that fits a buffer; nothing throws.\<close>

theorem hmac_rfc2104:
  assumes "length data \<le> PTRDIFF_MAX - 128"
  shows "map_ok bytes_view (hmac_sha1 key data) = Ok (hmac_spec 64 sha1_spec key data)
    \<and> map_ok bytes_view (hmac_sha256 key data) = Ok (hmac_spec 64 sha256_spec key data)
    \<and> map_ok bytes_view (hmac_sha512 key data) = Ok (hmac_spec 128 sha512_spec key data)"
  using hmac_calls [OF assms] by blast

theorem hmac_rfc2104_witness:
  "map_ok bytes_view (hmac_sha256 (replicate 100 7) [1, 2, 3]) = Ok (hmac_spec 64 sha256_spec (replicate 100 7) [1, 2, 3])"
  using hmac_rfc2104 [of "[1, 2, 3]" "replicate 100 7"] by simp

text \<open>C15: HKDF is the extract-and-expand of RFC 5869 for every salt, input and length, up to
  the limit of 255 blocks, above which it reports an invalid argument.\<close>

theorem hkdf_rfc5869:
  assumes "length ikm \<le> PTRDIFF_MAX - 128" and "length info \<le> PTRDIFF_MAX - 200"
  shows "map_ok (map_ok bytes_view) (hkdf_sha1_derive salt ikm info len)
      = Ok (if len > 255 * 20 then Err INVALID_ARGUMENT
            else Ok (hkdf_spec 20 (hmac_spec 64 sha1_spec (hmac_spec 64 sha1_spec salt ikm)) info len))
    \<and> map_ok (map_ok bytes_view) (hkdf_sha256_derive salt ikm info len)
      = Ok (if len > 255 * 32 then Err INVALID_ARGUMENT
            else Ok (hkdf_spec 32 (hmac_spec 64 sha256_spec (hmac_spec 64 sha256_spec salt ikm)) info len))
    \<and> map_ok (map_ok bytes_view) (hkdf_sha512_derive salt ikm info len)
      = Ok (if len > 255 * 64 then Err INVALID_ARGUMENT
            else Ok (hkdf_spec 64 (hmac_spec 128 sha512_spec (hmac_spec 128 sha512_spec salt ikm)) info len))"
proof (intro conjI)
  note h = hmac_calls [OF assms(1), where key = salt]
  have l: "length (hmac_spec 64 sha1_spec k m) = 20" "length (hmac_spec 64 sha256_spec k m) = 32"
    "length (hmac_spec 128 sha512_spec k m) = 64" for k m
    by (rule k1.length_mac k256.length_mac k512.length_mac)+
  show "map_ok (map_ok bytes_view) (hkdf_sha1_derive salt ikm info len)
      = Ok (if len > 255 * 20 then Err INVALID_ARGUMENT
            else Ok (hkdf_spec 20 (hmac_spec 64 sha1_spec (hmac_spec 64 sha1_spec salt ikm)) info len))"
    unfolding hkdf_sha1_derive_def hkdf_sha1_extract_def hkdf_sha1_expand_def
    by (rule derive_by [OF h(1)]) (simp only:, rule k1.hkdf_expand_yields [OF _ _ _ refl], use assms(2) l in simp_all)
  show "map_ok (map_ok bytes_view) (hkdf_sha256_derive salt ikm info len)
      = Ok (if len > 255 * 32 then Err INVALID_ARGUMENT
            else Ok (hkdf_spec 32 (hmac_spec 64 sha256_spec (hmac_spec 64 sha256_spec salt ikm)) info len))"
    unfolding hkdf_sha256_derive_def hkdf_sha256_extract_def hkdf_sha256_expand_def
    by (rule derive_by [OF h(2)]) (simp only:, rule k256.hkdf_expand_yields [OF _ _ _ refl], use assms(2) l in simp_all)
  show "map_ok (map_ok bytes_view) (hkdf_sha512_derive salt ikm info len)
      = Ok (if len > 255 * 64 then Err INVALID_ARGUMENT
            else Ok (hkdf_spec 64 (hmac_spec 128 sha512_spec (hmac_spec 128 sha512_spec salt ikm)) info len))"
    unfolding hkdf_sha512_derive_def hkdf_sha512_extract_def hkdf_sha512_expand_def
    by (rule derive_by [OF h(3)]) (simp only:, rule k512.hkdf_expand_yields [OF _ _ _ refl], use assms(2) l in simp_all)
qed

theorem hkdf_rfc5869_witness:
  "map_ok (map_ok bytes_view) (hkdf_sha256_derive [1] [2] [3] 40)
    = Ok (Ok (hkdf_spec 32 (hmac_spec 64 sha256_spec (hmac_spec 64 sha256_spec [1] [2])) [3] 40))"
  using hkdf_rfc5869 [of "[2]" "[3]" "[1]" 40] by simp

text \<open>C16: PBKDF2-HMAC-SHA256 is the function of RFC 8018 for every password, iteration count and
  length of the derived key, and an invalid argument outside the ranges of the standard.\<close>

theorem pbkdf2_rfc8018:
  assumes "length salt \<le> PTRDIFF_MAX - 200"
  shows "map_ok (map_ok bytes_view) (pbkdf2_hmac_sha256 password salt iterations dk_len)
    = Ok (if iterations = 0 \<or> dk_len = 0 \<or> dk_len > 0xFFFFFFFF * 32 then Err INVALID_ARGUMENT
          else Ok (pbkdf2_spec (hmac_spec 64 sha256_spec password) salt iterations dk_len))"
proof (cases "iterations = 0 \<or> dk_len = 0 \<or> dk_len > 0xFFFFFFFF * 32")
  case False
  let ?f = "hmac_spec 64 sha256_spec password" and ?blks = "[1..<(dk_len + 32 - 1) div 32 + 1]"
  have "yields (and_then (with_capacity dk_len) (\<lambda>dk. and_then (with_capacity (usize_add (length salt) 4)) (\<lambda>u1_input.
      pbkdf2_blocks password salt iterations dk_len ?blks u1_input dk))) (holds dk_len (pbkdf2_spec ?f salt iterations dk_len))"
  proof (intro yields_and_then)
    show "yields (with_capacity dk_len) (holds dk_len [])" by (rule new_buffer) (use False in simp)
    show "yields (with_capacity (usize_add (length salt) 4)) (holds (length salt + 4) [])"
      using new_buffer [of "length salt + 4"] assms by simp
    fix dk u1_input assume "holds dk_len [] dk" "holds (length salt + 4) [] u1_input"
    with blocks_yield [of ?f password iterations salt 0 dk_len "[]" u1_input dk] False assms
    show "yields (pbkdf2_blocks password salt iterations dk_len ?blks u1_input dk)
        (holds dk_len (pbkdf2_spec ?f salt iterations dk_len))"
      by (simp add: blocks_for_def del: upt_Suc)
  qed
  then obtain b where b: "and_then (with_capacity dk_len) (\<lambda>dk. and_then (with_capacity (usize_add (length salt) 4)) (\<lambda>u1_input.
      pbkdf2_blocks password salt iterations dk_len ?blks u1_input dk)) = Ok b" "holds dk_len (pbkdf2_spec ?f salt iterations dk_len) b"
    by (auto simp: yields_def)
  have "pbkdf2_hmac_sha256 password salt iterations dk_len = Ok (Ok (fst (bm_freeze b)))"
    using False b(1) by (simp add: pbkdf2_hmac_sha256_def frozen_def Let_def flip: map_ok_and_then del: upt_Suc)
  then show ?thesis using False holds_freeze [OF b(2)] by simp
qed (auto simp: pbkdf2_hmac_sha256_def)

theorem pbkdf2_rfc8018_witness:
  "map_ok (map_ok bytes_view) (pbkdf2_hmac_sha256 [1] [2] 3 40) = Ok (Ok (pbkdf2_spec (hmac_spec 64 sha256_spec [1]) [2] 3 40))"
  using pbkdf2_rfc8018 [of "[2]" "[1]" 3 40] by simp

end
