(* ===== verification/Thread_Monitor.thy ===== *)
theory Thread_Monitor
  imports Libca_Prelude "HOL-Library.Multiset" "HOL-Library.Extended_Nat"
begin

text \<open>
  Monitors: the shape every blocking class of \<^verbatim>\<open>src/libca/thread\<close> has.  An operation takes
  the mutex and runs one critical section, its \<open>attempt\<close>; it may find its predicate
  false and wait on a condition variable, or finish and, after unlocking, notify.  This
  theory holds the interleaving semantics of calls on one object, with
  \<^verbatim>\<open>std::condition_variable\<close> as the standard describes it (one notified waiter of any
  choice, spurious wake-ups, time-outs that test the predicate once more), and an
  interface under which no wake-up is lost.  The classes interpret it.
\<close>

section \<open>Calls on a monitor\<close>

datatype 'c signal = notify_one 'c | notify_all 'c

text \<open>What a critical section does: wait on a condition, or return after some signals.\<close>

datatype ('c, 's, 'r) attempt = Block 'c | Done 's 'r "'c signal list"

text \<open>
  Where a call in progress is: about to lock and run its critical section, asleep on a
  condition variable, or past its critical section with signals still to be sent.
\<close>

datatype ('c, 'o, 'r) call = Run 'o | Sleep 'c 'o | Signal "'c signal list" 'r

record ('c, 's, 'o, 'r) monitor =
  shared :: 's
  calls :: "('c, 'o, 'r) call multiset"
  history :: "('o \<times> 'r) list"

definition start :: "'s \<Rightarrow> ('c, 's, 'o, 'r) monitor" where
  "start s = \<lparr>shared = s, calls = {#}, history = []\<rparr>"

fun wake :: "'c \<Rightarrow> ('c, 'o, 'r) call \<Rightarrow> ('c, 'o, 'r) call" where
  "wake c (Sleep c' x) = (if c' = c then Run x else Sleep c' x)"
| "wake c p = p"

fun sleeps_on :: "'c \<Rightarrow> ('c, 'o, 'r) call \<Rightarrow> bool" where
  "sleeps_on c (Sleep c' x) \<longleftrightarrow> c' = c"
| "sleeps_on c p \<longleftrightarrow> False"

lemma sleeps_on_wake [simp]: "sleeps_on c (wake c' p) \<longleftrightarrow> c \<noteq> c' \<and> sleeps_on c p"
  by (cases p) auto

text \<open>Steps of the calls in progress; a finished critical section is recorded in \<open>history\<close>.\<close>

inductive advance :: "('o \<Rightarrow> 's \<Rightarrow> ('c, 's, 'r) attempt) \<Rightarrow> ('c, 's, 'o, 'r) monitor \<Rightarrow> ('c, 's, 'o, 'r) monitor \<Rightarrow> bool"
  for attempt where
  finish: "attempt x s = Done s' r sigs \<Longrightarrow>
    advance attempt \<lparr>shared = s, calls = add_mset (Run x) T, history = h\<rparr>
      \<lparr>shared = s', calls = add_mset (Signal sigs r) T, history = h @ [(x, r)]\<rparr>"
| block: "attempt x s = Block c \<Longrightarrow>
    advance attempt \<lparr>shared = s, calls = add_mset (Run x) T, history = h\<rparr>
      \<lparr>shared = s, calls = add_mset (Sleep c x) T, history = h\<rparr>"
| one: "advance attempt \<lparr>shared = s, calls = add_mset (Signal (notify_one c # sigs) r) (add_mset (Sleep c x) T), history = h\<rparr>
      \<lparr>shared = s, calls = add_mset (Signal sigs r) (add_mset (Run x) T), history = h\<rparr>"
| none: "\<not> (\<exists>p \<in># T. sleeps_on c p) \<Longrightarrow>
    advance attempt \<lparr>shared = s, calls = add_mset (Signal (notify_one c # sigs) r) T, history = h\<rparr>
      \<lparr>shared = s, calls = add_mset (Signal sigs r) T, history = h\<rparr>"
| all: "advance attempt \<lparr>shared = s, calls = add_mset (Signal (notify_all c # sigs) r) T, history = h\<rparr>
      \<lparr>shared = s, calls = add_mset (Signal sigs r) (image_mset (wake c) T), history = h\<rparr>"
| leave: "advance attempt \<lparr>shared = s, calls = add_mset (Signal [] r) T, history = h\<rparr>
      \<lparr>shared = s, calls = T, history = h\<rparr>"

text \<open>
  Steps of the environment: a new call, a spurious wake-up, an expired time-out; \<open>expire\<close>
  gives the call that tests its predicate for the last time.
\<close>

inductive environment :: "('o \<Rightarrow> 'o option) \<Rightarrow> ('c, 's, 'o, 'r) monitor \<Rightarrow> ('c, 's, 'o, 'r) monitor \<Rightarrow> bool"
  for expire where
  enter: "environment expire \<lparr>shared = s, calls = T, history = h\<rparr> \<lparr>shared = s, calls = add_mset (Run x) T, history = h\<rparr>"
| spurious: "environment expire \<lparr>shared = s, calls = add_mset (Sleep c x) T, history = h\<rparr>
      \<lparr>shared = s, calls = add_mset (Run x) T, history = h\<rparr>"
| timeout: "expire x = Some x' \<Longrightarrow>
    environment expire \<lparr>shared = s, calls = add_mset (Sleep c x) T, history = h\<rparr>
      \<lparr>shared = s, calls = add_mset (Run x') T, history = h\<rparr>"

inductive runs :: "('o \<Rightarrow> 's \<Rightarrow> ('c, 's, 'r) attempt) \<Rightarrow> ('o \<Rightarrow> 'o option) \<Rightarrow> 's \<Rightarrow> ('c, 's, 'o, 'r) monitor \<Rightarrow> bool"
  for attempt expire s0 where
  runs_start: "runs attempt expire s0 (start s0)"
| runs_advance: "runs attempt expire s0 m \<Longrightarrow> advance attempt m m' \<Longrightarrow> runs attempt expire s0 m'"
| runs_environment: "runs attempt expire s0 m \<Longrightarrow> environment expire m m' \<Longrightarrow> runs attempt expire s0 m'"

section \<open>Every burst of activity ends\<close>

text \<open>Unfinished calls, signals not yet sent, calls about to run: a step lowers the first that it changes.\<close>

fun unfinished :: "('c, 'o, 'r) call \<Rightarrow> nat" where
  "unfinished (Signal sigs r) = 0"
| "unfinished p = 1"

fun to_send :: "('c, 'o, 'r) call \<Rightarrow> nat" where
  "to_send (Signal sigs r) = Suc (length sigs)"
| "to_send p = 0"

fun running :: "('c, 'o, 'r) call \<Rightarrow> nat" where
  "running (Run x) = 1"
| "running p = 0"

lemma wake_measures [simp]: "unfinished (wake c p) = unfinished p" "to_send (wake c p) = to_send p"
  by (cases p; simp)+

definition activity :: "(('c, 's, 'o, 'r) monitor \<times> ('c, 's, 'o, 'r) monitor) set" where
  "activity = measures [\<lambda>m. \<Sum>p\<in>#calls m. unfinished p, \<lambda>m. \<Sum>p\<in>#calls m. to_send p, \<lambda>m. \<Sum>p\<in>#calls m. running p]"

lemma advance_activity: "advance attempt m m' \<Longrightarrow> (m', m) \<in> activity"
  by (induction rule: advance.induct) (auto simp: activity_def multiset.map_comp comp_def)

lemma advance_terminates: "wf {(m', m). advance attempt m m'}"
proof (rule wf_subset)
  show "wf activity"
    by (simp add: activity_def)
qed (auto intro: advance_activity)

text \<open>A monitor is at rest when every call in progress is asleep.\<close>

fun asleep :: "('c, 'o, 'r) call \<Rightarrow> bool" where
  "asleep (Sleep c x) \<longleftrightarrow> True"
| "asleep p \<longleftrightarrow> False"

definition at_rest :: "('c, 's, 'o, 'r) monitor \<Rightarrow> bool" where
  "at_rest m \<longleftrightarrow> (\<forall>p \<in># calls m. asleep p)"

lemma at_rest_or_advance:
  assumes "\<not> at_rest m"
  shows "\<exists>m'. advance attempt m m'"
proof -
  from assms obtain p T where p: "calls m = add_mset p T" "\<not> asleep p"
    by (auto simp: at_rest_def dest: multi_member_split)
  obtain s h where m: "m = \<lparr>shared = s, calls = add_mset p T, history = h\<rparr>"
    using p(1) by (cases m) auto
  show "\<exists>m'. advance attempt m m'"
  proof (cases p)
    case (Run x)
    then show ?thesis
      by (cases "attempt x s") (auto simp: m intro: finish block)
  next
    case (Signal sigs r)
    consider "sigs = []" | c l where "sigs = notify_all c # l" | c l where "sigs = notify_one c # l"
      by (cases sigs; cases "hd sigs") auto
    then show ?thesis
    proof cases
      case (3 c l)
      show ?thesis
      proof (cases "\<exists>q \<in># T. sleeps_on c q")
        case True
        then obtain x T' where "T = add_mset (Sleep c x) T'"
          by (metis multi_member_split sleeps_on.elims(2))
        then show ?thesis using 3 Signal by (auto simp: m intro: one)
      qed (auto simp: m Signal 3 intro: none)
    qed (auto simp: m Signal intro: leave all)
  qed (use p(2) in simp)
qed

lemma advance_to_rest: "\<exists>m'. (advance attempt)\<^sup>*\<^sup>* m m' \<and> at_rest m'"
  using advance_terminates [of attempt]
proof (induction m rule: wf_induct_rule)
  case (less m)
  show ?case
  proof (cases "at_rest m")
    case False
    then obtain m1 where "advance attempt m m1" using at_rest_or_advance by blast
    moreover from this obtain m' where "(advance attempt)\<^sup>*\<^sup>* m1 m'" "at_rest m'"
      using less.IH by auto
    ultimately show ?thesis by (meson converse_rtranclp_into_rtranclp)
  qed blast
qed

lemma runs_advances: "(advance attempt)\<^sup>*\<^sup>* m m' \<Longrightarrow> runs attempt expire s0 m \<Longrightarrow> runs attempt expire s0 m'"
  by (induction rule: rtranclp_induct) (auto intro: runs_advance)

lemma advance_asleep: "at_rest m \<Longrightarrow> \<not> advance attempt m m'"
  by (auto simp: at_rest_def elim!: advance.cases)

text \<open>The steps of a run, one at a time, for concrete schedules.\<close>

lemma runs_enter:
  "runs attempt expire s0 \<lparr>shared = s, calls = T, history = h\<rparr> \<Longrightarrow>
   runs attempt expire s0 \<lparr>shared = s, calls = add_mset (Run x) T, history = h\<rparr>"
  by (rule runs_environment) (auto intro: enter)

lemma runs_block:
  "runs attempt expire s0 \<lparr>shared = s, calls = add_mset (Run x) T, history = h\<rparr> \<Longrightarrow> attempt x s = Block c \<Longrightarrow>
   runs attempt expire s0 \<lparr>shared = s, calls = add_mset (Sleep c x) T, history = h\<rparr>"
  by (rule runs_advance) (auto intro: block)

lemma runs_finish:
  "runs attempt expire s0 \<lparr>shared = s, calls = add_mset (Run x) T, history = h\<rparr> \<Longrightarrow>
   attempt x s = Done s' r sigs \<Longrightarrow>
   runs attempt expire s0 \<lparr>shared = s', calls = add_mset (Signal sigs r) T, history = h @ [(x, r)]\<rparr>"
  by (rule runs_advance) (auto intro: finish)

lemma runs_notify:
  "runs attempt expire s0
     \<lparr>shared = s, calls = add_mset (Signal [notify_one c] r) (add_mset (Sleep c x) T), history = h\<rparr> \<Longrightarrow>
   runs attempt expire s0 \<lparr>shared = s, calls = add_mset (Run x) T, history = h\<rparr>"
  by (rule runs_advance [OF runs_advance], assumption) (rule one leave)+

lemma runs_notify_none:
  "runs attempt expire s0 \<lparr>shared = s, calls = add_mset (Signal [notify_one c] r) T, history = h\<rparr> \<Longrightarrow>
   \<not> (\<exists>p \<in># T. sleeps_on c p) \<Longrightarrow>
   runs attempt expire s0 \<lparr>shared = s, calls = T, history = h\<rparr>"
  by (rule runs_advance [OF runs_advance], assumption) (rule none leave, assumption?)+

section \<open>The history is sequential\<close>

text \<open>
  Replaying the recorded operations one after the other, each atomically, reproduces the
  results and the shared state: the calls are linearised by their critical sections.
\<close>

fun replay :: "('o \<Rightarrow> 's \<Rightarrow> ('c, 's, 'r) attempt) \<Rightarrow> 's \<Rightarrow> ('o \<times> 'r) list \<Rightarrow> 's option" where
  "replay attempt s [] = Some s"
| "replay attempt s ((x, r) # h) =
     (case attempt x s of
        Done s' r' sigs \<Rightarrow> if r' = r then replay attempt s' h else None
      | Block c \<Rightarrow> None)"

lemma replay_append:
  "replay attempt s (h @ h') = Option.bind (replay attempt s h) (\<lambda>s'. replay attempt s' h')"
  by (induction attempt s h rule: replay.induct) (auto split: attempt.split)

lemma runs_linearised: "runs attempt expire s0 m \<Longrightarrow> replay attempt s0 (history m) = Some (shared m)"
proof (induction rule: runs.induct)
  case (runs_advance m m')
  from runs_advance(2,3) show ?case
    by (induction rule: advance.induct) (simp_all add: replay_append)
next
  case (runs_environment m m')
  from runs_environment(2,3) show ?case
    by (induction rule: environment.induct) simp_all
qed (simp add: start_def)

text \<open>So an invariant of the shared state only has to be checked on atomic attempts.\<close>

lemma replay_invariant:
  assumes "replay attempt s h = Some s'" and "P [] s"
    and "\<And>h s x s' r sigs. P h s \<Longrightarrow> attempt x s = Done s' r sigs \<Longrightarrow> P (h @ [(x, r)]) s'"
  shows "P h s'"
  using assms(1)
proof (induction h arbitrary: s' rule: rev_induct)
  case Nil
  then show ?case using assms(2) by simp
next
  case (snoc e h)
  obtain x r where e: "e = (x, r)" by (cases e)
  obtain s1 where s1: "replay attempt s h = Some s1" "replay attempt s1 [e] = Some s'"
    using snoc.prems by (auto simp: replay_append split: option.splits bind_splits)
  then obtain sigs where "attempt x s1 = Done s' r sigs"
    by (auto simp: e split: attempt.splits if_splits)
  then show ?case using assms(3) snoc.IH [OF s1(1)] by (simp add: e)
qed

lemma runs_invariant:
  assumes "runs attempt expire s0 m" and "P [] s0"
    and "\<And>h s x s' r sigs. P h s \<Longrightarrow> attempt x s = Done s' r sigs \<Longrightarrow> P (h @ [(x, r)]) s'"
  shows "P (history m) (shared m)"
  using replay_invariant [OF runs_linearised [OF assms(1)]] assms(2,3) by blast

section \<open>No lost wake-up\<close>

text \<open>
  The interface.  \<open>waits\<close> is the condition an operation may wait on; \<open>demand c s\<close> is how
  many waiters on \<open>c\<close> could go on in state \<open>s\<close> (infinitely many after closing).  An
  operation waits only when there is no demand; one that raises the demand for \<open>c\<close>, or
  uses up a wake-up of \<open>c\<close> without lowering it, sends as many signals or notifies all.
\<close>

locale signalling =
  fixes attempt :: "'o \<Rightarrow> 's \<Rightarrow> ('c, 's, 'r) attempt"
    and expire :: "'o \<Rightarrow> 'o option"
    and waits :: "'o \<Rightarrow> 'c option"
    and demand :: "'c \<Rightarrow> 's \<Rightarrow> enat"
  assumes block_waits: "attempt x s = Block c \<Longrightarrow> waits x = Some c \<and> demand c s = 0"
    and expire_waits: "expire x = Some x' \<Longrightarrow> waits x' = waits x"
    and done_signals: "attempt x s = Done s' r sigs \<Longrightarrow>
      notify_all c \<in> set sigs \<or> demand c s' = 0
      \<or> demand c s' + enat (if waits x = Some c then 1 else 0) \<le> demand c s + enat (count_list sigs (notify_one c))"
begin

fun cover :: "'c \<Rightarrow> ('c, 'o, 'r) call \<Rightarrow> nat" where
  "cover c (Run x) = (if waits x = Some c then 1 else 0)"
| "cover c (Signal sigs r) = count_list sigs (notify_one c)"
| "cover c (Sleep c' x) = 0"

fun sends_all :: "'c \<Rightarrow> ('c, 'o, 'r) call \<Rightarrow> bool" where
  "sends_all c (Signal sigs r) \<longleftrightarrow> notify_all c \<in> set sigs"
| "sends_all c p \<longleftrightarrow> False"

fun well_placed :: "('c, 'o, 'r) call \<Rightarrow> bool" where
  "well_placed (Sleep c x) \<longleftrightarrow> waits x = Some c"
| "well_placed p \<longleftrightarrow> True"

definition covered :: "'c \<Rightarrow> 's \<Rightarrow> ('c, 'o, 'r) call multiset \<Rightarrow> bool" where
  "covered c s T \<longleftrightarrow> (\<forall>p \<in># T. \<not> sleeps_on c p) \<or> (\<exists>p \<in># T. sends_all c p)
     \<or> demand c s \<le> enat (\<Sum>p\<in>#T. cover c p)"

definition good :: "('c, 's, 'o, 'r) monitor \<Rightarrow> bool" where
  "good m \<longleftrightarrow> (\<forall>p \<in># calls m. well_placed p) \<and> (\<forall>c. covered c (shared m) (calls m))"

lemma sends_all_wake [simp]: "sends_all c (wake c' p) \<longleftrightarrow> sends_all c p"
  by (cases p) auto

lemma well_placed_wake: "well_placed p \<Longrightarrow> well_placed (wake c p)"
  by (cases p) auto

lemma cover_wake: "cover c p \<le> cover c (wake c' p)"
  by (cases p) auto

lemma covered_mono:
  assumes "covered c s T"
    and "\<forall>p \<in># T. \<not> sleeps_on c p \<Longrightarrow> \<forall>p \<in># T'. \<not> sleeps_on c p"
    and "\<exists>p \<in># T. sends_all c p \<Longrightarrow> \<exists>p \<in># T'. sends_all c p"
    and "(\<Sum>p\<in>#T. cover c p) \<le> (\<Sum>p\<in>#T'. cover c p)"
  shows "covered c s T'"
  using assms unfolding covered_def by (meson enat_ord_simps(1) order_trans)

lemma covered_finish:
  assumes "attempt x s = Done s' r sigs" and "covered c s (add_mset (Run x) T)"
  shows "covered c s' (add_mset (Signal sigs r) T)"
proof -
  let ?k = "if waits x = Some c then 1 else 0 :: nat" and ?n = "\<Sum>p\<in>#T. cover c p"
  consider "notify_all c \<in> set sigs" | "demand c s' = 0"
    | "demand c s' + enat ?k \<le> demand c s + enat (count_list sigs (notify_one c))"
    using done_signals [OF assms(1), of c] by blast
  then show ?thesis
  proof cases
    case 3
    have "demand c s' \<le> enat (count_list sigs (notify_one c) + ?n)" if "demand c s \<le> enat (?k + ?n)"
      using 3 that by (cases "demand c s'"; cases "demand c s") auto
    then show ?thesis using assms(2) by (auto simp: covered_def)
  qed (auto simp: covered_def)
qed

lemma good_advance:
  assumes "advance attempt m m'" and "good m"
  shows "good m'"
  using assms
proof (induction rule: advance.induct)
  case (finish x s s' r sigs T h)
  then show ?case by (auto simp: good_def intro: covered_finish)
next
  case (block x s c T h)
  then have w: "waits x = Some c" "demand c s = 0"
    using block_waits by blast+
  have "covered c' s (add_mset (Sleep c x) T)" for c'
  proof (cases "c' = c")
    case False
    have "covered c' s (add_mset (Run x) T)"
      using block(2) by (simp add: good_def)
    with False w show ?thesis by (auto simp: covered_def)
  qed (simp add: covered_def w zero_enat_def)
  then show ?case using block(2) w by (simp add: good_def)
next
  case (one s c sigs r x T h)
  then have "waits x = Some c" by (simp add: good_def)
  have "covered c' s (add_mset (Signal sigs r) (add_mset (Run x) T))" for c'
  proof -
    have "covered c' s (add_mset (Signal (notify_one c # sigs) r) (add_mset (Sleep c x) T))"
      using one by (simp add: good_def)
    then show ?thesis by (rule covered_mono) (use \<open>waits x = Some c\<close> in auto)
  qed
  with one show ?case by (simp add: good_def)
next
  case (none T c s sigs r h)
  have "covered c' s (add_mset (Signal sigs r) T)" for c'
  proof (cases "c' = c")
    case False
    have "covered c' s (add_mset (Signal (notify_one c # sigs) r) T)"
      using none(2) by (simp add: good_def)
    then show ?thesis by (rule covered_mono) (use False in auto)
  qed (use none(1) in \<open>auto simp: covered_def\<close>)
  then show ?case using none(2) by (simp add: good_def)
next
  case (all s c sigs r T h)
  have "covered c' s (add_mset (Signal sigs r) (image_mset (wake c) T))" for c'
  proof (cases "c' = c")
    case False
    then have "covered c' s (add_mset (Signal (notify_all c # sigs) r) T)
      \<Longrightarrow> covered c' s (add_mset (Signal sigs r) (image_mset (wake c) T))"
      by (elim covered_mono)
         (auto simp: multiset.map_comp comp_def cover_wake intro!: sum_mset_mono)
    then show ?thesis using all by (simp add: good_def)
  qed (auto simp: covered_def)
  moreover have "\<forall>p \<in># T. well_placed (wake c p)"
    using all by (simp add: good_def well_placed_wake)
  ultimately show ?case by (simp add: good_def)
next
  case (leave s r T h)
  then show ?case by (auto simp: good_def covered_def)
qed

lemma good_environment:
  assumes "environment expire m m'" and "good m"
  shows "good m'"
  using assms
proof (induction rule: environment.induct)
  case (enter s T h x)
  have "covered c s (add_mset (Run x) T)" for c
  proof -
    have "covered c s T" using enter by (simp add: good_def)
    then show ?thesis by (rule covered_mono) auto
  qed
  with enter show ?case by (simp add: good_def)
next
  case (spurious s c x T h)
  then have "waits x = Some c" by (simp add: good_def)
  have "covered c' s (add_mset (Run x) T)" for c'
  proof -
    have "covered c' s (add_mset (Sleep c x) T)"
      using spurious by (simp add: good_def)
    then show ?thesis by (rule covered_mono) (use \<open>waits x = Some c\<close> in auto)
  qed
  with spurious show ?case by (simp add: good_def)
next
  case (timeout x x' s c T h)
  then have "waits x' = Some c" using expire_waits by (simp add: good_def)
  have "covered c' s (add_mset (Run x') T)" for c'
  proof -
    have "covered c' s (add_mset (Sleep c x) T)"
      using timeout by (simp add: good_def)
    then show ?thesis by (rule covered_mono) (use \<open>waits x' = Some c\<close> in auto)
  qed
  with timeout show ?case by (simp add: good_def)
qed

lemma runs_good: "runs attempt expire s0 m \<Longrightarrow> good m"
proof (induction rule: runs.induct)
  case runs_start
  show ?case by (simp add: start_def good_def covered_def)
qed (blast intro: good_advance good_environment)+

text \<open>When the calls come to rest, whoever still sleeps has nothing to wake up for.\<close>

theorem rest_no_demand:
  assumes "runs attempt expire s0 m" and "at_rest m" and "Sleep c x \<in># calls m"
  shows "waits x = Some c \<and> demand c (shared m) = 0"
proof -
  have "good m" using runs_good [OF assms(1)] .
  have rest: "cover c p = 0" "\<not> sends_all c p" if "p \<in># calls m" for p
    using assms(2) that by (cases p; auto simp: at_rest_def)+
  have "sleeps_on c (Sleep c x)" by simp
  with \<open>good m\<close> rest(2) assms(3) have "demand c (shared m) \<le> enat (\<Sum>p\<in>#calls m. cover c p)"
    unfolding good_def covered_def by blast
  moreover have "(\<Sum>p\<in>#calls m. cover c p) = 0"
    using rest(1) by simp
  ultimately have "demand c (shared m) \<le> enat 0" by metis
  then have "demand c (shared m) = 0" by (simp add: zero_enat_def [symmetric])
  then show ?thesis using \<open>good m\<close> assms(3) by (auto simp: good_def)
qed

lemma progress:
  assumes "runs attempt expire s0 m"
  shows "(\<nexists>f. f 0 = m \<and> (\<forall>i. advance attempt (f i) (f (Suc i))))
    \<and> (\<forall>m'. (advance attempt)\<^sup>*\<^sup>* m m' \<and> (\<nexists>m''. advance attempt m' m'') \<longrightarrow>
         (\<forall>p \<in># calls m'. \<exists>c x. p = Sleep c x \<and> waits x = Some c \<and> demand c (shared m') = 0))"
proof (intro conjI allI impI)
  show "\<nexists>f. f 0 = m \<and> (\<forall>i. advance attempt (f i) (f (Suc i)))"
    using advance_terminates [of attempt] by (auto simp: wf_iff_no_infinite_down_chain)
next
  fix m'
  assume m': "(advance attempt)\<^sup>*\<^sup>* m m' \<and> (\<nexists>m''. advance attempt m' m'')"
  then have "at_rest m'" using at_rest_or_advance by blast
  moreover have "runs attempt expire s0 m'" using m' runs_advances [OF _ assms] by blast
  ultimately show "\<forall>p \<in># calls m'. \<exists>c x. p = Sleep c x \<and> waits x = Some c \<and> demand c (shared m') = 0"
    using rest_no_demand unfolding at_rest_def by (metis asleep.elims(2))
qed

end

end
