(* ===== verification/Core_Status.thy ===== *)
theory Core_Status
  imports Core_Result
begin

text \<open>
  The status type of \<^verbatim>\<open>core/status.hpp\<close>, the error type of the thread module.
\<close>

datatype StatusCode =
  OK | CANCELLED | UNKNOWN | INVALID_ARGUMENT | DEADLINE_EXCEEDED | NOT_FOUND | ALREADY_EXISTS
| PERMISSION_DENIED | RESOURCE_EXHAUSTED | FAILED_PRECONDITION | ABORTED | OUT_OF_RANGE
| UNIMPLEMENTED | INTERNAL | UNAVAILABLE | DATA_LOSS

fun status_code_name :: "StatusCode \<Rightarrow> string" where
  "status_code_name OK = ''OK''"
| "status_code_name CANCELLED = ''CANCELLED''"
| "status_code_name UNKNOWN = ''UNKNOWN''"
| "status_code_name INVALID_ARGUMENT = ''INVALID_ARGUMENT''"
| "status_code_name DEADLINE_EXCEEDED = ''DEADLINE_EXCEEDED''"
| "status_code_name NOT_FOUND = ''NOT_FOUND''"
| "status_code_name ALREADY_EXISTS = ''ALREADY_EXISTS''"
| "status_code_name PERMISSION_DENIED = ''PERMISSION_DENIED''"
| "status_code_name RESOURCE_EXHAUSTED = ''RESOURCE_EXHAUSTED''"
| "status_code_name FAILED_PRECONDITION = ''FAILED_PRECONDITION''"
| "status_code_name ABORTED = ''ABORTED''"
| "status_code_name OUT_OF_RANGE = ''OUT_OF_RANGE''"
| "status_code_name UNIMPLEMENTED = ''UNIMPLEMENTED''"
| "status_code_name INTERNAL = ''INTERNAL''"
| "status_code_name UNAVAILABLE = ''UNAVAILABLE''"
| "status_code_name DATA_LOSS = ''DATA_LOSS''"

record Status =
  status_code :: StatusCode
  status_message :: string

definition OkStatus :: Status where
  "OkStatus = \<lparr>status_code = OK, status_message = []\<rparr>"

text \<open>\<^verbatim>\<open>Status::error\<close> turns the code OK into UNKNOWN.\<close>

definition ErrStatus :: "StatusCode \<Rightarrow> string \<Rightarrow> Status" where
  "ErrStatus code message = \<lparr>status_code = (if code = OK then UNKNOWN else code), status_message = message\<rparr>"

definition status_is_ok :: "Status \<Rightarrow> bool" where
  "status_is_ok s \<longleftrightarrow> status_code s = OK"

definition status_is_err :: "Status \<Rightarrow> bool" where
  "status_is_err s \<longleftrightarrow> \<not> status_is_ok s"

definition status_to_string :: "Status \<Rightarrow> string" where
  "status_to_string s =
     (if status_is_ok s \<or> status_message s = [] then status_code_name (status_code s)
      else status_code_name (status_code s) @ '': '' @ status_message s)"

lemma ErrStatus_is_err [simp]: "status_is_err (ErrStatus code message)"
  by (simp add: status_is_err_def status_is_ok_def ErrStatus_def)

lemma OkStatus_is_ok [simp]: "status_is_ok OkStatus"
  by (simp add: status_is_ok_def OkStatus_def)

lemma OkStatus_not_ErrStatus [simp]: "OkStatus \<noteq> ErrStatus code message" "ErrStatus code message \<noteq> OkStatus"
  by (metis ErrStatus_is_err OkStatus_is_ok status_is_err_def)+

type_synonym 'a StatusResult = "('a, Status) Result"

end
