(* ===== verification/Thread_Queue.thy ===== *)
theory Thread_Queue
  imports Thread_Monitor Core_Status
begin

text \<open>
  The blocking classes of \<^verbatim>\<open>src/libca/thread\<close>: the bounded queue of
  \<^verbatim>\<open>bounded_queue.hpp\<close>, the channel of \<^verbatim>\<open>channel.hpp\<close> and the stop token of
  \<^verbatim>\<open>stop_token.cpp\<close>.  Each operation is the critical section it runs under the mutex, as
  an \<open>attempt\<close>: the predicate of a \<^verbatim>\<open>wait\<close> decides between blocking and going on, and the
  notifications sent after unlocking are listed.  A handle that was moved from has a null
  state, \<open>None\<close> here.  An operation with a time-out carries whether the time is up.
\<close>

section \<open>BoundedQueue\<close>

datatype cond = not_empty | not_full

record 'a QState =
  q_capacity :: usize
  q_items :: "'a list"
  q_closed :: bool

type_synonym 'a BoundedQueue = "'a QState option"

definition bq_create :: "usize \<Rightarrow> 'a BoundedQueue StatusResult" where
  "bq_create capacity =
     (if capacity = 0 then Err (ErrStatus INVALID_ARGUMENT ''queue capacity must be nonzero'')
      else Ok (Some \<lparr>q_capacity = capacity, q_items = [], q_closed = False\<rparr>))"

definition invalid_state :: "string \<Rightarrow> Status" where
  "invalid_state op_name = ErrStatus FAILED_PRECONDITION (op_name @ '' on a moved BoundedQueue'')"

definition closed_for_push :: Status where
  "closed_for_push = ErrStatus FAILED_PRECONDITION ''queue is closed for producers''"

definition closed_for_pop :: Status where
  "closed_for_pop = ErrStatus CANCELLED ''queue is closed and empty''"

datatype 'a bq_result =
  PushResult Status | BoolResult "bool StatusResult" | PopResult "'a StatusResult"
| MaybeResult "'a option StatusResult" | Flag bool | Taken "'a list" | Count usize

type_synonym 'a bq_attempt = "(cond, 'a BoundedQueue, 'a bq_result) attempt"

text \<open>The predicates the waits test.\<close>

definition can_push :: "'a QState \<Rightarrow> bool" where
  "can_push s \<longleftrightarrow> q_closed s \<or> length (q_items s) < q_capacity s"

definition can_pop :: "'a QState \<Rightarrow> bool" where
  "can_pop s \<longleftrightarrow> q_closed s \<or> q_items s \<noteq> []"

definition bq_push :: "'a \<Rightarrow> 'a BoundedQueue \<Rightarrow> 'a bq_attempt" where
  "bq_push v q =
     (case q of
        None \<Rightarrow> Done q (PushResult (invalid_state ''push'')) []
      | Some s \<Rightarrow>
          if \<not> can_push s then Block not_full
          else if q_closed s then Done q (PushResult closed_for_push) []
          else Done (Some (s\<lparr>q_items := q_items s @ [v]\<rparr>)) (PushResult OkStatus) [notify_one not_empty])"

definition bq_try_push :: "'a \<Rightarrow> 'a BoundedQueue \<Rightarrow> 'a bq_attempt" where
  "bq_try_push v q =
     (case q of
        None \<Rightarrow> Done q (BoolResult (Err (invalid_state ''try_push''))) []
      | Some s \<Rightarrow>
          if q_closed s then Done q (BoolResult (Err closed_for_push)) []
          else if length (q_items s) \<ge> q_capacity s then Done q (BoolResult (Ok False)) []
          else Done (Some (s\<lparr>q_items := q_items s @ [v]\<rparr>)) (BoolResult (Ok True)) [notify_one not_empty])"

definition bq_push_for :: "'a \<Rightarrow> bool \<Rightarrow> 'a BoundedQueue \<Rightarrow> 'a bq_attempt" where
  "bq_push_for v expired q =
     (case q of
        None \<Rightarrow> Done q (BoolResult (Err (invalid_state ''push_for''))) []
      | Some s \<Rightarrow>
          if \<not> can_push s then (if expired then Done q (BoolResult (Ok False)) [] else Block not_full)
          else if q_closed s then Done q (BoolResult (Err closed_for_push)) []
          else Done (Some (s\<lparr>q_items := q_items s @ [v]\<rparr>)) (BoolResult (Ok True)) [notify_one not_empty])"

definition bq_pop :: "'a BoundedQueue \<Rightarrow> 'a bq_attempt" where
  "bq_pop q =
     (case q of
        None \<Rightarrow> Done q (PopResult (Err (invalid_state ''pop''))) []
      | Some s \<Rightarrow>
          if \<not> can_pop s then Block not_empty
          else case q_items s of
            [] \<Rightarrow> Done q (PopResult (Err closed_for_pop)) []
          | v # vs \<Rightarrow> Done (Some (s\<lparr>q_items := vs\<rparr>)) (PopResult (Ok v)) [notify_one not_full])"

definition bq_try_pop :: "'a BoundedQueue \<Rightarrow> 'a bq_attempt" where
  "bq_try_pop q =
     (case q of
        None \<Rightarrow> Done q (MaybeResult (Err (invalid_state ''try_pop''))) []
      | Some s \<Rightarrow>
          (case q_items s of
            [] \<Rightarrow> if q_closed s then Done q (MaybeResult (Err closed_for_pop)) []
                  else Done q (MaybeResult (Ok None)) []
          | v # vs \<Rightarrow> Done (Some (s\<lparr>q_items := vs\<rparr>)) (MaybeResult (Ok (Some v))) [notify_one not_full]))"

definition bq_pop_for :: "bool \<Rightarrow> 'a BoundedQueue \<Rightarrow> 'a bq_attempt" where
  "bq_pop_for expired q =
     (case q of
        None \<Rightarrow> Done q (MaybeResult (Err (invalid_state ''pop_for''))) []
      | Some s \<Rightarrow>
          if \<not> can_pop s then (if expired then Done q (MaybeResult (Ok None)) [] else Block not_empty)
          else case q_items s of
            [] \<Rightarrow> Done q (MaybeResult (Err closed_for_pop)) []
          | v # vs \<Rightarrow> Done (Some (s\<lparr>q_items := vs\<rparr>)) (MaybeResult (Ok (Some v))) [notify_one not_full])"

definition bq_close :: "'a BoundedQueue \<Rightarrow> 'a bq_attempt" where
  "bq_close q =
     (case q of
        None \<Rightarrow> Done q (Flag False) []
      | Some s \<Rightarrow> if q_closed s then Done q (Flag False) []
                  else Done (Some (s\<lparr>q_closed := True\<rparr>)) (Flag True) [notify_all not_empty, notify_all not_full])"

definition bq_close_and_take :: "'a BoundedQueue \<Rightarrow> 'a bq_attempt" where
  "bq_close_and_take q =
     (case q of
        None \<Rightarrow> Done q (Taken []) []
      | Some s \<Rightarrow> Done (Some (s\<lparr>q_closed := True, q_items := []\<rparr>)) (Taken (q_items s))
                   [notify_all not_empty, notify_all not_full])"

definition bq_capacity :: "'a BoundedQueue \<Rightarrow> usize" where
  "bq_capacity q = (case q of None \<Rightarrow> 0 | Some s \<Rightarrow> q_capacity s)"

definition bq_size :: "'a BoundedQueue \<Rightarrow> usize" where
  "bq_size q = (case q of None \<Rightarrow> 0 | Some s \<Rightarrow> length (q_items s))"

definition bq_is_closed :: "'a BoundedQueue \<Rightarrow> bool" where
  "bq_is_closed q = (case q of None \<Rightarrow> True | Some s \<Rightarrow> q_closed s)"

text \<open>The operations of the class, and the last test of a wait whose time is up.\<close>

datatype 'a bq_op =
  Push 'a | TryPush 'a | PushFor 'a bool | Pop | TryPop | PopFor bool | Close | CloseAndTake | Size | IsClosed

fun bq_attempt :: "'a bq_op \<Rightarrow> 'a BoundedQueue \<Rightarrow> 'a bq_attempt" where
  "bq_attempt (Push v) q = bq_push v q"
| "bq_attempt (TryPush v) q = bq_try_push v q"
| "bq_attempt (PushFor v expired) q = bq_push_for v expired q"
| "bq_attempt Pop q = bq_pop q"
| "bq_attempt TryPop q = bq_try_pop q"
| "bq_attempt (PopFor expired) q = bq_pop_for expired q"
| "bq_attempt Close q = bq_close q"
| "bq_attempt CloseAndTake q = bq_close_and_take q"
| "bq_attempt Size q = Done q (Count (bq_size q)) []"
| "bq_attempt IsClosed q = Done q (Flag (bq_is_closed q)) []"

fun bq_expire :: "'a bq_op \<Rightarrow> 'a bq_op option" where
  "bq_expire (PushFor v expired) = Some (PushFor v True)"
| "bq_expire (PopFor expired) = Some (PopFor True)"
| "bq_expire x = None"

section \<open>Channel\<close>

record 'a ChannelState =
  ch_capacity :: usize
  ch_items :: "'a list"
  sender_count :: usize
  receiver_alive :: bool
  explicitly_closed :: bool

definition producers_alive :: "'a ChannelState \<Rightarrow> bool" where
  "producers_alive s \<longleftrightarrow> sender_count s > 0 \<and> \<not> explicitly_closed s"

definition channel :: "usize \<Rightarrow> 'a ChannelState" where
  "channel capacity = \<lparr>ch_capacity = capacity, ch_items = [], sender_count = 1,
     receiver_alive = True, explicitly_closed = False\<rparr>"

datatype 'a ch_result = Sent bool | Received "'a option" | Unit

type_synonym 'a ch_attempt = "(cond, 'a ChannelState, 'a ch_result) attempt"

text \<open>
  An operation runs on a handle whose state is not null; through a null handle
  \<^verbatim>\<open>send\<close> returns false, the receives return nothing, and the rest do nothing.
\<close>

definition ch_copy_sender :: "'a ChannelState \<Rightarrow> 'a ch_attempt" where
  "ch_copy_sender s = Done (s\<lparr>sender_count := sender_count s + 1\<rparr>) Unit []"

definition ch_send :: "'a \<Rightarrow> 'a ChannelState \<Rightarrow> 'a ch_attempt" where
  "ch_send v s =
     (if \<not> receiver_alive s then Done s (Sent False) []
      else if explicitly_closed s then Done s (Sent False) []
      else if ch_capacity s > 0 \<and> \<not> length (ch_items s) < ch_capacity s then Block not_full
      else Done (s\<lparr>ch_items := ch_items s @ [v]\<rparr>) (Sent True) [notify_one not_empty])"

definition ch_close :: "'a ChannelState \<Rightarrow> 'a ch_attempt" where
  "ch_close s = Done (s\<lparr>explicitly_closed := True\<rparr>) Unit [notify_all not_empty, notify_all not_full]"

definition ch_release :: "'a ChannelState \<Rightarrow> 'a ch_attempt" where
  "ch_release s =
     (let s = (if sender_count s > 0 then s\<lparr>sender_count := sender_count s - 1\<rparr> else s);
          last = \<not> producers_alive s
      in Done s Unit (if last then [notify_all not_empty] else []))"

definition can_recv :: "'a ChannelState \<Rightarrow> bool" where
  "can_recv s \<longleftrightarrow> ch_items s \<noteq> [] \<or> \<not> producers_alive s"

definition ch_recv :: "'a ChannelState \<Rightarrow> 'a ch_attempt" where
  "ch_recv s =
     (if \<not> can_recv s then Block not_empty
      else case ch_items s of
        [] \<Rightarrow> Done s (Received None) []
      | v # vs \<Rightarrow> Done (s\<lparr>ch_items := vs\<rparr>) (Received (Some v)) [notify_one not_full])"

definition ch_try_recv :: "'a ChannelState \<Rightarrow> 'a ch_attempt" where
  "ch_try_recv s =
     (case ch_items s of
        [] \<Rightarrow> Done s (Received None) []
      | v # vs \<Rightarrow> Done (s\<lparr>ch_items := vs\<rparr>) (Received (Some v)) [notify_one not_full])"

definition ch_recv_timeout :: "bool \<Rightarrow> 'a ChannelState \<Rightarrow> 'a ch_attempt" where
  "ch_recv_timeout expired s =
     (if \<not> can_recv s then (if expired then Done s (Received None) [] else Block not_empty)
      else case ch_items s of
        [] \<Rightarrow> Done s (Received None) []
      | v # vs \<Rightarrow> Done (s\<lparr>ch_items := vs\<rparr>) (Received (Some v)) [notify_one not_full])"

definition ch_mark_dead :: "'a ChannelState \<Rightarrow> 'a ch_attempt" where
  "ch_mark_dead s = Done (s\<lparr>receiver_alive := False\<rparr>) Unit [notify_all not_full]"

datatype 'a ch_op = CopySender | Send 'a | CloseSender | Release | Recv | TryRecv | RecvTimeout bool | MarkDead

fun ch_attempt :: "'a ch_op \<Rightarrow> 'a ChannelState \<Rightarrow> 'a ch_attempt" where
  "ch_attempt CopySender s = ch_copy_sender s"
| "ch_attempt (Send v) s = ch_send v s"
| "ch_attempt CloseSender s = ch_close s"
| "ch_attempt Release s = ch_release s"
| "ch_attempt Recv s = ch_recv s"
| "ch_attempt TryRecv s = ch_try_recv s"
| "ch_attempt (RecvTimeout expired) s = ch_recv_timeout expired s"
| "ch_attempt MarkDead s = ch_mark_dead s"

fun ch_expire :: "'a ch_op \<Rightarrow> 'a ch_op option" where
  "ch_expire (RecvTimeout expired) = Some (RecvTimeout True)"
| "ch_expire x = None"

section \<open>StopSource and StopToken\<close>

text \<open>The shared state is the flag \<^verbatim>\<open>requested\<close>; a null state is \<open>None\<close>.\<close>

datatype stop_op = RequestStop | StopWait | StopWaitFor bool | StopRequested

type_synonym stop_attempt = "(unit, bool option, bool) attempt"

definition stop_possible :: "bool option \<Rightarrow> bool" where
  "stop_possible st \<longleftrightarrow> st \<noteq> None"

definition stop_requested :: "bool option \<Rightarrow> bool" where
  "stop_requested st \<longleftrightarrow> (case st of None \<Rightarrow> False | Some requested \<Rightarrow> requested)"

definition request_stop :: "bool option \<Rightarrow> stop_attempt" where
  "request_stop st =
     (case st of
        None \<Rightarrow> Done st False []
      | Some requested \<Rightarrow> if requested then Done (Some True) False []
                          else Done (Some True) True [notify_all ()])"

definition stop_wait :: "bool option \<Rightarrow> stop_attempt" where
  "stop_wait st =
     (case st of None \<Rightarrow> Done st False [] | Some requested \<Rightarrow> if requested then Done st True [] else Block ())"

definition stop_wait_for :: "bool \<Rightarrow> bool option \<Rightarrow> stop_attempt" where
  "stop_wait_for expired st =
     (case st of
        None \<Rightarrow> Done st False []
      | Some requested \<Rightarrow> if requested then Done st True []
                          else if expired then Done st False [] else Block ())"

fun stop_attempt :: "stop_op \<Rightarrow> bool option \<Rightarrow> stop_attempt" where
  "stop_attempt RequestStop st = request_stop st"
| "stop_attempt StopWait st = stop_wait st"
| "stop_attempt (StopWaitFor expired) st = stop_wait_for expired st"
| "stop_attempt StopRequested st = Done st (stop_requested st) []"

fun stop_expire :: "stop_op \<Rightarrow> stop_op option" where
  "stop_expire (StopWaitFor expired) = Some (StopWaitFor True)"
| "stop_expire x = None"

end
