(* ===== verification/Thread_Props.thy ===== *)
theory Thread_Props
  imports Thread_Queue
begin

text \<open>
  The blocking classes interpret the monitor interface, so no wake-up is lost in any of
  them; the histories of the queue and of the channel are those of a first-in first-out
  buffer.
\<close>

section \<open>The bounded queue\<close>

fun bq_waits :: "'a bq_op \<Rightarrow> cond option" where
  "bq_waits (Push v) = Some not_full"
| "bq_waits (PushFor v expired) = Some not_full"
| "bq_waits Pop = Some not_empty"
| "bq_waits (PopFor expired) = Some not_empty"
| "bq_waits x = None"

fun bq_demand :: "cond \<Rightarrow> 'a BoundedQueue \<Rightarrow> enat" where
  "bq_demand c None = 0"
| "bq_demand not_empty (Some s) = (if q_closed s then \<infinity> else enat (length (q_items s)))"
| "bq_demand not_full (Some s) = (if q_closed s then \<infinity> else enat (q_capacity s - length (q_items s)))"

lemmas bq_ops = bq_push_def bq_try_push_def bq_push_for_def bq_pop_def bq_try_pop_def bq_pop_for_def
  bq_close_def bq_close_and_take_def can_push_def can_pop_def

interpretation bq: signalling bq_attempt bq_expire bq_waits bq_demand
proof
  fix x :: "'a bq_op" and s c
  assume "bq_attempt x s = Block c"
  then show "bq_waits x = Some c \<and> bq_demand c s = 0"
    by (cases x) (auto simp: bq_ops enat_0_iff split: option.splits if_splits list.splits)
next
  fix x x' :: "'a bq_op"
  assume "bq_expire x = Some x'"
  then show "bq_waits x' = bq_waits x" by (cases x) auto
next
  fix x :: "'a bq_op" and s s' r sigs c
  assume "bq_attempt x s = Done s' r sigs"
  then show "notify_all c \<in> set sigs \<or> bq_demand c s' = 0
      \<or> bq_demand c s' + enat (if bq_waits x = Some c then 1 else 0) \<le> bq_demand c s + enat (count_list sigs (notify_one c))"
    by (cases x; cases s; cases c) (auto simp: bq_ops enat_0_iff split: option.splits if_splits list.splits)
qed

text \<open>What an entry of the history put into the queue and what it took out.\<close>

fun accepted :: "'a bq_op \<times> 'a bq_result \<Rightarrow> 'a list" where
  "accepted (Push v, PushResult st) = (if st = OkStatus then [v] else [])"
| "accepted (TryPush v, BoolResult (Ok True)) = [v]"
| "accepted (PushFor v expired, BoolResult (Ok True)) = [v]"
| "accepted e = []"

fun delivered :: "'a bq_op \<times> 'a bq_result \<Rightarrow> 'a list" where
  "delivered (Pop, PopResult (Ok v)) = [v]"
| "delivered (TryPop, MaybeResult (Ok (Some v))) = [v]"
| "delivered (PopFor expired, MaybeResult (Ok (Some v))) = [v]"
| "delivered (CloseAndTake, Taken vs) = vs"
| "delivered e = []"

definition bq_fifo :: "usize \<Rightarrow> ('a bq_op \<times> 'a bq_result) list \<Rightarrow> 'a BoundedQueue \<Rightarrow> bool" where
  "bq_fifo cap h q \<longleftrightarrow>
     (\<exists>s. q = Some s \<and> q_capacity s = cap \<and> length (q_items s) \<le> cap
        \<and> concat (map accepted h) = concat (map delivered h) @ q_items s)"

lemma bq_fifo_attempt:
  assumes "bq_fifo cap h q" and "bq_attempt x q = Done q' r sigs"
  shows "bq_fifo cap (h @ [(x, r)]) q'"
  using assms
  by (cases x) (auto simp: bq_fifo_def bq_ops closed_for_push_def split: option.splits if_splits list.splits)

text \<open>After a close every entry of the history leaves the queue closed and puts nothing in.\<close>

definition bq_sealed :: "('a bq_op \<times> 'a bq_result) list \<Rightarrow> 'a BoundedQueue \<Rightarrow> bool" where
  "bq_sealed h q \<longleftrightarrow> (\<forall>h1 x r h2. h = h1 @ (x, r) # h2 \<and> x \<in> {Close, CloseAndTake} \<longrightarrow>
     bq_is_closed q \<and> concat (map accepted h2) = [])"

lemma bq_close_seals: "x \<in> {Close, CloseAndTake} \<Longrightarrow> bq_attempt x q = Done q' r sigs \<Longrightarrow> bq_is_closed q'"
  by (auto simp: bq_ops bq_is_closed_def split: option.splits if_splits)

lemma bq_closed_stays:
  assumes "bq_is_closed q" and "bq_attempt x q = Done q' r sigs"
  shows "bq_is_closed q' \<and> accepted (x, r) = []"
  using assms
  by (cases x) (auto simp: bq_ops bq_is_closed_def closed_for_push_def invalid_state_def split: option.splits if_splits list.splits)

lemma bq_sealed_attempt:
  assumes "bq_sealed h q" and "bq_attempt x q = Done q' r sigs"
  shows "bq_sealed (h @ [(x, r)]) q'"
  unfolding bq_sealed_def
proof (intro allI impI)
  fix h1 y r' h2
  assume split: "h @ [(x, r)] = h1 @ (y, r') # h2 \<and> y \<in> {Close, CloseAndTake}"
  show "bq_is_closed q' \<and> concat (map accepted h2) = []"
  proof (cases h2 rule: rev_cases)
    case Nil
    with split have "x \<in> {Close, CloseAndTake}" by simp
    then show ?thesis using bq_close_seals assms(2) Nil by (metis concat.simps(1) list.map_disc_iff)
  next
    case (snoc h3 e)
    with split have "h = h1 @ (y, r') # h3" "e = (x, r)" by (simp_all flip: append_Cons append_assoc)
    moreover from this have "bq_is_closed q \<and> concat (map accepted h3) = []"
      using assms(1) split unfolding bq_sealed_def by blast
    ultimately show ?thesis using bq_closed_stays [OF _ assms(2)] snoc by simp
  qed
qed

section \<open>The channel\<close>

fun ch_waits :: "'a ch_op \<Rightarrow> cond option" where
  "ch_waits (Send v) = Some not_full"
| "ch_waits Recv = Some not_empty"
| "ch_waits (RecvTimeout expired) = Some not_empty"
| "ch_waits x = None"

fun ch_demand :: "cond \<Rightarrow> 'a ChannelState \<Rightarrow> enat" where
  "ch_demand not_empty s = (if producers_alive s then enat (length (ch_items s)) else \<infinity>)"
| "ch_demand not_full s = (if receiver_alive s \<and> \<not> explicitly_closed s then enat (ch_capacity s - length (ch_items s)) else \<infinity>)"

lemmas ch_ops = ch_copy_sender_def ch_send_def ch_close_def ch_release_def ch_recv_def ch_try_recv_def
  ch_recv_timeout_def ch_mark_dead_def can_recv_def producers_alive_def

interpretation ch: signalling ch_attempt ch_expire ch_waits ch_demand
proof
  fix x :: "'a ch_op" and s c
  assume "ch_attempt x s = Block c"
  then show "ch_waits x = Some c \<and> ch_demand c s = 0"
    by (cases x) (auto simp: ch_ops Let_def enat_0_iff split: if_splits list.splits)
next
  fix x x' :: "'a ch_op"
  assume "ch_expire x = Some x'"
  then show "ch_waits x' = ch_waits x" by (cases x) auto
next
  fix x :: "'a ch_op" and s s' r sigs c
  assume "ch_attempt x s = Done s' r sigs"
  then show "notify_all c \<in> set sigs \<or> ch_demand c s' = 0
      \<or> ch_demand c s' + enat (if ch_waits x = Some c then 1 else 0) \<le> ch_demand c s + enat (count_list sigs (notify_one c))"
    by (cases x; cases c) (auto simp: ch_ops Let_def enat_0_iff split: if_splits list.splits)
qed

fun ch_accepted :: "'a ch_op \<times> 'a ch_result \<Rightarrow> 'a list" where
  "ch_accepted (Send v, Sent True) = [v]"
| "ch_accepted e = []"

fun ch_delivered :: "'a ch_op \<times> 'a ch_result \<Rightarrow> 'a list" where
  "ch_delivered (x, Received (Some v)) = [v]"
| "ch_delivered e = []"

definition ch_fifo :: "usize \<Rightarrow> ('a ch_op \<times> 'a ch_result) list \<Rightarrow> 'a ChannelState \<Rightarrow> bool" where
  "ch_fifo cap h s \<longleftrightarrow> ch_capacity s = cap \<and> (cap > 0 \<longrightarrow> length (ch_items s) \<le> cap)
     \<and> concat (map ch_accepted h) = concat (map ch_delivered h) @ ch_items s"

lemma ch_fifo_attempt:
  assumes "ch_fifo cap h s" and "ch_attempt x s = Done s' r sigs"
  shows "ch_fifo cap (h @ [(x, r)]) s'"
  using assms
  by (cases x) (auto simp: ch_fifo_def ch_ops Let_def split: if_splits list.splits)

section \<open>The stop token\<close>

fun stop_waits :: "stop_op \<Rightarrow> unit option" where
  "stop_waits StopWait = Some ()"
| "stop_waits (StopWaitFor expired) = Some ()"
| "stop_waits x = None"

definition stop_demand :: "unit \<Rightarrow> bool option \<Rightarrow> enat" where
  "stop_demand c st = (if st = Some True then \<infinity> else 0)"

lemmas stop_ops = request_stop_def stop_wait_def stop_wait_for_def stop_demand_def

interpretation stop: signalling stop_attempt stop_expire stop_waits stop_demand
proof
  fix x s c
  assume "stop_attempt x s = Block c"
  then show "stop_waits x = Some c \<and> stop_demand c s = 0"
    by (cases x) (auto simp: stop_ops split: option.splits if_splits)
next
  fix x x'
  assume "stop_expire x = Some x'"
  then show "stop_waits x' = stop_waits x" by (cases x) auto
next
  fix x s s' r sigs and c :: unit
  assume "stop_attempt x s = Done s' r sigs"
  then show "notify_all c \<in> set sigs \<or> stop_demand c s' = 0
      \<or> stop_demand c s' + enat (if stop_waits x = Some c then 1 else 0) \<le> stop_demand c s + enat (count_list sigs (notify_one c))"
    by (cases x) (auto simp: stop_ops split: option.splits if_splits)
qed

section \<open>Properties\<close>

text \<open>C17: However calls of push, try_push, push_for, pop, try_pop, pop_for, close and
  close_and_take interleave, with spurious wake-ups and time-outs, the values taken out of a
  bounded queue, followed by those still in it, are the values accepted, in the order of
  acceptance and each exactly once; the queue never exceeds its capacity, and after a close
  no value is accepted.\<close>

theorem bounded_queue_fifo:
  assumes "bq_create cap = Ok q" and "runs bq_attempt bq_expire q m"
  shows "bq_fifo cap (history m) (shared m) \<and> bq_sealed (history m) (shared m)"
proof -
  have "bq_fifo cap [] q" "bq_sealed [] q"
    using assms(1) by (auto simp: bq_create_def bq_fifo_def bq_sealed_def split: if_splits)
  then show ?thesis
    using runs_invariant [OF assms(2), of "bq_fifo cap"] runs_invariant [OF assms(2), of bq_sealed]
      bq_fifo_attempt bq_sealed_attempt by blast
qed

lemma bq_push_run:
  assumes "cap > 0"
  shows "runs bq_attempt bq_expire (Some \<lparr>q_capacity = cap, q_items = [], q_closed = False\<rparr>)
    \<lparr>shared = Some \<lparr>q_capacity = cap, q_items = [v], q_closed = False\<rparr>,
     calls = {#Signal [notify_one not_empty] (PushResult OkStatus)#}, history = [(Push v, PushResult OkStatus)]\<rparr>"
    (is "runs _ _ ?q _")
proof -
  have "runs bq_attempt bq_expire ?q \<lparr>shared = ?q, calls = {#Run (Push v)#}, history = []\<rparr>"
    using runs_environment [OF runs_start, of bq_expire ?q, OF enter [of bq_expire ?q "{#}" "[]" "Push v", folded start_def]] .
  from runs_advance [OF this finish [where x = "Push v" and T = "{#}" and h = "[]"]] show ?thesis
    using assms by (simp add: bq_ops)
qed

theorem bounded_queue_fifo_witness:
  "bq_fifo 1 [(Push (7::nat), PushResult OkStatus)] (Some \<lparr>q_capacity = 1, q_items = [7], q_closed = False\<rparr>)"
  using bounded_queue_fifo [OF _ bq_push_run [of 1 "7::nat"], of 1] by (simp add: bq_create_def)

text \<open>C18: No wake-up of a bounded queue is lost: left alone, the calls in progress come to
  rest after finitely many steps in every schedule, and a thread that still sleeps then does
  so because the queue is open and empty (in pop or pop_for) or open and full (in push or
  push_for); in particular every waiting thread returns once the queue is closed, and
  producers and consumers never wait for each other.\<close>

theorem bounded_queue_progress:
  assumes "bq_create cap = Ok q" and "runs bq_attempt bq_expire q m"
  shows "(\<nexists>f. f 0 = m \<and> (\<forall>i. advance bq_attempt (f i) (f (Suc i))))
    \<and> (\<forall>m'. (advance bq_attempt)\<^sup>*\<^sup>* m m' \<and> (\<nexists>m''. advance bq_attempt m' m'') \<longrightarrow>
         (\<forall>p \<in># calls m'. \<exists>s c x. p = Sleep c x \<and> shared m' = Some s \<and> \<not> q_closed s
            \<and> (c = not_empty \<and> q_items s = [] \<or> c = not_full \<and> length (q_items s) = cap)))"
proof -
  have "\<exists>s. shared m' = Some s \<and> \<not> q_closed s \<and> (c = not_empty \<and> q_items s = [] \<or> c = not_full \<and> length (q_items s) = cap)"
    if "(advance bq_attempt)\<^sup>*\<^sup>* m m'" "bq_demand c (shared m') = 0" for m' c
  proof -
    have "bq_fifo cap [] q"
      using assms(1) by (auto simp: bq_create_def bq_fifo_def split: if_splits)
    with runs_invariant [OF runs_advances [OF that(1) assms(2)], of "bq_fifo cap"] bq_fifo_attempt
    have "bq_fifo cap (history m') (shared m')" by blast
    with that(2) show ?thesis
      by (cases c) (auto simp: bq_fifo_def enat_0_iff split: if_splits)
  qed
  then show ?thesis using bq.progress [OF assms(2)] by metis
qed

theorem bounded_queue_progress_witness:
  "\<nexists>f. f 0 = \<lparr>shared = Some \<lparr>q_capacity = 1, q_items = [7::nat], q_closed = False\<rparr>,
        calls = {#Signal [notify_one not_empty] (PushResult OkStatus)#}, history = [(Push 7, PushResult OkStatus)]\<rparr>
      \<and> (\<forall>i. advance bq_attempt (f i) (f (Suc i)))"
  using bounded_queue_progress [OF _ bq_push_run [of 1 "7::nat"], of 1] by (simp add: bq_create_def)

text \<open>C19: A channel delivers, in order and exactly once, what its senders were told was
  sent, a bounded channel never holds more than its capacity, and no wake-up is lost: when the
  calls come to rest, which they do in every schedule, a receiver sleeps only on an empty
  channel with a live producer and a sender only on a full channel that is open and has a
  live receiver.\<close>

theorem channel_correct:
  assumes "runs ch_attempt ch_expire (channel cap) m"
  shows "ch_fifo cap (history m) (shared m)
    \<and> (\<nexists>f. f 0 = m \<and> (\<forall>i. advance ch_attempt (f i) (f (Suc i))))
    \<and> (\<forall>m'. (advance ch_attempt)\<^sup>*\<^sup>* m m' \<and> (\<nexists>m''. advance ch_attempt m' m'') \<longrightarrow>
         (\<forall>p \<in># calls m'. \<exists>c x. p = Sleep c x
            \<and> (c = not_empty \<and> ch_items (shared m') = [] \<and> producers_alive (shared m')
               \<or> c = not_full \<and> cap \<le> length (ch_items (shared m'))
                  \<and> receiver_alive (shared m') \<and> \<not> explicitly_closed (shared m'))))"
proof -
  have "ch_fifo cap [] (channel cap)"
    by (simp add: ch_fifo_def channel_def)
  then have fifo: "ch_fifo cap (history m') (shared m')" if "runs ch_attempt ch_expire (channel cap) m'" for m'
    using runs_invariant [OF that, of "ch_fifo cap"] ch_fifo_attempt by blast
  have stuck: "c = not_empty \<and> ch_items s = [] \<and> producers_alive s
      \<or> c = not_full \<and> cap \<le> length (ch_items s) \<and> receiver_alive s \<and> \<not> explicitly_closed s"
    if "ch_demand c s = 0" "ch_capacity s = cap" for c and s :: "'a ChannelState"
    using that by (cases c) (auto simp: enat_0_iff split: if_splits)
  have cap: "ch_capacity (shared m') = cap" if "(advance ch_attempt)\<^sup>*\<^sup>* m m'" for m'
    using fifo [OF runs_advances [OF that assms]] by (simp add: ch_fifo_def)
  show ?thesis
    using fifo [OF assms] ch.progress [OF assms] stuck [OF _ cap] by blast
qed

text \<open>
  Two receivers go to sleep on an empty channel of capacity one, a sender sends 7 and wakes one
  of them, which receives it; the other sleeps on, and nothing more can happen by itself.
\<close>

lemma channel_sleepers:
  "runs ch_attempt ch_expire (channel 1) \<lparr>shared = channel 1,
     calls = {#Sleep not_empty Recv, Sleep not_empty Recv#}, history = []\<rparr>"
proof -
  have block: "ch_attempt Recv (channel 1 :: 'a ChannelState) = Block not_empty"
    by (simp add: ch_ops channel_def)
  have "runs ch_attempt ch_expire (channel 1 :: 'a ChannelState)
      \<lparr>shared = channel 1, calls = {#}, history = []\<rparr>"
    using runs_start by (simp add: start_def)
  from runs_enter [OF runs_block [OF runs_enter [OF this, of Recv] block], of Recv]
  show ?thesis by (rule runs_block) (rule block)
qed

lemma channel_handover:
  "runs ch_attempt ch_expire (channel 1) \<lparr>shared = channel 1,
     calls = {#Sleep not_empty Recv#}, history = [(Send v, Sent True), (Recv, Received (Some v))]\<rparr>"
proof -
  let ?full = "channel 1\<lparr>ch_items := [v]\<rparr>"
  have send: "ch_attempt (Send v) (channel 1) = Done ?full (Sent True) [notify_one not_empty]"
    and recv: "ch_attempt Recv ?full = Done (channel 1) (Received (Some v)) [notify_one not_full]"
    by (simp_all add: ch_ops channel_def)
  from runs_finish [OF runs_notify [OF runs_finish [OF runs_enter [OF channel_sleepers] send]] recv]
  have "runs ch_attempt ch_expire (channel 1) \<lparr>shared = channel 1,
      calls = {#Signal [notify_one not_full] (Received (Some v)), Sleep not_empty Recv#},
      history = [(Send v, Sent True), (Recv, Received (Some v))]\<rparr>" by simp
  then show ?thesis by (rule runs_notify_none) simp
qed

theorem channel_correct_witness:
  "\<exists>m. runs ch_attempt ch_expire (channel 1) m
     \<and> history m = [(Send (7 :: nat), Sent True), (Recv, Received (Some 7))]
     \<and> calls m = {#Sleep not_empty Recv#} \<and> (\<nexists>m'. advance ch_attempt m m')
     \<and> ch_fifo 1 (history m) (shared m) \<and> ch_items (shared m) = [] \<and> producers_alive (shared m)"
proof -
  let ?m = "\<lparr>shared = channel 1 :: nat ChannelState, calls = {#Sleep not_empty Recv#},
     history = [(Send (7 :: nat), Sent True), (Recv, Received (Some 7))]\<rparr>"
  have run: "runs ch_attempt ch_expire (channel 1) ?m" and rest: "\<nexists>m'. advance ch_attempt ?m m'"
    using channel_handover [of "7 :: nat"] advance_asleep [of ?m ch_attempt]
    by (simp_all add: at_rest_def)
  note c = channel_correct [OF run]
  have "ch_items (shared ?m) = [] \<and> producers_alive (shared ?m)"
    using c [THEN conjunct2, THEN conjunct2, rule_format, of ?m "Sleep not_empty Recv"] rest by simp
  with run rest c [THEN conjunct1] show ?thesis
    by (intro exI [of _ ?m]) simp
qed

text \<open>C20: Waiting on a stop token: once stop is requested every wait returns; when the
  calls come to rest, which they do in every schedule, a thread is still waiting only if stop
  was not requested.\<close>

theorem stop_token_progress:
  assumes "runs stop_attempt stop_expire st m"
  shows "(\<nexists>f. f 0 = m \<and> (\<forall>i. advance stop_attempt (f i) (f (Suc i))))
    \<and> (\<forall>m'. (advance stop_attempt)\<^sup>*\<^sup>* m m' \<and> (\<nexists>m''. advance stop_attempt m' m'') \<and> stop_requested (shared m')
        \<longrightarrow> calls m' = {#})"
proof -
  have "stop_requested s \<Longrightarrow> stop_demand c s \<noteq> 0" for c s
    by (auto simp: stop_demand_def stop_requested_def split: option.splits)
  then show ?thesis using stop.progress [OF assms] by (metis multiset_nonemptyE)
qed

text \<open>A thread waits, stop is requested, the thread is woken and both calls return.\<close>

theorem stop_token_progress_witness:
  "\<exists>m m'. runs stop_attempt stop_expire (Some False) m
     \<and> calls m = {#Signal [notify_all ()] True, Sleep () StopWait#} \<and> stop_requested (shared m)
     \<and> (advance stop_attempt)\<^sup>*\<^sup>* m m' \<and> (\<nexists>m''. advance stop_attempt m' m'')
     \<and> calls m' = {#} \<and> history m' = [(RequestStop, True), (StopWait, True)]"
proof -
  let ?m = "\<lparr>shared = Some True, calls = {#Signal [notify_all ()] True, Sleep () StopWait#},
    history = [(RequestStop, True)]\<rparr>"
  let ?m1 = "\<lparr>shared = Some True, calls = {#Run StopWait#}, history = [(RequestStop, True)]\<rparr>"
  let ?m' = "\<lparr>shared = Some True, calls = {#} :: (unit, stop_op, bool) call multiset,
    history = [(RequestStop, True), (StopWait, True)]\<rparr>"
  have wait: "stop_attempt StopWait (Some False) = Block ()"
    "stop_attempt StopWait (Some True) = Done (Some True) True []"
    and stop: "stop_attempt RequestStop (Some False) = Done (Some True) True [notify_all ()]"
    by (simp_all add: stop_ops)
  have "runs stop_attempt stop_expire (Some False) \<lparr>shared = Some False, calls = {#}, history = []\<rparr>"
    using runs_start by (simp add: start_def)
  from runs_finish [OF runs_enter [OF runs_block [OF runs_enter [OF this] wait(1)]] stop]
  have run: "runs stop_attempt stop_expire (Some False) ?m" by simp
  have "advance stop_attempt ?m \<lparr>shared = Some True, calls = {#Signal [] True, Run StopWait#},
      history = [(RequestStop, True)]\<rparr>"
    using advance.all [of stop_attempt "Some True" "()" "[]" True "{#Sleep () StopWait#}"] by simp
  moreover have "advance stop_attempt \<dots> ?m1"
    by (rule advance.leave)
  moreover have "advance stop_attempt ?m1 \<lparr>shared = Some True, calls = {#Signal [] True#},
      history = [(RequestStop, True), (StopWait, True)]\<rparr>"
    using advance.finish [of stop_attempt, OF wait(2), where T = "{#}" and h = "[(RequestStop, True)]"] by simp
  moreover have "advance stop_attempt \<dots> ?m'"
    by (rule advance.leave)
  ultimately have path: "(advance stop_attempt)\<^sup>*\<^sup>* ?m ?m'"
    by (meson converse_rtranclp_into_rtranclp rtranclp.rtrancl_refl)
  have rest: "\<nexists>m''. advance stop_attempt ?m' m''"
    using advance_asleep [of ?m' stop_attempt] by (simp add: at_rest_def)
  have "stop_requested (shared ?m')"
    by (simp add: stop_requested_def)
  with stop_token_progress [OF run] path rest have "calls ?m' = {#}" by blast
  with run path rest show ?thesis
    by (intro exI [of _ ?m] exI [of _ ?m']) (simp add: stop_requested_def)
qed

end
