(* ===== verification/Str_Utf8.thy ===== *)
theory Str_Utf8
  imports Core_Status
begin

text \<open>
  The text codecs of \<^verbatim>\<open>src/libca/str\<close>: UTF-8 code points (\<^verbatim>\<open>utf8_util.cpp\<close>), UTF-16
  surrogate pairs (\<^verbatim>\<open>char_util.hpp\<close>), byte order marks (\<^verbatim>\<open>bom.cpp\<close>) and the conversions
  between UTF-8, UTF-16, UTF-32, Latin-1 and ASCII (\<^verbatim>\<open>conversion.cpp\<close>).  A pointer into
  the input and the number of bytes left are the rest of the input as a list; a converter
  with an output buffer returns the count and what it has written.
\<close>

section \<open>Code points in UTF-8\<close>

definition utf8_code_point_bytes :: "u8 \<Rightarrow> usize" where
  "utf8_code_point_bytes first_byte =
     (if first_byte AND 0x80 = 0 then 1
      else if first_byte AND 0xE0 = 0xC0 then 2
      else if first_byte AND 0xF0 = 0xE0 then 3
      else if first_byte AND 0xF8 = 0xF0 then 4
      else 0)"

definition utf8_code_point_bytes_safe :: "u8 \<Rightarrow> usize" where
  "utf8_code_point_bytes_safe first_byte =
     (let n = utf8_code_point_bytes first_byte in if n > 0 then n else 1)"

definition utf8_decode_code_point :: "u8 list \<Rightarrow> u32" where
  "utf8_decode_code_point bytes =
     (let b0 = bytes ! 0 in
      if b0 AND 0x80 = 0 then ucast b0
      else if b0 AND 0xE0 = 0xC0 then
        push_bit 6 (ucast (b0 AND 0x1F)) OR ucast (bytes ! 1 AND 0x3F)
      else if b0 AND 0xF0 = 0xE0 then
        push_bit 12 (ucast (b0 AND 0x0F)) OR push_bit 6 (ucast (bytes ! 1 AND 0x3F)) OR ucast (bytes ! 2 AND 0x3F)
      else if b0 AND 0xF8 = 0xF0 then
        push_bit 18 (ucast (b0 AND 0x07)) OR push_bit 12 (ucast (bytes ! 1 AND 0x3F))
          OR push_bit 6 (ucast (bytes ! 2 AND 0x3F)) OR ucast (bytes ! 3 AND 0x3F)
      else 0)"

definition utf8_valid_continuation :: "u8 list \<Rightarrow> usize \<Rightarrow> bool" where
  "utf8_valid_continuation bytes clen \<longleftrightarrow> (\<forall>i \<in> {1..<clen}. bytes ! i AND 0xC0 = 0x80)"

definition utf8_sequence_value :: "u8 list \<Rightarrow> usize \<Rightarrow> u32" where
  "utf8_sequence_value data len =
     (if len = 1 then ucast (data ! 0)
      else if len = 2 then push_bit 6 (ucast (data ! 0 AND 0x1F)) OR ucast (data ! 1 AND 0x3F)
      else if len = 3 then
        push_bit 12 (ucast (data ! 0 AND 0x0F)) OR push_bit 6 (ucast (data ! 1 AND 0x3F)) OR ucast (data ! 2 AND 0x3F)
      else push_bit 18 (ucast (data ! 0 AND 0x07)) OR push_bit 12 (ucast (data ! 1 AND 0x3F))
          OR push_bit 6 (ucast (data ! 2 AND 0x3F)) OR ucast (data ! 3 AND 0x3F))"

definition utf8_sequence_valid :: "u32 \<Rightarrow> usize \<Rightarrow> bool" where
  "utf8_sequence_valid cp len =
     (if len = 2 \<and> cp < 0x80 then False
      else if len = 3 \<and> cp < 0x800 then False
      else if len = 3 \<and> cp \<ge> 0xD800 \<and> cp \<le> 0xDFFF then False
      else if len = 4 \<and> (cp < 0x10000 \<or> cp > 0x10FFFF) then False
      else True)"

text \<open>The bytes written to \<^verbatim>\<open>out\<close>; none, and 0 is returned, for a code point that is rejected.\<close>

definition utf8_encode_code_point :: "u32 \<Rightarrow> u8 list" where
  "utf8_encode_code_point cp =
     (if cp > 0x10FFFF \<or> cp \<ge> 0xD800 \<and> cp \<le> 0xDFFF then []
      else if cp \<le> 0x007F then [ucast cp]
      else if cp \<le> 0x07FF then [ucast (0xC0 OR drop_bit 6 cp), ucast (0x80 OR (cp AND 0x3F))]
      else if cp \<le> 0xFFFF then
        [ucast (0xE0 OR drop_bit 12 cp), ucast (0x80 OR (drop_bit 6 cp AND 0x3F)), ucast (0x80 OR (cp AND 0x3F))]
      else [ucast (0xF0 OR drop_bit 18 cp), ucast (0x80 OR (drop_bit 12 cp AND 0x3F)),
            ucast (0x80 OR (drop_bit 6 cp AND 0x3F)), ucast (0x80 OR (cp AND 0x3F))])"

text \<open>The position of the first byte from \<open>i\<close> on that is not a continuation byte.\<close>

fun bad_continuation :: "u8 list \<Rightarrow> usize \<Rightarrow> usize \<Rightarrow> usize option" where
  "bad_continuation data i 0 = None"
| "bad_continuation data i (Suc n) =
     (if data ! i AND 0xC0 \<noteq> 0x80 then Some i else bad_continuation data (i + 1) n)"

text \<open>\<^verbatim>\<open>utf8_count_code_points\<close> returns the count and what it stores to \<^verbatim>\<open>invalid_pos\<close>.\<close>

function utf8_count_loop :: "u8 list \<Rightarrow> usize \<Rightarrow> usize \<Rightarrow> usize \<times> usize option" where
  "utf8_count_loop data pos count =
     (if data = [] then (count, None)
      else let len = utf8_code_point_bytes (hd data) in
        if len = 0 \<or> len > length data then (0, Some pos)
        else case bad_continuation data 1 (len - 1) of
          Some i \<Rightarrow> (0, Some (pos + i))
        | None \<Rightarrow>
            if \<not> utf8_sequence_valid (utf8_sequence_value data len) len then (0, Some pos)
            else utf8_count_loop (drop len data) (pos + len) (count + 1))"
  by auto
termination by (relation "measure (\<lambda>(data, pos, count). length data)") auto

definition utf8_count_code_points :: "u8 list \<Rightarrow> usize \<times> usize option" where
  "utf8_count_code_points data = utf8_count_loop data 0 0"

function utf8_is_valid :: "u8 list \<Rightarrow> bool" where
  "utf8_is_valid data =
     (if data = [] then True
      else let len = utf8_code_point_bytes (hd data) in
        if len = 0 \<or> len > length data then False
        else if bad_continuation data 1 (len - 1) \<noteq> None then False
        else if \<not> utf8_sequence_valid (utf8_sequence_value data len) len then False
        else utf8_is_valid (drop len data))"
  by auto
termination by (relation "measure length") auto

declare utf8_count_loop.simps [simp del] utf8_is_valid.simps [simp del]

definition ascii_is_valid :: "u8 list \<Rightarrow> bool" where
  "ascii_is_valid data \<longleftrightarrow> \<not> (\<exists>b \<in> set data. b \<ge> 0x80)"

section \<open>Surrogate pairs\<close>

definition is_lead_surrogate :: "u16 \<Rightarrow> bool" where
  "is_lead_surrogate unit \<longleftrightarrow> unit \<ge> 0xD800 \<and> unit \<le> 0xDBFF"

definition is_trail_surrogate :: "u16 \<Rightarrow> bool" where
  "is_trail_surrogate unit \<longleftrightarrow> unit \<ge> 0xDC00 \<and> unit \<le> 0xDFFF"

definition is_surrogate :: "u16 \<Rightarrow> bool" where
  "is_surrogate unit \<longleftrightarrow> unit \<ge> 0xD800 \<and> unit \<le> 0xDFFF"

definition is_bmp :: "u16 \<Rightarrow> bool" where
  "is_bmp unit \<longleftrightarrow> unit \<le> 0xD7FF \<or> unit \<ge> 0xE000"

text \<open>The operands are promoted to \<^verbatim>\<open>int\<close>; for a surrogate pair nothing is negative.\<close>

definition decode_pair :: "u16 \<Rightarrow> u16 \<Rightarrow> u32" where
  "decode_pair high low =
     word_of_int (0x10000 + push_bit 10 (uint high - 0xD800) + (uint low - 0xDC00))"

definition encode_pair :: "u32 \<Rightarrow> (u16 \<times> u16) option" where
  "encode_pair cp =
     (if cp < 0x10000 \<or> cp > 0x10FFFF then None
      else let cp = cp - 0x10000
           in Some (ucast (0xD800 + drop_bit 10 cp), ucast (0xDC00 + (cp AND 0x03FF))))"

section \<open>Byte order marks\<close>

datatype BomType = BomNone | Utf8Bom | Utf16Le | Utf16Be | Utf32Le | Utf32Be

definition starts_with_bytes :: "u8 list \<Rightarrow> u8 list \<Rightarrow> bool" where
  "starts_with_bytes bytes pre \<longleftrightarrow> length bytes \<ge> length pre \<and> take (length pre) bytes = pre"

definition detect_bom :: "u8 list \<Rightarrow> BomType" where
  "detect_bom bytes =
     (if starts_with_bytes bytes [0xFF, 0xFE, 0, 0] then Utf32Le
      else if starts_with_bytes bytes [0, 0, 0xFE, 0xFF] then Utf32Be
      else if starts_with_bytes bytes [0xEF, 0xBB, 0xBF] then Utf8Bom
      else if starts_with_bytes bytes [0xFF, 0xFE] then Utf16Le
      else if starts_with_bytes bytes [0xFE, 0xFF] then Utf16Be
      else BomNone)"

fun bom_byte_length :: "BomType \<Rightarrow> usize" where
  "bom_byte_length Utf16Le = 2"
| "bom_byte_length Utf16Be = 2"
| "bom_byte_length Utf8Bom = 3"
| "bom_byte_length Utf32Le = 4"
| "bom_byte_length Utf32Be = 4"
| "bom_byte_length BomNone = 0"

definition strip_bom :: "u8 list \<Rightarrow> u8 list" where
  "strip_bom bytes =
     (let type = detect_bom bytes in if type = BomNone then bytes else drop (bom_byte_length type) bytes)"

section \<open>Conversions\<close>

text \<open>
  The loop bodies that read UTF-8 start alike: the length of the sequence, its bounds and
  continuation bytes, the code point.  \<open>utf8_next\<close> is that prefix, with the test on the
  code point as an argument; it leaves the bytes after the sequence.
\<close>

definition utf8_next :: "(u32 \<Rightarrow> bool) \<Rightarrow> u8 list \<Rightarrow> (u32 \<times> u8 list) option" where
  "utf8_next rejected utf8 =
     (let clen = utf8_code_point_bytes (hd utf8) in
      if clen = 0 \<or> clen > length utf8 \<or> \<not> utf8_valid_continuation utf8 clen then None
      else let cp = utf8_decode_code_point utf8 in
        if rejected cp then None else Some (cp, drop clen utf8))"

definition not_scalar :: "u32 \<Rightarrow> bool" where
  "not_scalar cp \<longleftrightarrow> cp > 0x10FFFF \<or> cp \<ge> 0xD800 \<and> cp \<le> 0xDFFF"

lemma utf8_next_shorter: "utf8 \<noteq> [] \<Longrightarrow> utf8_next rejected utf8 = Some (cp, rest) \<Longrightarrow> length rest < length utf8"
  by (auto simp: utf8_next_def Let_def split: if_splits)

function utf8_to_utf16_length_loop :: "u8 list \<Rightarrow> usize \<Rightarrow> usize" where
  "utf8_to_utf16_length_loop utf8 count =
     (if utf8 = [] then count
      else case utf8_next not_scalar utf8 of
        None \<Rightarrow> 0
      | Some (cp, rest) \<Rightarrow> utf8_to_utf16_length_loop rest (count + (if cp \<ge> 0x10000 then 2 else 1)))"
  by auto
termination by (relation "measure (\<lambda>(utf8, count). length utf8)") (auto dest: utf8_next_shorter)

definition utf8_to_utf16_length :: "u8 list \<Rightarrow> usize" where
  "utf8_to_utf16_length utf8 = utf8_to_utf16_length_loop utf8 0"

text \<open>\<^verbatim>\<open>encode_pair\<close> leaves its zero-initialised outputs alone when it fails.\<close>

definition utf16_units :: "u32 \<Rightarrow> u16 list" where
  "utf16_units cp =
     (if cp \<ge> 0x10000 then (case encode_pair cp of Some (high, low) \<Rightarrow> [high, low] | None \<Rightarrow> [0, 0])
      else [ucast cp])"

function utf8_to_utf16_loop :: "u8 list \<Rightarrow> u16 list \<Rightarrow> usize \<times> u16 list" where
  "utf8_to_utf16_loop utf8 out =
     (if utf8 = [] then (length out, out)
      else case utf8_next not_scalar utf8 of
        None \<Rightarrow> (0, out)
      | Some (cp, rest) \<Rightarrow> utf8_to_utf16_loop rest (out @ utf16_units cp))"
  by auto
termination by (relation "measure (\<lambda>(utf8, out). length utf8)") (auto dest: utf8_next_shorter)

definition utf8_to_utf16 :: "u8 list \<Rightarrow> usize \<times> u16 list" where
  "utf8_to_utf16 utf8 = utf8_to_utf16_loop utf8 []"

text \<open>The next code point of UTF-16, shared by the two loops that read it.\<close>

fun utf16_next :: "u16 list \<Rightarrow> (u32 \<times> u16 list) option" where
  "utf16_next [] = None"
| "utf16_next (u # rest) =
     (if is_lead_surrogate u then
        (case rest of
           [] \<Rightarrow> None
         | low # rest' \<Rightarrow> if \<not> is_trail_surrogate low then None else Some (decode_pair u low, rest'))
      else if is_trail_surrogate u then None
      else Some (ucast u, rest))"

lemma utf16_next_shorter: "utf16_next us = Some (cp, rest) \<Longrightarrow> length rest < length us"
  by (cases us) (auto split: if_splits list.splits)

definition utf8_width :: "u32 \<Rightarrow> usize" where
  "utf8_width cp = (if cp \<le> 0x7F then 1 else if cp \<le> 0x7FF then 2 else if cp \<le> 0xFFFF then 3 else 4)"

function utf16_to_utf8_length_loop :: "u16 list \<Rightarrow> usize \<Rightarrow> usize" where
  "utf16_to_utf8_length_loop utf16 byteCount =
     (if utf16 = [] then byteCount
      else case utf16_next utf16 of
        None \<Rightarrow> 0
      | Some (cp, rest) \<Rightarrow> utf16_to_utf8_length_loop rest (byteCount + utf8_width cp))"
  by auto
termination by (relation "measure (\<lambda>(utf16, count). length utf16)") (auto dest: utf16_next_shorter)

definition utf16_to_utf8_length :: "u16 list \<Rightarrow> usize" where
  "utf16_to_utf8_length utf16 = utf16_to_utf8_length_loop utf16 0"

function utf16_to_utf8_loop :: "u16 list \<Rightarrow> u8 list \<Rightarrow> usize \<times> u8 list" where
  "utf16_to_utf8_loop utf16 out =
     (if utf16 = [] then (length out, out)
      else case utf16_next utf16 of
        None \<Rightarrow> (0, out)
      | Some (cp, rest) \<Rightarrow> utf16_to_utf8_loop rest (out @ utf8_encode_code_point cp))"
  by auto
termination by (relation "measure (\<lambda>(utf16, out). length utf16)") (auto dest: utf16_next_shorter)

definition utf16_to_utf8 :: "u16 list \<Rightarrow> usize \<times> u8 list" where
  "utf16_to_utf8 utf16 = utf16_to_utf8_loop utf16 []"

declare utf8_to_utf16_length_loop.simps [simp del] utf8_to_utf16_loop.simps [simp del]
  utf16_to_utf8_length_loop.simps [simp del] utf16_to_utf8_loop.simps [simp del]

text \<open>The owning variants: the output has the computed length and is filled from its start.\<close>

definition invalid_sequence :: "string \<Rightarrow> Status" where
  "invalid_sequence message = ErrStatus INVALID_ARGUMENT message"

definition filled :: "usize \<Rightarrow> 'w::zero list \<Rightarrow> 'w list" where
  "filled n written = take n (written @ replicate n 0)"

definition utf8_to_utf16_owned :: "u8 list \<Rightarrow> u16 list StatusResult" where
  "utf8_to_utf16_owned utf8 =
     (if utf8 = [] then Ok []
      else let units = utf8_to_utf16_length utf8 in
        if units = 0 then Err (invalid_sequence ''utf8_to_utf16: invalid UTF-8 sequence'')
        else let (n, written) = utf8_to_utf16 utf8 in
          if n \<noteq> units then Err (ErrStatus INTERNAL ''utf8_to_utf16: length and conversion disagree'')
          else Ok (filled units written))"

definition utf16_to_utf8_owned :: "u16 list \<Rightarrow> u8 list StatusResult" where
  "utf16_to_utf8_owned utf16 =
     (if utf16 = [] then Ok []
      else let bytes = utf16_to_utf8_length utf16 in
        if bytes = 0 then Err (invalid_sequence ''utf16_to_utf8: unpaired surrogate'')
        else let (n, written) = utf16_to_utf8 utf16 in
          if n \<noteq> bytes then Err (ErrStatus INTERNAL ''utf16_to_utf8: length and conversion disagree'')
          else Ok (filled bytes written))"

definition ascii_to_utf16 :: "u8 list \<Rightarrow> u16 list StatusResult" where
  "ascii_to_utf16 ascii =
     (if \<not> ascii_is_valid ascii then Err (invalid_sequence ''ascii_to_utf16: byte >= 0x80'')
      else Ok (map ucast ascii))"

fun utf16_to_ascii_loop :: "u16 list \<Rightarrow> u8 list \<Rightarrow> u8 list StatusResult" where
  "utf16_to_ascii_loop [] out = Ok out"
| "utf16_to_ascii_loop (unit # utf16) out =
     (if unit \<ge> 0x80 then Err (invalid_sequence ''utf16_to_ascii: code unit >= 0x80'')
      else utf16_to_ascii_loop utf16 (out @ [ucast unit]))"

definition utf16_to_ascii :: "u16 list \<Rightarrow> u8 list StatusResult" where
  "utf16_to_ascii utf16 = utf16_to_ascii_loop utf16 []"

definition latin1_to_utf16 :: "u8 list \<Rightarrow> u16 list StatusResult" where
  "latin1_to_utf16 latin1 = Ok (map ucast latin1)"

fun utf16_to_latin1_loop :: "u16 list \<Rightarrow> u8 list \<Rightarrow> u8 list StatusResult" where
  "utf16_to_latin1_loop [] out = Ok out"
| "utf16_to_latin1_loop (unit # utf16) out =
     (if unit > 0xFF then Err (invalid_sequence ''utf16_to_latin1: code unit > U+00FF'')
      else utf16_to_latin1_loop utf16 (out @ [ucast unit]))"

definition utf16_to_latin1 :: "u16 list \<Rightarrow> u8 list StatusResult" where
  "utf16_to_latin1 utf16 = utf16_to_latin1_loop utf16 []"

function utf8_to_utf32_length_loop :: "u8 list \<Rightarrow> usize \<Rightarrow> usize" where
  "utf8_to_utf32_length_loop utf8 count =
     (if utf8 = [] then count
      else case utf8_next not_scalar utf8 of
        None \<Rightarrow> 0
      | Some (cp, rest) \<Rightarrow> utf8_to_utf32_length_loop rest (count + 1))"
  by auto
termination by (relation "measure (\<lambda>(utf8, count). length utf8)") (auto dest: utf8_next_shorter)

definition utf8_to_utf32_length :: "u8 list \<Rightarrow> usize" where
  "utf8_to_utf32_length utf8 = utf8_to_utf32_length_loop utf8 0"

function utf8_to_utf32_loop :: "u8 list \<Rightarrow> u32 list \<Rightarrow> usize \<times> u32 list" where
  "utf8_to_utf32_loop utf8 out =
     (if utf8 = [] then (length out, out)
      else case utf8_next not_scalar utf8 of
        None \<Rightarrow> (0, out)
      | Some (cp, rest) \<Rightarrow> utf8_to_utf32_loop rest (out @ [cp]))"
  by auto
termination by (relation "measure (\<lambda>(utf8, out). length utf8)") (auto dest: utf8_next_shorter)

definition utf8_to_utf32 :: "u8 list \<Rightarrow> usize \<times> u32 list" where
  "utf8_to_utf32 utf8 = utf8_to_utf32_loop utf8 []"

fun utf32_to_utf8_length_loop :: "u32 list \<Rightarrow> usize \<Rightarrow> usize" where
  "utf32_to_utf8_length_loop [] byteCount = byteCount"
| "utf32_to_utf8_length_loop (cp # utf32) byteCount =
     (if not_scalar cp then 0 else utf32_to_utf8_length_loop utf32 (byteCount + utf8_width cp))"

definition utf32_to_utf8_length :: "u32 list \<Rightarrow> usize" where
  "utf32_to_utf8_length utf32 = utf32_to_utf8_length_loop utf32 0"

fun utf32_to_utf8_loop :: "u32 list \<Rightarrow> u8 list \<Rightarrow> usize \<times> u8 list" where
  "utf32_to_utf8_loop [] out = (length out, out)"
| "utf32_to_utf8_loop (cp # utf32) out =
     (let bs = utf8_encode_code_point cp; n = length bs in
      if n = 0 then (0, out) else utf32_to_utf8_loop utf32 (out @ bs))"

definition utf32_to_utf8 :: "u32 list \<Rightarrow> usize \<times> u8 list" where
  "utf32_to_utf8 utf32 = utf32_to_utf8_loop utf32 []"

definition latin1_to_utf8_length :: "u8 list \<Rightarrow> usize" where
  "latin1_to_utf8_length latin1 = fold (\<lambda>b byteCount. byteCount + (if b < 0x80 then 1 else 2)) latin1 0"

definition latin1_to_utf8 :: "u8 list \<Rightarrow> usize \<times> u8 list" where
  "latin1_to_utf8 latin1 =
     (let out = fold (\<lambda>b out. if b < 0x80 then out @ [b]
                              else out @ [0xC0 OR drop_bit 6 b, 0x80 OR (b AND 0x3F)]) latin1 []
      in (length out, out))"

definition UTF8_TO_LATIN1_INVALID :: usize where
  "UTF8_TO_LATIN1_INVALID = SIZE_MAX"

function utf8_to_latin1_length_loop :: "u8 list \<Rightarrow> usize \<Rightarrow> usize" where
  "utf8_to_latin1_length_loop utf8 count =
     (if utf8 = [] then count
      else case utf8_next (\<lambda>cp. cp > 0x00FF) utf8 of
        None \<Rightarrow> UTF8_TO_LATIN1_INVALID
      | Some (cp, rest) \<Rightarrow> utf8_to_latin1_length_loop rest (count + 1))"
  by auto
termination by (relation "measure (\<lambda>(utf8, count). length utf8)") (auto dest: utf8_next_shorter)

definition utf8_to_latin1_length :: "u8 list \<Rightarrow> usize" where
  "utf8_to_latin1_length utf8 = utf8_to_latin1_length_loop utf8 0"

function utf8_to_latin1_loop :: "u8 list \<Rightarrow> u8 list \<Rightarrow> usize \<times> u8 list" where
  "utf8_to_latin1_loop utf8 out =
     (if utf8 = [] then (length out, out)
      else case utf8_next (\<lambda>cp. cp > 0x00FF) utf8 of
        None \<Rightarrow> (UTF8_TO_LATIN1_INVALID, out)
      | Some (cp, rest) \<Rightarrow> utf8_to_latin1_loop rest (out @ [ucast cp]))"
  by auto
termination by (relation "measure (\<lambda>(utf8, out). length utf8)") (auto dest: utf8_next_shorter)

definition utf8_to_latin1 :: "u8 list \<Rightarrow> usize \<times> u8 list" where
  "utf8_to_latin1 utf8 = utf8_to_latin1_loop utf8 []"

declare utf8_to_utf32_length_loop.simps [simp del] utf8_to_utf32_loop.simps [simp del]
  utf8_to_latin1_length_loop.simps [simp del] utf8_to_latin1_loop.simps [simp del]

section \<open>Utf8String\<close>

text \<open>The validating constructor: \<^verbatim>\<open>Utf8String::init\<close> throws when no code point was counted.\<close>

record Utf8String =
  us_data :: "u8 list"
  us_length :: usize

definition utf8_string_init :: "u8 list \<Rightarrow> (Utf8String, usize) Result" where
  "utf8_string_init src =
     (if src = [] then Ok \<lparr>us_data = [], us_length = 0\<rparr>
      else let (cp_count, invalid_pos) = utf8_count_code_points src in
        if cp_count = 0 then Err (case invalid_pos of None \<Rightarrow> 0 | Some p \<Rightarrow> p)
        else Ok \<lparr>us_data = src, us_length = cp_count\<rparr>)"

end
