(* ===== verification/Csv.thy ===== *)
theory Csv
  imports Str_Utf8
begin

text \<open>
  The CSV module: \<^verbatim>\<open>csv_document.cpp\<close>, \<^verbatim>\<open>csv_reader.cpp\<close> and \<^verbatim>\<open>csv_writer.cpp\<close>.  A field is the
  byte string its reference denotes; the arena that owns the bytes is not part of the
  model.  A \<^verbatim>\<open>char\<close> option is its byte.  Files are left out: \<^verbatim>\<open>read_file\<close> and
  \<^verbatim>\<open>write_file\<close> add only the file access.
\<close>

section \<open>Documents\<close>

type_synonym field = "u8 list"
type_synonym CsvRow = "field list"

record CsvDocument =
  header_enabled :: bool
  header_fields :: "field list"
  doc_rows :: "CsvRow list"

definition csv_document_new :: CsvDocument where
  "csv_document_new = \<lparr>header_enabled = False, header_fields = [], doc_rows = []\<rparr>"

definition has_header :: "CsvDocument \<Rightarrow> bool" where
  "has_header d = header_enabled d"

definition set_header :: "field list \<Rightarrow> CsvDocument \<Rightarrow> CsvDocument" where
  "set_header hs d = d\<lparr>header_fields := hs, header_enabled := True\<rparr>"

definition clear_header :: "CsvDocument \<Rightarrow> CsvDocument" where
  "clear_header d = d\<lparr>header_fields := [], header_enabled := False\<rparr>"

definition add_row :: "CsvRow \<Rightarrow> CsvDocument \<Rightarrow> CsvDocument" where
  "add_row r d = d\<lparr>doc_rows := doc_rows d @ [r]\<rparr>"

definition csv_clear :: "CsvDocument \<Rightarrow> CsvDocument" where
  "csv_clear d = d\<lparr>header_fields := [], doc_rows := [], header_enabled := False\<rparr>"

text \<open>\<^verbatim>\<open>document.header() = ...\<close>: the mutable accessor enables the header.\<close>

definition assign_header :: "field list \<Rightarrow> CsvDocument \<Rightarrow> CsvDocument" where
  "assign_header hs d = d\<lparr>header_enabled := True, header_fields := hs\<rparr>"

section \<open>Reader\<close>

record CsvReaderOptions =
  first_row_is_header :: bool
  delimiter :: u8
  quote :: u8
  trim_unquoted_space :: bool

definition csv_reader_options :: CsvReaderOptions where
  "csv_reader_options = \<lparr>first_row_is_header = False, delimiter = 44, quote = 34, trim_unquoted_space = False\<rparr>"

definition tsv_reader_options :: CsvReaderOptions where
  "tsv_reader_options = csv_reader_options\<lparr>delimiter := 9\<rparr>"

definition delimited_reader_options :: "u8 \<Rightarrow> CsvReaderOptions" where
  "delimited_reader_options c = csv_reader_options\<lparr>delimiter := c\<rparr>"

abbreviation CR :: u8 where "CR \<equiv> 13"
abbreviation LF :: u8 where "LF \<equiv> 10"
abbreviation TAB :: u8 where "TAB \<equiv> 9"
abbreviation SPACE :: u8 where "SPACE \<equiv> 32"

datatype csv_message =
  delimiter_equals_quote | bad_delimiter | bad_quote | unexpected_character | unterminated_quote

record ParseError =
  err_line :: usize
  err_column :: usize
  err_message :: csv_message

definition make_error :: "usize \<Rightarrow> usize \<Rightarrow> csv_message \<Rightarrow> ParseError" where
  "make_error line column message = \<lparr>err_line = line, err_column = column, err_message = message\<rparr>"

definition is_trim_space :: "u8 \<Rightarrow> bool" where
  "is_trim_space c \<longleftrightarrow> c = SPACE \<or> c = TAB \<or> c = CR \<or> c = LF"

text \<open>Both loops of \<^verbatim>\<open>trim_ascii_space\<close>: skip from the front, then from the back.\<close>

definition trim_ascii_space :: "field \<Rightarrow> field" where
  "trim_ascii_space value = rev (dropWhile is_trim_space (rev (dropWhile is_trim_space value)))"

definition is_reserved_char :: "u8 \<Rightarrow> bool" where
  "is_reserved_char c \<longleftrightarrow> c = CR \<or> c = LF \<or> c = 0"

record reader =
  parsed_rows :: "CsvRow list"
  current_row :: CsvRow
  current_field :: field
  in_quotes :: bool
  field_was_quoted :: bool
  saw_any_char :: bool
  line :: usize
  column :: usize

definition reader_start :: reader where
  "reader_start = \<lparr>parsed_rows = [], current_row = [], current_field = [], in_quotes = False,
     field_was_quoted = False, saw_any_char = False, line = 1, column = 1\<rparr>"

definition finish_field :: "CsvReaderOptions \<Rightarrow> reader \<Rightarrow> reader" where
  "finish_field opts s =
     (let value = (if \<not> field_was_quoted s \<and> trim_unquoted_space opts
                   then trim_ascii_space (current_field s) else current_field s)
      in s\<lparr>current_row := current_row s @ [value], current_field := [], field_was_quoted := False\<rparr>)"

definition finish_row :: "CsvReaderOptions \<Rightarrow> reader \<Rightarrow> reader" where
  "finish_row opts s =
     (let s = finish_field opts s
      in s\<lparr>parsed_rows := parsed_rows s @ [current_row s], current_row := []\<rparr>)"

text \<open>
  One pass of the scan: the bytes from index \<open>i\<close> on, and the bytes left after it (a doubled
  quote and a CR LF pair take two).
\<close>

definition scan_step :: "CsvReaderOptions \<Rightarrow> u8 \<Rightarrow> u8 list \<Rightarrow> reader \<Rightarrow> (reader \<times> u8 list, ParseError) Result" where
  "scan_step opts ch rest s0 =
     (let s = s0\<lparr>saw_any_char := True\<rparr> in
      if in_quotes s then
        if ch = quote opts then
          (case rest of
             c # rest' \<Rightarrow>
               if c = quote opts
               then Ok (s\<lparr>current_field := current_field s @ [quote opts], column := column s + 1 + 1\<rparr>, rest')
               else Ok (s\<lparr>in_quotes := False, column := column s + 1\<rparr>, rest)
           | [] \<Rightarrow> Ok (s\<lparr>in_quotes := False, column := column s + 1\<rparr>, rest))
        else
          let s = s\<lparr>current_field := current_field s @ [ch]\<rparr>;
              s = (if ch = LF then s\<lparr>line := line s + 1, column := 0\<rparr> else s)
          in Ok (s\<lparr>column := column s + 1\<rparr>, rest)
      else if ch = quote opts \<and> current_field s = [] then
        Ok (s\<lparr>in_quotes := True, field_was_quoted := True, column := column s + 1\<rparr>, rest)
      else if ch = delimiter opts then
        let s = finish_field opts s in Ok (s\<lparr>column := column s + 1\<rparr>, rest)
      else if ch = CR \<or> ch = LF then
        let s = finish_row opts s;
            rest = (if ch = CR \<and> rest \<noteq> [] \<and> hd rest = LF then tl rest else rest);
            s = s\<lparr>line := line s + 1, column := 0\<rparr>
        in Ok (s\<lparr>column := column s + 1\<rparr>, rest)
      else if field_was_quoted s then Err (make_error (line s) (column s) unexpected_character)
      else Ok (s\<lparr>current_field := current_field s @ [ch], column := column s + 1\<rparr>, rest))"

lemma scan_step_shorter: "scan_step opts ch rest s = Ok (s', rest') \<Longrightarrow> length rest' \<le> length rest"
  by (auto simp: scan_step_def Let_def split: if_splits list.splits)

function scan :: "CsvReaderOptions \<Rightarrow> u8 list \<Rightarrow> reader \<Rightarrow> (reader, ParseError) Result" where
  "scan opts [] s = Ok s"
| "scan opts (ch # rest) s =
     (case scan_step opts ch rest s of
        Err e \<Rightarrow> Err e
      | Ok (s', rest') \<Rightarrow> scan opts rest' s')"
  by pat_completeness auto
termination by (relation "measure (\<lambda>(opts, bs, s). length bs)") (auto dest: scan_step_shorter)

definition skip_bom :: "u8 list \<Rightarrow> u8 list" where
  "skip_bom data =
     (if length data \<ge> 3 \<and> data ! 0 = 0xEF \<and> data ! 1 = 0xBB \<and> data ! 2 = 0xBF then drop 3 data else data)"

definition finish_input :: "CsvReaderOptions \<Rightarrow> u8 list \<Rightarrow> reader \<Rightarrow> reader" where
  "finish_input opts data s =
     (if saw_any_char s \<and> (current_field s \<noteq> [] \<or> current_row s \<noteq> []
          \<or> (data \<noteq> [] \<and> last data = delimiter opts) \<or> field_was_quoted s)
      then finish_row opts s else s)"

definition build_document :: "CsvReaderOptions \<Rightarrow> CsvRow list \<Rightarrow> CsvDocument" where
  "build_document opts rows =
     (if first_row_is_header opts \<and> rows \<noteq> []
      then fold add_row (tl rows) (assign_header (hd rows) csv_document_new)
      else fold add_row rows csv_document_new)"

definition csv_read :: "u8 list \<Rightarrow> CsvReaderOptions \<Rightarrow> (CsvDocument, ParseError) Result" where
  "csv_read input opts =
     (if delimiter opts = quote opts then Err (make_error 1 1 delimiter_equals_quote)
      else if is_reserved_char (delimiter opts) then Err (make_error 1 1 bad_delimiter)
      else if is_reserved_char (quote opts) then Err (make_error 1 1 bad_quote)
      else case scan opts (skip_bom input) reader_start of
        Err e \<Rightarrow> Err e
      | Ok s \<Rightarrow>
          if in_quotes s then Err (make_error (line s) (column s) unterminated_quote)
          else Ok (build_document opts (parsed_rows (finish_input opts input s))))"

section \<open>Writer\<close>

record CsvWriterOptions =
  write_header :: bool
  w_delimiter :: u8
  w_quote :: u8
  line_ending :: "u8 list"
  always_quote :: bool
  validate_utf8 :: bool

definition csv_writer_options :: CsvWriterOptions where
  "csv_writer_options = \<lparr>write_header = True, w_delimiter = 44, w_quote = 34, line_ending = [10],
     always_quote = False, validate_utf8 = True\<rparr>"

definition tsv_writer_options :: CsvWriterOptions where
  "tsv_writer_options = csv_writer_options\<lparr>w_delimiter := 9\<rparr>"

definition delimited_writer_options :: "u8 \<Rightarrow> CsvWriterOptions" where
  "delimited_writer_options c = csv_writer_options\<lparr>w_delimiter := c\<rparr>"

definition needs_quote :: "field \<Rightarrow> CsvWriterOptions \<Rightarrow> bool" where
  "needs_quote f opts =
     (if always_quote opts then True
      else if f = [] then False
      else if hd f = SPACE \<or> hd f = TAB \<or> last f = SPACE \<or> last f = TAB then True
      else \<exists>ch \<in> set f. ch = w_delimiter opts \<or> ch = w_quote opts \<or> ch = CR \<or> ch = LF)"

definition write_field :: "CsvWriterOptions \<Rightarrow> field \<Rightarrow> u8 list" where
  "write_field opts f =
     (if \<not> needs_quote f opts then f
      else [w_quote opts] @ concat (map (\<lambda>ch. if ch = w_quote opts then [w_quote opts, ch] else [ch]) f) @ [w_quote opts])"

fun write_row :: "CsvWriterOptions \<Rightarrow> field list \<Rightarrow> u8 list" where
  "write_row opts [] = []"
| "write_row opts [f] = write_field opts f"
| "write_row opts (f # g # fs) = write_field opts f @ [w_delimiter opts] @ write_row opts (g # fs)"

definition write_to_stream :: "CsvDocument \<Rightarrow> CsvWriterOptions \<Rightarrow> u8 list" where
  "write_to_stream d opts =
     (let (output, wrote_row) =
            (if write_header opts \<and> has_header d then (write_row opts (header_fields d), True) else ([], False))
      in fst (fold (\<lambda>row (output, wrote_row).
                 (output @ (if wrote_row then line_ending opts else []) @ write_row opts row, True))
               (doc_rows d) (output, wrote_row)))"

text \<open>
  \<^verbatim>\<open>CsvWriter::write\<close>: \<open>Ok\<close> and \<open>Err\<close> are the two results; the exception the validating
  \<^verbatim>\<open>Utf8String\<close> constructor can raise is the outer error, with the position it reports.
\<close>

datatype csv_write_error = invalid_utf8_bytes

definition csv_write :: "CsvDocument \<Rightarrow> CsvWriterOptions \<Rightarrow> ((u8 list, csv_write_error) Result, usize) Result" where
  "csv_write d opts =
     (let text = write_to_stream d opts in
      if validate_utf8 opts then
        if text \<noteq> [] \<and> utf8_to_utf32_length text = 0 then Ok (Err invalid_utf8_bytes)
        else (case utf8_string_init text of Ok u \<Rightarrow> Ok (Ok (us_data u)) | Err p \<Rightarrow> Err p)
      else Ok (Ok text))"

end
