(* ===== verification/Str_Utf8_Props.thy ===== *)
theory Str_Utf8_Props
  imports Str_Utf8
begin

text \<open>
  Correctness of the text codecs: bytes and code points are read as numbers, one sequence
  is decoded exactly when it is the encoding of a scalar value, and the loops follow by
  induction over the text.
\<close>

section \<open>Bytes and code points as numbers\<close>

lemma unat_push_or:
  fixes h l :: "'a::len word"
  assumes "unat l < 2 ^ n" and "unat h * 2 ^ n + unat l < 2 ^ LENGTH('a)"
  shows "unat (push_bit n h OR l) = unat h * 2 ^ n + unat l"
proof -
  have "push_bit n h OR l = l + push_bit n h"
  proof (subst or.commute, rule or_eq_add_disjoint)
    show "l = take_bit n l"
      using assms(1) by (simp add: word_unat_eq_iff unat_take_bit_word)
  qed
  also have "\<dots> = of_nat (unat h * 2 ^ n + unat l)"
    by (simp add: push_bit_eq_mult)
  finally show ?thesis using unat_of_nat_small [OF assms(2)] by simp
qed

lemma unat_and_high:
  fixes b :: "'a::len word"
  shows "unat (b AND NOT (mask n)) = unat b div 2 ^ n * 2 ^ n"
proof -
  have "b AND NOT (mask n) = b - take_bit n b"
  proof -
    have "take_bit n b + (b AND NOT (mask n)) = take_bit n b OR (b AND NOT (mask n))"
      by (rule disjunctive_add) (auto simp: bit_simps)
    also have "\<dots> = b" by (rule bit_word_eqI) (auto simp: bit_simps)
    finally show ?thesis by (simp add: algebra_simps)
  qed
  moreover have "take_bit n b \<le> b"
    by (simp add: word_le_nat_alt unat_take_bit_word)
  ultimately have "unat (b AND NOT (mask n)) = unat b - unat b mod 2 ^ n"
    by (simp add: unat_sub unat_take_bit_word)
  then show ?thesis by (simp add: minus_mod_eq_div_mult)
qed

lemma block_iff: "0 < k \<Longrightarrow> x div k * k = m * k \<longleftrightarrow> m * k \<le> x \<and> x < m * k + k" for k x m :: nat
  by (metis add.commute div_nat_eqI dividend_less_times_div mult.commute mult_Suc mult_cancel2 nat_neq_iff times_div_less_eq_dividend)

lemma u8_masks:
  "(0xE0 :: u8) = NOT (mask 5)" "(0xF0 :: u8) = NOT (mask 4)" "(0xF8 :: u8) = NOT (mask 3)" "(0xC0 :: u8) = NOT (mask 6)"
  by (simp_all add: mask_eq_exp_minus_1)

lemma u8_class [simp]:
  fixes b :: u8
  shows "b AND 0x80 = 0 \<longleftrightarrow> unat b < 128"
    "b AND 0xE0 = 0xC0 \<longleftrightarrow> 192 \<le> unat b \<and> unat b < 224"
    "b AND 0xF0 = 0xE0 \<longleftrightarrow> 224 \<le> unat b \<and> unat b < 240"
    "b AND 0xF8 = 0xF0 \<longleftrightarrow> 240 \<le> unat b \<and> unat b < 248"
    "b AND 0xC0 = 0x80 \<longleftrightarrow> 128 \<le> unat b \<and> unat b < 192"
proof -
  show "b AND 0x80 = 0 \<longleftrightarrow> unat b < 128" by (rule u8_and_128)
  show "b AND 0xE0 = 0xC0 \<longleftrightarrow> 192 \<le> unat b \<and> unat b < 224"
    unfolding word_unat_eq_iff u8_masks(1) unat_and_high
    using block_iff [of 32 "unat b" 6] by simp
  show "b AND 0xF0 = 0xE0 \<longleftrightarrow> 224 \<le> unat b \<and> unat b < 240"
    unfolding word_unat_eq_iff u8_masks(2) unat_and_high
    using block_iff [of 16 "unat b" 14] by simp
  show "b AND 0xF8 = 0xF0 \<longleftrightarrow> 240 \<le> unat b \<and> unat b < 248"
    unfolding word_unat_eq_iff u8_masks(3) unat_and_high
    using block_iff [of 8 "unat b" 30] by simp
  show "b AND 0xC0 = 0x80 \<longleftrightarrow> 128 \<le> unat b \<and> unat b < 192"
    unfolding word_unat_eq_iff u8_masks(4) unat_and_high
    using block_iff [of 64 "unat b" 2] by simp
qed

lemma unat_low [simp]:
  fixes b :: "'a::len word"
  shows "unat (b AND 0x3F) = unat b mod 64" "unat (b AND 0x1F) = unat b mod 32"
    "unat (b AND 0x0F) = unat b mod 16" "unat (b AND 0x07) = unat b mod 8"
  by (simp_all add: mask_take_bit unat_take_bit_word)

lemma unat_widen [simp]: "unat (ucast (b::u8) :: u32) = unat b"
  using unat_u8_less [of b] by (simp add: unat_ucast)

text \<open>The values the decoders compute, most significant digit first.\<close>

lemma unat_digits [simp]:
  fixes b c d e :: u8
  shows "unat (push_bit 6 (ucast (b AND 0x1F)) OR ucast (c AND 0x3F) :: u32) = unat b mod 32 * 64 + unat c mod 64"
    "unat (push_bit 12 (ucast (b AND 0x0F)) OR push_bit 6 (ucast (c AND 0x3F)) OR ucast (d AND 0x3F) :: u32)
       = (unat b mod 16 * 64 + unat c mod 64) * 64 + unat d mod 64"
    "unat (push_bit 18 (ucast (b AND 0x07)) OR push_bit 12 (ucast (c AND 0x3F)) OR push_bit 6 (ucast (d AND 0x3F))
         OR ucast (e AND 0x3F) :: u32)
       = ((unat b mod 8 * 64 + unat c mod 64) * 64 + unat d mod 64) * 64 + unat e mod 64"
proof -
  have m: "unat b mod 32 \<le> 31" "unat b mod 16 \<le> 15" "unat b mod 8 \<le> 7" "x mod 64 \<le> 63" for x :: nat
    using mod_less_divisor [of 32 "unat b"] mod_less_divisor [of 16 "unat b"] mod_less_divisor [of 8 "unat b"] mod_less_divisor [of 64 x]
    by simp_all
  have two: "unat (push_bit 6 (ucast (h AND 0x3F)) OR ucast (l AND 0x3F) :: u32) = unat h mod 64 * 64 + unat l mod 64" for h l :: u8
    using m(4) [of "unat h"] m(4) [of "unat l"] by (subst unat_push_or) simp_all
  have three: "unat (push_bit 12 (ucast (g AND 0x3F)) OR push_bit 6 (ucast (h AND 0x3F)) OR ucast (l AND 0x3F) :: u32)
      = unat g mod 64 * 4096 + (unat h mod 64 * 64 + unat l mod 64)" for g h l :: u8
    using m(4) [of "unat g"] m(4) [of "unat h"] m(4) [of "unat l"] by (subst unat_push_or) (simp_all add: two)
  show "unat (push_bit 6 (ucast (b AND 0x1F)) OR ucast (c AND 0x3F) :: u32) = unat b mod 32 * 64 + unat c mod 64"
    using m(1) m(4) [of "unat c"] by (subst unat_push_or) simp_all
  show "unat (push_bit 12 (ucast (b AND 0x0F)) OR push_bit 6 (ucast (c AND 0x3F)) OR ucast (d AND 0x3F) :: u32)
       = (unat b mod 16 * 64 + unat c mod 64) * 64 + unat d mod 64"
    using m(2) m(4) [of "unat c"] m(4) [of "unat d"] by (subst unat_push_or) (simp_all add: two)
  show "unat (push_bit 18 (ucast (b AND 0x07)) OR push_bit 12 (ucast (c AND 0x3F)) OR push_bit 6 (ucast (d AND 0x3F))
         OR ucast (e AND 0x3F) :: u32)
       = ((unat b mod 8 * 64 + unat c mod 64) * 64 + unat d mod 64) * 64 + unat e mod 64"
    using m(3) m(4) [of "unat c"] m(4) [of "unat d"] m(4) [of "unat e"]
    by (subst unat_push_or) (simp_all add: three)
qed

text \<open>The bytes the encoder writes.\<close>

lemma unat_lead:
  fixes x :: u32
  shows "unat x < 64 \<Longrightarrow> unat (ucast (0x80 OR x) :: u8) = 128 + unat x"
    "unat x < 32 \<Longrightarrow> unat (ucast (0xC0 OR x) :: u8) = 192 + unat x"
    "unat x < 16 \<Longrightarrow> unat (ucast (0xE0 OR x) :: u8) = 224 + unat x"
    "unat x < 8 \<Longrightarrow> unat (ucast (0xF0 OR x) :: u8) = 240 + unat x"
proof -
  have "(0x80 :: u32) = push_bit 6 2" "(0xC0 :: u32) = push_bit 5 6" "(0xE0 :: u32) = push_bit 4 14" "(0xF0 :: u32) = push_bit 3 30"
    by simp_all
  then show "unat x < 64 \<Longrightarrow> unat (ucast (0x80 OR x) :: u8) = 128 + unat x"
    "unat x < 32 \<Longrightarrow> unat (ucast (0xC0 OR x) :: u8) = 192 + unat x"
    "unat x < 16 \<Longrightarrow> unat (ucast (0xE0 OR x) :: u8) = 224 + unat x"
    "unat x < 8 \<Longrightarrow> unat (ucast (0xF0 OR x) :: u8) = 240 + unat x"
    using unat_push_or [of x 6 2] unat_push_or [of x 5 6] unat_push_or [of x 4 14] unat_push_or [of x 3 30]
    by (simp_all add: unat_ucast)
qed

fun encode_nat :: "nat \<Rightarrow> nat list" where
  "encode_nat n =
     (if n < 0x80 then [n]
      else if n < 0x800 then [192 + n div 64, 128 + n mod 64]
      else if n < 0x10000 then [224 + n div 64 div 64, 128 + n div 64 mod 64, 128 + n mod 64]
      else [240 + n div 64 div 64 div 64, 128 + n div 64 div 64 mod 64, 128 + n div 64 mod 64, 128 + n mod 64])"

lemma map_unat_encode:
  assumes "\<not> not_scalar cp"
  shows "map unat (utf8_encode_code_point cp) = encode_nat (unat cp)"
proof -
  have n: "unat cp \<le> 0x10FFFF" using assms by (auto simp: not_scalar_def word_le_nat_alt word_less_nat_alt)
  have d: "unat (drop_bit 6 cp) = unat cp div 64" "unat (drop_bit 12 cp) = unat cp div 64 div 64"
    "unat (drop_bit 18 cp) = unat cp div 64 div 64 div 64"
    by (simp_all add: unat_drop_bit_div div_mult2_eq [symmetric])
  consider "unat cp < 0x80" | "0x80 \<le> unat cp" "unat cp < 0x800" | "0x800 \<le> unat cp" "unat cp < 0x10000" | "0x10000 \<le> unat cp"
    by linarith
  then show ?thesis
  proof cases
    case 1
    then show ?thesis using assms by (simp add: utf8_encode_code_point_def not_scalar_def word_le_nat_alt unat_ucast)
  next
    case 2
    then show ?thesis using assms
      by (simp add: utf8_encode_code_point_def not_scalar_def word_le_nat_alt unat_lead d)
  next
    case 3
    then show ?thesis using assms
      by (simp add: utf8_encode_code_point_def not_scalar_def word_le_nat_alt unat_lead d)
  next
    case 4
    then show ?thesis using assms n
      by (simp add: utf8_encode_code_point_def not_scalar_def word_le_nat_alt unat_lead d)
  qed
qed


section \<open>One sequence\<close>

lemma code_point_bytes_nat:
  "utf8_code_point_bytes b =
     (if unat b < 128 then 1 else if 192 \<le> unat b \<and> unat b < 224 then 2
      else if 224 \<le> unat b \<and> unat b < 240 then 3 else if 240 \<le> unat b \<and> unat b < 248 then 4 else 0)"
  by (simp add: utf8_code_point_bytes_def)

lemma digits [simp]:
  "q < 32 \<Longrightarrow> (192 + q) mod 32 = (q::nat)" "q < 16 \<Longrightarrow> (224 + q) mod 16 = q" "q < 8 \<Longrightarrow> (240 + q) mod 8 = q"
  "q < 64 \<Longrightarrow> (128 + q) mod 64 = q"
  using mod_mult_self1 [of q 6 32] mod_mult_self1 [of q 14 16] mod_mult_self1 [of q 30 8] mod_mult_self1 [of q 2 64]
  by (simp_all add: add.commute)

text \<open>What every reader of UTF-8 checks of the first sequence of its input.\<close>

lemma bad_continuation_None:
  "bad_continuation data i n = None \<longleftrightarrow> (\<forall>j \<in> {i..<i + n}. data ! j AND 0xC0 = 0x80)"
proof (induction data i n rule: bad_continuation.induct)
  case (2 data i n)
  have "{i..<i + Suc n} = insert i {i + 1..<i + 1 + n}" by auto
  with 2 show ?case by auto
qed simp

definition accepts :: "u8 list \<Rightarrow> bool" where
  "accepts data \<longleftrightarrow> data \<noteq> [] \<and> (let len = utf8_code_point_bytes (hd data) in
     len \<noteq> 0 \<and> len \<le> length data \<and> utf8_valid_continuation data len
     \<and> utf8_sequence_valid (utf8_sequence_value data len) len)"

lemma bad_continuation_valid: "0 < len \<Longrightarrow> bad_continuation data 1 (len - 1) = None \<longleftrightarrow> utf8_valid_continuation data len"
  unfolding bad_continuation_None utf8_valid_continuation_def by simp

definition cont :: "u8 \<Rightarrow> bool" where
  "cont b \<longleftrightarrow> 128 \<le> unat b \<and> unat b < 192"

lemma valid_continuation_simps [simp]:
  "utf8_valid_continuation data (Suc 0)"
  "utf8_valid_continuation (b0 # b1 # r) 2 \<longleftrightarrow> cont b1"
  "utf8_valid_continuation (b0 # b1 # b2 # r) 3 \<longleftrightarrow> cont b1 \<and> cont b2"
  "utf8_valid_continuation (b0 # b1 # b2 # b3 # r) 4 \<longleftrightarrow> cont b1 \<and> cont b2 \<and> cont b3"
  by (simp_all add: utf8_valid_continuation_def cont_def atLeastLessThan_upt upt_rec)

lemma decode_is_value:
  assumes "utf8_code_point_bytes (data ! 0) = len" and "len \<noteq> 0"
  shows "utf8_decode_code_point data = utf8_sequence_value data len"
  using assms by (auto simp: code_point_bytes_nat utf8_decode_code_point_def utf8_sequence_value_def split: if_splits)

lemma sequence_valid_nat:
  "utf8_sequence_valid cp len \<longleftrightarrow>
     (len = 2 \<longrightarrow> 0x80 \<le> unat cp) \<and> (len = 3 \<longrightarrow> 0x800 \<le> unat cp \<and> (unat cp < 0xD800 \<or> 0xDFFF < unat cp))
     \<and> (len = 4 \<longrightarrow> 0x10000 \<le> unat cp \<and> unat cp \<le> 0x10FFFF)"
  by (auto simp: utf8_sequence_valid_def word_le_nat_alt word_less_nat_alt)

lemma sequence_value_nat [simp]:
  "unat (utf8_sequence_value (b0 # r) (Suc 0)) = unat b0"
  "unat (utf8_sequence_value (b0 # b1 # r) 2) = unat b0 mod 32 * 64 + unat b1 mod 64"
  "unat (utf8_sequence_value (b0 # b1 # b2 # r) 3) = (unat b0 mod 16 * 64 + unat b1 mod 64) * 64 + unat b2 mod 64"
  "unat (utf8_sequence_value (b0 # b1 # b2 # b3 # r) 4)
     = ((unat b0 mod 8 * 64 + unat b1 mod 64) * 64 + unat b2 mod 64) * 64 + unat b3 mod 64"
  unfolding utf8_sequence_value_def by simp_all

lemma encode_bytes:
  assumes "\<not> not_scalar cp"
  obtains (1) b0 where "utf8_encode_code_point cp = [b0]" "unat b0 = unat cp" "unat cp < 0x80"
  | (2) b0 b1 where "utf8_encode_code_point cp = [b0, b1]" "unat b0 = 192 + unat cp div 64" "unat b1 = 128 + unat cp mod 64"
      "0x80 \<le> unat cp" "unat cp < 0x800"
  | (3) b0 b1 b2 where "utf8_encode_code_point cp = [b0, b1, b2]" "unat b0 = 224 + unat cp div 64 div 64"
      "unat b1 = 128 + unat cp div 64 mod 64" "unat b2 = 128 + unat cp mod 64" "0x800 \<le> unat cp" "unat cp < 0x10000"
      "unat cp < 0xD800 \<or> 0xDFFF < unat cp"
  | (4) b0 b1 b2 b3 where "utf8_encode_code_point cp = [b0, b1, b2, b3]" "unat b0 = 240 + unat cp div 64 div 64 div 64"
      "unat b1 = 128 + unat cp div 64 div 64 mod 64" "unat b2 = 128 + unat cp div 64 mod 64" "unat b3 = 128 + unat cp mod 64"
      "0x10000 \<le> unat cp" "unat cp \<le> 0x10FFFF"
proof -
  have s: "unat cp \<le> 0x10FFFF" "unat cp < 0xD800 \<or> 0xDFFF < unat cp"
    using assms by (auto simp: not_scalar_def word_le_nat_alt word_less_nat_alt)
  consider "unat cp < 0x80" | "0x80 \<le> unat cp" "unat cp < 0x800" | "0x800 \<le> unat cp" "unat cp < 0x10000" | "0x10000 \<le> unat cp"
    by linarith
  then show thesis
  proof cases
    case a: 1
    with map_unat_encode [OF assms] show thesis by (auto simp: map_eq_Cons_conv intro: 1)
  next
    case a: 2
    with map_unat_encode [OF assms] show thesis by (auto simp: map_eq_Cons_conv intro: 2)
  next
    case a: 3
    with map_unat_encode [OF assms] s show thesis by (auto simp: map_eq_Cons_conv intro: 3)
  next
    case a: 4
    with map_unat_encode [OF assms] s show thesis by (auto simp: map_eq_Cons_conv intro: 4)
  qed
qed

lemma horner:
  fixes n :: nat
  shows "n div 64 div 64 * 4096 + n div 64 mod 64 * 64 + n mod 64 = n"
    "n div 64 div 64 div 64 * 262144 + n div 64 div 64 mod 64 * 4096 + n div 64 mod 64 * 64 + n mod 64 = n"
  using div_mult_mod_eq [of n 64] div_mult_mod_eq [of "n div 64" 64] div_mult_mod_eq [of "n div 64 div 64" 64]
  by linarith+

lemma read_encoded:
  assumes "\<not> not_scalar cp"
  defines "bs \<equiv> utf8_encode_code_point cp"
  shows "utf8_code_point_bytes (hd (bs @ rest)) = length bs"
    and "utf8_sequence_value (bs @ rest) (length bs) = cp"
    and "accepts (bs @ rest)"
    and "bs \<noteq> []"
proof -
  have "utf8_code_point_bytes (hd (bs @ rest)) = length bs \<and> utf8_valid_continuation (bs @ rest) (length bs)
      \<and> unat (utf8_sequence_value (bs @ rest) (length bs)) = unat cp \<and> utf8_sequence_valid cp (length bs) \<and> bs \<noteq> []"
    using assms(1)
  proof (cases rule: encode_bytes)
    case (1 b0)
    then show ?thesis by (simp add: bs_def code_point_bytes_nat sequence_valid_nat)
  next
    case (2 b0 b1)
    then have l: "length bs = 2" by (simp add: bs_def)
    from 2 have "unat cp div 64 < 32" by simp
    with 2 show ?thesis unfolding l by (simp add: bs_def code_point_bytes_nat sequence_valid_nat cont_def)
  next
    case (3 b0 b1 b2)
    then have l: "length bs = 3" by (simp add: bs_def)
    from 3 have "unat cp div 64 div 64 < 16" by simp
    with 3 show ?thesis unfolding l using horner(1) [of "unat cp"]
      by (simp add: bs_def code_point_bytes_nat sequence_valid_nat cont_def)
  next
    case (4 b0 b1 b2 b3)
    then have l: "length bs = 4" by (simp add: bs_def)
    from 4(7) have "unat cp div 64 div 64 div 64 < 8"
      by (simp add: div_mult2_eq [symmetric] div_less_iff_less_mult)
    with 4 show ?thesis unfolding l using horner(2) [of "unat cp"]
      by (simp add: bs_def code_point_bytes_nat sequence_valid_nat cont_def)
  qed
  moreover from this show "utf8_sequence_value (bs @ rest) (length bs) = cp"
    by (simp add: word_unat_eq_iff)
  ultimately show "utf8_code_point_bytes (hd (bs @ rest)) = length bs" "bs \<noteq> []" "accepts (bs @ rest)"
    by (auto simp: accepts_def Let_def)
qed


lemma accepted_encoded:
  assumes "accepts data"
  defines "len \<equiv> utf8_code_point_bytes (hd data)"
  defines "cp \<equiv> utf8_sequence_value data len"
  shows "\<not> not_scalar cp \<and> data = utf8_encode_code_point cp @ drop len data"
proof -
  note acc = assms(1) [unfolded accepts_def Let_def, folded len_def cp_def]
  have scalar: "\<not> not_scalar cp" if "unat cp \<le> 0x10FFFF" "unat cp < 0xD800 \<or> 0xDFFF < unat cp"
    using that by (auto simp: not_scalar_def word_le_nat_alt word_less_nat_alt)
  have enc: "data = utf8_encode_code_point cp @ drop len data"
    if "\<not> not_scalar cp" "encode_nat (unat cp) = map unat (take len data)"
  proof -
    have "map unat (utf8_encode_code_point cp) = map unat (take len data)"
      by (rule trans [OF map_unat_encode [OF that(1)] that(2)])
    then have "utf8_encode_code_point cp = take len data"
      by (rule injD [OF inj_mapI [OF injI], rotated]) (simp add: word_unat_eq_iff)
    then show ?thesis by simp
  qed
  obtain b0 r where d: "data = b0 # r" using acc by (cases data) auto
  consider "len = 1" "unat b0 < 128" | "len = 2" "192 \<le> unat b0" "unat b0 < 224"
    | "len = 3" "224 \<le> unat b0" "unat b0 < 240" | "len = 4" "240 \<le> unat b0" "unat b0 < 248"
    using acc by (auto simp: len_def d code_point_bytes_nat split: if_splits)
  then show ?thesis
  proof cases
    case 1
    then have "unat cp = unat b0" by (simp add: cp_def d)
    with 1 scalar enc show ?thesis by (simp add: d)
  next
    case 2
    then obtain b1 r' where r: "r = b1 # r'" using acc d by (cases r) auto
    define x y where "x = unat b0 - 192" and "y = unat b1 - 128"
    with 2 acc d r have b: "unat b0 = 192 + x" "unat b1 = 128 + y" "x < 32" "y < 64" by (auto simp: cont_def)
    then have "unat cp = x * 64 + y" using 2 by (simp add: cp_def d r)
    with 2 acc b scalar enc show ?thesis by (simp add: d r sequence_valid_nat)
  next
    case 3
    then obtain b1 b2 r' where r: "r = b1 # b2 # r'" using acc d by (cases r; cases "tl r") auto
    define x y z where "x = unat b0 - 224" and "y = unat b1 - 128" and "z = unat b2 - 128"
    with 3 acc d r have b: "unat b0 = 224 + x" "unat b1 = 128 + y" "unat b2 = 128 + z" "x < 16" "y < 64" "z < 64"
      by (auto simp: cont_def)
    define m where "m = x * 64 + y"
    have n: "unat cp = m * 64 + z" using b 3 by (simp add: cp_def d r m_def)
    then have "unat cp mod 64 = z" "unat cp div 64 = m" using b by simp_all
    moreover have "m div 64 = x" "m mod 64 = y" "unat cp < 0x10000" using b n by (simp_all add: m_def)
    moreover have "0x800 \<le> unat cp" "unat cp < 0xD800 \<or> 0xDFFF < unat cp" using acc 3 by (simp_all add: sequence_valid_nat)
    ultimately show ?thesis using 3 b scalar enc by (simp add: d r)
  next
    case 4
    then obtain b1 b2 b3 r' where r: "r = b1 # b2 # b3 # r'"
      using acc d by (cases r; cases "tl r"; cases "tl (tl r)") auto
    define w x y z where "w = unat b0 - 240" and "x = unat b1 - 128" and "y = unat b2 - 128" and "z = unat b3 - 128"
    with 4 acc d r have b: "unat b0 = 240 + w" "unat b1 = 128 + x" "unat b2 = 128 + y" "unat b3 = 128 + z"
      "w < 8" "x < 64" "y < 64" "z < 64"
      by (auto simp: cont_def)
    define k m where "k = w * 64 + x" and "m = k * 64 + y"
    have "unat cp = m * 64 + z" using b 4 by (simp add: cp_def d r m_def k_def)
    then have "unat cp mod 64 = z" "unat cp div 64 = m" using b by simp_all
    moreover have "m div 64 = k" "m mod 64 = y" using b by (simp_all add: m_def)
    moreover have "k div 64 = w" "k mod 64 = x" using b by (simp_all add: k_def)
    moreover have "0x10000 \<le> unat cp" "unat cp \<le> 0x10FFFF" using acc 4 by (simp_all add: sequence_valid_nat)
    ultimately show ?thesis using 4 b scalar enc by (simp add: d r)
  qed
qed


section \<open>Whole texts\<close>

definition scalars :: "u32 list \<Rightarrow> bool" where
  "scalars cps \<longleftrightarrow> (\<forall>cp \<in> set cps. \<not> not_scalar cp)"

definition utf8_text :: "u32 list \<Rightarrow> u8 list" where
  "utf8_text cps = concat (map utf8_encode_code_point cps)"

lemma scalars_simps [simp]: "scalars []" "scalars (cp # cps) \<longleftrightarrow> \<not> not_scalar cp \<and> scalars cps"
  by (auto simp: scalars_def)

lemma utf8_text_simps [simp]: "utf8_text [] = []" "utf8_text (cp # cps) = utf8_encode_code_point cp @ utf8_text cps"
  by (simp_all add: utf8_text_def)

lemma utf8_is_valid_step:
  "utf8_is_valid data \<longleftrightarrow> data = [] \<or> accepts data \<and> utf8_is_valid (drop (utf8_code_point_bytes (hd data)) data)"
  by (subst utf8_is_valid.simps)
     (auto simp: Let_def accepts_def bad_continuation_valid [unfolded One_nat_def] simp del: not_None_eq)

lemma valid_text: "scalars cps \<Longrightarrow> utf8_is_valid (utf8_text cps)"
proof (induction cps)
  case (Cons cp cps)
  then show ?case
    using read_encoded(1-3) [of cp "utf8_text cps"] read_encoded(4) [of cp] by (subst utf8_is_valid_step) simp
qed (simp add: utf8_is_valid.simps)

lemma valid_is_text: "utf8_is_valid data \<Longrightarrow> \<exists>cps. scalars cps \<and> data = utf8_text cps"
proof (induction data rule: utf8_is_valid.induct)
  case (1 data)
  show ?case
  proof (cases "data = []")
    case True
    then show ?thesis by (intro exI [of _ "[]"]) simp
  next
    case False
    let ?len = "utf8_code_point_bytes (hd data)" and ?cp = "utf8_sequence_value data (utf8_code_point_bytes (hd data))"
    have a: "accepts data" "utf8_is_valid (drop ?len data)"
      using 1(2) False by (simp_all add: utf8_is_valid_step [of data])
    then have "?len \<noteq> 0" "?len \<le> length data" "utf8_valid_continuation data ?len" "utf8_sequence_valid ?cp ?len"
      by (simp_all add: accepts_def Let_def)
    then obtain cps where "scalars cps" "drop ?len data = utf8_text cps"
      using 1(1) [OF False refl] a(2) bad_continuation_valid [of ?len data] by auto
    then show ?thesis
      using accepted_encoded [OF a(1)] by (intro exI [of _ "?cp # cps"]) simp
  qed
qed

lemma count_text: "scalars cps \<Longrightarrow> utf8_count_loop (utf8_text cps) pos count = (count + length cps, None)"
proof (induction cps arbitrary: pos count)
  case (Cons cp cps)
  have r: "utf8_code_point_bytes (hd (utf8_encode_code_point cp @ utf8_text cps)) = length (utf8_encode_code_point cp)"
    "utf8_sequence_value (utf8_encode_code_point cp @ utf8_text cps) (length (utf8_encode_code_point cp)) = cp"
    "accepts (utf8_encode_code_point cp @ utf8_text cps)" "utf8_encode_code_point cp \<noteq> []"
    using read_encoded(1-3) [of cp "utf8_text cps"] read_encoded(4) [of cp] Cons.prems by auto
  then have "bad_continuation (utf8_encode_code_point cp @ utf8_text cps) 1 (length (utf8_encode_code_point cp) - 1) = None"
    by (subst bad_continuation_valid) (auto simp: accepts_def Let_def)
  with r show ?case
    using Cons by (subst utf8_count_loop.simps) (auto simp: Let_def accepts_def)
qed (simp add: utf8_count_loop.simps)

lemma bad_continuation_range: "bad_continuation data i n = Some p \<Longrightarrow> i \<le> p \<and> p < i + n"
  by (induction data i n rule: bad_continuation.induct) (auto split: if_splits)

lemma count_invalid:
  "\<not> utf8_is_valid data \<Longrightarrow> \<exists>p. utf8_count_loop data pos count = (0, Some p) \<and> pos \<le> p \<and> p < pos + length data"
proof (induction data arbitrary: pos count rule: utf8_is_valid.induct)
  case (1 data)
  let ?len = "utf8_code_point_bytes (hd data)"
  have ne: "data \<noteq> []" using 1(2) by (auto simp: utf8_is_valid_step [of data])
  show ?case
  proof (cases "accepts data")
    case True
    then have a: "?len \<noteq> 0" "?len \<le> length data" "utf8_sequence_valid (utf8_sequence_value data ?len) ?len"
      "bad_continuation data 1 (?len - 1) = None"
      using bad_continuation_valid [of ?len data] by (auto simp: accepts_def Let_def)
    moreover have "\<not> utf8_is_valid (drop ?len data)"
      using 1(2) True by (simp add: utf8_is_valid_step [of data])
    ultimately obtain p where "utf8_count_loop (drop ?len data) (pos + ?len) (count + 1) = (0, Some p)"
      "pos + ?len \<le> p" "p < pos + ?len + length (drop ?len data)"
      using 1(1) [OF ne refl, of "pos + ?len" "count + 1"] by auto
    then show ?thesis using a ne by (subst utf8_count_loop.simps) (auto simp: Let_def)
  next
    case False
    then show ?thesis
      using ne bad_continuation_range [of data "Suc 0" "?len - Suc 0"] bad_continuation_valid [of ?len data]
      by (subst utf8_count_loop.simps) (auto simp: Let_def accepts_def split: option.splits)
  qed
qed

section \<open>Valid text\<close>

lemma valid_Nil [simp]: "utf8_is_valid []"
  by (simp add: utf8_is_valid.simps)

lemma valid_append: "utf8_is_valid a \<Longrightarrow> utf8_is_valid b \<Longrightarrow> utf8_is_valid (a @ b)"
proof -
  assume "utf8_is_valid a" "utf8_is_valid b"
  then obtain x y where "scalars x" "a = utf8_text x" "scalars y" "b = utf8_text y" using valid_is_text by metis
  then show ?thesis using valid_text [of "x @ y"] by (auto simp: scalars_def utf8_text_def)
qed

lemma valid_ascii_byte: "unat c < 128 \<Longrightarrow> utf8_is_valid (c # t) = utf8_is_valid t"
  by (subst utf8_is_valid.simps) (simp add: code_point_bytes_nat sequence_valid_nat)

lemma valid_ascii: "\<forall>c \<in> set t. unat c < 128 \<Longrightarrow> utf8_is_valid t"
  by (induction t) (simp_all add: valid_ascii_byte)

lemma encode_nonempty: "\<not> not_scalar cp \<Longrightarrow> utf8_encode_code_point cp \<noteq> []"
  using read_encoded(4) [of cp] by simp

lemma valid_count: "utf8_is_valid t \<Longrightarrow> t \<noteq> [] \<Longrightarrow> fst (utf8_count_code_points t) \<noteq> 0"
  using valid_is_text [of t] by (auto simp: utf8_count_code_points_def count_text)

lemma count_zero_or_valid: "fst (utf8_count_code_points t) = 0 \<or> utf8_is_valid t"
  using count_invalid [of t 0 0] by (auto simp: utf8_count_code_points_def)

lemma encode_ascii_inside:
  assumes "\<not> not_scalar cp" and "utf8_encode_code_point cp = a @ c # us" and "unat c < 128"
  shows "a = [] \<and> us = []"
  using assms(1)
proof (cases rule: encode_bytes)
qed (use assms(2,3) in \<open>auto simp: append_eq_Cons_conv Cons_eq_append_conv\<close>)

text \<open>A text cut at an ASCII byte is valid exactly when both sides are.\<close>

lemma valid_at_ascii:
  assumes "unat c < 128"
  shows "utf8_is_valid (a @ c # b) \<longleftrightarrow> utf8_is_valid a \<and> utf8_is_valid b"
proof
  have "scalars cps \<Longrightarrow> utf8_text cps = a @ c # b \<Longrightarrow> utf8_is_valid a \<and> utf8_is_valid b" for cps
  proof (induction cps arbitrary: a)
    case (Cons cp cps)
    note sc = Cons.prems(1) [simplified]
    from Cons.prems(2) consider us where "utf8_encode_code_point cp @ us = a" "utf8_text cps = us @ c # b"
      | us where "utf8_encode_code_point cp = a @ us" "us \<noteq> []" "us @ utf8_text cps = c # b"
      by (cases "utf8_encode_code_point cp = a") (auto simp: append_eq_append_conv2)
    then show ?case
    proof cases
      case 1
      have "utf8_is_valid us \<and> utf8_is_valid b" using Cons.IH [OF _ 1(2)] sc by simp
      moreover have "utf8_is_valid (utf8_encode_code_point cp)" using valid_text [of "[cp]"] sc by simp
      ultimately show ?thesis using valid_append 1(1) by blast
    next
      case 2
      then obtain us' where us: "us = c # us'" by (cases us) auto
      then have "a = [] \<and> us' = []" using encode_ascii_inside [OF conjunct1 [OF sc]] 2(1) assms by blast
      then show ?thesis using 2 us valid_text [of cps] sc by simp
    qed
  qed simp
  then show "utf8_is_valid (a @ c # b) \<Longrightarrow> utf8_is_valid a \<and> utf8_is_valid b" using valid_is_text by metis
  show "utf8_is_valid a \<and> utf8_is_valid b \<Longrightarrow> utf8_is_valid (a @ c # b)"
    using valid_append [of a "c # b"] by (simp add: valid_ascii_byte assms)
qed

lemma string_init_valid: "utf8_is_valid t \<Longrightarrow> \<exists>n. utf8_string_init t = Ok \<lparr>us_data = t, us_length = n\<rparr>"
  using valid_count [of t] by (cases "t = []") (auto simp: utf8_string_init_def split: prod.splits)


section \<open>The converters\<close>

lemma utf8_next_encoded:
  assumes "\<not> not_scalar cp"
  shows "utf8_next rejected (utf8_encode_code_point cp @ rest) = (if rejected cp then None else Some (cp, rest))"
proof -
  let ?bs = "utf8_encode_code_point cp"
  have r: "utf8_code_point_bytes (hd (?bs @ rest)) = length ?bs" "accepts (?bs @ rest)" "?bs \<noteq> []"
    using read_encoded(1,3) [OF assms, of rest] read_encoded(4) [OF assms] by simp_all
  have "utf8_decode_code_point (?bs @ rest) = cp"
  proof (subst decode_is_value)
    show "utf8_code_point_bytes ((?bs @ rest) ! 0) = length ?bs"
      using r(1,3) by (simp add: hd_conv_nth)
  qed (use r read_encoded(2) [OF assms, of rest] in simp_all)
  with r show ?thesis by (simp add: utf8_next_def accepts_def Let_def)
qed

text \<open>Surrogate pairs.\<close>

lemma lead_nat: "is_lead_surrogate u \<longleftrightarrow> 0xD800 \<le> unat u \<and> unat u < 0xDC00"
  by (auto simp: is_lead_surrogate_def word_le_nat_alt)

lemma trail_nat: "is_trail_surrogate u \<longleftrightarrow> 0xDC00 \<le> unat u \<and> unat u < 0xE000"
  by (auto simp: is_trail_surrogate_def word_le_nat_alt)

lemma unat_decode_pair:
  assumes "is_lead_surrogate h" and "is_trail_surrogate l"
  shows "unat (decode_pair h l) = 0x10000 + (unat h - 0xD800) * 1024 + (unat l - 0xDC00)"
proof -
  define a b where "a = unat h - 0xD800" and "b = unat l - 0xDC00"
  with assms have u: "unat h = 0xD800 + a" "unat l = 0xDC00 + b" "a < 1024" "b < 1024"
    by (simp_all add: lead_nat trail_nat) arith+
  have ab: "uint h - 0xD800 = int a" "uint l - 0xDC00 = int b"
    using u(1,2) uint_nat [of h] uint_nat [of l] by linarith+
  have "0x10000 + push_bit 10 (int a) + int b = int (0x10000 + a * 1024 + b)"
    by (simp add: push_bit_eq_mult)
  then have "decode_pair h l = word_of_int (int (0x10000 + a * 1024 + b))"
    unfolding decode_pair_def ab by (rule arg_cong)
  also have "\<dots> = of_nat (0x10000 + a * 1024 + b)" by simp
  finally have d: "decode_pair h l = of_nat (0x10000 + a * 1024 + b)" .
  have "0x10000 + a * 1024 + b < 2 ^ LENGTH(32)" using u by simp
  from unat_of_nat_small [OF this] show ?thesis unfolding d a_def b_def .
qed

lemma encode_pair_nat:
  assumes "0x10000 \<le> unat cp" and "unat cp \<le> 0x10FFFF"
  obtains h l where "encode_pair cp = Some (h, l)" "unat h = 0xD800 + (unat cp - 0x10000) div 1024"
    "unat l = 0xDC00 + (unat cp - 0x10000) mod 1024"
proof -
  define n where "n = unat cp - 0x10000"
  have n: "unat (cp - 0x10000) = n" "n \<le> 0xFFFFF"
    using assms by (simp_all add: n_def unat_sub word_le_nat_alt)
  have q: "n div 1024 < 1024" "n mod 1024 < 1024" using n(2) by simp_all
  let ?w = "cp - 0x10000"
  have h0: "unat (drop_bit 10 ?w) = n div 1024" using n(1) by (simp add: unat_drop_bit_div)
  have h: "0xD800 + drop_bit 10 ?w = of_nat (0xD800 + n div 1024)"
    unfolding h0 [symmetric] by simp
  have "?w AND 0x3FF = take_bit 10 ?w"
    by (simp only: take_bit_eq_mask mask_eq_exp_minus_1) simp
  then have l0: "unat (?w AND 0x3FF) = n mod 1024"
    using n(1) unat_take_bit_word [of 10 ?w] by simp
  have l: "0xDC00 + (?w AND 0x3FF) = of_nat (0xDC00 + n mod 1024)"
    unfolding l0 [symmetric] by simp
  have u: "unat (ucast (of_nat k :: u32) :: u16) = k" if "k < 65536" for k
    using that by (simp add: unat_ucast unat_of_nat take_bit_eq_mod)
  have "\<not> (cp < 0x10000 \<or> cp > 0x10FFFF)"
    using assms by (auto simp: word_le_nat_alt word_less_nat_alt)
  then have "encode_pair cp = Some (ucast (of_nat (0xD800 + n div 1024) :: u32), ucast (of_nat (0xDC00 + n mod 1024) :: u32))"
    by (simp only: encode_pair_def Let_def h l if_False)
  from that [OF this] show thesis
    using u [of "0xD800 + n div 1024"] u [of "0xDC00 + n mod 1024"] q unfolding n_def by simp
qed


lemma not_scalar_nat: "not_scalar cp \<longleftrightarrow> 0x10FFFF < unat cp \<or> 0xD800 \<le> unat cp \<and> unat cp < 0xE000"
  by (auto simp: not_scalar_def word_le_nat_alt word_less_nat_alt)

lemma encode_length: "\<not> not_scalar cp \<Longrightarrow> length (utf8_encode_code_point cp) = utf8_width cp"
  by (erule encode_bytes) (simp_all add: utf8_width_def word_le_nat_alt)

lemma utf16_next_units:
  assumes "\<not> not_scalar cp"
  shows "utf16_next (utf16_units cp @ rest) = Some (cp, rest)"
proof (cases "unat cp < 0x10000")
  case True
  then have u: "unat (ucast cp :: u16) = unat cp" by (simp add: unat_ucast)
  then have "(ucast (ucast cp :: u16) :: u32) = cp" by (simp add: word_unat_eq_iff unat_ucast)
  with True u assms show ?thesis
    by (auto simp: utf16_units_def word_le_nat_alt lead_nat trail_nat not_scalar_nat)
next
  case False
  with assms have r: "0x10000 \<le> unat cp" "unat cp \<le> 0x10FFFF" by (auto simp: not_scalar_nat)
  then obtain h l where hl: "encode_pair cp = Some (h, l)" "unat h = 0xD800 + (unat cp - 0x10000) div 1024"
    "unat l = 0xDC00 + (unat cp - 0x10000) mod 1024" by (rule encode_pair_nat)
  have "(unat cp - 0x10000) div 1024 < 1024" using r by simp
  with hl have sur: "is_lead_surrogate h" "is_trail_surrogate l" by (simp_all add: lead_nat trail_nat)
  have "unat (decode_pair h l) = unat cp"
    using unat_decode_pair [OF sur] hl(2,3) r(1) by simp
  then have "decode_pair h l = cp" by (simp add: word_unat_eq_iff)
  with False hl(1) sur show ?thesis by (simp add: utf16_units_def word_le_nat_alt)
qed

lemma pair_decoded:
  assumes "is_lead_surrogate h" and "is_trail_surrogate l"
  shows "\<not> not_scalar (decode_pair h l) \<and> utf16_units (decode_pair h l) = [h, l]"
proof -
  define a b where "a = unat h - 0xD800" and "b = unat l - 0xDC00"
  with assms have u: "unat h = 0xD800 + a" "unat l = 0xDC00 + b" "a < 1024" "b < 1024"
    by (simp_all add: lead_nat trail_nat) arith+
  then have cp: "unat (decode_pair h l) = 0x10000 + (a * 1024 + b)"
    using unat_decode_pair [OF assms] by simp
  moreover obtain h' l' where hl: "encode_pair (decode_pair h l) = Some (h', l')"
      "unat h' = 0xD800 + (unat (decode_pair h l) - 0x10000) div 1024"
      "unat l' = 0xDC00 + (unat (decode_pair h l) - 0x10000) mod 1024"
    by (rule encode_pair_nat [of "decode_pair h l"]) (use cp u in auto)
  ultimately have "h' = h" "l' = l" using u by (simp_all add: word_unat_eq_iff)
  with hl(1) cp u show ?thesis by (simp add: utf16_units_def not_scalar_nat word_le_nat_alt)
qed

lemma utf16_next_inverse:
  assumes "utf16_next us = Some (cp, rest)"
  shows "\<not> not_scalar cp \<and> us = utf16_units cp @ rest"
proof (cases us)
  case (Cons u r)
  show ?thesis
  proof (cases "is_lead_surrogate u")
    case True
    with assms Cons obtain l where "r = l # rest" "is_trail_surrogate l" "cp = decode_pair u l"
      by (auto split: list.splits if_splits)
    then show ?thesis using pair_decoded [OF True] Cons by simp
  next
    case False
    with assms Cons have r: "\<not> is_trail_surrogate u" "cp = ucast u" "rest = r" by (auto split: if_splits)
    have u: "unat (ucast u :: u32) = unat u" "unat u < 65536"
      using unsigned_less [of u, where ?'a = nat] by (simp_all add: unat_ucast)
    have "(ucast (ucast u :: u32) :: u16) = u" using u(2) by (simp add: word_unat_eq_iff unat_ucast)
    with u r False Cons show ?thesis
      by (auto simp: utf16_units_def not_scalar_nat lead_nat trail_nat word_le_nat_alt)
  qed
qed (use assms in simp)

definition utf16_text :: "u32 list \<Rightarrow> u16 list" where
  "utf16_text cps = concat (map utf16_units cps)"

lemma utf16_text_simps [simp]: "utf16_text [] = []" "utf16_text (cp # cps) = utf16_units cp @ utf16_text cps"
  by (simp_all add: utf16_text_def)

lemma length_utf16_units: "\<not> not_scalar cp \<Longrightarrow> length (utf16_units cp) = (if cp \<ge> 0x10000 then 2 else 1)"
  by (auto simp: utf16_units_def split: option.splits)

lemma text_Nil_iff: "scalars cps \<Longrightarrow> utf8_text cps = [] \<longleftrightarrow> cps = []" "scalars cps \<Longrightarrow> utf16_text cps = [] \<longleftrightarrow> cps = []"
  using read_encoded(4) by (cases cps; simp; fail) (cases cps; auto simp: utf16_units_def split: option.splits)

text \<open>Every loop, on the encoding of a text.\<close>

lemma utf8_loops:
  assumes "scalars cps"
  shows "utf8_to_utf16_length_loop (utf8_text cps) n = n + length (utf16_text cps)"
    and "utf8_to_utf16_loop (utf8_text cps) out16 = (length out16 + length (utf16_text cps), out16 @ utf16_text cps)"
    and "utf8_to_utf32_length_loop (utf8_text cps) n = n + length cps"
    and "utf8_to_utf32_loop (utf8_text cps) out32 = (length out32 + length cps, out32 @ cps)"
  using assms
proof (induction cps arbitrary: n out16 out32)
  case (Cons cp cps)
  note step = utf8_next_encoded [of cp not_scalar "utf8_text cps"] read_encoded(4) [of cp]
  case 1 show ?case using step Cons 1 length_utf16_units [of cp] by (subst utf8_to_utf16_length_loop.simps) auto
  case 2 show ?case using step Cons 2 by (subst utf8_to_utf16_loop.simps) auto
  case 3 show ?case using step Cons 3 by (subst utf8_to_utf32_length_loop.simps) auto
  case 4 show ?case using step Cons 4 by (subst utf8_to_utf32_loop.simps) auto
qed (simp_all add: utf8_to_utf16_length_loop.simps utf8_to_utf16_loop.simps utf8_to_utf32_length_loop.simps utf8_to_utf32_loop.simps)

lemma utf16_loops:
  assumes "scalars cps"
  shows "utf16_to_utf8_length_loop (utf16_text cps) n = n + length (utf8_text cps)"
    and "utf16_to_utf8_loop (utf16_text cps) out = (length out + length (utf8_text cps), out @ utf8_text cps)"
    and "utf32_to_utf8_length_loop cps n = n + length (utf8_text cps)"
    and "utf32_to_utf8_loop cps out = (length out + length (utf8_text cps), out @ utf8_text cps)"
  using assms
proof (induction cps arbitrary: n out)
  case (Cons cp cps)
  have ne: "utf16_units cp \<noteq> []" by (auto simp: utf16_units_def split: option.splits)
  note step = utf16_next_units [of cp "utf16_text cps"] read_encoded(4) [of cp] encode_length [of cp] ne
  case 1 show ?case using step Cons 1 by (subst utf16_to_utf8_length_loop.simps) auto
  case 2 show ?case using step Cons 2 by (subst utf16_to_utf8_loop.simps) auto
  case 3 show ?case using step Cons 3 by auto
  case 4 show ?case using step Cons 4 by (auto simp: Let_def)
qed (simp_all add: utf16_to_utf8_length_loop.simps utf16_to_utf8_loop.simps)

lemma owned_text:
  assumes "scalars cps"
  shows "utf8_to_utf16_owned (utf8_text cps) = Ok (utf16_text cps)"
    and "utf16_to_utf8_owned (utf16_text cps) = Ok (utf8_text cps)"
  using utf8_loops(1) [OF assms, of 0] utf8_loops(2) [OF assms, of "[]"] utf16_loops(1) [OF assms, of 0] utf16_loops(2) [OF assms, of "[]"] text_Nil_iff [OF assms]
  by (auto simp: utf8_to_utf16_owned_def utf16_to_utf8_owned_def utf8_to_utf16_length_def utf8_to_utf16_def
      utf16_to_utf8_length_def utf16_to_utf8_def filled_def Let_def)


text \<open>The code points of well-formed UTF-16.\<close>

lemma utf16_accepted_text:
  assumes "fst (utf16_to_utf8_loop us out) \<noteq> 0 \<or> us = []"
  shows "\<exists>cps. scalars cps \<and> us = utf16_text cps"
  using assms
proof (induction us out rule: utf16_to_utf8_loop.induct)
  case (1 us out)
  show ?case
  proof (cases "us = []")
    case True
    then show ?thesis by (intro exI [of _ "[]"]) simp
  next
    case False
    with 1(2) obtain cp rest where n: "utf16_next us = Some (cp, rest)"
      "fst (utf16_to_utf8_loop rest (out @ utf8_encode_code_point cp)) \<noteq> 0"
      by (subst (asm) utf16_to_utf8_loop.simps) (auto split: option.splits)
    then obtain cps where "scalars cps" "rest = utf16_text cps"
      using 1(1) [OF False n(1) refl] by blast
    then show ?thesis using utf16_next_inverse [OF n(1)] by (intro exI [of _ "cp # cps"]) simp
  qed
qed

text \<open>What a converter writes, whatever its input.\<close>

lemma utf8_next_consumes:
  assumes "utf8_next not_scalar bs = Some (cp, rest)" and "bs \<noteq> []"
  shows "\<not> not_scalar cp \<and> length rest + length (utf16_units cp) \<le> length bs"
proof -
  let ?len = "utf8_code_point_bytes (hd bs)"
  have n: "?len \<noteq> 0" "?len \<le> length bs" "cp = utf8_decode_code_point bs" "\<not> not_scalar cp" "rest = drop ?len bs"
    using assms(1) by (auto simp: utf8_next_def Let_def split: if_splits)
  have "cp \<ge> 0x10000 \<Longrightarrow> ?len \<noteq> 1"
    using assms(2) by (auto simp: n(3) utf8_decode_code_point_def code_point_bytes_nat hd_conv_nth word_le_nat_alt split: if_splits)
  then show ?thesis using n by (auto simp: length_utf16_units)
qed

lemma utf8_to_utf16_fits:
  "fst (utf8_to_utf16_loop bs out) = utf8_to_utf16_length_loop bs (length out)
   \<and> length (snd (utf8_to_utf16_loop bs out)) \<le> length out + length bs
   \<and> fst (utf8_to_utf16_loop bs out) \<in> {0, length (snd (utf8_to_utf16_loop bs out))}"
proof (induction bs out rule: utf8_to_utf16_loop.induct)
  case (1 bs out)
  show ?case
  proof (cases "bs = [] \<or> utf8_next not_scalar bs = None")
    case True
    then show ?thesis by (auto simp: utf8_to_utf16_loop.simps [of bs] utf8_to_utf16_length_loop.simps [of bs])
  next
    case False
    then obtain cp rest where n: "utf8_next not_scalar bs = Some (cp, rest)" by auto
    with False 1 [OF _ n refl] utf8_next_consumes [OF n] length_utf16_units [of cp] show ?thesis
      by (auto simp: utf8_to_utf16_loop.simps [of bs] utf8_to_utf16_length_loop.simps [of bs])
  qed
qed

lemma utf8_to_utf32_fits:
  "fst (utf8_to_utf32_loop bs out) = utf8_to_utf32_length_loop bs (length out)
   \<and> length (snd (utf8_to_utf32_loop bs out)) \<le> length out + length bs
   \<and> fst (utf8_to_utf32_loop bs out) \<in> {0, length (snd (utf8_to_utf32_loop bs out))}"
proof (induction bs out rule: utf8_to_utf32_loop.induct)
  case (1 bs out)
  show ?case
  proof (cases "bs = [] \<or> utf8_next not_scalar bs = None")
    case True
    then show ?thesis by (auto simp: utf8_to_utf32_loop.simps [of bs] utf8_to_utf32_length_loop.simps [of bs])
  next
    case False
    then obtain cp rest where n: "utf8_next not_scalar bs = Some (cp, rest)" by auto
    with False 1 [OF _ n refl] utf8_next_shorter [OF _ n] show ?thesis
      by (auto simp: utf8_to_utf32_loop.simps [of bs] utf8_to_utf32_length_loop.simps [of bs])
  qed
qed

lemma utf16_to_utf8_fits:
  "fst (utf16_to_utf8_loop us out) = utf16_to_utf8_length_loop us (length out)
   \<and> length (snd (utf16_to_utf8_loop us out)) \<le> length out + 3 * length us
   \<and> fst (utf16_to_utf8_loop us out) \<in> {0, length (snd (utf16_to_utf8_loop us out))}"
proof (induction us out rule: utf16_to_utf8_loop.induct)
  case (1 us out)
  show ?case
  proof (cases "us = [] \<or> utf16_next us = None")
    case True
    then show ?thesis by (auto simp: utf16_to_utf8_loop.simps [of us] utf16_to_utf8_length_loop.simps [of us])
  next
    case False
    then obtain cp rest where n: "utf16_next us = Some (cp, rest)" by auto
    then have cp: "\<not> not_scalar cp" "us = utf16_units cp @ rest" using utf16_next_inverse by auto
    have "utf8_width cp \<le> 3 * length (utf16_units cp)"
      using length_utf16_units [OF cp(1)] by (auto simp: utf8_width_def word_le_nat_alt)
    moreover have "length us = length (utf16_units cp) + length rest" using cp(2) by simp
    ultimately show ?thesis using False 1 [OF _ n refl] encode_length [OF cp(1)] n
      by (auto simp: utf16_to_utf8_loop.simps [of us] utf16_to_utf8_length_loop.simps [of us])
  qed
qed

lemma utf32_to_utf8_fits:
  "fst (utf32_to_utf8_loop cps out) = utf32_to_utf8_length_loop cps (length out)
   \<and> length (snd (utf32_to_utf8_loop cps out)) \<le> length out + 4 * length cps
   \<and> fst (utf32_to_utf8_loop cps out) \<in> {0, length (snd (utf32_to_utf8_loop cps out))}"
proof (induction cps arbitrary: out)
  case (Cons cp cps)
  show ?case
  proof (cases "not_scalar cp")
    case True
    then have "utf8_encode_code_point cp = []"
      by (simp add: utf8_encode_code_point_def not_scalar_def)
    with True show ?thesis by (simp add: Let_def)
  next
    case False
    have "utf8_width cp \<le> 4" by (simp add: utf8_width_def)
    with False Cons.IH [of "out @ utf8_encode_code_point cp"] encode_length [OF False] encode_nonempty [OF False]
    show ?thesis by (auto simp: Let_def)
  qed
qed simp

lemma utf8_to_latin1_fits:
  "fst (utf8_to_latin1_loop bs out) = utf8_to_latin1_length_loop bs (length out)
   \<and> length (snd (utf8_to_latin1_loop bs out)) \<le> length out + length bs
   \<and> fst (utf8_to_latin1_loop bs out) \<in> {UTF8_TO_LATIN1_INVALID, length (snd (utf8_to_latin1_loop bs out))}"
proof (induction bs out rule: utf8_to_latin1_loop.induct)
  case (1 bs out)
  show ?case
  proof (cases "bs = [] \<or> utf8_next (\<lambda>cp. cp > 0x00FF) bs = None")
    case True
    then show ?thesis by (auto simp: utf8_to_latin1_loop.simps [of bs] utf8_to_latin1_length_loop.simps [of bs])
  next
    case False
    then obtain cp rest where n: "utf8_next (\<lambda>cp. cp > 0x00FF) bs = Some (cp, rest)" by auto
    with False 1 [OF _ n refl] utf8_next_shorter [OF _ n] show ?thesis
      by (auto simp: utf8_to_latin1_loop.simps [of bs] utf8_to_latin1_length_loop.simps [of bs])
  qed
qed

text \<open>Latin-1.\<close>

lemma latin1_encode:
  fixes b :: u8
  shows "\<not> not_scalar (ucast b)"
    and "utf8_encode_code_point (ucast b) = (if b < 0x80 then [b] else [0xC0 OR drop_bit 6 b, 0x80 OR (b AND 0x3F)])"
      (is "_ = ?r")
proof -
  define n where "n = unat b"
  have n: "n < 256" using unat_u8_less by (simp add: n_def)
  then show sc: "\<not> not_scalar (ucast b)" by (simp add: not_scalar_nat n_def)
  have "(0xC0 :: u8) = push_bit 6 3" "(0x80 :: u8) = push_bit 6 2" by simp_all
  moreover have "unat (drop_bit 6 b) = n div 64" by (simp add: unat_drop_bit_div n_def)
  moreover have "n div 64 < 4" using n by simp
  ultimately have "map unat ?r = encode_nat n"
    using n unat_push_or [of "drop_bit 6 b" 6 3] unat_push_or [of "b AND 0x3F" 6 2]
    by (simp add: word_less_nat_alt flip: n_def)
  also have "\<dots> = map unat (utf8_encode_code_point (ucast b))"
    using map_unat_encode [OF sc] by (simp add: n_def)
  finally have "map unat (utf8_encode_code_point (ucast b)) = map unat ?r" by (rule sym)
  then show "utf8_encode_code_point (ucast b) = ?r"
    by (rule injD [OF inj_mapI [OF injI], rotated]) (simp add: word_unat_eq_iff)
qed

lemma latin1_to_utf8_text: "latin1_to_utf8 l = (length (utf8_text (map ucast l)), utf8_text (map ucast l))"
proof -
  have "fold (\<lambda>b out. if b < 0x80 then out @ [b] else out @ [0xC0 OR drop_bit 6 b, 0x80 OR (b AND 0x3F)]) l out
      = out @ utf8_text (map ucast l)" for out
    by (induction l arbitrary: out) (simp_all add: latin1_encode(2))
  then show ?thesis by (simp add: latin1_to_utf8_def Let_def)
qed

lemma latin1_length_text: "latin1_to_utf8_length l = length (utf8_text (map ucast l))"
proof -
  have "fold (\<lambda>b n. n + (if b < 0x80 then 1 else 2)) l n = n + length (utf8_text (map ucast l))" for n
    by (induction l arbitrary: n) (simp_all add: latin1_encode(2))
  then show ?thesis by (simp add: latin1_to_utf8_length_def)
qed

lemma latin1_text_bound: "length (utf8_text (map ucast l)) \<le> 2 * length l" for l :: "u8 list"
  by (induction l) (simp_all add: latin1_encode(2))

lemma latin1_loops:
  "utf8_to_latin1_loop (utf8_text (map ucast l)) out = (length out + length l, out @ l)"
  "utf8_to_latin1_length_loop (utf8_text (map ucast l)) n = n + length l"
proof (induction l arbitrary: out n)
  case (Cons b l)
  have "unat b < 256" by (rule unat_u8_less)
  then have "\<not> (ucast b :: u32) > 0xFF" "(ucast (ucast b :: u32) :: u8) = b"
    by (simp_all add: word_less_nat_alt word_unat_eq_iff unat_ucast)
  note step = this utf8_next_encoded [OF latin1_encode(1) [of b], of "\<lambda>cp. cp > 0xFF" "utf8_text (map ucast l)"]
    read_encoded(4) [OF latin1_encode(1) [of b]]
  case 1 show ?case using step Cons by (subst utf8_to_latin1_loop.simps) simp
  case 2 show ?case using step Cons by (subst utf8_to_latin1_length_loop.simps) simp
qed (simp_all add: utf8_to_latin1_loop.simps utf8_to_latin1_length_loop.simps)

lemma narrow_loops:
  "utf16_to_latin1_loop (map ucast l) out = Ok (out @ l)"
  "ascii_is_valid l \<Longrightarrow> utf16_to_ascii_loop (map ucast l) out = Ok (out @ l)"
proof -
  have w: "unat (ucast b :: u16) = unat b" "(ucast (ucast b :: u16) :: u8) = b" for b :: u8
    using unat_u8_less [of b] by (simp_all add: unat_ucast word_unat_eq_iff)
  show "utf16_to_latin1_loop (map ucast l) out = Ok (out @ l)"
    by (induction l arbitrary: out) (auto simp: w word_less_nat_alt not_less less_Suc_eq_le [symmetric] unat_u8_less)
  show "ascii_is_valid l \<Longrightarrow> utf16_to_ascii_loop (map ucast l) out = Ok (out @ l)"
    by (induction l arbitrary: out) (auto simp: w word_le_nat_alt ascii_is_valid_def)
qed

section \<open>Properties\<close>

text \<open>C21: utf8_is_valid accepts exactly the byte strings that are the UTF-8 encoding of a
  sequence of Unicode scalar values; utf8_count_code_points returns their number, and on any
  other input returns 0 and reports a position inside it.\<close>

theorem utf8_is_valid_iff:
  "(utf8_is_valid data \<longleftrightarrow> (\<exists>cps. scalars cps \<and> data = utf8_text cps))
   \<and> (case utf8_count_code_points data of
        (n, None) \<Rightarrow> (\<exists>cps. scalars cps \<and> data = utf8_text cps \<and> n = length cps)
      | (n, Some p) \<Rightarrow> \<not> utf8_is_valid data \<and> n = 0 \<and> p < length data)"
proof (cases "utf8_is_valid data")
  case True
  then obtain cps where "scalars cps" "data = utf8_text cps" using valid_is_text by blast
  then show ?thesis using count_text [of cps 0 0] True by (auto simp: utf8_count_code_points_def)
next
  case False
  then show ?thesis using count_invalid [of data 0 0] valid_text by (auto simp: utf8_count_code_points_def)
qed

text \<open>C22: For every text of Unicode scalar values, UTF-8 to UTF-16 to UTF-8 and UTF-8 to
  UTF-32 to UTF-8 give the text back, through the owning converters and through the ones that
  fill a buffer; and whatever UTF-16 the converter to UTF-8 accepts, converting back returns it.\<close>

theorem utf_roundtrip:
  assumes "scalars cps"
  shows "utf8_to_utf16_owned (utf8_text cps) = Ok (utf16_text cps) \<and> utf16_to_utf8_owned (utf16_text cps) = Ok (utf8_text cps)
    \<and> utf8_to_utf32 (utf8_text cps) = (length cps, cps) \<and> utf32_to_utf8 cps = (length (utf8_text cps), utf8_text cps)
    \<and> utf8_to_utf32_length (utf8_text cps) = length cps \<and> utf32_to_utf8_length cps = length (utf8_text cps)"
  using owned_text [OF assms] utf8_loops(3) [OF assms, of 0] utf8_loops(4) [OF assms, of "[]"]
    utf16_loops(3) [OF assms, of 0] utf16_loops(4) [OF assms, of "[]"]
  by (simp add: utf8_to_utf32_def utf32_to_utf8_def utf8_to_utf32_length_def utf32_to_utf8_length_def)

theorem utf_roundtrip_witness:
  "utf8_to_utf16_owned (utf8_text [0x41, 0x1F600]) = Ok (utf16_text [0x41, 0x1F600])"
  using utf_roundtrip [of "[0x41, 0x1F600]"] by (simp add: not_scalar_def)

text \<open>C23: UTF-16 input is accepted by utf16_to_utf8 only if every surrogate is paired; the
  result is then valid UTF-8 that utf8_to_utf16 turns back into the input.\<close>

theorem utf16_accepted_roundtrip:
  assumes "utf16_to_utf8_owned us = Ok bs"
  shows "utf8_is_valid bs \<and> utf8_to_utf16_owned bs = Ok us"
proof -
  have "fst (utf16_to_utf8_loop us []) \<noteq> 0 \<or> us = []"
    using assms by (auto simp: utf16_to_utf8_owned_def utf16_to_utf8_def Let_def split: if_splits prod.splits)
  then obtain cps where "scalars cps" "us = utf16_text cps" using utf16_accepted_text by blast
  then show ?thesis using owned_text assms valid_text by auto
qed

theorem utf16_accepted_roundtrip_witness:
  "utf8_is_valid [0x41] \<and> utf8_to_utf16_owned [0x41] = Ok [0x41]"
  by (rule utf16_accepted_roundtrip [of "[0x41]"])
     (simp add: utf16_to_utf8_owned_def utf16_to_utf8_length_def utf16_to_utf8_def utf16_to_utf8_length_loop.simps
       utf16_to_utf8_loop.simps is_lead_surrogate_def is_trail_surrogate_def utf8_width_def utf8_encode_code_point_def filled_def)

text \<open>
  What a buffer converter returned, and the units it wrote, against what its length function
  computed: \<open>invalid\<close> is the value both return for a rejected input, and \<open>bound\<close> how many
  units may have been written, before a rejection too.
\<close>

definition sized :: "usize \<Rightarrow> usize \<Rightarrow> usize \<Rightarrow> usize \<times> 'w list \<Rightarrow> bool" where
  "sized invalid len bound r \<longleftrightarrow>
     fst r = len \<and> (len \<noteq> invalid \<longrightarrow> length (snd r) = len) \<and> length (snd r) \<le> bound"

text \<open>C24: On every input, valid or not, each of the six buffer converters returns what its length
  function computes; unless that is the value for a rejected input, it has written exactly that
  many units; and a converter that rejects its input has written no more than the input has
  units (reading UTF-8), three times (UTF-16), four times (UTF-32) or twice (Latin-1) as many.
  The owning converters, which allocate the computed length, never report a disagreement of
  the two, and return exactly what the buffer converter wrote.\<close>

theorem converters_fit:
  "sized 0 (utf8_to_utf16_length bs) (length bs) (utf8_to_utf16 bs)
   \<and> sized 0 (utf16_to_utf8_length us) (3 * length us) (utf16_to_utf8 us)
   \<and> sized 0 (utf8_to_utf32_length bs) (length bs) (utf8_to_utf32 bs)
   \<and> sized 0 (utf32_to_utf8_length cps) (4 * length cps) (utf32_to_utf8 cps)
   \<and> sized UTF8_TO_LATIN1_INVALID (utf8_to_latin1_length bs) (length bs) (utf8_to_latin1 bs)
   \<and> sized UTF8_TO_LATIN1_INVALID (latin1_to_utf8_length bs) (2 * length bs) (latin1_to_utf8 bs)
   \<and> (case utf8_to_utf16_owned bs of Ok out \<Rightarrow> utf8_to_utf16 bs = (length out, out)
      | Err e \<Rightarrow> e = invalid_sequence ''utf8_to_utf16: invalid UTF-8 sequence'' \<and> fst (utf8_to_utf16 bs) = 0)
   \<and> (case utf16_to_utf8_owned us of Ok out \<Rightarrow> utf16_to_utf8 us = (length out, out)
      | Err e \<Rightarrow> e = invalid_sequence ''utf16_to_utf8: unpaired surrogate'' \<and> fst (utf16_to_utf8 us) = 0)"
proof (intro conjI)
  show s16: "sized 0 (utf8_to_utf16_length bs) (length bs) (utf8_to_utf16 bs)"
    using utf8_to_utf16_fits [of bs "[]"] by (auto simp: sized_def utf8_to_utf16_def utf8_to_utf16_length_def)
  show s8: "sized 0 (utf16_to_utf8_length us) (3 * length us) (utf16_to_utf8 us)"
    using utf16_to_utf8_fits [of us "[]"] by (auto simp: sized_def utf16_to_utf8_def utf16_to_utf8_length_def)
  show "sized 0 (utf8_to_utf32_length bs) (length bs) (utf8_to_utf32 bs)"
    using utf8_to_utf32_fits [of bs "[]"] by (auto simp: sized_def utf8_to_utf32_def utf8_to_utf32_length_def)
  show "sized 0 (utf32_to_utf8_length cps) (4 * length cps) (utf32_to_utf8 cps)"
    using utf32_to_utf8_fits [of cps "[]"] by (auto simp: sized_def utf32_to_utf8_def utf32_to_utf8_length_def)
  show "sized UTF8_TO_LATIN1_INVALID (utf8_to_latin1_length bs) (length bs) (utf8_to_latin1 bs)"
    using utf8_to_latin1_fits [of bs "[]"] by (auto simp: sized_def utf8_to_latin1_def utf8_to_latin1_length_def)
  show "sized UTF8_TO_LATIN1_INVALID (latin1_to_utf8_length bs) (2 * length bs) (latin1_to_utf8 bs)"
    using latin1_text_bound [of bs] by (simp add: sized_def latin1_to_utf8_text latin1_length_text)
  show "case utf8_to_utf16_owned bs of Ok out \<Rightarrow> utf8_to_utf16 bs = (length out, out)
      | Err e \<Rightarrow> e = invalid_sequence ''utf8_to_utf16: invalid UTF-8 sequence'' \<and> fst (utf8_to_utf16 bs) = 0"
    using s16 by (cases "utf8_to_utf16 bs")
      (auto simp: utf8_to_utf16_owned_def sized_def filled_def Let_def utf8_to_utf16_def utf8_to_utf16_loop.simps)
  show "case utf16_to_utf8_owned us of Ok out \<Rightarrow> utf16_to_utf8 us = (length out, out)
      | Err e \<Rightarrow> e = invalid_sequence ''utf16_to_utf8: unpaired surrogate'' \<and> fst (utf16_to_utf8 us) = 0"
    using s8 by (cases "utf16_to_utf8 us")
      (auto simp: utf16_to_utf8_owned_def sized_def filled_def Let_def utf16_to_utf8_def utf16_to_utf8_loop.simps)
qed

text \<open>
  A rejected input is the reason for the bounds: the length function says 0, and the converter
  has written a unit all the same, beyond a buffer of the documented size.
\<close>

lemma rejected_input_written:
  "utf8_to_utf16_length [0x41, 0xFF] = 0" "utf8_to_utf16 [0x41, 0xFF] = (0, [0x41])"
  by (simp_all add: utf8_to_utf16_length_def utf8_to_utf16_def utf8_to_utf16_length_loop.simps
      utf8_to_utf16_loop.simps utf8_next_def utf8_code_point_bytes_def utf8_valid_continuation_def
      utf8_decode_code_point_def not_scalar_def utf16_units_def Let_def)

text \<open>C25: Every Latin-1 string survives the way to UTF-8 and back and to UTF-16 and back;
  its UTF-8 form is the encoding of its bytes as code points, of the computed length; an ASCII
  string survives the way to UTF-16 and back, and one with a byte above 127 is rejected.\<close>

theorem latin1_roundtrip:
  "latin1_to_utf8 l = (latin1_to_utf8_length l, utf8_text (map ucast l))
   \<and> utf8_to_latin1 (snd (latin1_to_utf8 l)) = (length l, l)
   \<and> utf8_to_latin1_length (snd (latin1_to_utf8 l)) = length l
   \<and> and_then (latin1_to_utf16 l) utf16_to_latin1 = Ok l
   \<and> (if ascii_is_valid l then and_then (ascii_to_utf16 l) utf16_to_ascii = Ok l else is_err (ascii_to_utf16 l))"
  using latin1_loops [of l]
  by (simp add: latin1_to_utf8_text latin1_length_text utf8_to_latin1_def utf8_to_latin1_length_def latin1_to_utf16_def
      ascii_to_utf16_def utf16_to_latin1_def utf16_to_ascii_def narrow_loops and_then_def is_err_def)

text \<open>
  The converters do not reject overlong sequences, which \<open>utf8_is_valid\<close> does: two bytes
  for U+0000 count as one code point.
\<close>

lemma overlong_accepted:
  "utf8_to_utf32 [0xC0, 0x80] = (1, [0]) \<and> utf8_to_utf16_owned [0xC0, 0x80] = Ok [0] \<and> \<not> utf8_is_valid [0xC0, 0x80]"
proof (intro conjI)
  have n: "utf8_next not_scalar [0xC0, 0x80] = Some (0, [])"
    by (simp add: utf8_next_def code_point_bytes_nat utf8_valid_continuation_def utf8_decode_code_point_def not_scalar_def)
  then show "utf8_to_utf32 [0xC0, 0x80] = (1, [0])"
    by (simp add: utf8_to_utf32_def utf8_to_utf32_loop.simps)
  show "utf8_to_utf16_owned [0xC0, 0x80] = Ok [0]"
    by (simp add: utf8_to_utf16_owned_def utf8_to_utf16_length_def utf8_to_utf16_def utf8_to_utf16_length_loop.simps
        utf8_to_utf16_loop.simps n utf16_units_def filled_def)
  show "\<not> utf8_is_valid [0xC0, 0x80]"
    by (subst utf8_is_valid.simps) (simp add: code_point_bytes_nat utf8_sequence_valid_def utf8_sequence_value_def)
qed

end
