(* ===== verification/Csv_Props.thy ===== *)
theory Csv_Props
  imports Csv Str_Utf8_Props
begin

text \<open>
  The round trip of CSV: a written field, row and table is scanned back to what was
  written; and where an error is reported.
\<close>

section \<open>Scanning one field\<close>

text \<open>The part of the reader's state that decides the result.\<close>

definition reading :: "reader \<Rightarrow> CsvRow list \<Rightarrow> CsvRow \<Rightarrow> field \<Rightarrow> bool \<Rightarrow> bool \<Rightarrow> bool" where
  "reading s rows row fld inq quoted \<longleftrightarrow> parsed_rows s = rows \<and> current_row s = row \<and> current_field s = fld
     \<and> in_quotes s = inq \<and> field_was_quoted s = quoted"

text \<open>A scanned prefix leads to a state from which the scan goes on with the rest.\<close>

definition leads_to :: "CsvReaderOptions \<Rightarrow> u8 list \<Rightarrow> u8 list \<Rightarrow> reader \<Rightarrow> (reader \<Rightarrow> bool) \<Rightarrow> bool" where
  "leads_to opts pre rest s Q \<longleftrightarrow> (\<exists>s'. scan opts (pre @ rest) s = scan opts rest s' \<and> saw_any_char s' = (saw_any_char s \<or> pre \<noteq> []) \<and> Q s')"

lemma leads_to_Nil: "Q s \<Longrightarrow> leads_to opts [] rest s Q"
  by (auto simp: leads_to_def)

lemma leads_to_step:
  assumes "scan_step opts ch (pre @ rest) s = Ok (s', pre' @ rest)" and "saw_any_char s'"
    and "leads_to opts pre' rest s' Q"
  shows "leads_to opts (ch # pre) rest s Q"
  using assms by (auto simp: leads_to_def)

lemma leads_to_append:
  assumes "leads_to opts pre (pre' @ rest) s Q" and "\<And>s'. Q s' \<Longrightarrow> leads_to opts pre' rest s' Q'"
  shows "leads_to opts (pre @ pre') rest s Q'"
  using assms unfolding leads_to_def by fastforce

lemma leads_to_mono:
  assumes "leads_to opts pre rest s Q"
    and "\<And>s'. Q s' \<Longrightarrow> saw_any_char s' = (saw_any_char s \<or> pre \<noteq> []) \<Longrightarrow> Q' s'"
  shows "leads_to opts pre rest s Q'"
  using assms by (auto simp: leads_to_def)

lemma scan_plain:
  assumes "reading s rows row g False False"
    and "\<forall>ch \<in> set f. ch \<noteq> delimiter opts \<and> ch \<noteq> quote opts \<and> ch \<noteq> CR \<and> ch \<noteq> LF"
  shows "leads_to opts f rest s (\<lambda>s'. reading s' rows row (g @ f) False False)"
  using assms
proof (induction f arbitrary: s g)
  case Nil
  then show ?case by (simp add: leads_to_Nil)
next
  case (Cons ch f)
  let ?s = "s\<lparr>saw_any_char := True, current_field := g @ [ch], column := column s + 1\<rparr>"
  show ?case
  proof (rule leads_to_step)
    show "scan_step opts ch (f @ rest) s = Ok (?s, f @ rest)"
      using Cons.prems by (simp add: scan_step_def reading_def)
    show "leads_to opts f rest ?s (\<lambda>s'. reading s' rows row (g @ ch # f) False False)"
      using Cons.IH [of ?s "g @ [ch]"] Cons.prems by (simp add: reading_def)
  qed simp
qed

definition escaped :: "u8 \<Rightarrow> field \<Rightarrow> u8 list" where
  "escaped q f = concat (map (\<lambda>ch. if ch = q then [q, ch] else [ch]) f)"

lemma scan_quoted:
  assumes "reading s rows row g True True" and "rest = [] \<or> hd rest \<noteq> quote opts"
  shows "leads_to opts (escaped (quote opts) f @ [quote opts]) rest s (\<lambda>s'. reading s' rows row (g @ f) False True)"
  using assms
proof (induction f arbitrary: s g)
  case Nil
  let ?s = "s\<lparr>saw_any_char := True, in_quotes := False, column := column s + 1\<rparr>"
  have "scan_step opts (quote opts) ([] @ rest) s = Ok (?s, [] @ rest)"
    using Nil by (auto simp: scan_step_def reading_def Let_def split: list.splits)
  then have "leads_to opts [quote opts] rest s (\<lambda>s'. reading s' rows row g False True)"
    by (rule leads_to_step) (use Nil in \<open>auto simp: reading_def intro: leads_to_Nil\<close>)
  then show ?case by (simp add: escaped_def)
next
  case (Cons ch f)
  let ?rest = "escaped (quote opts) f @ [quote opts]"
  show ?case
  proof (cases "ch = quote opts")
    case True
    let ?s = "s\<lparr>saw_any_char := True, current_field := g @ [ch], column := column s + 1 + 1\<rparr>"
    have "leads_to opts (quote opts # ch # ?rest) rest s (\<lambda>s'. reading s' rows row (g @ ch # f) False True)"
    proof (rule leads_to_step)
      show "scan_step opts (quote opts) ((ch # ?rest) @ rest) s = Ok (?s, ?rest @ rest)"
        using Cons.prems True by (simp add: scan_step_def reading_def)
      show "leads_to opts ?rest rest ?s (\<lambda>s'. reading s' rows row (g @ ch # f) False True)"
        using Cons.IH [of ?s "g @ [ch]"] Cons.prems by (simp add: reading_def)
    qed simp
    then show ?thesis using True by (simp add: escaped_def)
  next
    case False
    let ?s = "(let s = s\<lparr>saw_any_char := True, current_field := g @ [ch]\<rparr>;
        s = (if ch = LF then s\<lparr>line := line s + 1, column := 0\<rparr> else s) in s\<lparr>column := column s + 1\<rparr>)"
    have "leads_to opts (ch # ?rest) rest s (\<lambda>s'. reading s' rows row (g @ ch # f) False True)"
    proof (rule leads_to_step)
      show "scan_step opts ch (?rest @ rest) s = Ok (?s, ?rest @ rest)"
        using Cons.prems False by (simp add: scan_step_def reading_def Let_def)
      show "leads_to opts ?rest rest ?s (\<lambda>s'. reading s' rows row (g @ ch # f) False True)"
        using Cons.IH [of ?s "g @ [ch]"] Cons.prems by (simp add: reading_def Let_def)
    qed (simp add: Let_def)
    then show ?thesis using False by (simp add: escaped_def)
  qed
qed


text \<open>Reader and writer options that agree; the line ending is one the reader knows.\<close>

definition agree :: "CsvReaderOptions \<Rightarrow> CsvWriterOptions \<Rightarrow> bool" where
  "agree r w \<longleftrightarrow> delimiter r = w_delimiter w \<and> quote r = w_quote w \<and> delimiter r \<noteq> quote r
     \<and> \<not> is_reserved_char (delimiter r) \<and> \<not> is_reserved_char (quote r)
     \<and> line_ending w \<in> {[LF], [CR], [CR, LF]}"

text \<open>The presets of the two classes agree.\<close>

lemma presets_agree:
  "agree csv_reader_options csv_writer_options" "agree tsv_reader_options tsv_writer_options"
  "c \<notin> {34, CR, LF, 0} \<Longrightarrow> agree (delimited_reader_options c) (delimited_writer_options c)"
  by (simp_all add: agree_def csv_reader_options_def csv_writer_options_def tsv_reader_options_def tsv_writer_options_def
      delimited_reader_options_def delimited_writer_options_def is_reserved_char_def)

lemma agree_chars:
  assumes "agree r w"
  shows "delimiter r = w_delimiter w" "quote r = w_quote w" "w_delimiter w \<noteq> w_quote w"
    "w_delimiter w \<noteq> CR" "w_delimiter w \<noteq> LF" "w_quote w \<noteq> CR" "w_quote w \<noteq> LF"
  using assms by (auto simp: agree_def is_reserved_char_def)

text \<open>What ends a field and what ends a row in the output.\<close>

definition field_end :: "CsvWriterOptions \<Rightarrow> u8 list \<Rightarrow> bool" where
  "field_end w rest \<longleftrightarrow> rest = [] \<or> hd rest \<in> {w_delimiter w, CR, LF}"

lemma trim_id: "f = [] \<or> \<not> is_trim_space (hd f) \<and> \<not> is_trim_space (last f) \<Longrightarrow> trim_ascii_space f = f"
proof -
  assume a: "f = [] \<or> \<not> is_trim_space (hd f) \<and> \<not> is_trim_space (last f)"
  have d: "dropWhile P xs = xs" if "xs = [] \<or> \<not> P (hd xs)" for P and xs :: "u8 list"
    using that by (cases xs) auto
  have "dropWhile is_trim_space f = f" "dropWhile is_trim_space (rev f) = rev f"
    using a by (auto intro!: d simp: hd_rev)
  then show ?thesis by (simp add: trim_ascii_space_def)
qed

lemma unquoted_chars:
  assumes "\<not> needs_quote f w"
  shows "\<forall>ch \<in> set f. ch \<noteq> w_delimiter w \<and> ch \<noteq> w_quote w \<and> ch \<noteq> CR \<and> ch \<noteq> LF" "trim_ascii_space f = f"
proof -
  show chars: "\<forall>ch \<in> set f. ch \<noteq> w_delimiter w \<and> ch \<noteq> w_quote w \<and> ch \<noteq> CR \<and> ch \<noteq> LF"
    using assms by (cases "f = []") (auto simp: needs_quote_def split: if_splits)
  have "f \<noteq> [] \<Longrightarrow> \<not> is_trim_space (hd f) \<and> \<not> is_trim_space (last f)"
    using assms chars hd_in_set [of f] last_in_set [of f]
    by (auto simp: needs_quote_def is_trim_space_def split: if_splits)
  then show "trim_ascii_space f = f" by (intro trim_id) blast
qed

text \<open>After a written field, finishing it appends exactly that field.\<close>

definition holds_field :: "CsvWriterOptions \<Rightarrow> CsvRow list \<Rightarrow> CsvRow \<Rightarrow> field \<Rightarrow> reader \<Rightarrow> bool" where
  "holds_field w rows row f s \<longleftrightarrow> reading s rows row f False (needs_quote f w)"

lemma scan_field:
  assumes "agree r w" and "reading s rows row [] False False" and "field_end w rest"
  shows "leads_to r (write_field w f) rest s (holds_field w rows row f)"
proof (cases "needs_quote f w")
  case False
  note a = agree_chars [OF assms(1)]
  have "leads_to r f rest s (\<lambda>s'. reading s' rows row ([] @ f) False False)"
    using unquoted_chars(1) [OF False] by (intro scan_plain assms(2)) (simp add: a)
  then show ?thesis using False by (simp add: write_field_def holds_field_def [abs_def])
next
  case True
  note a = agree_chars [OF assms(1)]
  let ?s = "s\<lparr>saw_any_char := True, in_quotes := True, field_was_quoted := True, column := column s + 1\<rparr>"
  have end_quote: "rest = [] \<or> hd rest \<noteq> quote r"
    using assms(3) a by (auto simp: field_end_def)
  have "leads_to r (quote r # (escaped (quote r) f @ [quote r])) rest s (\<lambda>s'. reading s' rows row f False True)"
  proof (rule leads_to_step)
    show "scan_step r (quote r) ((escaped (quote r) f @ [quote r]) @ rest) s = Ok (?s, (escaped (quote r) f @ [quote r]) @ rest)"
      using assms(2) by (simp add: scan_step_def reading_def)
    show "leads_to r (escaped (quote r) f @ [quote r]) rest ?s (\<lambda>s'. reading s' rows row f False True)"
      using scan_quoted [of ?s rows row "[]" rest r f] assms(2) end_quote by (simp add: reading_def)
  qed simp
  then show ?thesis using True a by (simp add: write_field_def holds_field_def [abs_def] escaped_def)
qed

lemma finish_field_holds:
  assumes "agree r w" and "holds_field w rows row f s"
  shows "reading (finish_field r s) rows (row @ [f]) [] False False" "saw_any_char (finish_field r s) = saw_any_char s"
  using assms(2) unquoted_chars(2) [of f w]
  by (auto simp: holds_field_def reading_def finish_field_def)

section \<open>Scanning rows\<close>

text \<open>
  The state at the end of a row's text: finishing the row appends it, and the reader knows
  at the end of the input that there is a row to finish.
\<close>

definition holds_row :: "CsvReaderOptions \<Rightarrow> CsvRow list \<Rightarrow> CsvRow \<Rightarrow> reader \<Rightarrow> bool" where
  "holds_row r rows fs s \<longleftrightarrow> \<not> in_quotes s \<and> reading (finish_row r s) (rows @ [fs]) [] [] False False"

definition row_pending :: "reader \<Rightarrow> bool" where
  "row_pending s \<longleftrightarrow> saw_any_char s \<and> (current_field s \<noteq> [] \<or> current_row s \<noteq> [] \<or> field_was_quoted s)"

lemma holds_field_row:
  assumes "agree r w" and "holds_field w rows row f s"
  shows "holds_row r rows (row @ [f]) s"
proof -
  have "in_quotes s = False" using assms(2) by (auto simp: holds_field_def reading_def)
  then show ?thesis using finish_field_holds(1) [OF assms] by (simp add: holds_row_def finish_row_def reading_def Let_def)
qed

lemma write_field_Nil: "write_field w f = [] \<longleftrightarrow> f = [] \<and> \<not> always_quote w"
  by (auto simp: write_field_def needs_quote_def)

lemma scan_row:
  assumes "agree r w" and "fs \<noteq> []" and "rest = [] \<or> hd rest \<in> {CR, LF}"
    and "reading s rows row [] False False" and "row \<noteq> [] \<Longrightarrow> saw_any_char s"
  shows "leads_to r (write_row w fs) rest s
    (\<lambda>s'. holds_row r rows (row @ fs) s' \<and> (row_pending s' \<or> row = [] \<and> fs = [[]] \<and> \<not> always_quote w))"
  using assms(2,4,5)
proof (induction fs arbitrary: s row)
  case (Cons f fs)
  note a = agree_chars [OF assms(1)]
  show ?case
  proof (cases "fs = []")
    case True
    have "leads_to r (write_field w f) rest s (holds_field w rows row f)"
      using assms(3) by (intro scan_field [OF assms(1) Cons.prems(2)]) (auto simp: field_end_def)
    then have "leads_to r (write_field w f) rest s
        (\<lambda>s'. holds_row r rows (row @ [f]) s' \<and> (row_pending s' \<or> row = [] \<and> [f] = [[]] \<and> \<not> always_quote w))"
    proof (rule leads_to_mono)
      fix s' assume s': "holds_field w rows row f s'" "saw_any_char s' = (saw_any_char s \<or> write_field w f \<noteq> [])"
      then have "row_pending s' \<or> row = [] \<and> [f] = [[]] \<and> \<not> always_quote w"
        using Cons.prems(3)
        by (auto simp: row_pending_def holds_field_def reading_def write_field_Nil needs_quote_def)
      then show "holds_row r rows (row @ [f]) s' \<and> (row_pending s' \<or> row = [] \<and> [f] = [[]] \<and> \<not> always_quote w)"
        using holds_field_row [OF assms(1) s'(1)] by blast
    qed
    then show ?thesis using True by simp
  next
    case False
    let ?Q = "\<lambda>s'. holds_row r rows (row @ f # fs) s' \<and> (row_pending s' \<or> row = [] \<and> f # fs = [[]] \<and> \<not> always_quote w)"
    have "leads_to r (write_field w f @ (w_delimiter w # write_row w fs)) rest s ?Q"
    proof (rule leads_to_append)
      show "leads_to r (write_field w f) ((w_delimiter w # write_row w fs) @ rest) s (holds_field w rows row f)"
        by (intro scan_field [OF assms(1) Cons.prems(2)]) (simp add: field_end_def)
    next
      fix s' assume s': "holds_field w rows row f s'"
      let ?s = "finish_field r (s'\<lparr>saw_any_char := True\<rparr>)"
      have h: "holds_field w rows row f (s'\<lparr>saw_any_char := True\<rparr>)"
        using s' by (simp add: holds_field_def reading_def)
      show "leads_to r (w_delimiter w # write_row w fs) rest s' ?Q"
      proof (rule leads_to_step)
        show "scan_step r (w_delimiter w) (write_row w fs @ rest) s' = Ok (?s\<lparr>column := column ?s + 1\<rparr>, write_row w fs @ rest)"
          using s' a by (simp add: scan_step_def holds_field_def reading_def Let_def)
        have "reading (?s\<lparr>column := column ?s + 1\<rparr>) rows (row @ [f]) [] False False"
          using finish_field_holds(1) [OF assms(1) h] by (simp add: reading_def)
        note IH = Cons.IH [OF False this]
        show saw: "saw_any_char (?s\<lparr>column := column ?s + 1\<rparr>)"
          using finish_field_holds(2) [OF assms(1) h] by simp
        show "leads_to r (write_row w fs) rest (?s\<lparr>column := column ?s + 1\<rparr>) ?Q"
          by (rule leads_to_mono [OF IH]) (use saw in simp_all)
      qed
    qed
    then show ?thesis using False by (cases fs) simp_all
  qed
qed simp


lemma scan_line_ending:
  assumes "agree r w" and "holds_row r rows fs s" and "line_ending w = [CR] \<Longrightarrow> rest = [] \<or> hd rest \<noteq> LF"
  shows "leads_to r (line_ending w) rest s (\<lambda>s'. reading s' (rows @ [fs]) [] [] False False)"
proof -
  let ?s = "(finish_row r (s\<lparr>saw_any_char := True\<rparr>))\<lparr>line := line s + 1, column := 1\<rparr>"
  note a = agree_chars [OF assms(1)]
  have s: "\<not> in_quotes s" "reading (finish_row r s) (rows @ [fs]) [] [] False False"
    using assms(2) by (simp_all add: holds_row_def)
  have fin: "reading ?s (rows @ [fs]) [] [] False False" "saw_any_char ?s" "line (finish_row r (s\<lparr>saw_any_char := True\<rparr>)) = line s"
    using s(2) by (auto simp: finish_row_def finish_field_def reading_def Let_def)
  have nil: "leads_to r [] rest ?s (\<lambda>s'. reading s' (rows @ [fs]) [] [] False False)"
    by (rule leads_to_Nil) (rule fin(1))
  have step: "scan_step r c l s = Ok (?s, if c = CR \<and> l \<noteq> [] \<and> hd l = LF then tl l else l)" if "c = CR \<or> c = LF" for c l
    using that s(1) a fin(3) by (auto simp: scan_step_def Let_def)
  have "line_ending w \<in> {[LF], [CR], [CR, LF]}" using assms(1) by (simp add: agree_def)
  then consider "line_ending w = [LF]" | "line_ending w = [CR]" | "line_ending w = [CR, LF]" by blast
  then show ?thesis
  proof cases
    case 1
    have "scan_step r LF ([] @ rest) s = Ok (?s, [] @ rest)" by (simp add: step)
    from leads_to_step [where pre = "[]" and pre' = "[]", OF this fin(2) nil]
    show ?thesis unfolding 1 .
  next
    case 2
    have "scan_step r CR ([] @ rest) s = Ok (?s, [] @ rest)" using assms(3) [OF 2] by (auto simp: step)
    from leads_to_step [where pre = "[]" and pre' = "[]", OF this fin(2) nil]
    show ?thesis unfolding 2 .
  next
    case 3
    have "scan_step r CR ([LF] @ rest) s = Ok (?s, [] @ rest)" by (simp add: step)
    from leads_to_step [where pre = "[LF]" and pre' = "[]", OF this fin(2) nil]
    show ?thesis unfolding 3 .
  qed
qed

text \<open>The text of a list of rows.\<close>

fun rows_text :: "CsvWriterOptions \<Rightarrow> CsvRow list \<Rightarrow> u8 list" where
  "rows_text w [] = []"
| "rows_text w [r] = write_row w r"
| "rows_text w (r # r' # rs) = write_row w r @ line_ending w @ rows_text w (r' # rs)"

definition written_rows :: "CsvDocument \<Rightarrow> CsvWriterOptions \<Rightarrow> CsvRow list" where
  "written_rows d w = (if write_header w \<and> has_header d then [header_fields d] else []) @ doc_rows d"

lemma rows_text_snoc: "rs \<noteq> [] \<Longrightarrow> rows_text w (rs @ [r]) = rows_text w rs @ line_ending w @ write_row w r"
  by (induction w rs rule: rows_text.induct) auto

lemma write_to_stream_text: "write_to_stream d w = rows_text w (written_rows d w)"
proof -
  have f: "fold (\<lambda>row (output, wrote_row). (output @ (if wrote_row then line_ending w else []) @ write_row w row, True))
      rs (rows_text w hs, hs \<noteq> []) = (rows_text w (hs @ rs), hs @ rs \<noteq> [])" for hs rs
  proof (induction rs arbitrary: hs)
    case (Cons r rs)
    then show ?case using Cons.IH [of "hs @ [r]"] by (cases "hs = []") (simp_all add: rows_text_snoc)
  qed simp
  show ?thesis
    using f [of "doc_rows d" "[]"] f [of "doc_rows d" "[header_fields d]"]
    by (auto simp: write_to_stream_def written_rows_def)
qed

lemma write_row_first:
  assumes "agree r w"
  shows "write_row w fs = [] \<or> hd (write_row w fs) \<noteq> LF"
proof -
  note a = agree_chars [OF assms]
  have f: "write_field w f = [] \<or> hd (write_field w f) \<noteq> LF" for f
  proof (cases "needs_quote f w")
    case False
    then have "write_field w f = f" by (simp add: write_field_def)
    then show ?thesis using unquoted_chars(1) [OF False] hd_in_set [of f] by metis
  qed (simp add: write_field_def a)
  show ?thesis
  proof (cases fs)
    case (Cons g gs)
    show ?thesis
    proof (cases "gs = []")
      case False
      then have "write_row w fs = write_field w g @ w_delimiter w # write_row w gs" using Cons by (cases gs) auto
      then show ?thesis using f [of g] a by (cases "write_field w g = []") simp_all
    qed (use Cons f [of g] in simp)
  qed simp
qed

lemma rows_text_first:
  assumes "agree r w"
  shows "rows_text w rs = [] \<or> hd (rows_text w rs) \<noteq> LF \<or> line_ending w \<noteq> [CR]"
proof (cases rs)
  case (Cons g gs)
  show ?thesis
  proof (cases "gs = []")
    case False
    then have "rows_text w rs = write_row w g @ line_ending w @ rows_text w gs" using Cons by (cases gs) auto
    then show ?thesis using write_row_first [OF assms, of g] by (cases "write_row w g = []") auto
  qed (use Cons write_row_first [OF assms, of g] in auto)
qed simp


text \<open>A whole table: every row but the last is already parsed, the last is held.\<close>

lemma scan_rows:
  assumes "agree r w" and "\<forall>fs \<in> set rs. fs \<noteq> []" and "rs \<noteq> []" and "reading s rows [] [] False False"
  shows "leads_to r (rows_text w rs) [] s
    (\<lambda>s'. holds_row r (rows @ butlast rs) (last rs) s' \<and> (row_pending s' \<or> last rs = [[]] \<and> \<not> always_quote w))"
  using assms(2-4)
proof (induction rs arbitrary: s rows)
  case (Cons fs rs)
  show ?case
  proof (cases "rs = []")
    case True
    have "leads_to r (write_row w fs) [] s
        (\<lambda>s'. holds_row r rows ([] @ fs) s' \<and> (row_pending s' \<or> [] = ([] :: CsvRow) \<and> fs = [[]] \<and> \<not> always_quote w))"
      using Cons.prems by (intro scan_row [OF assms(1)]) auto
    then show ?thesis using True by simp
  next
    case False
    let ?Q = "\<lambda>s'. holds_row r (rows @ butlast (fs # rs)) (last (fs # rs)) s' \<and> (row_pending s' \<or> last (fs # rs) = [[]] \<and> \<not> always_quote w)"
    have le: "line_ending w \<noteq> []" "hd (line_ending w) \<in> {CR, LF}" using assms(1) by (auto simp: agree_def)
    have "leads_to r (write_row w fs @ (line_ending w @ rows_text w rs)) [] s ?Q"
    proof (rule leads_to_append)
      show "leads_to r (write_row w fs) ((line_ending w @ rows_text w rs) @ []) s (\<lambda>s'. holds_row r rows ([] @ fs) s'
          \<and> (row_pending s' \<or> [] = ([] :: CsvRow) \<and> fs = [[]] \<and> \<not> always_quote w))"
        using Cons.prems le by (intro scan_row [OF assms(1)]) auto
    next
      fix s'
      assume "holds_row r rows ([] @ fs) s' \<and> (row_pending s' \<or> [] = ([] :: CsvRow) \<and> fs = [[]] \<and> \<not> always_quote w)"
      then have s': "holds_row r rows fs s'" by simp
      show "leads_to r (line_ending w @ rows_text w rs) [] s' ?Q"
      proof (rule leads_to_append)
        show "leads_to r (line_ending w) (rows_text w rs @ []) s' (\<lambda>s'. reading s' (rows @ [fs]) [] [] False False)"
          using rows_text_first [OF assms(1), of rs] by (intro scan_line_ending [OF assms(1) s']) simp
      next
        fix s'' assume "reading s'' (rows @ [fs]) [] [] False False"
        from Cons.IH [OF _ False this] Cons.prems(1) False
        show "leads_to r (rows_text w rs) [] s'' ?Q" by simp
      qed
    qed
    then show ?thesis using False by (cases rs) simp_all
  qed
qed simp

lemma read_text:
  assumes "agree r w" and "\<forall>fs \<in> set rs. fs \<noteq> []" and "rs \<noteq> [] \<Longrightarrow> last rs \<noteq> [[]] \<or> always_quote w"
    and "skip_bom (rows_text w rs) = rows_text w rs"
  shows "csv_read (rows_text w rs) r = Ok (build_document r rs)"
proof -
  have opts: "delimiter r \<noteq> quote r" "\<not> is_reserved_char (delimiter r)" "\<not> is_reserved_char (quote r)"
    using assms(1) by (auto simp: agree_def)
  show ?thesis
  proof (cases "rs = []")
    case True
    then show ?thesis using opts
      by (simp add: csv_read_def skip_bom_def reader_start_def finish_input_def)
  next
    case False
    have "reading reader_start [] [] [] False False" by (simp add: reading_def reader_start_def)
    from scan_rows [OF assms(1,2) False this] obtain s where s: "scan r (rows_text w rs) reader_start = Ok s"
      "holds_row r (butlast rs) (last rs) s" "row_pending s"
      using assms(3) [OF False] by (auto simp: leads_to_def)
    have "finish_input r (rows_text w rs) s = finish_row r s"
      using s(3) by (auto simp: finish_input_def row_pending_def)
    then have "parsed_rows (finish_input r (rows_text w rs) s) = rs" "\<not> in_quotes s"
      using s(2) False by (simp_all add: holds_row_def reading_def)
    then show ?thesis using opts s(1) assms(4) by (simp add: csv_read_def)
  qed
qed

lemma build_rows: "fold add_row rs d = d\<lparr>doc_rows := doc_rows d @ rs\<rparr>"
  by (induction rs arbitrary: d) (simp_all add: add_row_def)

section \<open>Error positions and shape\<close>

text \<open>
  The position after a prefix of a text whose lines end in LF or CR LF: the number of lines
  begun and the number of bytes of the last one, both counted from one.
\<close>

definition text_position :: "u8 list \<Rightarrow> usize \<times> usize" where
  "text_position pre = (1 + count_list pre LF, 1 + length (takeWhile (\<lambda>c. c \<noteq> LF) (rev pre)))"

lemma text_position_Nil [simp]: "text_position [] = (1, 1)"
  by (simp add: text_position_def)

lemma text_position_snoc [simp]:
  "text_position (pre @ [c]) =
     (case text_position pre of (l, k) \<Rightarrow> if c = LF then (l + 1, 1) else (l, k + 1))"
  by (simp add: text_position_def)

fun no_lone_cr :: "u8 list \<Rightarrow> bool" where
  "no_lone_cr [] \<longleftrightarrow> True"
| "no_lone_cr (c # cs) \<longleftrightarrow> (c \<noteq> CR \<or> cs \<noteq> [] \<and> hd cs = LF) \<and> no_lone_cr cs"

lemma no_lone_cr_drop: "no_lone_cr bs \<Longrightarrow> no_lone_cr (drop n bs)"
proof (induction n arbitrary: bs)
  case (Suc n)
  then show ?case by (cases bs) simp_all
qed simp

text \<open>
  The reader stands after \<open>pre\<close> and its counters say so; a field just closed ends \<open>pre\<close>
  with its quote, which is not doubled; every row has a field.
\<close>

definition located :: "CsvReaderOptions \<Rightarrow> u8 list \<Rightarrow> u8 list \<Rightarrow> reader \<Rightarrow> bool" where
  "located opts pre rest s \<longleftrightarrow> text_position pre = (line s, column s)
     \<and> (\<not> in_quotes s \<and> field_was_quoted s \<longrightarrow>
          pre \<noteq> [] \<and> last pre = quote opts \<and> (rest = [] \<or> hd rest \<noteq> quote opts))
     \<and> (\<forall>r \<in> set (parsed_rows s). r \<noteq> [])"

lemma located_snoc: "located opts pre (ch # rest) s \<Longrightarrow> text_position (pre @ [ch]) =
    (if ch = LF then (line s + 1, 1) else (line s, column s + 1))"
  by (simp add: located_def)

definition legal_options :: "CsvReaderOptions \<Rightarrow> bool" where
  "legal_options opts \<longleftrightarrow> delimiter opts \<noteq> quote opts
     \<and> \<not> is_reserved_char (delimiter opts) \<and> \<not> is_reserved_char (quote opts)"

lemma scan_step_located:
  assumes "legal_options opts" and "no_lone_cr (ch # rest)" and "located opts pre (ch # rest) s"
    and "scan_step opts ch rest s = Ok (s', rest')"
  shows "\<exists>used. ch # rest = used @ rest' \<and> located opts (pre @ used) rest' s' \<and> no_lone_cr rest'"
proof -
  have o: "quote opts \<noteq> LF" "quote opts \<noteq> CR" "delimiter opts \<noteq> LF" "delimiter opts \<noteq> CR"
    using assms(1) by (auto simp: legal_options_def is_reserved_char_def)
  note pos = located_snoc [OF assms(3)]
  have rows: "\<forall>r \<in> set (parsed_rows s). r \<noteq> []" and cr: "no_lone_cr rest"
    using assms(2,3) by (simp_all add: located_def)
  have one: ?thesis if "rest' = rest" "located opts (pre @ [ch]) rest s'"
    using that cr by (intro exI [of _ "[ch]"]) simp
  consider "in_quotes s" "ch = quote opts" | "in_quotes s" "ch \<noteq> quote opts"
    | "\<not> in_quotes s" "ch = quote opts" "current_field s = []"
    | "\<not> in_quotes s" "\<not> (ch = quote opts \<and> current_field s = [])" "ch = delimiter opts"
    | "\<not> in_quotes s" "\<not> (ch = quote opts \<and> current_field s = [])" "ch \<noteq> delimiter opts" "ch = CR \<or> ch = LF"
    | "\<not> in_quotes s" "\<not> (ch = quote opts \<and> current_field s = [])" "ch \<noteq> delimiter opts" "\<not> (ch = CR \<or> ch = LF)"
    by blast
  then show ?thesis
  proof cases
    case 1
    show ?thesis
    proof (cases "rest \<noteq> [] \<and> hd rest = quote opts")
      case True
      then obtain l where l: "rest = quote opts # l" by (cases rest) auto
      with 1 assms(4) have s': "rest' = l" "s' = s\<lparr>saw_any_char := True,
          current_field := current_field s @ [quote opts], column := column s + 1 + 1\<rparr>"
        by (auto simp: scan_step_def Let_def)
      have "text_position ((pre @ [ch]) @ [quote opts]) = (line s, column s + 1 + 1)"
        unfolding text_position_snoc [of "pre @ [ch]"] pos using o 1 by simp
      then show ?thesis
        using s' 1 l rows cr by (intro exI [of _ "[ch, quote opts]"]) (simp add: located_def)
    next
      case False
      with 1 assms(4) have "rest' = rest" "s' = s\<lparr>saw_any_char := True, in_quotes := False, column := column s + 1\<rparr>"
        by (auto simp: scan_step_def Let_def split: list.splits if_splits)
      then show ?thesis
        using one False 1 o rows pos by (simp add: located_def del: text_position_snoc)
    qed
  next
    case 2
    with assms(4) have "rest' = rest" "s' = (let s = s\<lparr>saw_any_char := True, current_field := current_field s @ [ch]\<rparr>;
        s = (if ch = LF then s\<lparr>line := line s + 1, column := 0\<rparr> else s) in s\<lparr>column := column s + 1\<rparr>)"
      by (auto simp: scan_step_def Let_def)
    then show ?thesis using one 2 rows pos by (simp add: located_def Let_def del: text_position_snoc)
  next
    case 3
    with assms(4) have "rest' = rest" "s' = s\<lparr>saw_any_char := True, in_quotes := True, field_was_quoted := True, column := column s + 1\<rparr>"
      by (auto simp: scan_step_def Let_def)
    then show ?thesis using one 3 o rows pos by (simp add: located_def del: text_position_snoc)
  next
    case 4
    with assms(4) have "rest' = rest" "s' = (finish_field opts (s\<lparr>saw_any_char := True\<rparr>))\<lparr>column := column s + 1\<rparr>"
      by (auto simp: scan_step_def Let_def finish_field_def)
    then show ?thesis using one 4 o rows pos by (simp add: located_def finish_field_def del: text_position_snoc)
  next
    case 5
    let ?s = "(finish_row opts (s\<lparr>saw_any_char := True\<rparr>))\<lparr>line := line s + 1, column := 1\<rparr>"
    have step: "scan_step opts ch rest s = Ok (?s, if ch = CR \<and> rest \<noteq> [] \<and> hd rest = LF then tl rest else rest)"
      using 5 by (auto simp: scan_step_def Let_def finish_row_def finish_field_def)
    have s: "\<not> field_was_quoted ?s" "\<forall>r \<in> set (parsed_rows ?s). r \<noteq> []"
      using rows by (auto simp: finish_row_def finish_field_def Let_def)
    show ?thesis
    proof (cases "ch = LF")
      case True
      with step assms(4) have "rest' = rest" "s' = ?s" by auto
      then show ?thesis using one True s pos by (simp add: located_def del: text_position_snoc)
    next
      case False
      with 5 assms(2) obtain l where l: "ch = CR" "rest = LF # l" by (cases rest) auto
      with step assms(4) have s': "rest' = l" "s' = ?s" by auto
      have "text_position ((pre @ [ch]) @ [LF]) = (line s + 1, 1)"
        unfolding text_position_snoc [of "pre @ [ch]"] pos using l by simp
      then show ?thesis
        using s' s l cr by (intro exI [of _ "[CR, LF]"]) (simp add: located_def)
    qed
  next
    case 6
    with assms(4) have "\<not> field_was_quoted s" "rest' = rest"
      "s' = s\<lparr>saw_any_char := True, current_field := current_field s @ [ch], column := column s + 1\<rparr>"
      by (auto simp: scan_step_def Let_def split: if_splits)
    then show ?thesis using one 6 rows pos by (simp add: located_def del: text_position_snoc)
  qed
qed

lemma scan_step_error:
  "scan_step opts ch rest s = Err e \<Longrightarrow> e = make_error (line s) (column s) unexpected_character
     \<and> \<not> in_quotes s \<and> field_was_quoted s \<and> ch \<notin> {delimiter opts, CR, LF}"
  by (auto simp: scan_step_def Let_def split: if_splits list.splits)

lemma scan_located:
  assumes "legal_options opts" and "located opts pre bs s" and "no_lone_cr bs"
  shows "case scan opts bs s of
      Ok s' \<Rightarrow> located opts (pre @ bs) [] s'
    | Err e \<Rightarrow> \<exists>used ch rest. bs = used @ ch # rest \<and> pre @ used \<noteq> [] \<and> last (pre @ used) = quote opts
        \<and> ch \<notin> {quote opts, delimiter opts, CR, LF}
        \<and> err_message e = unexpected_character \<and> (err_line e, err_column e) = text_position (pre @ used)"
  using assms
proof (induction opts bs s arbitrary: pre rule: scan.induct)
  case (2 opts ch rest s)
  show ?case
  proof (cases "scan_step opts ch rest s")
    case (Ok p)
    obtain s1 r1 where p: "p = (s1, r1)" by (cases p)
    obtain used where u: "ch # rest = used @ r1" "located opts (pre @ used) r1 s1" "no_lone_cr r1"
      using scan_step_located [OF 2(2,4,3) Ok [unfolded p]] by blast
    note IH = 2(1) [OF Ok p [symmetric] 2(2) u(2,3)]
    have step: "scan opts (ch # rest) s = scan opts r1 s1"
      by (simp add: Ok p)
    show ?thesis
    proof (cases "scan opts r1 s1")
      case (Ok s2)
      then show ?thesis using IH unfolding step unfolding u(1) by simp
    next
      case (Err e)
      with IH obtain used' c l where "r1 = used' @ c # l" "pre @ used @ used' \<noteq> []"
          "last (pre @ used @ used') = quote opts" "c \<notin> {quote opts, delimiter opts, CR, LF}"
          "err_message e = unexpected_character" "(err_line e, err_column e) = text_position (pre @ used @ used')"
        by auto
      then show ?thesis unfolding step unfolding u(1) Err
        by (simp only: Result.case) (intro exI [of _ "used @ used'"] exI [of _ c] exI [of _ l], simp)
    qed
  next
    case (Err e)
    note step = scan_step_error [OF Err]
    have "pre \<noteq> []" "last pre = quote opts" "ch \<notin> {quote opts, delimiter opts, CR, LF}"
      "err_message e = unexpected_character" "(err_line e, err_column e) = text_position pre"
      using 2(3) step by (auto simp: located_def make_error_def)
    then show ?thesis using Err
      by simp (intro exI [of _ "[]"] exI [of _ ch] exI [of _ rest], simp)
  qed
qed simp

section \<open>Properties\<close>

text \<open>C26: What CsvWriter writes CsvReader reads back: for options that agree (and are legal
  for the reader), the document read from the written text is the document written, with its
  header and with every field byte for byte, delimiters, quotes, line breaks and surrounding
  blanks included, with or without trimming.  The document has no row without fields, its last
  row is not a single empty field unless everything is quoted, a header it has is written and
  expected, and the text does not start with the bytes of a byte order mark.\<close>

theorem csv_roundtrip:
  assumes "agree r w" and "csv_write d w = Ok (Ok text)"
    and "\<forall>fs \<in> set (written_rows d w). fs \<noteq> []"
    and "written_rows d w \<noteq> [] \<Longrightarrow> last (written_rows d w) \<noteq> [[]] \<or> always_quote w"
    and "skip_bom text = text"
    and "first_row_is_header r = has_header d" and "has_header d \<Longrightarrow> write_header w"
    and "\<not> has_header d \<Longrightarrow> header_fields d = []"
  shows "csv_read text r = Ok d"
proof -
  have "text = rows_text w (written_rows d w)"
    using assms(2) unfolding csv_write_def Let_def write_to_stream_text
    by (auto simp: utf8_string_init_def split: if_splits Result.splits prod.splits)
  then have "csv_read text r = Ok (build_document r (written_rows d w))"
    using read_text [OF assms(1,3,4)] assms(5) by simp
  also have "build_document r (written_rows d w) = d"
    using assms(6-8) by (cases d) (auto simp: build_document_def written_rows_def build_rows assign_header_def csv_document_new_def has_header_def)
  finally show ?thesis .
qed

definition sample_reader :: CsvReaderOptions where
  "sample_reader = \<lparr>first_row_is_header = False, delimiter = 44, quote = 34, trim_unquoted_space = True\<rparr>"

definition sample_writer :: CsvWriterOptions where
  "sample_writer = \<lparr>write_header = True, w_delimiter = 44, w_quote = 34, line_ending = [CR, LF], always_quote = False, validate_utf8 = False\<rparr>"

definition sample_document :: CsvDocument where
  "sample_document = \<lparr>header_enabled = False, header_fields = [], doc_rows = [[[44], []], [[34, 10]]]\<rparr>"

lemma sample_written: "csv_write sample_document sample_writer = Ok (Ok [34, 44, 34, 44, 13, 10, 34, 34, 34, 10, 34])"
  by (simp add: csv_write_def sample_writer_def sample_document_def write_to_stream_def write_field_def needs_quote_def has_header_def)

theorem csv_roundtrip_witness:
  "csv_read [34, 44, 34, 44, 13, 10, 34, 34, 34, 10, 34] sample_reader = Ok sample_document"
proof (rule csv_roundtrip [OF _ sample_written])
  show "agree sample_reader sample_writer"
    by (simp add: agree_def sample_reader_def sample_writer_def is_reserved_char_def)
  show "skip_bom [34, 44, 34, 44, 13, 10, 34, 34, 34, 10, 34] = [34, 44, 34, 44, 13, 10, 34, 34, 34, 10, 34]"
    by (simp add: skip_bom_def)
qed (simp_all add: sample_document_def sample_writer_def sample_reader_def written_rows_def has_header_def)



text \<open>
  The validity check of the writer accepts overlong sequences that the constructor it
  relies on rejects, so that \<^verbatim>\<open>write\<close> ends with the constructor's exception.
\<close>

lemma csv_write_throws:
  "csv_write (csv_document_new\<lparr>doc_rows := [[[0xC0, 0x80]]]\<rparr>)
     csv_writer_options = Err 0"
proof -
  have "utf8_to_utf32_length [0xC0, 0x80] = 1"
    using overlong_accepted utf8_to_utf32_fits [of "[0xC0, 0x80]" "[]"]
    by (simp add: utf8_to_utf32_def utf8_to_utf32_length_def)
  moreover have "utf8_count_code_points [0xC0, 0x80] = (0, Some 0)"
    unfolding utf8_count_code_points_def
    by (subst utf8_count_loop.simps) (simp add: code_point_bytes_nat utf8_sequence_valid_def utf8_sequence_value_def)
  ultimately show ?thesis
    by (simp add: csv_write_def write_to_stream_def write_field_def needs_quote_def has_header_def csv_document_new_def
        utf8_string_init_def csv_writer_options_def)
qed

end
