(* ===== verification/Str_Arena.thy ===== *)
theory Str_Arena
  imports Str_Utf8
begin

text \<open>
  What an owned string and an interned reference show: the bytes an arena
  (\<^verbatim>\<open>utf8_string_arena.cpp\<close>) keeps, and the string \<^verbatim>\<open>Utf8String::from_cstr\<close> makes of a
  \<^verbatim>\<open>char*\<close>.  The chunks and the hash index of the arena are not part of the model.
\<close>

type_synonym utf8 = "u8 list"

text \<open>The bytes a reference returned by \<^verbatim>\<open>intern\<close> shows; equal strings share storage.\<close>

definition arena_intern :: "utf8 \<Rightarrow> utf8" where
  "arena_intern data =
     (if length data = 0 then [] else if fst (utf8_count_code_points data) = 0 then [] else data)"

text \<open>The bytes before the first NUL; a string that is not valid UTF-8 is caught and empty.\<close>

definition from_cstr :: "utf8 \<Rightarrow> utf8" where
  "from_cstr cstr =
     (case utf8_string_init (takeWhile (\<lambda>c. c \<noteq> 0) cstr) of Ok s \<Rightarrow> us_data s | Err _ \<Rightarrow> [])"

end
