(* ===== verification/Libca_Chars.thy ===== *)
theory Libca_Chars
  imports Libca_Prelude
begin

text \<open>
  Characters of the text formats by their byte, string literals as bytes, and the digits that
  \<^verbatim>\<open>snprintf\<close>, \<^verbatim>\<open>std::to_string\<close> and \<^verbatim>\<open>std::to_chars\<close> write for an integer.
\<close>

section \<open>Characters\<close>

abbreviation TAB :: u8 where "TAB \<equiv> 0x09"
abbreviation LF :: u8 where "LF \<equiv> 0x0A"
abbreviation CR :: u8 where "CR \<equiv> 0x0D"
abbreviation SPACE :: u8 where "SPACE \<equiv> 0x20"
abbreviation QUOTE :: u8 where "QUOTE \<equiv> 0x22"
abbreviation STAR :: u8 where "STAR \<equiv> 0x2A"
abbreviation PLUS :: u8 where "PLUS \<equiv> 0x2B"
abbreviation COMMA :: u8 where "COMMA \<equiv> 0x2C"
abbreviation MINUS :: u8 where "MINUS \<equiv> 0x2D"
abbreviation DOT :: u8 where "DOT \<equiv> 0x2E"
abbreviation SLASH :: u8 where "SLASH \<equiv> 0x2F"
abbreviation ZERO :: u8 where "ZERO \<equiv> 0x30"
abbreviation NINE :: u8 where "NINE \<equiv> 0x39"
abbreviation COLON :: u8 where "COLON \<equiv> 0x3A"
abbreviation CAPITAL_E :: u8 where "CAPITAL_E \<equiv> 0x45"
abbreviation LBRACKET :: u8 where "LBRACKET \<equiv> 0x5B"
abbreviation BACKSLASH :: u8 where "BACKSLASH \<equiv> 0x5C"
abbreviation RBRACKET :: u8 where "RBRACKET \<equiv> 0x5D"
abbreviation SMALL_E :: u8 where "SMALL_E \<equiv> 0x65"
abbreviation SMALL_U :: u8 where "SMALL_U \<equiv> 0x75"
abbreviation LBRACE :: u8 where "LBRACE \<equiv> 0x7B"
abbreviation RBRACE :: u8 where "RBRACE \<equiv> 0x7D"

definition ascii :: "string \<Rightarrow> u8 list" where
  "ascii s = map of_char s"

section \<open>Digits\<close>

fun digits_of :: "nat \<Rightarrow> nat \<Rightarrow> nat list" where
  "digits_of base n = (if base < 2 \<or> n < base then [n] else digits_of base (n div base) @ [n mod base])"

declare digits_of.simps [simp del]

definition digit_char :: "nat \<Rightarrow> u8" where
  "digit_char d = (if d < 10 then of_nat (48 + d) else of_nat (97 + (d - 10)))"

lemma digits_of_less: "1 < base \<Longrightarrow> d \<in> set (digits_of base n) \<Longrightarrow> d < base"
  by (induction base n rule: digits_of.induct) (subst (asm) (2) digits_of.simps, auto split: if_splits)

lemma digits_of_hd: "0 < n \<Longrightarrow> digits_of 10 n \<noteq> [] \<and> hd (digits_of 10 n) \<noteq> 0"
proof (induction "10 :: nat" n rule: digits_of.induct)
  case (1 n)
  show ?case
  proof (cases "n < 10")
    case True
    then show ?thesis using 1(2) by (subst (1 2) digits_of.simps) simp
  next
    case False
    with 1 show ?thesis by (subst (1 2) digits_of.simps) (auto simp: hd_append)
  qed
qed

lemma unat_digit_char: "d < 16 \<Longrightarrow> unat (digit_char d) = (if d < 10 then 48 + d else 87 + d)"
  using unat_of_nat_small [of "48 + d", where 'w = 8] unat_of_nat_small [of "97 + (d - 10)", where 'w = 8]
  by (auto simp: digit_char_def simp del: of_nat_add)

lemma length_digits_of: "n < 10 ^ Suc k \<Longrightarrow> length (digits_of 10 n) \<le> Suc k"
proof (induction k arbitrary: n)
  case 0
  then show ?case by (subst digits_of.simps) simp
next
  case (Suc k)
  then have "n div 10 < 10 ^ Suc k" by (simp add: less_mult_imp_div_less)
  then show ?case using Suc.IH [of "n div 10"] by (subst digits_of.simps) simp
qed

end
