(* ===== verification/Ini.thy ===== *)
theory Ini
  imports Str_Arena Libca_Chars
begin

text \<open>
  The INI module: the document that keeps every line as it was written
  (\<^verbatim>\<open>ini_document.cpp\<close>), the reader (\<^verbatim>\<open>ini_reader.cpp\<close>) and the writer
  (\<^verbatim>\<open>ini_writer.cpp\<close>).  A string, a reference into the arena and a \<^verbatim>\<open>char\<close> are bytes.  An owned
  string is built by the validating constructor, which throws on bytes that are not UTF-8:
  an operation that builds one returns \<open>Err p\<close> for the exception, with the position it
  reports.  \<^verbatim>\<open>read_file\<close> and \<^verbatim>\<open>write_file\<close> add only the file access and are left out.
\<close>

abbreviation APOSTROPHE :: u8 where "APOSTROPHE \<equiv> 0x27"
abbreviation HASH :: u8 where "HASH \<equiv> 0x23"
abbreviation SEMICOLON :: u8 where "SEMICOLON \<equiv> 0x3B"
abbreviation EQUALS :: u8 where "EQUALS \<equiv> 0x3D"

section \<open>Lines and documents\<close>

datatype IniLineKind = Blank | Comment | Section | KeyValue

record IniLine =
  line_kind :: IniLineKind
  line_section :: utf8
  line_key :: utf8
  line_value :: utf8

record LineRecord =
  ini_line :: IniLine
  raw_text :: utf8
  raw_ending :: utf8
  key_prefix :: utf8
  key_suffix :: utf8
  separator :: utf8
  value_prefix :: utf8
  comment_suffix :: utf8
  value_quoted :: bool
  value_quote_char :: u8

definition empty_record :: LineRecord where
  "empty_record =
     \<lparr>ini_line = \<lparr>line_kind = Blank, line_section = [], line_key = [], line_value = []\<rparr>,
      raw_text = [], raw_ending = [], key_prefix = [], key_suffix = [], separator = [],
      value_prefix = [], comment_suffix = [], value_quoted = False, value_quote_char = QUOTE\<rparr>"

record IniDocument =
  records :: "LineRecord list"
  public_lines :: "IniLine list"
  section_index :: "utf8 \<rightharpoonup> usize"
  key_index :: "utf8 \<rightharpoonup> (utf8 \<rightharpoonup> usize)"
  default_line_ending :: utf8

definition ini_document :: IniDocument where
  "ini_document = \<lparr>records = [], public_lines = [], section_index = Map.empty, key_index = Map.empty,
                   default_line_ending = [LF]\<rparr>"

definition intern_std :: "utf8 \<Rightarrow> (utf8, usize) Result" where
  "intern_std s = map_ok (\<lambda>u. arena_intern (us_data u)) (utf8_string_init s)"

section \<open>Queries\<close>

text \<open>The two lookups in the index, as every query and edit begins.\<close>

definition key_position :: "utf8 \<Rightarrow> utf8 \<Rightarrow> IniDocument \<Rightarrow> usize option" where
  "key_position section key d = (case key_index d section of None \<Rightarrow> None | Some keys \<Rightarrow> keys key)"

definition find_value :: "utf8 \<Rightarrow> utf8 \<Rightarrow> IniDocument \<Rightarrow> utf8 option" where
  "find_value section key d =
     (case key_position section key d of None \<Rightarrow> None | Some i \<Rightarrow> Some (line_value (ini_line (records d ! i))))"

definition has_section :: "utf8 \<Rightarrow> IniDocument \<Rightarrow> bool" where
  "has_section section d =
     (if section = [] then key_index d section \<noteq> None else section_index d section \<noteq> None)"

definition ini_has :: "utf8 \<Rightarrow> utf8 \<Rightarrow> IniDocument \<Rightarrow> bool" where
  "ini_has section key d = (key_position section key d \<noteq> None)"

definition ini_get :: "utf8 \<Rightarrow> utf8 \<Rightarrow> IniDocument \<Rightarrow> (utf8, utf8) Result" where
  "ini_get section key d =
     (case key_index d section of
        None \<Rightarrow> Err (from_cstr (ascii ''INI section not found: '' @ section))
      | Some keys \<Rightarrow>
          (case keys key of
             None \<Rightarrow> Err (from_cstr (ascii ''INI key not found: '' @ key))
           | Some i \<Rightarrow> Ok (line_value (ini_line (records d ! i)))))"

definition get_or :: "utf8 \<Rightarrow> utf8 \<Rightarrow> utf8 \<Rightarrow> IniDocument \<Rightarrow> utf8" where
  "get_or section key default_value d =
     (case find_value section key d of Some v \<Rightarrow> v | None \<Rightarrow> default_value)"

definition trailing_quote_escaped :: "utf8 \<Rightarrow> usize \<Rightarrow> bool" where
  "trailing_quote_escaped data quote_pos \<longleftrightarrow>
     length (takeWhile (\<lambda>c. c = BACKSLASH) (rev (take quote_pos data))) mod 2 \<noteq> 0"

definition strip_quotes_to_std :: "utf8 \<Rightarrow> utf8" where
  "strip_quotes_to_std s =
     (let blen = length s in
      if blen < 2 then s
      else let first = hd s; last = last s in
        if (first = QUOTE \<or> first = APOSTROPHE) \<and> first = last \<and> \<not> trailing_quote_escaped s (blen - 1)
        then take (blen - 2) (tl s) else s)"

text \<open>
  \<^verbatim>\<open>std::isspace\<close> in the C locale and \<^verbatim>\<open>std::strtoll\<close> in base 10: the value, how many bytes were
  consumed, and whether \<^verbatim>\<open>errno\<close> was set to \<^verbatim>\<open>ERANGE\<close>.
\<close>

definition c_isspace :: "u8 \<Rightarrow> bool" where
  "c_isspace c \<longleftrightarrow> c = SPACE \<or> TAB \<le> c \<and> c \<le> CR"

definition decimal_digit :: "u8 \<Rightarrow> bool" where
  "decimal_digit c \<longleftrightarrow> ZERO \<le> c \<and> c \<le> NINE"

definition decimal_value :: "utf8 \<Rightarrow> nat" where
  "decimal_value ds = foldl (\<lambda>n d. 10 * n + unat (d - ZERO)) 0 ds"

definition strtoll :: "utf8 \<Rightarrow> i64 \<times> usize \<times> bool" where
  "strtoll s =
     (let blanks = length (takeWhile c_isspace s); r = drop blanks s;
          signed = (r \<noteq> [] \<and> (hd r = MINUS \<or> hd r = PLUS));
          ds = takeWhile decimal_digit (if signed then tl r else r);
          v = (if signed \<and> hd r = MINUS then - int (decimal_value ds) else int (decimal_value ds));
          used = blanks + (if signed then 1 else 0) + length ds
      in if ds = [] then (0, 0, False)
         else if v < - (2 ^ 63) then (word_of_int (- (2 ^ 63)), used, True)
         else if v > 2 ^ 63 - 1 then (word_of_int (2 ^ 63 - 1), used, True)
         else (word_of_int v, used, False))"

definition get_int :: "utf8 \<Rightarrow> utf8 \<Rightarrow> IniDocument \<Rightarrow> (i64, utf8) Result" where
  "get_int section key d =
     (case find_value section key d of
        None \<Rightarrow> Err (from_cstr (ascii ''INI key not found: '' @ key))
      | Some t \<Rightarrow>
          let s = strip_quotes_to_std t; (v, end, erange) = strtoll (takeWhile (\<lambda>c. c \<noteq> 0) s) in
          if s = [] \<or> c_isspace (hd s) \<or> erange \<or> end \<noteq> length s
          then Err (from_cstr (ascii ''INI value is not a valid integer: '' @ t))
          else Ok v)"

text \<open>
  \<^verbatim>\<open>std::from_chars\<close> on a \<^verbatim>\<open>double\<close> is the parameter \<open>F\<close>: the value with the number of bytes it
  consumed, or \<open>None\<close> for an error code.
\<close>

definition get_double :: "(utf8 \<Rightarrow> (f64 \<times> usize) option) \<Rightarrow> utf8 \<Rightarrow> utf8 \<Rightarrow> IniDocument \<Rightarrow> (f64, utf8) Result" where
  "get_double F section key d =
     (case find_value section key d of
        None \<Rightarrow> Err (from_cstr (ascii ''INI key not found: '' @ key))
      | Some t \<Rightarrow>
          let s = strip_quotes_to_std t; has_plus = (s \<noteq> [] \<and> hd s = PLUS);
              first = (if has_plus then tl s else s);
              invalid = Err (from_cstr (ascii ''INI value is not a valid number: '' @ t)) in
          (case F first of
             None \<Rightarrow> invalid
           | Some (v, n) \<Rightarrow> if s = [] \<or> c_isspace (hd s) \<or> n \<noteq> length first then invalid else Ok v))"

definition lower_ascii :: "utf8 \<Rightarrow> utf8" where
  "lower_ascii s = map (\<lambda>c. if 0x41 \<le> c \<and> c \<le> 0x5A then c - 0x41 + 0x61 else c) s"

definition get_bool :: "utf8 \<Rightarrow> utf8 \<Rightarrow> IniDocument \<Rightarrow> (bool, utf8) Result" where
  "get_bool section key d =
     (case find_value section key d of
        None \<Rightarrow> Err (from_cstr (ascii ''INI key not found: '' @ key))
      | Some t \<Rightarrow>
          let s = lower_ascii (strip_quotes_to_std t) in
          if s = ascii ''true'' \<or> s = ascii ''yes'' \<or> s = ascii ''on'' \<or> s = ascii ''1'' then Ok True
          else if s = ascii ''false'' \<or> s = ascii ''no'' \<or> s = ascii ''off'' \<or> s = ascii ''0'' then Ok False
          else Err (from_cstr (ascii ''INI value is not a valid boolean: '' @ t)))"

section \<open>Index\<close>

definition index_line :: "usize \<times> LineRecord \<Rightarrow> IniDocument \<Rightarrow> IniDocument" where
  "index_line = (\<lambda>(i, r) d.
     let line = ini_line r; d = d\<lparr>public_lines := public_lines d @ [line]\<rparr> in
     if line_kind line = Section then d\<lparr>section_index := (section_index d)(line_section line \<mapsto> i)\<rparr>
     else if line_kind line = KeyValue then
       let keys = (case key_index d (line_section line) of None \<Rightarrow> Map.empty | Some keys \<Rightarrow> keys)
       in d\<lparr>key_index := (key_index d)(line_section line \<mapsto> keys(line_key line \<mapsto> i))\<rparr>
     else d)"

definition rebuild_index :: "IniDocument \<Rightarrow> IniDocument" where
  "rebuild_index d =
     fold index_line (enumerate 0 (records d))
       (d\<lparr>public_lines := [], section_index := Map.empty, key_index := Map.empty\<rparr>)"

definition add_record :: "LineRecord \<Rightarrow> IniDocument \<Rightarrow> IniDocument" where
  "add_record r d =
     (let d = (if default_line_ending d = [LF] \<and> raw_ending r \<noteq> []
               then d\<lparr>default_line_ending := raw_ending r\<rparr> else d)
      in d\<lparr>records := records d @ [r]\<rparr>)"

definition rebuilt_text :: "LineRecord \<Rightarrow> utf8" where
  "rebuilt_text r =
     (let value = line_value (ini_line r);
          value_str = (if value_quoted r then [value_quote_char r] @ value @ [value_quote_char r] else value)
      in key_prefix r @ line_key (ini_line r) @ key_suffix r @ separator r @ value_prefix r
         @ value_str @ comment_suffix r)"

definition rebuild_key_raw :: "usize \<Rightarrow> IniDocument \<Rightarrow> (IniDocument, usize) Result" where
  "rebuild_key_raw i d =
     map_ok (\<lambda>t. d\<lparr>records := (records d)[i := (records d ! i)\<lparr>raw_text := t\<rparr>]\<rparr>)
       (intern_std (rebuilt_text (records d ! i)))"

text \<open>The first position from \<open>pos\<close> on that is a section line, or the end.\<close>

definition is_section :: "LineRecord \<Rightarrow> bool" where
  "is_section r \<longleftrightarrow> line_kind (ini_line r) = Section"

definition next_section_line :: "usize \<Rightarrow> LineRecord list \<Rightarrow> usize" where
  "next_section_line pos rs = pos + length (takeWhile (\<lambda>r. \<not> is_section r) (drop pos rs))"

definition find_insert_position :: "utf8 \<Rightarrow> IniDocument \<Rightarrow> usize" where
  "find_insert_position section d =
     (if section = [] then next_section_line 0 (records d)
      else case section_index d section of
        None \<Rightarrow> length (records d)
      | Some i \<Rightarrow> next_section_line (i + 1) (records d))"

definition line_ending_for_new_line :: "IniDocument \<Rightarrow> utf8" where
  "line_ending_for_new_line d = (if default_line_ending d = [] then [LF] else default_line_ending d)"

section \<open>Edits\<close>

definition set_existing :: "usize \<Rightarrow> utf8 \<Rightarrow> IniDocument \<Rightarrow> (IniDocument, usize) Result" where
  "set_existing i v d =
     (let r = records d ! i;
          d = d\<lparr>records := (records d)[i := r\<lparr>ini_line := (ini_line r)\<lparr>line_value := arena_intern v\<rparr>\<rparr>]\<rparr>
      in and_then (rebuild_key_raw i d) (\<lambda>d.
           Ok (d\<lparr>public_lines := (public_lines d)[i := ini_line (records d ! i)]\<rparr>)))"

definition blank_record :: "utf8 \<Rightarrow> (LineRecord, usize) Result" where
  "blank_record newline = and_then (intern_std newline) (\<lambda>ending. Ok (empty_record\<lparr>raw_ending := ending\<rparr>))"

definition section_record :: "utf8 \<Rightarrow> utf8 \<Rightarrow> (LineRecord, usize) Result" where
  "section_record newline section =
     and_then (intern_std ([LBRACKET] @ section @ [RBRACKET])) (\<lambda>raw.
     and_then (intern_std newline) (\<lambda>ending.
       Ok (empty_record\<lparr>ini_line := \<lparr>line_kind = Section, line_section = arena_intern section,
                                    line_key = [], line_value = []\<rparr>,
                        raw_text := raw, raw_ending := ending\<rparr>)))"

text \<open>The branch of \<^verbatim>\<open>set\<close> for a section that does not exist: a blank line, then its header.\<close>

definition ensure_section :: "utf8 \<Rightarrow> utf8 \<Rightarrow> IniDocument \<Rightarrow> (IniDocument, usize) Result" where
  "ensure_section newline section d =
     (if section \<noteq> [] \<and> section_index d section = None then
        and_then (if records d \<noteq> [] \<and> raw_text (last (records d)) \<noteq> []
                  then map_ok (\<lambda>b. [b]) (blank_record newline) else Ok []) (\<lambda>blank.
        and_then (section_record newline section) (\<lambda>header.
          Ok (rebuild_index (d\<lparr>records := records d @ blank @ [header]\<rparr>))))
      else Ok d)"

definition key_record :: "utf8 \<Rightarrow> utf8 \<Rightarrow> utf8 \<Rightarrow> utf8 \<Rightarrow> (LineRecord, usize) Result" where
  "key_record newline section key v =
     and_then (intern_std [SPACE]) (\<lambda>suffix.
     and_then (intern_std [EQUALS]) (\<lambda>sep.
     and_then (intern_std [SPACE]) (\<lambda>prefix.
     and_then (intern_std newline) (\<lambda>ending.
     and_then (intern_std (key @ ascii '' = '' @ v)) (\<lambda>raw.
       Ok (empty_record\<lparr>ini_line := \<lparr>line_kind = KeyValue, line_section = arena_intern section,
                                    line_key = arena_intern key, line_value = arena_intern v\<rparr>,
                        raw_text := raw, raw_ending := ending, key_suffix := suffix, separator := sep,
                        value_prefix := prefix, value_quoted := False\<rparr>))))))"

definition ini_set :: "utf8 \<Rightarrow> utf8 \<Rightarrow> utf8 \<Rightarrow> IniDocument \<Rightarrow> (IniDocument, usize) Result" where
  "ini_set section key v d =
     (case key_position section key d of
        Some i \<Rightarrow> set_existing i v d
      | None \<Rightarrow>
          let newline = line_ending_for_new_line d in
          and_then (ensure_section newline section d) (\<lambda>d.
          and_then (key_record newline section key v) (\<lambda>r.
            let pos = find_insert_position section d in
            Ok (rebuild_index (d\<lparr>records := take pos (records d) @ [r] @ drop pos (records d)\<rparr>)))))"

definition is_global_key :: "LineRecord \<Rightarrow> bool" where
  "is_global_key r \<longleftrightarrow> line_kind (ini_line r) = KeyValue \<and> line_section (ini_line r) = []"

definition is_filler :: "LineRecord \<Rightarrow> bool" where
  "is_filler r \<longleftrightarrow> line_kind (ini_line r) = Blank \<or> line_kind (ini_line r) = Comment"

text \<open>The end of the section that starts at \<open>start\<close>: the blank and comment lines before the
  next section stay.\<close>

definition section_end :: "usize \<Rightarrow> LineRecord list \<Rightarrow> usize" where
  "section_end start rs =
     (let n = next_section_line (start + 1) rs in
      if n < length rs
      then n - length (takeWhile is_filler (rev (take (n - (start + 1)) (drop (start + 1) rs))))
      else n)"

definition remove_section :: "utf8 \<Rightarrow> IniDocument \<Rightarrow> bool \<times> IniDocument" where
  "remove_section section d =
     (if section = [] then
        let removed = list_ex is_global_key (records d);
            d = d\<lparr>records := filter (\<lambda>r. \<not> is_global_key r) (records d)\<rparr>
        in (removed, if removed then rebuild_index d else d)
      else case section_index d section of
        None \<Rightarrow> (False, d)
      | Some start \<Rightarrow>
          (True, rebuild_index (d\<lparr>records := take start (records d) @ drop (section_end start (records d)) (records d)\<rparr>)))"

definition ini_remove :: "utf8 \<Rightarrow> utf8 \<Rightarrow> IniDocument \<Rightarrow> bool \<times> IniDocument" where
  "ini_remove section key d =
     (case key_position section key d of
        None \<Rightarrow> (False, d)
      | Some i \<Rightarrow> (True, rebuild_index (d\<lparr>records := take i (records d) @ drop (i + 1) (records d)\<rparr>)))"

definition ini_sections :: "IniDocument \<Rightarrow> utf8 list" where
  "ini_sections d = map (\<lambda>r. line_section (ini_line r)) (filter is_section (records d))"

definition keys_step :: "utf8 \<Rightarrow> LineRecord \<Rightarrow> utf8 list \<times> utf8 set \<Rightarrow> utf8 list \<times> utf8 set" where
  "keys_step section r = (\<lambda>(result, seen).
     if line_kind (ini_line r) \<noteq> KeyValue then (result, seen)
     else if line_section (ini_line r) \<noteq> section then (result, seen)
     else if line_key (ini_line r) \<notin> seen then (result @ [line_key (ini_line r)], insert (line_key (ini_line r)) seen)
     else (result, seen))"

definition ini_keys :: "utf8 \<Rightarrow> IniDocument \<Rightarrow> utf8 list" where
  "ini_keys section d = fst (fold (keys_step section) (records d) ([], {}))"

definition ini_clear :: "IniDocument \<Rightarrow> IniDocument" where
  "ini_clear d = d\<lparr>records := [], public_lines := [], section_index := Map.empty, key_index := Map.empty,
                   default_line_ending := [LF]\<rparr>"

section \<open>Reader\<close>

datatype DuplicatePolicy = KeepLast | Error

record IniReaderOptions =
  allow_global_keys :: bool
  hash_comment :: bool
  semicolon_comment :: bool
  on_duplicate_section :: DuplicatePolicy
  on_duplicate_key :: DuplicatePolicy
  inline_comment_strict_whitespace :: bool

definition ini_reader_options :: IniReaderOptions where
  "ini_reader_options =
     \<lparr>allow_global_keys = True, hash_comment = True, semicolon_comment = True,
      on_duplicate_section = KeepLast, on_duplicate_key = KeepLast, inline_comment_strict_whitespace = True\<rparr>"

record IniSourceLocation =
  ini_line_number :: usize
  ini_column :: usize

record IniParseError =
  error_location :: IniSourceLocation
  error_message :: utf8

definition ini_parse_error :: "usize \<Rightarrow> usize \<Rightarrow> utf8 \<Rightarrow> IniParseError" where
  "ini_parse_error l c message =
     \<lparr>error_location = \<lparr>ini_line_number = l, ini_column = c\<rparr>, error_message = from_cstr message\<rparr>"

definition is_space :: "u8 \<Rightarrow> bool" where
  "is_space ch \<longleftrightarrow> ch = SPACE \<or> ch = TAB \<or> ch = CR \<or> ch = LF"

text \<open>A text without its blanks at the end, and those blanks.\<close>

definition without_blanks :: "utf8 \<Rightarrow> utf8" where
  "without_blanks v = rev (dropWhile is_space (rev v))"

definition trim_ascii :: "utf8 \<Rightarrow> utf8" where
  "trim_ascii v = without_blanks (dropWhile is_space v)"

definition is_comment_marker :: "IniReaderOptions \<Rightarrow> u8 \<Rightarrow> bool" where
  "is_comment_marker opts ch \<longleftrightarrow> hash_comment opts \<and> ch = HASH \<or> semicolon_comment opts \<and> ch = SEMICOLON"

text \<open>The arguments are the two quote flags, the escape flag and the byte before the position.\<close>

fun comment_loop :: "IniReaderOptions \<Rightarrow> bool \<Rightarrow> bool \<Rightarrow> bool \<Rightarrow> u8 option \<Rightarrow> utf8 \<Rightarrow> usize \<Rightarrow> usize" where
  "comment_loop opts single double escaped prev [] i = i"
| "comment_loop opts single double escaped prev (ch # rest) i =
     (if ch = BACKSLASH \<and> \<not> escaped then comment_loop opts single double True (Some ch) rest (i + 1)
      else if ch = APOSTROPHE \<and> \<not> double \<and> \<not> escaped then comment_loop opts (\<not> single) double False (Some ch) rest (i + 1)
      else if ch = QUOTE \<and> \<not> single \<and> \<not> escaped then comment_loop opts single (\<not> double) False (Some ch) rest (i + 1)
      else if \<not> single \<and> \<not> double \<and> \<not> escaped \<and> is_comment_marker opts ch
           \<and> (\<not> inline_comment_strict_whitespace opts \<or> (case prev of None \<Rightarrow> True | Some p \<Rightarrow> is_space p)) then i
      else comment_loop opts single double False (Some ch) rest (i + 1))"

definition find_inline_comment :: "IniReaderOptions \<Rightarrow> utf8 \<Rightarrow> usize" where
  "find_inline_comment opts v = comment_loop opts False False False None v 0"

definition detect_quotes :: "utf8 \<Rightarrow> u8 option" where
  "detect_quotes v =
     (if length v < 2 then None
      else let first = hd v; last = last v in
        if (first = QUOTE \<or> first = APOSTROPHE) \<and> first = last \<and> \<not> trailing_quote_escaped v (length v - 1)
        then Some first else None)"

definition char_position :: "u8 \<Rightarrow> utf8 \<Rightarrow> usize option" where
  "char_position c s = (let n = length (takeWhile (\<lambda>b. b \<noteq> c) s) in if n = length s then None else Some n)"

definition separator_position :: "utf8 \<Rightarrow> usize option" where
  "separator_position region =
     (case (char_position EQUALS region, char_position COLON region) of
        (None, colon) \<Rightarrow> colon
      | (Some equal, None) \<Rightarrow> Some equal
      | (Some equal, Some colon) \<Rightarrow> Some (if equal < colon then equal else colon))"

record LineParse =
  lp_record :: LineRecord
  next_section :: utf8
  changed_section :: bool

text \<open>The end of \<^verbatim>\<open>parse_line\<close>: a key and a value, with the pieces around them.\<close>

definition parse_key_value :: "IniReaderOptions \<Rightarrow> utf8 \<Rightarrow> utf8 \<Rightarrow> usize \<Rightarrow> LineRecord \<Rightarrow> (LineRecord, usize) Result" where
  "parse_key_value opts raw current_section separator_pos r =
     (let key_part = take separator_pos raw;
          key_begin = length (takeWhile is_space key_part);
          key_str = without_blanks (drop key_begin key_part);
          key_end = key_begin + length key_str;
          value_part = drop (separator_pos + 1) raw;
          value_begin = length (takeWhile is_space value_part);
          comment_pos = find_inline_comment opts value_part;
          value_str = without_blanks (drop value_begin (take comment_pos value_part));
          value_end = value_begin + length value_str
      in and_then (intern_std current_section) (\<lambda>sec.
         and_then (intern_std key_str) (\<lambda>key.
         and_then (intern_std value_str) (\<lambda>v.
         and_then (intern_std (take key_begin key_part)) (\<lambda>kp.
         and_then (intern_std (drop key_end key_part)) (\<lambda>ks.
         and_then (intern_std (take 1 (drop separator_pos raw))) (\<lambda>sep.
         and_then (intern_std (take value_begin value_part)) (\<lambda>vp.
         and_then (if value_end < length value_part then intern_std (drop value_end value_part) else Ok []) (\<lambda>cs.
           let quotes = detect_quotes value_str in
           Ok (r\<lparr>ini_line := \<lparr>line_kind = KeyValue, line_section = sec, line_key = key, line_value = v\<rparr>,
                 key_prefix := kp, key_suffix := ks, separator := sep, value_prefix := vp, comment_suffix := cs,
                 value_quoted := quotes \<noteq> None,
                 value_quote_char := (case quotes of None \<Rightarrow> QUOTE | Some q \<Rightarrow> q)\<rparr>))))))))))"

definition parse_line ::
    "utf8 \<Rightarrow> utf8 \<Rightarrow> utf8 \<Rightarrow> IniReaderOptions \<Rightarrow> usize \<Rightarrow> usize \<Rightarrow> ((LineParse, IniParseError) Result, usize) Result" where
  "parse_line raw ending current_section opts line_number column =
     (let error = (\<lambda>m. Ok (Err (ini_parse_error line_number column m))) in
      if \<not> utf8_is_valid raw then error (ascii ''invalid UTF-8 in line'')
      else
        and_then (intern_std raw) (\<lambda>raw_ref.
        and_then (intern_std ending) (\<lambda>ending_ref.
        and_then (intern_std current_section) (\<lambda>section_ref.
          let line = \<lparr>line_kind = Blank, line_section = section_ref, line_key = [], line_value = []\<rparr>;
              r = empty_record\<lparr>ini_line := line, raw_text := raw_ref, raw_ending := ending_ref\<rparr>;
              same = (\<lambda>r. Ok (Ok \<lparr>lp_record = r, next_section = [], changed_section = False\<rparr>));
              trimmed = trim_ascii raw in
          if trimmed = [] then same r
          else if is_comment_marker opts (hd trimmed) then same (r\<lparr>ini_line := line\<lparr>line_kind := Comment\<rparr>\<rparr>)
          else if hd trimmed = LBRACKET then
            (case char_position RBRACKET trimmed of
               None \<Rightarrow> error (ascii ''section header misses closing '' @ [APOSTROPHE, RBRACKET, APOSTROPHE])
             | Some end \<Rightarrow>
                 let name = trim_ascii (take (end - 1) (drop 1 trimmed)) in
                 and_then (intern_std name) (\<lambda>name_ref.
                   Ok (Ok \<lparr>lp_record = r\<lparr>ini_line := line\<lparr>line_kind := Section, line_section := name_ref\<rparr>\<rparr>,
                           next_section = name, changed_section = True\<rparr>)))
          else
            let region = take (find_inline_comment opts raw) raw in
            (case separator_position region of
               None \<Rightarrow> error (ascii ''key/value line misses '' @ [APOSTROPHE, EQUALS, APOSTROPHE] @ ascii '' or ''
                           @ [APOSTROPHE, COLON, APOSTROPHE])
             | Some separator_pos \<Rightarrow>
                 if current_section = [] \<and> \<not> allow_global_keys opts then error (ascii ''global key/value is disabled'')
                 else and_then (parse_key_value opts raw current_section separator_pos r) same)))))"

text \<open>The line at the start of the text, its ending, and the text after it.\<close>

definition split_line :: "utf8 \<Rightarrow> utf8 \<times> utf8 \<times> utf8" where
  "split_line t =
     (let raw = takeWhile (\<lambda>c. c \<noteq> CR \<and> c \<noteq> LF) t in
      case drop (length raw) t of
        [] \<Rightarrow> (raw, [], [])
      | c # r \<Rightarrow> if c = CR \<and> r \<noteq> [] \<and> hd r = LF then (raw, [CR, LF], tl r) else (raw, [c], r))"

lemma split_line_text:
  assumes "split_line t = (raw, ending, rest)"
  shows "t = raw @ ending @ rest" "t \<noteq> [] \<Longrightarrow> raw @ ending \<noteq> []"
proof -
  have d: "t = takeWhile (\<lambda>c. c \<noteq> CR \<and> c \<noteq> LF) t @ drop (length (takeWhile (\<lambda>c. c \<noteq> CR \<and> c \<noteq> LF) t)) t"
    by (metis dropWhile_eq_drop takeWhile_dropWhile_id)
  then show "t = raw @ ending @ rest"
    using assms by (auto simp: split_line_def Let_def neq_Nil_conv split: list.splits if_splits)
  show "t \<noteq> [] \<Longrightarrow> raw @ ending \<noteq> []"
    using d assms by (auto simp: split_line_def Let_def split: list.splits if_splits)
qed

lemma split_line_shorter: "t \<noteq> [] \<Longrightarrow> split_line t = (raw, ending, rest) \<Longrightarrow> length rest < length t"
  using split_line_text [of t raw ending rest] by simp

definition duplicate_section :: "IniReaderOptions \<Rightarrow> utf8 set \<Rightarrow> LineParse \<Rightarrow> bool" where
  "duplicate_section opts seen p \<longleftrightarrow>
     changed_section p \<and> on_duplicate_section opts = Error \<and> next_section p \<in> seen"

definition duplicate_key :: "IniReaderOptions \<Rightarrow> (utf8 \<times> utf8) set \<Rightarrow> utf8 \<Rightarrow> LineRecord \<Rightarrow> bool" where
  "duplicate_key opts seen section r \<longleftrightarrow>
     line_kind (ini_line r) = KeyValue \<and> on_duplicate_key opts = Error \<and> (section, line_key (ini_line r)) \<in> seen"

text \<open>
  The loop of \<^verbatim>\<open>read\<close>: the rest of the text, the section, the line number, the sections and
  keys seen so far, and the document.  The outer error is the exception of a constructor.
\<close>

function read_loop ::
    "IniReaderOptions \<Rightarrow> utf8 \<Rightarrow> utf8 \<Rightarrow> usize \<Rightarrow> utf8 set \<Rightarrow> (utf8 \<times> utf8) set \<Rightarrow> IniDocument
       \<Rightarrow> ((IniDocument, IniParseError) Result, usize) Result" where
  "read_loop opts t current_section line_number seen_sections seen_keys d =
     (if t = [] then Ok (Ok d)
      else let (raw, ending, rest) = split_line t in
        and_then (parse_line raw ending current_section opts line_number 1) (\<lambda>parsed.
          case parsed of
            Err e \<Rightarrow> Ok (Err e)
          | Ok p \<Rightarrow>
              let section = (if changed_section p then next_section p else current_section);
                  r = lp_record p; key = line_key (ini_line r) in
              if duplicate_section opts seen_sections p then
                Ok (Err (ini_parse_error line_number 1 (ascii ''duplicate section: '' @ section)))
              else if duplicate_key opts seen_keys section r then
                Ok (Err (ini_parse_error line_number 1
                  (ascii ''duplicate key '' @ [APOSTROPHE] @ key @ [APOSTROPHE] @ ascii '' in section: '' @ section)))
              else
                read_loop opts rest section (line_number + 1)
                  (if changed_section p then insert section seen_sections else seen_sections)
                  (if line_kind (ini_line r) = KeyValue then insert (section, key) seen_keys else seen_keys)
                  (add_record r d)))"
  by auto
termination
  by (relation "measure (\<lambda>(opts, t, _). length t)") (auto dest: split_line_shorter [OF _ sym])

declare read_loop.simps [simp del]

definition erase_bom :: "utf8 \<Rightarrow> utf8" where
  "erase_bom t =
     (if length t \<ge> 3 \<and> t ! 0 = 0xEF \<and> t ! 1 = 0xBB \<and> t ! 2 = 0xBF then drop 3 t else t)"

definition ini_read :: "utf8 \<Rightarrow> IniReaderOptions \<Rightarrow> ((IniDocument, IniParseError) Result, usize) Result" where
  "ini_read input opts = map_ok (map_ok rebuild_index) (read_loop opts (erase_bom input) [] 1 {} {} ini_document)"

section \<open>Writer\<close>

text \<open>The option is the line ending to use; empty keeps the ending of each line.\<close>

definition ini_write :: "IniDocument \<Rightarrow> utf8 \<Rightarrow> (utf8, usize) Result" where
  "ini_write d ending =
     map_ok us_data (utf8_string_init
       (concat (map (\<lambda>r. raw_text r @ (if ending = [] then raw_ending r else ending)) (records d))))"

end
