(* ===== verification/Libca_Simulation.thy ===== *)
theory Libca_Simulation
  imports Main
begin

text \<open>
  Sequences of operations of a component against its specification: when every legal
  operation answers as the specification does and leaves related states, so does every
  sequence of legal operations.
\<close>

primrec run_ops :: "('op \<Rightarrow> 's \<Rightarrow> 'r \<times> 's) \<Rightarrow> 'op list \<Rightarrow> 's \<Rightarrow> 'r list \<times> 's" where
  "run_ops step [] s = ([], s)"
| "run_ops step (x # xs) s = (let (r, s) = step x s; (rs, s) = run_ops step xs s in (r # rs, s))"

locale simulation =
  fixes legal :: "'op \<Rightarrow> bool" and rel :: "'c \<Rightarrow> 'a \<Rightarrow> bool"
    and cstep :: "'op \<Rightarrow> 'c \<Rightarrow> 'r \<times> 'c" and astep :: "'op \<Rightarrow> 'a \<Rightarrow> 'r \<times> 'a"
  assumes same_result: "legal x \<Longrightarrow> rel c a \<Longrightarrow> fst (cstep x c) = fst (astep x a)"
    and step_related: "legal x \<Longrightarrow> rel c a \<Longrightarrow> rel (snd (cstep x c)) (snd (astep x a))"
begin

lemma run_simulates:
  "list_all legal xs \<Longrightarrow> rel c a
     \<Longrightarrow> fst (run_ops cstep xs c) = fst (run_ops astep xs a) \<and> rel (snd (run_ops cstep xs c)) (snd (run_ops astep xs a))"
  by (induction xs arbitrary: c a) (simp_all add: case_prod_beta same_result step_related)

end

end
