(* ===== verification/Ini_Edits.thy ===== *)
theory Ini_Edits
  imports Ini Libca_Simulation Str_Utf8_Props
begin

text \<open>
  The document in memory: its indexes point to the last line of each section and key, and
  an edit changes the map from sections and keys to values at one place.
\<close>

section \<open>Indexes\<close>

definition is_key :: "LineRecord \<Rightarrow> bool" where
  "is_key r \<longleftrightarrow> line_kind (ini_line r) = KeyValue"

definition pair_of :: "LineRecord \<Rightarrow> utf8 \<times> utf8" where
  "pair_of r = (line_section (ini_line r), line_key (ini_line r))"

definition headers :: "LineRecord list \<Rightarrow> utf8 list" where
  "headers rs = map (\<lambda>r. line_section (ini_line r)) (filter is_section rs)"

definition entries :: "LineRecord list \<Rightarrow> ((utf8 \<times> utf8) \<times> utf8) list" where
  "entries rs = map (\<lambda>r. (pair_of r, line_value (ini_line r))) (filter is_key rs)"

definition pairs :: "LineRecord list \<Rightarrow> (utf8 \<times> utf8) list" where
  "pairs rs = map pair_of (filter is_key rs)"

lemma map_fst_entries [simp]: "map fst (entries rs) = pairs rs"
  by (simp add: entries_def pairs_def)

lemma list_views [simp]:
  "headers [] = []" "headers (r # rs) = (if is_section r then line_section (ini_line r) # headers rs else headers rs)"
  "headers (rs @ rs') = headers rs @ headers rs'"
  "pairs [] = []" "pairs (r # rs) = (if is_key r then pair_of r # pairs rs else pairs rs)" "pairs (rs @ rs') = pairs rs @ pairs rs'"
  "entries [] = []" "entries (r # rs) = (if is_key r then (pair_of r, line_value (ini_line r)) # entries rs else entries rs)"
  "entries (rs @ rs') = entries rs @ entries rs'"
  by (simp_all add: headers_def pairs_def entries_def)

text \<open>The value of a key is that of its last line.\<close>

definition config :: "LineRecord list \<Rightarrow> utf8 \<times> utf8 \<rightharpoonup> utf8" where
  "config rs = map_of (rev (entries rs))"

lemma config_append [simp]: "config (rs @ rs') = config rs ++ config rs'" "config [] = Map.empty"
  by (simp_all add: config_def)

lemma config_one [simp]: "config [r] = (if is_key r then [pair_of r \<mapsto> line_value (ini_line r)] else Map.empty)"
  by (simp add: config_def)

lemma dom_config: "dom (config rs) = set (pairs rs)"
  by (simp add: config_def dom_map_of_conv_image_fst flip: map_fst_entries)

lemma config_None: "config rs x = None \<longleftrightarrow> x \<notin> set (pairs rs)"
  using dom_config [of rs] by (auto simp: domIff)

definition header_index :: "LineRecord list \<Rightarrow> utf8 \<rightharpoonup> usize" where
  "header_index rs =
     fold (\<lambda>(i, r) m. if is_section r then m(line_section (ini_line r) \<mapsto> i) else m) (enumerate 0 rs) Map.empty"

definition pair_index :: "LineRecord list \<Rightarrow> utf8 \<rightharpoonup> (utf8 \<rightharpoonup> usize)" where
  "pair_index rs =
     fold (\<lambda>(i, r) m. if is_key r
             then m(line_section (ini_line r) \<mapsto>
                      (case m (line_section (ini_line r)) of None \<Rightarrow> Map.empty | Some ks \<Rightarrow> ks)(line_key (ini_line r) \<mapsto> i))
             else m) (enumerate 0 rs) Map.empty"

lemma index_Nil [simp]: "header_index [] = Map.empty" "pair_index [] = Map.empty"
  by (simp_all add: header_index_def pair_index_def)

lemma index_snoc:
  "header_index (rs @ [r]) = (if is_section r then (header_index rs)(line_section (ini_line r) \<mapsto> length rs) else header_index rs)"
  "pair_index (rs @ [r]) = (if is_key r
     then (pair_index rs)(line_section (ini_line r) \<mapsto>
            (case pair_index rs (line_section (ini_line r)) of None \<Rightarrow> Map.empty | Some ks \<Rightarrow> ks)(line_key (ini_line r) \<mapsto> length rs))
     else pair_index rs)"
  by (simp_all add: header_index_def pair_index_def enumerate_append_eq)

lemma rebuild_index_eq:
  "rebuild_index d = d\<lparr>public_lines := map ini_line (records d), section_index := header_index (records d), key_index := pair_index (records d)\<rparr>"
proof -
  have "fold index_line (enumerate 0 rs) (d\<lparr>public_lines := [], section_index := Map.empty, key_index := Map.empty\<rparr>)
      = d\<lparr>public_lines := map ini_line rs, section_index := header_index rs, key_index := pair_index rs\<rparr>" for rs
  proof (induction rs rule: rev_induct)
    case (snoc r rs)
    then show ?case
      by (simp add: enumerate_append_eq index_snoc index_line_def Let_def is_section_def is_key_def)
  qed (simp add: header_index_def pair_index_def)
  then show ?thesis by (simp add: rebuild_index_def)
qed

definition coherent :: "IniDocument \<Rightarrow> bool" where
  "coherent d \<longleftrightarrow> rebuild_index d = d"

lemma coherentI [simp]: "coherent (rebuild_index d)"
  by (simp add: coherent_def rebuild_index_eq)

lemma coherentD:
  assumes "coherent d"
  shows "public_lines d = map ini_line (records d)" "section_index d = header_index (records d)" "key_index d = pair_index (records d)"
proof -
  note e = assms [unfolded coherent_def, symmetric]
  show "public_lines d = map ini_line (records d)" "section_index d = header_index (records d)" "key_index d = pair_index (records d)"
    by (subst e, simp add: rebuild_index_eq)+
qed

lemma header_index_Some:
  "header_index rs s = Some i \<Longrightarrow> i < length rs \<and> is_section (rs ! i) \<and> line_section (ini_line (rs ! i)) = s \<and> s \<notin> set (headers (drop (Suc i) rs))"
proof (induction rs rule: rev_induct)
  case (snoc r rs)
  then show ?case by (auto simp: index_snoc nth_append split: if_splits)
qed (simp add: header_index_def)

lemma header_index_None: "header_index rs s = None \<longleftrightarrow> s \<notin> set (headers rs)"
  by (induction rs rule: rev_induct) (auto simp: index_snoc)

definition pair_position :: "LineRecord list \<Rightarrow> utf8 \<times> utf8 \<Rightarrow> usize option" where
  "pair_position rs x = (case pair_index rs (fst x) of None \<Rightarrow> None | Some ks \<Rightarrow> ks (snd x))"

lemma pair_position_snoc: "pair_position (rs @ [r]) x = (if is_key r \<and> pair_of r = x then Some (length rs) else pair_position rs x)"
  by (cases x) (auto simp: pair_position_def index_snoc pair_of_def split: option.splits)

lemma pair_position_Some:
  "pair_position rs x = Some i \<Longrightarrow> i < length rs \<and> is_key (rs ! i) \<and> pair_of (rs ! i) = x \<and> x \<notin> set (pairs (drop (Suc i) rs))"
proof (induction rs rule: rev_induct)
  case (snoc r rs)
  then show ?case by (auto simp: pair_position_snoc nth_append split: if_splits)
qed (simp add: pair_position_def pair_index_def)

lemma pair_position_None: "pair_position rs x = None \<longleftrightarrow> x \<notin> set (pairs rs)"
  by (induction rs rule: rev_induct) (auto simp: pair_position_snoc, simp add: pair_position_def)

lemma coherent_position: "coherent d \<Longrightarrow> key_position s k d = pair_position (records d) (s, k)"
  by (simp add: key_position_def pair_position_def coherentD split: option.splits)

lemma coherent_split:
  assumes "coherent d" and "key_position s k d = Some i"
  obtains rs r rs' where "records d = rs @ r # rs'" "length rs = i" "is_key r" "pair_of r = (s, k)" "(s, k) \<notin> set (pairs rs')"
proof
  have p: "pair_position (records d) (s, k) = Some i" using assms coherent_position by metis
  note q = pair_position_Some [OF p]
  show "records d = take i (records d) @ (records d ! i) # drop (Suc i) (records d)" using q by (simp add: id_take_nth_drop [symmetric])
  show "length (take i (records d)) = i" "is_key (records d ! i)" "pair_of (records d ! i) = (s, k)"
    "(s, k) \<notin> set (pairs (drop (Suc i) (records d)))" using q by simp_all
qed

lemma key_position_None: "coherent d \<Longrightarrow> key_position s k d = None \<longleftrightarrow> (s, k) \<notin> set (pairs (records d))"
  by (simp add: coherent_position pair_position_None)

theorem find_value_config: "coherent d \<Longrightarrow> find_value s k d = config (records d) (s, k)"
proof (cases "key_position s k d")
  case None
  then show "coherent d \<Longrightarrow> ?thesis" using key_position_None [of d s k] config_None [of "records d" "(s, k)"] by (simp add: find_value_def)
next
  case (Some i)
  assume "coherent d"
  from coherent_split [OF this Some] obtain rs r rs' where
    r: "records d = rs @ r # rs'" "length rs = i" "is_key r" "pair_of r = (s, k)" "(s, k) \<notin> set (pairs rs')" .
  have "config (records d) (s, k) = Some (line_value (ini_line r))"
    using r(3-5) config_append(1) [of "rs @ [r]" rs'] config_None [of rs' "(s, k)"] by (simp add: r(1) map_add_def)
  then show ?thesis using r(1,2) Some by (simp add: find_value_def nth_append)
qed

section \<open>Sections and their keys\<close>

primrec keys_placed :: "utf8 \<Rightarrow> LineRecord list \<Rightarrow> bool" where
  "keys_placed s [] \<longleftrightarrow> True"
| "keys_placed s (r # rs) \<longleftrightarrow>
     (if is_section r then keys_placed (line_section (ini_line r)) rs
      else (is_key r \<longrightarrow> line_section (ini_line r) = s) \<and> keys_placed s rs)"

definition last_section :: "utf8 \<Rightarrow> LineRecord list \<Rightarrow> utf8" where
  "last_section s rs = last (s # headers rs)"

lemma placed_append [simp]: "keys_placed s (a @ b) \<longleftrightarrow> keys_placed s a \<and> keys_placed (last_section s a) b"
  by (induction a arbitrary: s) (auto simp: last_section_def)

lemma placed_pairs: "keys_placed s rs \<Longrightarrow> x \<in> set (pairs rs) \<Longrightarrow> fst x = s \<or> fst x \<in> set (headers rs)"
  by (induction rs arbitrary: s) (auto simp: pair_of_def is_key_def is_section_def split: if_splits)

definition rec_valid :: "LineRecord \<Rightarrow> bool" where
  "rec_valid r \<longleftrightarrow> utf8_is_valid (line_key (ini_line r)) \<and> utf8_is_valid (raw_text r)
     \<and> utf8_is_valid (raw_ending r) \<and> utf8_is_valid (key_prefix r) \<and> utf8_is_valid (key_suffix r)
     \<and> utf8_is_valid (separator r) \<and> utf8_is_valid (value_prefix r) \<and> utf8_is_valid (comment_suffix r)
     \<and> unat (value_quote_char r) < 128"

definition doc_wf :: "IniDocument \<Rightarrow> bool" where
  "doc_wf d \<longleftrightarrow> coherent d \<and> keys_placed [] (records d) \<and> list_all rec_valid (records d) \<and> utf8_is_valid (default_line_ending d)"

lemma doc_wf_rebuild:
  "doc_wf (rebuild_index d) \<longleftrightarrow> keys_placed [] (records d) \<and> list_all rec_valid (records d) \<and> utf8_is_valid (default_line_ending d)"
  "records (rebuild_index d) = records d" "default_line_ending (rebuild_index d) = default_line_ending d"
  by (simp_all add: doc_wf_def rebuild_index_eq [of d]) (simp add: coherent_def rebuild_index_eq)

definition unique :: "IniDocument \<Rightarrow> bool" where
  "unique d \<longleftrightarrow> distinct (headers (records d)) \<and> distinct (pairs (records d))"

section \<open>Strings\<close>

lemma intern_id: "utf8_is_valid t \<Longrightarrow> arena_intern t = t"
  using valid_count [of t] by (cases "t = []") (auto simp: arena_intern_def)

lemma intern_std_valid [simp]: "utf8_is_valid t \<Longrightarrow> intern_std t = Ok t"
  using string_init_valid [of t] by (auto simp: intern_std_def intern_id)

section \<open>Setting a value\<close>

lemma valid_line_ending: "doc_wf d \<Longrightarrow> utf8_is_valid (line_ending_for_new_line d)"
  by (simp add: line_ending_for_new_line_def doc_wf_def valid_ascii_byte)

definition new_line_ending :: "utf8 \<Rightarrow> LineRecord" where
  "new_line_ending newline = empty_record\<lparr>raw_ending := newline\<rparr>"

definition new_header :: "utf8 \<Rightarrow> utf8 \<Rightarrow> LineRecord" where
  "new_header newline s =
     empty_record\<lparr>ini_line := \<lparr>line_kind = Section, line_section = s, line_key = [], line_value = []\<rparr>,
                  raw_text := [LBRACKET] @ s @ [RBRACKET], raw_ending := newline\<rparr>"

definition new_key :: "utf8 \<Rightarrow> utf8 \<Rightarrow> utf8 \<Rightarrow> utf8 \<Rightarrow> LineRecord" where
  "new_key newline s k v =
     empty_record\<lparr>ini_line := \<lparr>line_kind = KeyValue, line_section = s, line_key = k, line_value = v\<rparr>,
                  raw_text := k @ [SPACE, EQUALS, SPACE] @ v, raw_ending := newline,
                  key_suffix := [SPACE], separator := [EQUALS], value_prefix := [SPACE]\<rparr>"

lemma valid_around: "utf8_is_valid s \<Longrightarrow> unat a < 128 \<Longrightarrow> unat b < 128 \<Longrightarrow> utf8_is_valid (a # s @ [b])"
  using valid_append [of s "[b]"] by (simp add: valid_ascii_byte)

lemma valid_key_line: "utf8_is_valid k \<Longrightarrow> utf8_is_valid v \<Longrightarrow> utf8_is_valid (k @ SPACE # EQUALS # SPACE # v)"
  using valid_append [of k "SPACE # EQUALS # SPACE # v"] by (simp add: valid_ascii_byte)

lemma new_records:
  assumes "utf8_is_valid newline" and "utf8_is_valid s" and "utf8_is_valid k" and "utf8_is_valid v"
  shows "blank_record newline = Ok (new_line_ending newline)" "section_record newline s = Ok (new_header newline s)"
    and "key_record newline s k v = Ok (new_key newline s k v)"
    and "rec_valid (new_line_ending newline)" "rec_valid (new_header newline s)" "rec_valid (new_key newline s k v)"
  using assms valid_around [of s LBRACKET RBRACKET] valid_key_line [of k v]
  by (simp_all add: blank_record_def section_record_def key_record_def new_line_ending_def new_header_def new_key_def
      rec_valid_def empty_record_def valid_ascii_byte ascii_def intern_id)

lemma new_views [simp]:
  "\<not> is_section (new_line_ending newline)" "\<not> is_key (new_line_ending newline)"
  "is_section (new_header newline s)" "\<not> is_key (new_header newline s)" "line_section (ini_line (new_header newline s)) = s"
  "\<not> is_section (new_key newline s k v)" "is_key (new_key newline s k v)" "pair_of (new_key newline s k v) = (s, k)"
  "line_section (ini_line (new_key newline s k v)) = s" "line_value (ini_line (new_key newline s k v)) = v"
  by (simp_all add: new_line_ending_def new_header_def new_key_def is_section_def is_key_def pair_of_def empty_record_def)

text \<open>The lines \<^verbatim>\<open>set\<close> adds for a section that does not exist.\<close>

definition section_lines :: "utf8 \<Rightarrow> utf8 \<Rightarrow> LineRecord list \<Rightarrow> LineRecord list" where
  "section_lines newline s rs =
     (if s \<noteq> [] \<and> s \<notin> set (headers rs)
      then (if rs \<noteq> [] \<and> raw_text (last rs) \<noteq> [] then [new_line_ending newline] else []) @ [new_header newline s] else [])"

lemma ensure_section_eq:
  assumes "coherent d" and "utf8_is_valid newline" and "utf8_is_valid s"
  shows "ensure_section newline s d = Ok (rebuild_index (d\<lparr>records := records d @ section_lines newline s (records d)\<rparr>))"
proof (cases "s \<noteq> [] \<and> s \<notin> set (headers (records d))")
  case True
  then have "section_index d s = None" using coherentD(2) [OF assms(1)] header_index_None [of "records d" s] by simp
  then show ?thesis
    using True new_records(1,2) [OF assms(2,3), of "[]" "[]"] by (simp add: ensure_section_def section_lines_def)
next
  case False
  then have "section_index d s \<noteq> None \<or> s = []" using coherentD(2) [OF assms(1)] header_index_None [of "records d" s] by auto
  then have "\<not> (s \<noteq> [] \<and> section_index d s = None)" by blast
  then have "ensure_section newline s d = Ok d" unfolding ensure_section_def by (rule if_not_P)
  moreover have "section_lines newline s (records d) = []" unfolding section_lines_def using False by (rule if_not_P)
  ultimately show ?thesis using assms(1) by (simp add: coherent_def)
qed

lemma section_lines_views:
  "pairs (section_lines newline s rs) = []" "headers (section_lines newline s rs) = (if s \<noteq> [] \<and> s \<notin> set (headers rs) then [s] else [])"
  "keys_placed t (section_lines newline s rs)" "config (section_lines newline s rs) = Map.empty"
  by (simp_all add: section_lines_def config_def)

lemma next_section_split:
  "\<exists>a b. drop pos rs = a @ b \<and> next_section_line pos rs = pos + length a \<and> headers a = [] \<and> (b = [] \<or> is_section (hd b))"
proof (intro exI conjI)
  let ?P = "\<lambda>r. \<not> is_section r"
  show "drop pos rs = takeWhile ?P (drop pos rs) @ dropWhile ?P (drop pos rs)" by simp
  show "next_section_line pos rs = pos + length (takeWhile ?P (drop pos rs))" by (simp add: next_section_line_def)
  show "headers (takeWhile ?P (drop pos rs)) = []" by (auto simp: headers_def filter_empty_conv dest: set_takeWhileD)
  show "dropWhile ?P (drop pos rs) = [] \<or> is_section (hd (dropWhile ?P (drop pos rs)))"
    using hd_dropWhile [of ?P "drop pos rs"] by blast
qed

lemma section_split:
  assumes "coherent d" and "section_index d s = Some i"
  obtains a h m b where "records d = a @ h # m @ b" "length a = i" "is_section h" "line_section (ini_line h) = s"
    "headers m = []" "b = [] \<or> is_section (hd b)" "next_section_line (i + 1) (records d) = length (a @ h # m)"
proof -
  have "header_index (records d) s = Some i" using assms coherentD by metis
  note h = header_index_Some [OF this]
  obtain m b where mb: "drop (i + 1) (records d) = m @ b" "next_section_line (i + 1) (records d) = i + 1 + length m"
      "headers m = []" "b = [] \<or> is_section (hd b)"
    using next_section_split by blast
  show thesis
  proof
    show "records d = take i (records d) @ (records d ! i) # m @ b" using h mb(1) by (simp add: id_take_nth_drop [symmetric] flip: mb(1))
    show "length (take i (records d)) = i" "is_section (records d ! i)" "line_section (ini_line (records d ! i)) = s" using h by simp_all
    show "next_section_line (i + 1) (records d) = length (take i (records d) @ (records d ! i) # m)" using h mb(2) by simp
  qed (use mb in simp_all)
qed

lemma insert_split:
  assumes "coherent d" and "s = [] \<or> s \<in> set (headers (records d))"
  obtains a b where "records d = a @ b" "find_insert_position s d = length a" "last_section [] a = s" "b = [] \<or> is_section (hd b)"
proof (cases "s = []")
  case True
  obtain a b where ab: "drop 0 (records d) = a @ b" "next_section_line 0 (records d) = 0 + length a" "headers a = []"
      "b = [] \<or> is_section (hd b)" using next_section_split by blast
  then show thesis using that [of a b] True by (simp add: find_insert_position_def last_section_def)
next
  case False
  then have "header_index (records d) s \<noteq> None" using assms(2) header_index_None by blast
  then obtain i where i: "section_index d s = Some i" using coherentD(2) [OF assms(1)] by force
  from section_split [OF assms(1) i] obtain a h m b where "records d = a @ h # m @ b" "length a = i" "is_section h"
    "line_section (ini_line h) = s" "headers m = []" "b = [] \<or> is_section (hd b)" "next_section_line (i + 1) (records d) = length (a @ h # m)" .
  then show thesis using that [of "a @ h # m" b] False i by (simp add: find_insert_position_def last_section_def)
qed

lemma config_insert: "x \<notin> set (pairs b) \<Longrightarrow> is_key r \<Longrightarrow> pair_of r = x \<Longrightarrow>
    config (a @ r # b) = (config a ++ config b)(x \<mapsto> line_value (ini_line r))"
proof -
  assume x: "x \<notin> set (pairs b)" "is_key r" "pair_of r = x"
  have "config (a @ r # b) = config a ++ [x \<mapsto> line_value (ini_line r)] ++ config b"
    using config_append(1) [of a "[r] @ b"] config_append(1) [of "[r]" b] x(2,3) by simp
  also have "\<dots> = (config a ++ config b)(x \<mapsto> line_value (ini_line r))"
    using x(1) dom_config [of b] by (auto simp: fun_eq_iff map_add_def split: option.splits)
  finally show ?thesis .
qed

definition grown :: "utf8 \<Rightarrow> utf8 list \<Rightarrow> utf8 list" where
  "grown s hs = (if s = [] \<or> s \<in> set hs then hs else hs @ [s])"

lemma grown_distinct: "distinct hs \<Longrightarrow> distinct (grown s hs)"
  by (simp add: grown_def)

lemma set_new_key:
  assumes "doc_wf d" and "utf8_is_valid s" "utf8_is_valid k" "utf8_is_valid v" and "(s, k) \<notin> set (pairs (records d))"
  defines "newline \<equiv> line_ending_for_new_line d"
  obtains a b where "records d @ section_lines newline s (records d) = a @ b" "last_section [] a = s" "b = [] \<or> is_section (hd b)"
    "ini_set s k v d = Ok (rebuild_index (d\<lparr>records := a @ new_key newline s k v # b\<rparr>))"
proof -
  note w = assms(1) [unfolded doc_wf_def]
  have nl: "utf8_is_valid newline" unfolding newline_def using valid_line_ending [OF assms(1)] .
  let ?d = "rebuild_index (d\<lparr>records := records d @ section_lines newline s (records d)\<rparr>)"
  have rs: "records ?d = records d @ section_lines newline s (records d)" by (simp add: doc_wf_rebuild(2))
  have "s = [] \<or> s \<in> set (headers (records ?d))" by (auto simp: rs section_lines_views)
  from insert_split [OF coherentI this] obtain a b where
    ab: "records ?d = a @ b" "find_insert_position s ?d = length a" "last_section [] a = s" "b = [] \<or> is_section (hd b)" .
  have "key_position s k d = None" using w assms(5) key_position_None by blast
  then have "ini_set s k v d = Ok (rebuild_index (?d\<lparr>records := a @ new_key newline s k v # b\<rparr>))"
    using ensure_section_eq [OF _ nl assms(2)] w new_records(3) [OF nl assms(2-4)] ab(1,2)
    by (simp add: ini_set_def newline_def [symmetric] Let_def)
  then have "ini_set s k v d = Ok (rebuild_index (d\<lparr>records := a @ new_key newline s k v # b\<rparr>))"
    by (simp add: rebuild_index_eq)
  then show thesis using that ab rs by metis
qed

lemma placed_last: "b = [] \<or> is_section (hd b) \<Longrightarrow> keys_placed s b \<longleftrightarrow> keys_placed t b"
  by (cases b) auto

text \<open>A new key: the map gains it, and the section is new or was there.\<close>

lemma set_new_correct:
  assumes "doc_wf d" and "utf8_is_valid s" "utf8_is_valid k" "utf8_is_valid v" and "(s, k) \<notin> set (pairs (records d))"
  shows "\<exists>d'. ini_set s k v d = Ok d' \<and> doc_wf d' \<and> config (records d') = (config (records d))((s, k) \<mapsto> v)
    \<and> headers (records d') = grown s (headers (records d)) \<and> (distinct (pairs (records d)) \<longrightarrow> distinct (pairs (records d')))"
proof -
  let ?nl = "line_ending_for_new_line d"
  let ?ls = "section_lines ?nl s (records d)"
  from set_new_key [OF assms] obtain a b where
    ab: "records d @ ?ls = a @ b" "last_section [] a = s" "b = [] \<or> is_section (hd b)"
      "ini_set s k v d = Ok (rebuild_index (d\<lparr>records := a @ new_key ?nl s k v # b\<rparr>))" .
  let ?d = "rebuild_index (d\<lparr>records := a @ new_key ?nl s k v # b\<rparr>)"
  have nl: "utf8_is_valid ?nl" using valid_line_ending [OF assms(1)] .
  note w = assms(1) [unfolded doc_wf_def]
  have views: "pairs a @ pairs b = pairs (records d)" "headers a @ headers b = headers (records d) @ headers ?ls"
    "config a ++ config b = config (records d)"
    using arg_cong [OF ab(1), of pairs] arg_cong [OF ab(1), of headers] arg_cong [OF ab(1), of config]
    by (simp_all add: section_lines_views)
  have fresh: "(s, k) \<notin> set (pairs a)" "(s, k) \<notin> set (pairs b)" using assms(5) unfolding views(1) [symmetric] by simp_all
  have "keys_placed [] (a @ b)" unfolding ab(1) [symmetric] using w section_lines_views(3) by simp
  moreover have "list_all rec_valid (a @ b)"
    unfolding ab(1) [symmetric] using w new_records [OF nl assms(2-4)] by (simp add: section_lines_def)
  ultimately have "doc_wf ?d"
    using w new_records(6) [OF nl assms(2-4)] ab(2) placed_last [OF ab(3), of s] by (simp add: doc_wf_rebuild)
  moreover have "config (records ?d) = (config (records d))((s, k) \<mapsto> v)"
    using config_insert [OF fresh(2), of "new_key ?nl s k v" a] views(3) by (simp add: doc_wf_rebuild(2))
  moreover have "headers (records ?d) = grown s (headers (records d))"
    using views(2) by (simp add: doc_wf_rebuild(2) section_lines_views grown_def split: if_splits)
  moreover have "distinct (pairs (records ?d)) = distinct (pairs (records d))"
    using fresh unfolding views(1) [symmetric] by (auto simp: doc_wf_rebuild(2))
  ultimately show ?thesis using ab(4) by blast
qed

text \<open>An existing key: its line is rebuilt from its pieces.\<close>

definition with_value :: "utf8 \<Rightarrow> LineRecord \<Rightarrow> LineRecord" where
  "with_value v r = (let r = r\<lparr>ini_line := (ini_line r)\<lparr>line_value := v\<rparr>\<rparr> in r\<lparr>raw_text := rebuilt_text r\<rparr>)"

lemma with_value_views [simp]:
  "is_section (with_value v r) = is_section r" "is_key (with_value v r) = is_key r" "pair_of (with_value v r) = pair_of r"
  "line_section (ini_line (with_value v r)) = line_section (ini_line r)" "line_value (ini_line (with_value v r)) = v"
  "raw_ending (with_value v r) = raw_ending r"
  by (simp_all add: with_value_def is_section_def is_key_def pair_of_def Let_def)

lemma with_value_valid:
  assumes "rec_valid r" and "utf8_is_valid v"
  shows "utf8_is_valid (raw_text (with_value v r))" "rec_valid (with_value v r)"
proof -
  have q: "utf8_is_valid (value_quote_char r # v @ value_quote_char r # comment_suffix r)"
    using assms valid_append [of v "value_quote_char r # comment_suffix r"] by (simp add: rec_valid_def valid_ascii_byte)
  show a: "utf8_is_valid (raw_text (with_value v r))"
    using assms q by (auto simp: with_value_def rebuilt_text_def Let_def rec_valid_def intro!: valid_append)
  show "rec_valid (with_value v r)" using assms a by (simp add: rec_valid_def with_value_def Let_def)
qed

lemma index_update:
  assumes "is_section r' = is_section r" "is_key r' = is_key r" "pair_of r' = pair_of r"
  shows "header_index (a @ r' # b) = header_index (a @ r # b)" "pair_index (a @ r' # b) = pair_index (a @ r # b)"
  using assms by (induction b rule: rev_induct) (simp_all add: index_snoc pair_of_def flip: append_Cons append_assoc)

lemma set_existing_eq:
  assumes "doc_wf d" and "utf8_is_valid v" and "records d = a @ r # b"
  shows "set_existing (length a) v d = Ok (rebuild_index (d\<lparr>records := a @ with_value v r # b\<rparr>))"
proof -
  note w = assms(1) [unfolded doc_wf_def]
  have "rec_valid r" using w assms(3) by simp
  note wv = with_value_valid(1) [OF this assms(2)]
  note c = coherentD [OF conjunct1 [OF w]]
  have i: "header_index (a @ with_value v r # b) = header_index (a @ r # b)" "pair_index (a @ with_value v r # b) = pair_index (a @ r # b)"
    by (rule index_update, simp_all)+
  show ?thesis
    using wv c i
    by (simp add: set_existing_def rebuild_key_raw_def Let_def assms(2,3) nth_append intern_id with_value_def rebuild_index_eq list_update_append)
qed

lemma set_existing_correct:
  assumes "doc_wf d" and "utf8_is_valid v" and "key_position s k d = Some i"
  shows "\<exists>d'. ini_set s k v d = Ok d' \<and> doc_wf d' \<and> config (records d') = (config (records d))((s, k) \<mapsto> v)
    \<and> headers (records d') = headers (records d) \<and> pairs (records d') = pairs (records d)"
proof -
  note w = assms(1) [unfolded doc_wf_def]
  from coherent_split [OF conjunct1 [OF w] assms(3)] obtain a r b where
    r: "records d = a @ r # b" "length a = i" "is_key r" "pair_of r = (s, k)" "(s, k) \<notin> set (pairs b)" .
  let ?d = "rebuild_index (d\<lparr>records := a @ with_value v r # b\<rparr>)"
  have "ini_set s k v d = Ok ?d" using set_existing_eq [OF assms(1,2) r(1)] r(2) assms(3) by (simp add: ini_set_def)
  moreover have "doc_wf ?d" using w r(1) with_value_valid(2) [OF _ assms(2)] by (auto simp: doc_wf_rebuild last_section_def)
  moreover have "config (records ?d) = (config (records d))((s, k) \<mapsto> v)"
    using config_insert [OF r(5), of r a] config_insert [OF r(5), of "with_value v r" a] r(1,3,4) by (simp add: doc_wf_rebuild(2))
  ultimately show ?thesis by (simp add: doc_wf_rebuild(2) r(1))
qed

theorem set_correct:
  assumes "doc_wf d" and "utf8_is_valid s" "utf8_is_valid k" "utf8_is_valid v"
  shows "\<exists>d'. ini_set s k v d = Ok d' \<and> doc_wf d' \<and> config (records d') = (config (records d))((s, k) \<mapsto> v)
    \<and> headers (records d') = grown s (headers (records d)) \<and> (distinct (pairs (records d)) \<longrightarrow> distinct (pairs (records d')))"
proof (cases "key_position s k d")
  case None
  then show ?thesis using set_new_correct [OF assms] key_position_None assms(1) by (simp add: doc_wf_def)
next
  case (Some i)
  have "(s, k) \<in> set (pairs (records d))" using key_position_None [of d s k] Some assms(1) by (simp add: doc_wf_def)
  then have "grown s (headers (records d)) = headers (records d)"
    using placed_pairs [of "[]" "records d" "(s, k)"] assms(1) by (auto simp: grown_def doc_wf_def)
  then show ?thesis using set_existing_correct [OF assms(1,4) Some] by auto
qed

section \<open>Removing\<close>

lemma remove_correct:
  assumes "doc_wf d" and "unique d"
  shows "\<exists>d'. ini_remove s k d = ((s, k) \<in> set (pairs (records d)), d') \<and> doc_wf d' \<and> unique d'
    \<and> config (records d') = (config (records d))((s, k) := None) \<and> headers (records d') = headers (records d)"
proof (cases "key_position s k d")
  case None
  then have "(s, k) \<notin> set (pairs (records d))" using key_position_None assms(1) by (simp add: doc_wf_def)
  then show ?thesis using None assms config_None [of "records d" "(s, k)"] by (auto simp: ini_remove_def fun_upd_idem)
next
  case (Some i)
  note w = assms(1) [unfolded doc_wf_def]
  from coherent_split [OF conjunct1 [OF w] Some] obtain a r b where
    r: "records d = a @ r # b" "length a = i" "is_key r" "pair_of r = (s, k)" "(s, k) \<notin> set (pairs b)" .
  let ?d = "rebuild_index (d\<lparr>records := a @ b\<rparr>)"
  have ns: "\<not> is_section r" using r(3) by (simp add: is_key_def is_section_def)
  have fresh: "(s, k) \<notin> set (pairs a)" using assms(2) r by (simp add: unique_def)
  have "ini_remove s k d = (True, ?d)" using Some r(1,2) by (simp add: ini_remove_def)
  moreover have "doc_wf ?d" using w r(1) ns by (simp add: doc_wf_rebuild)
  moreover have "unique ?d" using assms(2) r(1) ns by (auto simp: unique_def doc_wf_rebuild(2) split: if_splits)
  moreover have "config (records ?d) = (config (records d))((s, k) := None)"
  proof -
    have "config (records d) = (config a ++ config b)((s, k) \<mapsto> line_value (ini_line r))" using config_insert [OF r(5,3,4)] r(1) by simp
    moreover have "(config a ++ config b) (s, k) = None" using r(5) fresh config_None by simp
    ultimately show ?thesis by (simp add: doc_wf_rebuild(2) fun_upd_idem)
  qed
  ultimately show ?thesis using r ns by (simp add: doc_wf_rebuild(2))
qed

definition without_section :: "utf8 \<Rightarrow> (utf8 \<times> utf8 \<rightharpoonup> utf8) \<Rightarrow> (utf8 \<times> utf8 \<rightharpoonup> utf8)" where
  "without_section s m = (\<lambda>x. if fst x = s then None else m x)"

lemma without_section_id: "\<forall>x \<in> dom m. fst x \<noteq> s \<Longrightarrow> without_section s m = m"
proof (rule ext)
  fix x
  assume "\<forall>x \<in> dom m. fst x \<noteq> s"
  then show "without_section s m x = m x" by (cases x; cases "m x") (auto simp: without_section_def dom_def)
qed

lemma without_section_add [simp]: "without_section s (m ++ m') = without_section s m ++ without_section s m'"
  by (auto simp: without_section_def fun_eq_iff map_add_def)

lemma without_section_all: "\<forall>x \<in> dom m. fst x = s \<Longrightarrow> without_section s m = Map.empty"
proof (rule ext)
  fix x
  assume "\<forall>x \<in> dom m. fst x = s"
  then show "without_section s m x = None" by (cases x; cases "m x") (auto simp: without_section_def dom_def)
qed

lemma global_filter:
  "config (filter (\<lambda>r. \<not> is_global_key r) rs) = without_section [] (config rs)"
  "headers (filter (\<lambda>r. \<not> is_global_key r) rs) = headers rs"
  "pairs (filter (\<lambda>r. \<not> is_global_key r) rs) = filter (\<lambda>x. fst x \<noteq> []) (pairs rs)"
  "keys_placed s rs \<Longrightarrow> keys_placed s (filter (\<lambda>r. \<not> is_global_key r) rs)"
  "list_ex is_global_key rs = (\<exists>x \<in> set (pairs rs). fst x = [])"
proof -
  have g: "is_global_key r \<longleftrightarrow> is_key r \<and> fst (pair_of r) = []" for r by (auto simp: is_global_key_def is_key_def pair_of_def)
  have k: "is_key r \<Longrightarrow> \<not> is_section r" for r by (simp add: is_key_def is_section_def)
  show "config (filter (\<lambda>r. \<not> is_global_key r) rs) = without_section [] (config rs)"
  proof (induction rs)
    case (Cons r rs)
    have "config (r # rs) = config [r] ++ config rs" "config (r # filter (\<lambda>r. \<not> is_global_key r) rs) = config [r] ++ config (filter (\<lambda>r. \<not> is_global_key r) rs)"
      using config_append(1) [of "[r]"] by simp_all
    moreover have "is_global_key r \<Longrightarrow> without_section [] (config [r]) = Map.empty" "\<not> is_global_key r \<Longrightarrow> without_section [] (config [r]) = config [r]"
      using g without_section_all [of "config [r]"] without_section_id [of "config [r]"] by (auto split: if_splits)
    ultimately show ?case using Cons by simp
  qed (simp add: without_section_def)
  show "headers (filter (\<lambda>r. \<not> is_global_key r) rs) = headers rs" using g k by (induction rs) auto
  show "pairs (filter (\<lambda>r. \<not> is_global_key r) rs) = filter (\<lambda>x. fst x \<noteq> []) (pairs rs)" using g by (induction rs) auto
  show "keys_placed s rs \<Longrightarrow> keys_placed s (filter (\<lambda>r. \<not> is_global_key r) rs)" using g k by (induction rs arbitrary: s) auto
  show "list_ex is_global_key rs = (\<exists>x \<in> set (pairs rs). fst x = [])" using g by (induction rs) auto
qed

lemma remove_global_correct:
  assumes "doc_wf d" and "unique d"
  shows "\<exists>d'. remove_section [] d = (\<exists>x \<in> set (pairs (records d)). fst x = [], d') \<and> doc_wf d' \<and> unique d'
    \<and> config (records d') = without_section [] (config (records d)) \<and> headers (records d') = headers (records d)"
proof (cases "list_ex is_global_key (records d)")
  case True
  let ?d = "rebuild_index (d\<lparr>records := filter (\<lambda>r. \<not> is_global_key r) (records d)\<rparr>)"
  have "remove_section [] d = (True, ?d)" using True by (simp add: remove_section_def)
  moreover have "doc_wf ?d" using assms(1) by (auto simp: doc_wf_rebuild doc_wf_def global_filter(4) list_all_iff)
  moreover have "unique ?d" using assms(2) by (simp add: unique_def doc_wf_rebuild(2) global_filter)
  ultimately show ?thesis using True by (simp add: doc_wf_rebuild(2) global_filter)
next
  case False
  then have "filter (\<lambda>r. \<not> is_global_key r) (records d) = records d" by (auto simp: filter_id_conv list_ex_iff)
  then have "remove_section [] d = (False, d)" using False by (simp add: remove_section_def)
  moreover have "without_section [] (config (records d)) = config (records d)"
    using False global_filter(5) [of "records d"] by (intro without_section_id) (auto simp: dom_config)
  ultimately show ?thesis using assms False global_filter(5) [of "records d"] by auto
qed

text \<open>A named section is the lines from its header to the next one; fillers at its end stay.\<close>

lemma section_end_split:
  assumes "next_section_line (length a + 1) (a @ h # m @ b) = length (a @ h # m)"
  shows "\<exists>m' c. m = m' @ c \<and> list_all is_filler c \<and> drop (section_end (length a) (a @ h # m @ b)) (a @ h # m @ b) = c @ b"
proof (cases "b = []")
  case True
  then show ?thesis using assms by (intro exI [of _ m] exI [of _ "[]"]) (simp add: section_end_def)
next
  case False
  let ?c = "rev (takeWhile is_filler (rev m))" and ?m = "rev (dropWhile is_filler (rev m))"
  have m: "m = ?m @ ?c" by (metis rev_append rev_rev_ident takeWhile_dropWhile_id)
  have "section_end (length a) (a @ h # m @ b) = length (a @ h # m) - length ?c"
    using assms False by (simp add: section_end_def Let_def)
  also have "\<dots> = length (a @ h # ?m)" using arg_cong [OF m, of length] by simp
  finally have e: "section_end (length a) (a @ h # m @ b) = length (a @ h # ?m)" .
  have "drop (length p) (p @ q) = q" for p q :: "LineRecord list" by simp
  then have "drop (section_end (length a) (a @ h # m @ b)) ((a @ h # ?m) @ ?c @ b) = ?c @ b" unfolding e .
  moreover have "(a @ h # ?m) @ ?c @ b = a @ h # m @ b" using m by (metis append_assoc append_Cons)
  moreover have "list_all is_filler ?c" by (auto simp: list_all_iff dest: set_takeWhileD)
  ultimately show ?thesis using m by metis
qed

lemma filler_views: "list_all is_filler c \<Longrightarrow> headers c = [] \<and> pairs c = [] \<and> config c = Map.empty \<and> keys_placed s c \<and> last_section s c = s"
  by (induction c) (auto simp: is_filler_def is_section_def is_key_def config_def last_section_def)

lemma remove_named_correct:
  assumes "doc_wf d" and "unique d" and "s \<noteq> []"
  shows "\<exists>d'. remove_section s d = (s \<in> set (headers (records d)), d') \<and> doc_wf d' \<and> unique d'
    \<and> config (records d') = without_section s (config (records d))
    \<and> headers (records d') = filter (\<lambda>h. h \<noteq> s) (headers (records d))"
proof (cases "section_index d s")
  case None
  note w = assms(1) [unfolded doc_wf_def]
  have n: "s \<notin> set (headers (records d))" using None coherentD(2) [OF conjunct1 [OF w]] header_index_None [of "records d" s] by simp
  have "\<forall>x \<in> dom (config (records d)). fst x \<noteq> s"
    using placed_pairs [of "[]" "records d"] w n assms(3) by (auto simp: dom_config)
  then have "without_section s (config (records d)) = config (records d)" by (rule without_section_id)
  moreover have "filter (\<lambda>h. h \<noteq> s) (headers (records d)) = headers (records d)" using n by (auto simp: filter_id_conv)
  ultimately show ?thesis using None n assms by (simp add: remove_section_def)
next
  case (Some i)
  note w = assms(1) [unfolded doc_wf_def]
  from section_split [OF conjunct1 [OF w] Some] obtain a h m b where
    rs: "records d = a @ h # m @ b" "length a = i" "is_section h" "line_section (ini_line h) = s" "headers m = []"
      "b = [] \<or> is_section (hd b)" "next_section_line (i + 1) (records d) = length (a @ h # m)" .
  obtain m' c where c: "m = m' @ c" "list_all is_filler c" "drop (section_end i (records d)) (records d) = c @ b"
    using section_end_split [of a h m b] rs(1,2,7) by auto
  note fv = filler_views [OF c(2)]
  let ?d = "rebuild_index (d\<lparr>records := a @ c @ b\<rparr>)"
  have nk: "\<not> is_key h" using rs(3) by (simp add: is_key_def is_section_def)
  have un: "s \<notin> set (headers a)" "s \<notin> set (headers b)" using assms(2) rs by (simp_all add: unique_def)
  have pl: "keys_placed [] a" "keys_placed s m" "keys_placed s b" using w rs(1,3,4,5) by (simp_all add: last_section_def)
  have "remove_section s d = (True, ?d)" using assms(3) Some c(3) rs(1,2) by (simp add: remove_section_def)
  moreover have "doc_wf ?d"
    using w rs(1) c(1) pl fv placed_last [OF rs(6), of s "last_section [] a"] by (simp add: doc_wf_rebuild)
  moreover have "unique ?d" using assms(2) rs(1,3,5) c(1) fv nk by (auto simp: unique_def doc_wf_rebuild(2))
  moreover have "config (records ?d) = without_section s (config (records d))"
  proof -
    have "without_section s (config a) = config a"
      using placed_pairs [OF pl(1)] un(1) assms(3) by (intro without_section_id) (auto simp: dom_config)
    moreover have "without_section s (config b) = config b"
      using placed_pairs [of "[]" b] placed_last [OF rs(6), of s "[]"] pl(3) un(2) assms(3)
      by (intro without_section_id) (auto simp: dom_config)
    moreover have "without_section s (config (h # m)) = Map.empty"
      using placed_pairs [OF pl(2)] rs(5) nk by (intro without_section_all) (auto simp: dom_config)
    moreover have "config (records d) = config a ++ config (h # m) ++ config b" using config_append(1) [of "h # m" b] by (simp add: rs(1))
    ultimately show ?thesis using fv by (simp add: doc_wf_rebuild(2))
  qed
  moreover have "headers (records ?d) = filter (\<lambda>h. h \<noteq> s) (headers (records d))"
  proof -
    have "filter (\<lambda>h. h \<noteq> s) (headers a) = headers a" "filter (\<lambda>h. h \<noteq> s) (headers b) = headers b"
      using un by (auto intro!: filter_True)
    then show ?thesis using rs(1,3,4,5) fv by (simp add: doc_wf_rebuild(2))
  qed
  ultimately show ?thesis using rs by simp
qed

section \<open>Specification\<close>

text \<open>The map from sections and keys to values, and the names of the sections.\<close>

record ini_spec =
  spec_values :: "((utf8 \<times> utf8) \<times> utf8) list"
  spec_sections :: "utf8 list"

datatype ini_op = SetValue utf8 utf8 utf8 | RemoveKey utf8 utf8 | RemoveSection utf8 | GetValue utf8 utf8 | HasSection utf8 | Sections

datatype ini_result = Edited bool | Found "utf8 option" | Present bool | Names "utf8 list" | Threw usize

definition spec_has :: "utf8 \<Rightarrow> ini_spec \<Rightarrow> bool" where
  "spec_has s a = (if s = [] then list_ex (\<lambda>e. fst (fst e) = []) (spec_values a) else s \<in> set (spec_sections a))"

primrec ini_spec_step :: "ini_op \<Rightarrow> ini_spec \<Rightarrow> ini_result \<times> ini_spec" where
  "ini_spec_step (SetValue s k v) a =
     (Edited True, a\<lparr>spec_values := ((s, k), v) # filter (\<lambda>e. fst e \<noteq> (s, k)) (spec_values a), spec_sections := grown s (spec_sections a)\<rparr>)"
| "ini_spec_step (RemoveKey s k) a =
     (Edited (map_of (spec_values a) (s, k) \<noteq> None), a\<lparr>spec_values := filter (\<lambda>e. fst e \<noteq> (s, k)) (spec_values a)\<rparr>)"
| "ini_spec_step (RemoveSection s) a =
     (Edited (spec_has s a), a\<lparr>spec_values := filter (\<lambda>e. fst (fst e) \<noteq> s) (spec_values a),
        spec_sections := (if s = [] then spec_sections a else filter (\<lambda>h. h \<noteq> s) (spec_sections a))\<rparr>)"
| "ini_spec_step (GetValue s k) a = (Found (map_of (spec_values a) (s, k)), a)"
| "ini_spec_step (HasSection s) a = (Present (spec_has s a), a)"
| "ini_spec_step Sections a = (Names (spec_sections a), a)"

primrec ini_step :: "ini_op \<Rightarrow> IniDocument \<Rightarrow> ini_result \<times> IniDocument" where
  "ini_step (SetValue s k v) d = (case ini_set s k v d of Ok d' \<Rightarrow> (Edited True, d') | Err p \<Rightarrow> (Threw p, d))"
| "ini_step (RemoveKey s k) d = (let (b, d') = ini_remove s k d in (Edited b, d'))"
| "ini_step (RemoveSection s) d = (let (b, d') = remove_section s d in (Edited b, d'))"
| "ini_step (GetValue s k) d = (Found (result_ok (ini_get s k d)), d)"
| "ini_step (HasSection s) d = (Present (has_section s d), d)"
| "ini_step Sections d = (Names (ini_sections d), d)"

fun ini_legal :: "ini_op \<Rightarrow> bool" where
  "ini_legal (SetValue s k v) \<longleftrightarrow> utf8_is_valid s \<and> utf8_is_valid k \<and> utf8_is_valid v"
| "ini_legal _ \<longleftrightarrow> True"

definition ini_spec_of :: "IniDocument \<Rightarrow> ini_spec" where
  "ini_spec_of d = \<lparr>spec_values = entries (records d), spec_sections = ini_sections d\<rparr>"

definition ini_rel :: "IniDocument \<Rightarrow> ini_spec \<Rightarrow> bool" where
  "ini_rel d a \<longleftrightarrow> doc_wf d \<and> unique d \<and> map_of (spec_values a) = config (records d) \<and> spec_sections a = headers (records d)"

lemma map_of_filter: "map_of (filter (\<lambda>e. P (fst e)) l) = (\<lambda>x. if P x then map_of l x else None)"
  by (induction l) auto

lemma pair_index_None: "pair_index rs s = None \<longleftrightarrow> (\<forall>x \<in> set (pairs rs). fst x \<noteq> s)"
  by (induction rs rule: rev_induct) (auto simp: index_snoc pair_of_def)

lemma get_find: "result_ok (ini_get s k d) = find_value s k d"
  by (simp add: ini_get_def find_value_def key_position_def result_ok_def split: option.splits)

lemma spec_has_rel:
  assumes "ini_rel d a"
  shows "spec_has s a = has_section s d" "spec_has s a = (if s = [] then \<exists>x \<in> set (pairs (records d)). fst x = [] else s \<in> set (headers (records d)))"
proof -
  note r = assms [unfolded ini_rel_def doc_wf_def]
  have "set (pairs (records d)) = fst ` set (spec_values a)"
    using r dom_map_of_conv_image_fst [of "spec_values a"] dom_config [of "records d"] by simp
  then have "list_ex (\<lambda>e. fst (fst e) = []) (spec_values a) = (\<exists>x \<in> set (pairs (records d)). fst x = [])"
    by (simp only: list_ex_iff bex_simps)
  then show e: "spec_has s a = (if s = [] then \<exists>x \<in> set (pairs (records d)). fst x = [] else s \<in> set (headers (records d)))"
    using r by (simp add: spec_has_def)
  show "spec_has s a = has_section s d"
    unfolding e has_section_def using r coherentD [of d] pair_index_None [of "records d" "[]"] header_index_None [of "records d" s] by auto
qed

lemma upd_filter: "(map_of (filter (\<lambda>e. fst e \<noteq> x) l))(x \<mapsto> v) = (map_of l)(x \<mapsto> v)" "map_of (filter (\<lambda>e. fst e \<noteq> x) l) = (map_of l)(x := None)"
  using map_of_filter [of "\<lambda>y. y \<noteq> x" l] by (auto simp: fun_eq_iff)

interpretation ini: simulation ini_legal ini_rel ini_step ini_spec_step
proof
  fix x d a
  assume legal: "ini_legal x" and r: "ini_rel d a"
  note w = r [unfolded ini_rel_def]
  note has = spec_has_rel [OF r]
  have dw: "coherent d" using w by (simp add: doc_wf_def)
  have "fst (ini_step x d) = fst (ini_spec_step x a) \<and> ini_rel (snd (ini_step x d)) (snd (ini_spec_step x a))"
  proof (cases x)
    case (SetValue s k v)
    then show ?thesis using legal w set_correct [of d s k v] by (auto simp: ini_rel_def upd_filter unique_def grown_distinct)
  next
    case (RemoveKey s k)
    obtain d' where d': "ini_remove s k d = ((s, k) \<in> set (pairs (records d)), d')" "doc_wf d'" "unique d'"
      "config (records d') = (config (records d))((s, k) := None)" "headers (records d') = headers (records d)"
      using remove_correct [of d s k] w by blast
    then show ?thesis using RemoveKey w config_None [of "records d" "(s, k)"] by (simp add: ini_rel_def upd_filter)
  next
    case (RemoveSection s)
    obtain d' where d': "remove_section s d = (spec_has s a, d')" "doc_wf d'" "unique d'"
      "config (records d') = without_section s (config (records d))"
      "headers (records d') = (if s = [] then headers (records d) else filter (\<lambda>h. h \<noteq> s) (headers (records d)))"
      using remove_global_correct [of d] remove_named_correct [of d s] w has(2) [of s] by (cases "s = []") auto
    then show ?thesis using RemoveSection w map_of_filter [of "\<lambda>x. fst x \<noteq> s" "spec_values a"] by (auto simp: ini_rel_def without_section_def fun_eq_iff)
  next
    case (GetValue s k)
    then show ?thesis using w r find_value_config [OF dw] by (simp add: get_find)
  next
    case (HasSection s)
    then show ?thesis using r has(1) by simp
  next
    case Sections
    then show ?thesis using w r by (simp add: ini_sections_def headers_def)
  qed
  then show "fst (ini_step x d) = fst (ini_spec_step x a)" "ini_rel (snd (ini_step x d)) (snd (ini_spec_step x a))" by simp_all
qed

lemma map_of_rev: "distinct (map fst l) \<Longrightarrow> map_of (rev l) = map_of l"
  by (induction l) (auto simp: map_add_def fun_eq_iff dom_map_of_conv_image_fst image_iff domIff split: option.splits dest: map_of_SomeD)

lemma spec_of_rel: "doc_wf d \<Longrightarrow> unique d \<Longrightarrow> ini_rel d (ini_spec_of d)"
proof -
  assume "doc_wf d" and u: "unique d"
  moreover have "map_of (entries (records d)) = config (records d)"
    using u map_of_rev [of "entries (records d)"] by (simp add: config_def unique_def)
  ultimately show ?thesis by (simp add: ini_rel_def ini_spec_of_def ini_sections_def headers_def)
qed

end
