(* ===== verification/Ini_Reading.thy ===== *)
theory Ini_Reading
  imports Ini_Edits
begin

text \<open>
  Lines: where the reader cuts a line, that every piece is valid UTF-8 when the line is, and
  what a line that was read looks like.
\<close>

section \<open>Pieces of a text\<close>

text \<open>A cut between two bytes one of which is ASCII.\<close>

definition ascii_cut :: "utf8 \<Rightarrow> utf8 \<Rightarrow> bool" where
  "ascii_cut a b \<longleftrightarrow> a = [] \<or> b = [] \<or> unat (last a) < 128 \<or> unat (hd b) < 128"

lemma valid_cut:
  assumes "utf8_is_valid (a @ b)" and "ascii_cut a b"
  shows "utf8_is_valid a" "utf8_is_valid b"
proof -
  consider "a = [] \<or> b = []" | a' c where "a = a' @ [c]" "unat c < 128" | c b' where "b = c # b'" "unat c < 128"
    using assms(2) unfolding ascii_cut_def by (metis append_butlast_last_id hd_Cons_tl)
  then have "utf8_is_valid a \<and> utf8_is_valid b"
  proof cases
    case 2
    then show ?thesis using assms(1) valid_at_ascii [of c a' b] valid_append [of a' "[c]"] by (simp add: valid_ascii_byte)
  next
    case 3
    then show ?thesis using assms(1) valid_at_ascii [of c a b'] by (simp add: valid_ascii_byte)
  qed (use assms(1) in auto)
  then show "utf8_is_valid a" "utf8_is_valid b" by simp_all
qed

lemma valid_take_drop:
  assumes "utf8_is_valid t" and "n \<le> length t \<Longrightarrow> ascii_cut (take n t) (drop n t)"
  shows "utf8_is_valid (take n t)" "utf8_is_valid (drop n t)"
proof -
  have "utf8_is_valid (take n t) \<and> utf8_is_valid (drop n t)"
    using assms valid_cut [of "take n t" "drop n t"] by (cases "n \<le> length t") auto
  then show "utf8_is_valid (take n t)" "utf8_is_valid (drop n t)" by simp_all
qed

lemma is_space_ascii: "is_space c \<Longrightarrow> unat c < 128"
  by (auto simp: is_space_def)

lemma marker_ascii: "is_comment_marker opts c \<Longrightarrow> unat c < 128"
  by (auto simp: is_comment_marker_def)

lemma without_blanks_split: "\<exists>b. v = without_blanks v @ b \<and> list_all is_space b"
proof (intro exI conjI)
  show "v = without_blanks v @ rev (takeWhile is_space (rev v))"
    unfolding without_blanks_def by (metis rev_append rev_rev_ident takeWhile_dropWhile_id)
  show "list_all is_space (rev (takeWhile is_space (rev v)))" by (auto simp: list_all_iff dest: set_takeWhileD)
qed

lemma without_blanks_last: "without_blanks v \<noteq> [] \<Longrightarrow> \<not> is_space (last (without_blanks v))"
  using hd_dropWhile [of is_space "rev v"] by (simp add: without_blanks_def last_rev)

lemma blanks_cut: "list_all is_space b \<Longrightarrow> ascii_cut a b" "list_all is_space a \<Longrightarrow> ascii_cut a b"
  by (auto simp: ascii_cut_def list_all_iff is_space_ascii)

lemma valid_without_blanks: "utf8_is_valid v \<Longrightarrow> utf8_is_valid (without_blanks v)"
  using without_blanks_split [of v] valid_cut(1) blanks_cut(1) by metis

lemma blanks_first:
  "take (length (takeWhile is_space v)) v = takeWhile is_space v"
  "drop (length (takeWhile is_space v)) v = dropWhile is_space v"
  by (simp_all add: takeWhile_eq_take [symmetric] dropWhile_eq_drop [symmetric])

lemma valid_blanks:
  assumes "utf8_is_valid v"
  shows "utf8_is_valid (takeWhile is_space v)" "utf8_is_valid (dropWhile is_space v)"
proof -
  have "utf8_is_valid (takeWhile is_space v @ dropWhile is_space v)" using assms by simp
  moreover have "list_all is_space (takeWhile is_space v)" by (auto simp: list_all_iff dest: set_takeWhileD)
  ultimately show "utf8_is_valid (takeWhile is_space v)" "utf8_is_valid (dropWhile is_space v)"
    using valid_cut blanks_cut(2) by blast+
qed

lemma valid_trim: "utf8_is_valid v \<Longrightarrow> utf8_is_valid (trim_ascii v)"
  by (simp add: trim_ascii_def valid_without_blanks valid_blanks)

text \<open>A comment begins at a marker.\<close>

lemma comment_loop_range: "i \<le> comment_loop opts sq dq esc prev v i \<and> comment_loop opts sq dq esc prev v i \<le> i + length v"
  by (induction opts sq dq esc prev v i rule: comment_loop.induct) (auto split: if_splits)

lemma comment_loop_marker:
  "comment_loop opts sq dq esc prev v i = i + n \<Longrightarrow> n < length v \<Longrightarrow> is_comment_marker opts (v ! n)"
proof (induction opts sq dq esc prev v i arbitrary: n rule: comment_loop.induct)
  case (2 opts single double escaped prev ch rest i)
  have later: "comment_loop opts sq dq esc p rest (i + 1) \<noteq> i" for sq dq esc p
    using comment_loop_range [of "i + 1" opts sq dq esc p rest] by linarith
  show ?case
  proof (cases n)
    case 0
    then show ?thesis using "2.prems"(1) later by (simp split: if_splits)
  next
    case (Suc m)
    then show ?thesis using 2 by (simp split: if_splits)
  qed
qed simp

lemma inline_comment:
  "find_inline_comment opts v \<le> length v"
  "find_inline_comment opts v < length v \<Longrightarrow> is_comment_marker opts (v ! find_inline_comment opts v)"
  using comment_loop_range [of 0 opts False False False None v]
    comment_loop_marker [of opts False False False None v 0 "find_inline_comment opts v"]
  by (simp_all add: find_inline_comment_def)

lemma comment_cut: "ascii_cut (take (find_inline_comment opts v) v) (drop (find_inline_comment opts v) v)"
  using inline_comment [of opts v] by (cases "find_inline_comment opts v < length v")
    (simp_all add: ascii_cut_def hd_drop_conv_nth marker_ascii)

lemma valid_region: "utf8_is_valid v \<Longrightarrow> utf8_is_valid (take (find_inline_comment opts v) v)"
  using valid_take_drop(1) comment_cut by metis

lemma char_position_Some: "char_position c s = Some n \<longleftrightarrow> n < length s \<and> s ! n = c \<and> c \<notin> set (take n s)"
proof
  let ?w = "takeWhile (\<lambda>b. b \<noteq> c) s"
  have w: "take (length ?w) s = ?w" "length ?w \<le> length s" by (simp_all add: takeWhile_eq_take [symmetric] length_takeWhile_le)
  assume "char_position c s = Some n"
  then have n: "n = length ?w" "length ?w < length s" using w(2) by (auto simp: char_position_def Let_def split: if_splits)
  then show "n < length s \<and> s ! n = c \<and> c \<notin> set (take n s)"
    using nth_length_takeWhile [of "\<lambda>b. b \<noteq> c" s] w(1) by (auto dest: set_takeWhileD)
next
  assume a: "n < length s \<and> s ! n = c \<and> c \<notin> set (take n s)"
  then have "takeWhile (\<lambda>b. b \<noteq> c) s = take n s"
    by (intro takeWhile_eq_take_P_nth) (auto simp: in_set_conv_nth)
  then show "char_position c s = Some n" using a by (simp add: char_position_def)
qed

lemma char_position_None: "char_position c s = None \<longleftrightarrow> c \<notin> set s"
proof -
  have "length (takeWhile (\<lambda>b. b \<noteq> c) s) = length s \<longleftrightarrow> takeWhile (\<lambda>b. b \<noteq> c) s = s"
    by (metis takeWhile_eq_take take_all_iff order_refl)
  then show ?thesis by (auto simp: char_position_def Let_def takeWhile_eq_all_conv)
qed

section \<open>A key and its value\<close>

definition trimmed_text :: "utf8 \<Rightarrow> bool" where
  "trimmed_text t \<longleftrightarrow> t = [] \<or> \<not> is_space (hd t) \<and> \<not> is_space (last t)"

lemma without_blanks_hd: "without_blanks v \<noteq> [] \<Longrightarrow> hd (without_blanks v) = hd v"
  using without_blanks_split [of v] by (metis hd_append2)

lemma trim_trimmed: "trimmed_text (trim_ascii v)"
proof (cases "trim_ascii v = []")
  case False
  then have "dropWhile is_space v \<noteq> []" by (auto simp: trim_ascii_def without_blanks_def simp del: dropWhile_eq_Nil_conv)
  then have "\<not> is_space (hd (dropWhile is_space v))" by (rule hd_dropWhile)
  then show ?thesis
    using False without_blanks_last [of "dropWhile is_space v"] without_blanks_hd [of "dropWhile is_space v"]
    unfolding trimmed_text_def trim_ascii_def by simp
qed (simp add: trimmed_text_def)

text \<open>What the two halves of a line are cut into: blanks, a trimmed text, and what follows it.\<close>

definition cut_text :: "utf8 \<Rightarrow> utf8 \<Rightarrow> utf8 \<times> utf8 \<times> utf8" where
  "cut_text front tail =
     (takeWhile is_space front, trim_ascii front,
      drop (length (takeWhile is_space front @ trim_ascii front)) front @ tail)"

lemma cut_text_pieces:
  assumes "cut_text front tail = (pre, t, post)"
  shows "front @ tail = pre @ t @ post" "list_all is_space pre" "trimmed_text t"
    and "\<exists>b. post = b @ tail \<and> list_all is_space b \<and> front = pre @ t @ b"
    and "utf8_is_valid (front @ tail) \<Longrightarrow> ascii_cut front tail \<Longrightarrow> utf8_is_valid pre \<and> utf8_is_valid t \<and> utf8_is_valid post"
proof -
  have c: "pre = takeWhile is_space front" "t = trim_ascii front" "post = drop (length (pre @ t)) front @ tail"
    using assms unfolding cut_text_def by blast+
  obtain b where b: "dropWhile is_space front = t @ b" "list_all is_space b"
    using without_blanks_split [of "dropWhile is_space front"] c(2) by (auto simp: trim_ascii_def)
  have f: "front = pre @ t @ b" using b(1) c(1) by (metis takeWhile_dropWhile_id)
  then have p: "post = b @ tail" using c(3) by (metis append_assoc append_eq_conv_conj)
  show "front @ tail = pre @ t @ post" using f p by simp
  show pre: "list_all is_space pre" unfolding c(1) by (auto simp: list_all_iff dest: set_takeWhileD)
  show "trimmed_text t" unfolding c(2) by (rule trim_trimmed)
  show "\<exists>b. post = b @ tail \<and> list_all is_space b \<and> front = pre @ t @ b" using p b(2) f by blast
  assume v: "utf8_is_valid (front @ tail)" and cut: "ascii_cut front tail"
  note fb = valid_cut [OF v cut]
  have tb: "utf8_is_valid pre" "utf8_is_valid (t @ b)" using valid_cut [OF _ blanks_cut(2) [OF pre], of "t @ b"] fb(1) f by auto
  show "utf8_is_valid pre \<and> utf8_is_valid t \<and> utf8_is_valid post"
    using tb valid_cut [OF tb(2) blanks_cut(1) [OF b(2)]] valid_append fb(2) p by simp
qed

lemma takeWhile_stops: "tail = [] \<or> \<not> P (hd tail) \<Longrightarrow> takeWhile P (front @ tail) = takeWhile P front"
  using takeWhile_eq_all_conv [of P front] by (cases tail) (auto simp: takeWhile_append intro: sym)

lemma value_after_blanks: "takeWhile is_space (take (find_inline_comment opts v) v) = takeWhile is_space v"
proof -
  let ?n = "find_inline_comment opts v"
  have "\<not> is_space (v ! ?n)" if "?n < length v"
    using inline_comment(2) [OF that] by (auto simp: is_comment_marker_def is_space_def)
  then have "drop ?n v = [] \<or> \<not> is_space (hd (drop ?n v))"
    by (cases "?n < length v") (simp_all add: hd_drop_conv_nth)
  then show ?thesis using takeWhile_stops [where P = is_space and front = "take ?n v" and tail = "drop ?n v"] by simp
qed

text \<open>The record of a key and its value, from the two cuts of the line.\<close>

definition key_cut :: "utf8 \<Rightarrow> usize \<Rightarrow> utf8 \<times> utf8 \<times> utf8" where
  "key_cut raw n = cut_text (take n raw) []"

definition value_cut :: "IniReaderOptions \<Rightarrow> utf8 \<Rightarrow> usize \<Rightarrow> utf8 \<times> utf8 \<times> utf8" where
  "value_cut opts raw n =
     (let v = drop (n + 1) raw; c = find_inline_comment opts v in cut_text (take c v) (drop c v))"

definition key_value_record :: "IniReaderOptions \<Rightarrow> utf8 \<Rightarrow> utf8 \<Rightarrow> usize \<Rightarrow> LineRecord \<Rightarrow> LineRecord" where
  "key_value_record opts raw section n r =
     (let (kp, key, ks) = key_cut raw n; (vp, v, cs) = value_cut opts raw n in
      r\<lparr>ini_line := \<lparr>line_kind = KeyValue, line_section = section, line_key = key, line_value = v\<rparr>,
        key_prefix := kp, key_suffix := ks, separator := [raw ! n], value_prefix := vp, comment_suffix := cs,
        value_quoted := detect_quotes v \<noteq> None,
        value_quote_char := (case detect_quotes v of None \<Rightarrow> QUOTE | Some q \<Rightarrow> q)\<rparr>)"

lemma trim_is_prefix: "length (takeWhile is_space t) + length (trim_ascii t) \<le> length t"
  using cut_text_pieces(4) [of t "[]" "takeWhile is_space t" "trim_ascii t" "drop (length (takeWhile is_space t @ trim_ascii t)) t"]
  by (metis append_Nil2 cut_text_def length_append add.assoc le_add1)

lemma parse_key_value_eq:
  assumes "utf8_is_valid raw" and "utf8_is_valid section" and "n < length raw" and "unat (raw ! n) < 128"
  shows "parse_key_value opts raw section n r = Ok (key_value_record opts raw section n r)"
proof -
  let ?v = "drop (n + 1) raw" and ?k = "take n raw"
  let ?c = "find_inline_comment opts ?v"
  have raw: "raw = ?k @ raw ! n # ?v" using assms(3) by (simp add: id_take_nth_drop [symmetric] Suc_eq_plus1 [symmetric] del: Suc_eq_plus1)
  have val: "utf8_is_valid ?k" "utf8_is_valid ?v"
    using valid_at_ascii [OF assms(4), of ?k ?v] assms(1) raw by simp_all
  obtain kp key ks where k: "key_cut raw n = (kp, key, ks)" by (metis prod_cases3)
  obtain vp v cs where v: "value_cut opts raw n = (vp, v, cs)" by (metis prod_cases3)
  have kk: "kp = takeWhile is_space ?k" "key = trim_ascii ?k" "ks = drop (length kp + length key) ?k"
    using k by (auto simp: key_cut_def cut_text_def)
  have vb: "takeWhile is_space (take ?c ?v) = takeWhile is_space ?v" by (rule value_after_blanks)
  have vv: "vp = takeWhile is_space ?v" "v = trim_ascii (take ?c ?v)" "cs = drop (length vp + length v) (take ?c ?v) @ drop ?c ?v"
    using v vb by (auto simp: value_cut_def cut_text_def Let_def)
  have len: "length vp + length v \<le> ?c"
    using trim_is_prefix [of "take ?c ?v"] vv(1,2) vb inline_comment(1) [of opts ?v] by simp
  have cs: "cs = drop (length vp + length v) ?v"
    using len vv(3) by (metis append_take_drop_id drop_append diff_is_0_eq drop_0 inline_comment(1) length_take min.absorb2)
  have dv: "without_blanks (drop (length vp) (take ?c ?v)) = v"
    using vv(1,2) vb by (metis blanks_first(2) trim_ascii_def)
  have dk: "without_blanks (drop (length kp) ?k) = key" using kk(1,2) by (metis blanks_first(2) trim_ascii_def)
  have fst_k: "take (length kp) ?k = kp" "take (length vp) ?v = vp" unfolding kk(1) vv(1) by (rule blanks_first(1))+
  have valid: "utf8_is_valid kp" "utf8_is_valid key" "utf8_is_valid ks" "utf8_is_valid vp" "utf8_is_valid v" "utf8_is_valid cs"
    using cut_text_pieces(5) [OF k [unfolded key_cut_def]] val(1)
      cut_text_pieces(5) [OF v [unfolded value_cut_def Let_def], unfolded append_take_drop_id, OF val(2) comment_cut]
    by (simp_all add: ascii_cut_def)
  have sep: "take 1 (drop n raw) = [raw ! n]" "utf8_is_valid [raw ! n]"
    using assms(3,4) by (simp_all add: take_Suc hd_drop_conv_nth valid_ascii_byte)
  have cs_if: "(if length vp + length v < length ?v then intern_std cs else Ok []) = Ok cs"
    using valid(6) cs by auto
  show ?thesis
    unfolding parse_key_value_def Let_def kk(1) [symmetric] vv(1) [symmetric] dv dk cs [symmetric] kk(3) [symmetric] fst_k cs_if sep(1)
    using valid assms(2) sep(2) by (simp add: key_value_record_def k v)
qed

section \<open>What a line is read as\<close>

lemma take_mono_set: "(a :: nat) \<le> b \<Longrightarrow> x \<notin> set (take b v) \<Longrightarrow> x \<notin> set (take a v)"
  using set_take_subset_set_take [of a b v] by blast

lemma separator_position_Some:
  "separator_position t = Some n \<longleftrightarrow>
     n < length t \<and> (t ! n = EQUALS \<or> t ! n = COLON) \<and> EQUALS \<notin> set (take n t) \<and> COLON \<notin> set (take n t)"
  (is "_ \<longleftrightarrow> ?first n")
proof
  have none: "char_position c t = None \<Longrightarrow> c \<notin> set (take n t)" for c n by (auto simp: char_position_None dest: in_set_takeD)
  have some: "char_position c t = Some m \<Longrightarrow> n \<le> m \<Longrightarrow> c \<notin> set (take n t)" for c n m
    using take_mono_set [of n m c t] by (simp add: char_position_Some)
  have hit: "char_position c t = Some m \<Longrightarrow> m < length t \<and> t ! m = c" for c m by (simp add: char_position_Some)
  show first: "separator_position t = Some n \<Longrightarrow> ?first n" for n
  proof (cases "char_position EQUALS t"; cases "char_position COLON t")
    fix e c
    assume "char_position EQUALS t = Some e" "char_position COLON t = Some c" "separator_position t = Some n"
    then show "?first n"
      using hit [of EQUALS e] hit [of COLON c] some [of EQUALS e n] some [of COLON c n]
      by (cases "e < c") (simp_all add: separator_position_def)
  qed (use none hit some in \<open>auto simp: separator_position_def\<close>)
  assume f: "?first n"
  then have "char_position EQUALS t = Some n \<or> char_position COLON t = Some n" by (simp add: char_position_Some)
  then have "separator_position t \<noteq> None"
    by (cases "char_position EQUALS t"; cases "char_position COLON t") (auto simp: separator_position_def)
  then obtain m where m: "separator_position t = Some m" by blast
  have "\<not> m < n" "\<not> n < m"
    using first [OF m] f by (metis in_set_conv_nth length_take min_less_iff_conj nth_take)+
  then show "separator_position t = Some n" using m by simp
qed

lemma separator_found:
  assumes "separator_position (take c raw) = Some n"
  shows "n < length raw" "n < c" "raw ! n = EQUALS \<or> raw ! n = COLON" "EQUALS \<notin> set (take n raw)" "COLON \<notin> set (take n raw)"
  using assms unfolding separator_position_Some by (auto simp: min_def split: if_splits)

definition line_of :: "IniLineKind \<Rightarrow> utf8 \<Rightarrow> IniLine" where
  "line_of k section = \<lparr>line_kind = k, line_section = section, line_key = [], line_value = []\<rparr>"

definition plain_record :: "IniLineKind \<Rightarrow> utf8 \<Rightarrow> utf8 \<Rightarrow> utf8 \<Rightarrow> LineRecord" where
  "plain_record k section raw ending = empty_record\<lparr>ini_line := line_of k section, raw_text := raw, raw_ending := ending\<rparr>"

text \<open>The four kinds of lines, and the rest, which are errors.\<close>

definition section_name :: "utf8 \<Rightarrow> utf8 option" where
  "section_name trimmed = map_option (\<lambda>n. trim_ascii (take (n - 1) (drop 1 trimmed))) (char_position RBRACKET trimmed)"

inductive reads_as :: "IniReaderOptions \<Rightarrow> utf8 \<Rightarrow> utf8 \<Rightarrow> utf8 \<Rightarrow> LineParse \<Rightarrow> bool"
  for opts and "section" and raw and ending where
  blank: "trim_ascii raw = [] \<Longrightarrow>
    reads_as opts section raw ending \<lparr>lp_record = plain_record Blank section raw ending, next_section = [], changed_section = False\<rparr>"
| comment: "trim_ascii raw \<noteq> [] \<Longrightarrow> is_comment_marker opts (hd (trim_ascii raw)) \<Longrightarrow>
    reads_as opts section raw ending \<lparr>lp_record = plain_record Comment section raw ending, next_section = [], changed_section = False\<rparr>"
| header: "trim_ascii raw \<noteq> [] \<Longrightarrow> \<not> is_comment_marker opts (hd (trim_ascii raw)) \<Longrightarrow> hd (trim_ascii raw) = LBRACKET \<Longrightarrow>
    section_name (trim_ascii raw) = Some name \<Longrightarrow>
    reads_as opts section raw ending \<lparr>lp_record = plain_record Section name raw ending, next_section = name, changed_section = True\<rparr>"
| key_value: "trim_ascii raw \<noteq> [] \<Longrightarrow> \<not> is_comment_marker opts (hd (trim_ascii raw)) \<Longrightarrow> hd (trim_ascii raw) \<noteq> LBRACKET \<Longrightarrow>
    separator_position (take (find_inline_comment opts raw) raw) = Some n \<Longrightarrow> section \<noteq> [] \<or> allow_global_keys opts \<Longrightarrow>
    reads_as opts section raw ending
      \<lparr>lp_record = key_value_record opts raw section n (plain_record Blank section raw ending),
       next_section = [], changed_section = False\<rparr>"

inductive_cases reads_asE: "reads_as opts section raw ending p"

lemma valid_section_name: "utf8_is_valid t \<Longrightarrow> section_name t = Some name \<Longrightarrow> hd t = LBRACKET \<Longrightarrow> utf8_is_valid name"
proof -
  assume v: "utf8_is_valid t" and s: "section_name t = Some name" and h: "hd t = LBRACKET"
  then obtain n where n: "n < length t" "t ! n = RBRACKET" "name = trim_ascii (take (n - 1) (drop 1 t))"
    by (auto simp: section_name_def char_position_Some)
  have "utf8_is_valid (take n t)"
    using valid_take_drop(1) [OF v, of n] n(1,2) by (simp add: ascii_cut_def hd_drop_conv_nth)
  then have "utf8_is_valid (drop 1 (take n t))"
    using h n(1,2) by (cases t; cases n) (simp_all add: valid_ascii_byte)
  moreover have "drop 1 (take n t) = take (n - 1) (drop 1 t)" by (simp add: drop_take)
  ultimately show ?thesis using n(3) valid_trim by metis
qed

lemma parse_line_reads:
  assumes "utf8_is_valid raw" and "utf8_is_valid ending" and "utf8_is_valid section"
  shows "reads_as opts section raw ending p \<Longrightarrow> parse_line raw ending section opts l c = Ok (Ok p)"
    and "(\<exists>e. parse_line raw ending section opts l c = Ok (Err e)) \<or> (\<exists>p. parse_line raw ending section opts l c = Ok (Ok p) \<and> reads_as opts section raw ending p)"
proof -
  have kv: "parse_key_value opts raw section n r = Ok (key_value_record opts raw section n r)"
    if "separator_position (take (find_inline_comment opts raw) raw) = Some n" for n r
    using parse_key_value_eq [OF assms(1,3)] separator_found [OF that] by (auto simp: )
  have name: "utf8_is_valid (trim_ascii (take (n - 1) (drop 1 (trim_ascii raw))))"
    if "char_position RBRACKET (trim_ascii raw) = Some n" "hd (trim_ascii raw) = LBRACKET" for n
    using valid_section_name [OF valid_trim [OF assms(1)] _ that(2)] that(1) by (simp add: section_name_def)
  note defs = parse_line_def Let_def assms intern_std_valid and_then_simps plain_record_def line_of_def empty_record_def
  show "reads_as opts section raw ending p \<Longrightarrow> parse_line raw ending section opts l c = Ok (Ok p)"
    by (erule reads_asE) (auto simp: defs kv name [unfolded One_nat_def] section_name_def)
  show "(\<exists>e. parse_line raw ending section opts l c = Ok (Err e)) \<or> (\<exists>p. parse_line raw ending section opts l c = Ok (Ok p) \<and> reads_as opts section raw ending p)"
  proof (cases "trim_ascii raw = [] \<or> is_comment_marker opts (hd (trim_ascii raw))")
    case True
    then show ?thesis using reads_as.blank [of raw opts] reads_as.comment [of raw opts] by (auto simp: defs)
  next
    case False
    note f = False
    show ?thesis
    proof (cases "hd (trim_ascii raw) = LBRACKET")
      case True
      then show ?thesis
        using f reads_as.header [of raw opts] name by (cases "char_position RBRACKET (trim_ascii raw)") (auto simp: defs section_name_def)
    next
      case False
      then show ?thesis
        using f reads_as.key_value [of raw opts] kv
        by (cases "separator_position (take (find_inline_comment opts raw) raw)") (auto simp: defs)
    qed
  qed
qed

section \<open>The loop\<close>

definition section_after :: "utf8 \<Rightarrow> LineParse \<Rightarrow> utf8" where
  "section_after section p = (if changed_section p then next_section p else section)"

lemma reads_as_record:
  assumes "reads_as opts section raw ending p"
  shows "raw_text (lp_record p) = raw" "raw_ending (lp_record p) = ending" "changed_section p = is_section (lp_record p)"
    and "is_section (lp_record p) \<Longrightarrow> line_section (ini_line (lp_record p)) = section_after section p"
    and "line_kind (ini_line (lp_record p)) = KeyValue \<Longrightarrow> line_section (ini_line (lp_record p)) = section"
    and "utf8_is_valid raw \<Longrightarrow> utf8_is_valid section \<Longrightarrow> utf8_is_valid (section_after section p)"
  using assms valid_section_name [OF valid_trim]
  by (auto elim!: reads_asE simp: plain_record_def line_of_def key_value_record_def is_section_def section_after_def split: prod.splits)

inductive lines_read :: "IniReaderOptions \<Rightarrow> utf8 \<Rightarrow> LineRecord list \<Rightarrow> bool" for opts where
  none: "lines_read opts section []"
| line: "reads_as opts section (raw_text r) (raw_ending r) p \<Longrightarrow> lp_record p = r \<Longrightarrow> utf8_is_valid (raw_text r) \<Longrightarrow>
    utf8_is_valid (raw_ending r) \<Longrightarrow> lines_read opts (section_after section p) rs \<Longrightarrow> lines_read opts section (r # rs)"

inductive_cases lines_read_ConsE: "lines_read opts section (r # rs)"

definition text_of :: "LineRecord list \<Rightarrow> utf8" where
  "text_of rs = concat (map (\<lambda>r. raw_text r @ raw_ending r) rs)"

lemma text_of_simps [simp]: "text_of [] = []" "text_of (r # rs) = raw_text r @ raw_ending r @ text_of rs"
  "text_of (rs @ rs') = text_of rs @ text_of rs'"
  by (simp_all add: text_of_def)

lemma split_line_ending:
  assumes "split_line t = (raw, ending, rest)"
  shows "ending = [] \<and> rest = [] \<or> ending = [LF] \<or> ending = [CR] \<or> ending = [CR, LF]"
    and "CR \<notin> set raw \<and> LF \<notin> set raw"
proof -
  let ?P = "\<lambda>c. c \<noteq> CR \<and> c \<noteq> LF"
  have d: "drop (length (takeWhile ?P t)) t = dropWhile ?P t" by (rule dropWhile_eq_drop [symmetric])
  have h: "dropWhile ?P t = c # r \<Longrightarrow> c = CR \<or> c = LF" for c r using hd_dropWhile [of ?P t] by auto
  show "ending = [] \<and> rest = [] \<or> ending = [LF] \<or> ending = [CR] \<or> ending = [CR, LF]"
    using assms h unfolding split_line_def d Let_def by (auto split: list.splits if_splits)
  have "raw = takeWhile ?P t" using assms by (auto simp: split_line_def Let_def split: list.splits if_splits)
  then show "CR \<notin> set raw \<and> LF \<notin> set raw" by (auto dest: set_takeWhileD)
qed

lemma valid_ending: "split_line t = (raw, ending, rest) \<Longrightarrow> utf8_is_valid ending"
  using split_line_ending(1) [of t raw ending rest] by (auto simp: valid_ascii_byte)

text \<open>One round of the loop.\<close>

definition line_seen :: "utf8 \<Rightarrow> LineParse \<Rightarrow> utf8 set \<Rightarrow> utf8 set" where
  "line_seen section p seen = (if changed_section p then insert (section_after section p) seen else seen)"

definition key_seen :: "utf8 \<Rightarrow> LineParse \<Rightarrow> (utf8 \<times> utf8) set \<Rightarrow> (utf8 \<times> utf8) set" where
  "key_seen section p seen =
     (if line_kind (ini_line (lp_record p)) = KeyValue
      then insert (section_after section p, line_key (ini_line (lp_record p))) seen else seen)"

definition rejects :: "IniReaderOptions \<Rightarrow> utf8 \<Rightarrow> utf8 set \<Rightarrow> (utf8 \<times> utf8) set \<Rightarrow> LineParse \<Rightarrow> bool" where
  "rejects opts section ss sk p \<longleftrightarrow> duplicate_section opts ss p \<or> duplicate_key opts sk (section_after section p) (lp_record p)"

lemma read_round:
  assumes "t \<noteq> []" and "split_line t = (raw, ending, rest)"
    and "parse_line raw ending section opts n 1 = Ok (Ok p)"
  shows "rejects opts section ss sk p \<Longrightarrow> \<exists>e. read_loop opts t section n ss sk d = Ok (Err e)"
    and "\<not> rejects opts section ss sk p \<Longrightarrow> read_loop opts t section n ss sk d =
      read_loop opts rest (section_after section p) (n + 1) (line_seen section p ss) (key_seen section p sk) (add_record (lp_record p) d)"
  by (subst read_loop.simps,
      simp add: assms assms(3) [unfolded One_nat_def] rejects_def section_after_def line_seen_def key_seen_def Let_def split del: if_split, auto?)+

lemma read_loop_never_throws:
  "utf8_is_valid section \<Longrightarrow> \<exists>x. read_loop opts t section n ss sk d = Ok x"
proof (induction t arbitrary: "section" n ss sk d rule: measure_induct_rule [of length])
  case (less t)
  show ?case
  proof (cases "t = []")
    case False
    obtain raw ending rest where s: "split_line t = (raw, ending, rest)" by (metis prod_cases3)
    show ?thesis
    proof (cases "utf8_is_valid raw")
      case True
      from parse_line_reads(2) [OF True valid_ending [OF s] less.prems, of opts n 1]
      consider e where "parse_line raw ending section opts n 1 = Ok (Err e)"
        | p where "parse_line raw ending section opts n 1 = Ok (Ok p)" "reads_as opts section raw ending p" by blast
      then show ?thesis
      proof cases
        case 1
        then show ?thesis using False s by (subst read_loop.simps) simp
      next
        case 2
        note r = read_round [OF False s 2(1), of ss sk d]
        have "utf8_is_valid (section_after section p)" using reads_as_record(6) [OF 2(2) True less.prems] .
        from less.IH [OF split_line_shorter [OF False s] this] show ?thesis
          using r by (cases "rejects opts section ss sk p") auto
      qed
    next
      case invalid: False
      then show ?thesis using False s by (subst read_loop.simps) (simp add: parse_line_def)
    qed
  qed (simp add: read_loop.simps)
qed

definition fresh :: "IniReaderOptions \<Rightarrow> utf8 set \<Rightarrow> (utf8 \<times> utf8) set \<Rightarrow> LineRecord list \<Rightarrow> bool" where
  "fresh opts ss sk rs \<longleftrightarrow>
     (on_duplicate_section opts = Error \<longrightarrow> distinct (headers rs) \<and> set (headers rs) \<inter> ss = {})
     \<and> (on_duplicate_key opts = Error \<longrightarrow> distinct (pairs rs) \<and> set (pairs rs) \<inter> sk = {})"

lemma fresh_line:
  assumes "reads_as opts section raw ending p" and "\<not> rejects opts section ss sk p"
    and "fresh opts (line_seen section p ss) (key_seen section p sk) rs"
  shows "fresh opts ss sk (lp_record p # rs)"
proof -
  note r = reads_as_record(3-5) [OF assms(1)]
  have "is_section (lp_record p) \<Longrightarrow> \<not> is_key (lp_record p)" by (simp add: is_section_def is_key_def)
  moreover have "is_key (lp_record p) \<Longrightarrow> pair_of (lp_record p) = (section_after section p, line_key (ini_line (lp_record p)))"
    using r(1,3) calculation by (auto simp: pair_of_def is_key_def section_after_def)
  ultimately show ?thesis
    using assms(2,3) r(1,2)
    by (auto simp: fresh_def rejects_def duplicate_section_def duplicate_key_def line_seen_def key_seen_def section_after_def is_key_def)
qed

lemma read_loop_lines:
  "utf8_is_valid section \<Longrightarrow> read_loop opts t section n ss sk d = Ok (Ok d') \<Longrightarrow>
     \<exists>rs. d' = fold add_record rs d \<and> t = text_of rs \<and> lines_read opts section rs \<and> fresh opts ss sk rs"
proof (induction t arbitrary: "section" n ss sk d rule: measure_induct_rule [of length])
  case (less t)
  show ?case
  proof (cases "t = []")
    case True
    then show ?thesis using less.prems(2) by (intro exI [of _ "[]"]) (simp add: read_loop.simps lines_read.none fresh_def)
  next
    case False
    obtain raw ending rest where s: "split_line t = (raw, ending, rest)" by (metis prod_cases3)
    have valid: "utf8_is_valid raw"
      using less.prems(2) False s by (subst (asm) read_loop.simps, cases "utf8_is_valid raw") (simp_all add: parse_line_def)
    from parse_line_reads(2) [OF valid valid_ending [OF s] less.prems(1), of opts n 1]
    obtain p where p: "parse_line raw ending section opts n 1 = Ok (Ok p)" "reads_as opts section raw ending p"
      using less.prems(2) False s by (subst (asm) read_loop.simps) auto
    note r = read_round [OF False s p(1), of ss sk d]
    have nr: "\<not> rejects opts section ss sk p" using r(1) less.prems(2) by auto
    have v: "utf8_is_valid (section_after section p)" using reads_as_record(6) [OF p(2) valid less.prems(1)] .
    obtain rs where rs: "d' = fold add_record rs (add_record (lp_record p) d)" "rest = text_of rs" "lines_read opts (section_after section p) rs"
        "fresh opts (line_seen section p ss) (key_seen section p sk) rs"
      using less.IH [OF split_line_shorter [OF False s] v] r(2) [OF nr] less.prems(2) by metis
    note rec = reads_as_record(1,2) [OF p(2)]
    have "lines_read opts section (lp_record p # rs)"
      using lines_read.line [of opts "section" "lp_record p" p rs] p(2) rec valid valid_ending [OF s] rs(3) by simp
    moreover have "t = text_of (lp_record p # rs)" using split_line_text(1) [OF s] rec rs(2) by simp
    ultimately show ?thesis using rs(1) fresh_line [OF p(2) nr rs(4)] by (intro exI [of _ "lp_record p # rs"]) simp
  qed
qed

section \<open>The document that is read\<close>

lemma detect_quotes_char: "detect_quotes v = Some q \<Longrightarrow> q = QUOTE \<or> q = APOSTROPHE"
  by (auto simp: detect_quotes_def Let_def split: if_splits)

lemma key_value_valid:
  assumes "utf8_is_valid raw" and "utf8_is_valid (raw_text r)" "utf8_is_valid (raw_ending r)" and "n < length raw" and "unat (raw ! n) < 128"
  shows "rec_valid (key_value_record opts raw section n r)"
proof -
  let ?v = "drop (n + 1) raw" and ?k = "take n raw"
  have "raw = ?k @ raw ! n # ?v" using assms(4) by (simp add: id_take_nth_drop [symmetric] Suc_eq_plus1 [symmetric] del: Suc_eq_plus1)
  then have val: "utf8_is_valid ?k" "utf8_is_valid ?v" using valid_at_ascii [OF assms(5), of ?k ?v] assms(1) by simp_all
  obtain kp key ks where k: "key_cut raw n = (kp, key, ks)" by (metis prod_cases3)
  obtain vp v cs where v: "value_cut opts raw n = (vp, v, cs)" by (metis prod_cases3)
  have "utf8_is_valid kp" "utf8_is_valid key" "utf8_is_valid ks" "utf8_is_valid vp" "utf8_is_valid cs"
    using cut_text_pieces(5) [OF k [unfolded key_cut_def]] val(1)
      cut_text_pieces(5) [OF v [unfolded value_cut_def Let_def], unfolded append_take_drop_id, OF val(2) comment_cut]
    by (simp_all add: ascii_cut_def)
  then show ?thesis
    using assms(2,3,5) detect_quotes_char [of v]
    by (auto simp: rec_valid_def key_value_record_def k v valid_ascii_byte split: option.splits)
qed

lemma reads_as_valid:
  assumes "reads_as opts section raw ending p" and "utf8_is_valid raw" and "utf8_is_valid ending"
  shows "rec_valid (lp_record p)"
  using assms(1)
proof cases
  case (key_value n)
  have "unat (raw ! n) < 128" using separator_found(3) [OF key_value(5)] by auto
  then show ?thesis
    using key_value_valid [OF assms(2) _ _ separator_found(1) [OF key_value(5)], of "plain_record Blank section raw ending"] assms(2,3) key_value(1)
    by (simp add: plain_record_def)
qed (use assms in \<open>simp_all add: rec_valid_def plain_record_def line_of_def empty_record_def\<close>)

lemma lines_read_wf: "lines_read opts section rs \<Longrightarrow> keys_placed section rs \<and> list_all rec_valid rs"
proof (induction rule: lines_read.induct)
  case (line s r p rs)
  have "rec_valid r" using reads_as_valid [OF line(1)] line(2-4) by simp
  then show ?case
    using line(6) reads_as_record(3-5) [OF line(1)] by (auto simp: line(2) is_key_def section_after_def)
qed simp

lemma add_records:
  "records (fold add_record rs d) = records d @ rs"
  "list_all rec_valid rs \<Longrightarrow> utf8_is_valid (default_line_ending d) \<Longrightarrow> utf8_is_valid (default_line_ending (fold add_record rs d))"
  by (induction rs arbitrary: d) (simp_all add: add_record_def rec_valid_def)

lemma read_document:
  assumes "ini_read input opts = Ok (Ok d)"
  obtains rs where "records d = rs" "erase_bom input = text_of rs" "lines_read opts [] rs" "doc_wf d" "fresh opts {} {} rs"
proof -
  obtain d' where d': "read_loop opts (erase_bom input) [] 1 {} {} ini_document = Ok (Ok d')" "d = rebuild_index d'"
    using assms by (auto simp: ini_read_def map_ok_def split: Result.splits)
  from read_loop_lines [OF valid_Nil d'(1)] obtain rs where
    rs: "d' = fold add_record rs ini_document" "erase_bom input = text_of rs" "lines_read opts [] rs" "fresh opts {} {} rs" by blast
  note w = lines_read_wf [OF rs(3)]
  have r: "records d' = rs" unfolding rs(1) add_records(1) by (simp add: ini_document_def)
  have "utf8_is_valid (default_line_ending d')"
    unfolding rs(1) using w by (intro add_records(2)) (simp_all add: ini_document_def valid_ascii_byte)
  then have "doc_wf d" using w unfolding d'(2) by (simp add: doc_wf_rebuild r)
  then show thesis using that [of rs] rs r d'(2) by (simp add: doc_wf_rebuild(2))
qed

lemma text_of_valid: "lines_read opts section rs \<Longrightarrow> utf8_is_valid (text_of rs)"
  by (induction rule: lines_read.induct) (simp_all add: valid_append)

lemma write_text: "utf8_is_valid (text_of (records d)) \<Longrightarrow> ini_write d [] = Ok (text_of (records d))"
  using string_init_valid [of "text_of (records d)"] by (auto simp: ini_write_def text_of_def)

end
