(* ===== verification/Ini_Persist.thy ===== *)
theory Ini_Persist
  imports Ini_Reading
begin

text \<open>
  The text of an edited document, read again: a line that \<^verbatim>\<open>set\<close> made is read as the section,
  the key or the value it was made for, and the other lines are read as before.
\<close>

section \<open>Scanning for a comment\<close>

text \<open>Bytes that neither open a quote nor escape nor begin a comment.\<close>

definition inert :: "u8 \<Rightarrow> bool" where
  "inert c \<longleftrightarrow> c \<noteq> BACKSLASH \<and> c \<noteq> APOSTROPHE \<and> c \<noteq> QUOTE \<and> c \<noteq> HASH \<and> c \<noteq> SEMICOLON"

lemma comment_loop_inert:
  "list_all inert a \<Longrightarrow> comment_loop opts False False False prev (a @ b) i
     = comment_loop opts False False False (if a = [] then prev else Some (last a)) b (i + length a)"
  by (induction a arbitrary: prev i) (auto simp: inert_def is_comment_marker_def)

lemma spaces_inert: "list_all is_space b \<Longrightarrow> list_all inert b"
  by (auto simp: list_all_iff is_space_def inert_def)

lemma inert_no_comment: "list_all inert a \<Longrightarrow> find_inline_comment opts a = length a"
  using comment_loop_inert [of a opts None "[]" 0] by (simp add: find_inline_comment_def)

text \<open>Whether a comment begins in a part of the text depends on that part only.\<close>

lemma comment_loop_prefix:
  "i + length a \<le> comment_loop opts sq dq esc prev (a @ b) i \<Longrightarrow> i + length a \<le> comment_loop opts sq dq esc prev (a @ b') i"
proof (induction a arbitrary: sq dq esc prev i)
  case Nil
  show ?case using comment_loop_range [of i opts sq dq esc prev b'] by simp
next
  case (Cons c a)
  have "Suc (i + length a) \<le> comment_loop opts sq dq esc prev (a @ b) (Suc i)
      \<Longrightarrow> Suc (i + length a) \<le> comment_loop opts sq dq esc prev (a @ b') (Suc i)" for sq dq esc prev
    using Cons.IH [of "Suc i"] by simp
  then show ?case using Cons.prems by (auto split: if_splits)
qed

lemma comment_at_marker:
  assumes "list_all inert a" and "D = [] \<or> is_comment_marker opts (hd D)" and "a \<noteq> []" and "is_space (last a) \<or> D = []"
  shows "find_inline_comment opts (a @ D) = length a"
proof (cases D)
  case Nil
  then show ?thesis using inert_no_comment [OF assms(1)] by simp
next
  case (Cons m D')
  then have "is_comment_marker opts m" "is_space (last a)" using assms(2,4) by simp_all
  then show ?thesis
    using comment_loop_inert [OF assms(1), of opts None D 0] assms(3) by (auto simp: find_inline_comment_def Cons is_comment_marker_def)
qed

section \<open>Trimming\<close>

lemma without_blanks_Nil: "without_blanks a = [] \<longleftrightarrow> list_all is_space a"
  by (simp add: without_blanks_def list_all_iff)

lemma without_blanks_snoc: "list_all is_space b \<Longrightarrow> without_blanks (a @ b) = without_blanks a"
  by (induction b rule: rev_induct) (simp_all add: without_blanks_def)

lemma without_blanks_id: "a = [] \<or> \<not> is_space (last a) \<Longrightarrow> without_blanks a = a"
  by (cases a rule: rev_cases) (simp_all add: without_blanks_def)

lemma skip_blanks: "list_all is_space b \<Longrightarrow> dropWhile is_space (b @ a) = dropWhile is_space a"
  by (induction b) simp_all

lemma trimmed_dropWhile: "t = [] \<or> \<not> is_space (hd t) \<Longrightarrow> dropWhile is_space t = t"
  by (cases t) simp_all

lemma trim_surrounded:
  assumes "list_all is_space a" and "trimmed_text t" and "list_all is_space b"
  shows "trim_ascii (a @ t @ b) = t"
proof (cases "t = []")
  case True
  then have "\<forall>x \<in> set (a @ t @ b). is_space x" using assms(1,3) by (auto simp: list_all_iff)
  then have "dropWhile is_space (a @ t @ b) = []" by (simp only: dropWhile_eq_Nil_conv)
  then show ?thesis by (simp only: trim_ascii_def without_blanks_def rev.simps dropWhile.simps True)
next
  case False
  then have "\<not> is_space (hd t)" "\<not> is_space (last t)" using assms(2) by (simp_all add: trimmed_text_def)
  then have "dropWhile is_space (a @ t @ b) = t @ b" using skip_blanks [OF assms(1)] False by (cases t) simp_all
  then show ?thesis
    using without_blanks_snoc [OF assms(3), of t] without_blanks_id [of t] \<open>\<not> is_space (last t)\<close> by (simp add: trim_ascii_def)
qed

lemma trim_ascii_id: "trimmed_text t \<Longrightarrow> trim_ascii t = t"
  using trim_surrounded [of "[]" t "[]"] by simp

lemma takeWhile_surrounded:
  "list_all is_space a \<Longrightarrow> trimmed_text t \<Longrightarrow> t \<noteq> [] \<Longrightarrow> takeWhile is_space (a @ t @ b) = a"
  by (induction a) (cases t, auto simp: trimmed_text_def)

text \<open>The first byte of a trimmed text is the first that is not blank.\<close>

lemma hd_trim:
  assumes "x \<in> set p" and "\<not> is_space x"
  shows "trim_ascii (p @ t) \<noteq> []" "hd (trim_ascii (p @ t)) = hd (dropWhile is_space p)"
proof -
  have d: "dropWhile is_space (p @ t) = dropWhile is_space p @ t" "dropWhile is_space p \<noteq> []"
    using assms by (auto simp: dropWhile_append)
  then have "\<not> is_space (hd (dropWhile is_space p))" using hd_dropWhile by blast
  then have "\<not> list_all is_space (dropWhile is_space p @ t)" 
    using hd_in_set [OF d(2)] by (auto simp: list_all_iff simp del: dropWhile_eq_Nil_conv)
  then show ne: "trim_ascii (p @ t) \<noteq> []" unfolding trim_ascii_def d(1) without_blanks_Nil .
  show "hd (trim_ascii (p @ t)) = hd (dropWhile is_space p)"
    using without_blanks_hd [of "dropWhile is_space (p @ t)"] ne d by (simp add: trim_ascii_def)
qed

section \<open>The lines of an edit\<close>

definition plain_text :: "utf8 \<Rightarrow> bool" where
  "plain_text t \<longleftrightarrow> utf8_is_valid t \<and> trimmed_text t \<and> list_all inert t \<and> CR \<notin> set t \<and> LF \<notin> set t"

definition plain_key :: "utf8 \<Rightarrow> bool" where
  "plain_key k \<longleftrightarrow> plain_text k \<and> k \<noteq> [] \<and> hd k \<noteq> LBRACKET \<and> EQUALS \<notin> set k \<and> COLON \<notin> set k"

definition plain_section :: "utf8 \<Rightarrow> bool" where
  "plain_section s \<longleftrightarrow> utf8_is_valid s \<and> trimmed_text s \<and> RBRACKET \<notin> set s \<and> CR \<notin> set s \<and> LF \<notin> set s"

lemma inert_marker: "inert c \<Longrightarrow> \<not> is_comment_marker opts c"
  by (auto simp: inert_def is_comment_marker_def)

lemma new_key_reads:
  assumes k: "plain_key k" and v: "plain_text v" and s: "s \<noteq> [] \<or> allow_global_keys opts"
  shows "\<exists>p. reads_as opts s (raw_text (new_key nl s k v)) nl p \<and> changed_section p = False
    \<and> ini_line (lp_record p) = ini_line (new_key nl s k v)"
proof -
  let ?raw = "k @ [SPACE, EQUALS, SPACE] @ v" and ?n = "length k + 1"
  note kk = k [unfolded plain_key_def plain_text_def] and vv = v [unfolded plain_text_def]
  have inert: "list_all inert ?raw" using kk vv by (simp add: inert_def)
  have no: "find_inline_comment opts ?raw = length ?raw" by (rule inert_no_comment [OF inert])
  have hk: "\<not> is_space (hd k)" using kk by (auto simp: trimmed_text_def)
  then have dw: "dropWhile is_space k = k" using trimmed_dropWhile by blast
  have t: "trim_ascii ?raw \<noteq> []" "hd (trim_ascii ?raw) = hd k" using hd_trim [of "hd k" k] hk kk dw by simp_all
  have m: "\<not> is_comment_marker opts (hd k)" using kk inert_marker by (cases k) auto
  have sep: "separator_position (take (find_inline_comment opts ?raw) ?raw) = Some ?n"
    unfolding no separator_position_Some using kk by (simp add: nth_append take_append)
  have kc: "key_cut ?raw ?n = ([], k, [SPACE])"
    using trim_surrounded [of "[]" k "[SPACE]"] takeWhile_surrounded [of "[]" k "[SPACE]"] kk by (simp add: key_cut_def cut_text_def is_space_def)
  have "list_all inert (SPACE # v)" using vv by (simp add: inert_def)
  then have nv: "find_inline_comment opts (SPACE # v) = length (SPACE # v)" by (rule inert_no_comment)
  have "trim_ascii (SPACE # v) = v" using trim_surrounded [of "[SPACE]" v "[]"] vv by (simp add: is_space_def)
  then obtain vp cs where vc: "value_cut opts ?raw ?n = (vp, v, cs)"
    using nv by (simp add: value_cut_def cut_text_def)
  have "reads_as opts s ?raw nl \<lparr>lp_record = key_value_record opts ?raw s ?n (plain_record Blank s ?raw nl), next_section = [], changed_section = False\<rparr>"
    using reads_as.key_value [of ?raw opts ?n s nl] t m kk sep s by simp
  moreover have "ini_line (key_value_record opts ?raw s ?n r) = ini_line (new_key nl s k v)" for r
    using kc vc by (simp add: key_value_record_def new_key_def)
  ultimately show ?thesis by (intro exI) (auto simp: new_key_def)
qed

lemma new_header_reads:
  assumes "plain_section s"
  shows "reads_as opts t (raw_text (new_header nl s)) nl \<lparr>lp_record = new_header nl s, next_section = s, changed_section = True\<rparr>"
proof -
  let ?raw = "LBRACKET # s @ [RBRACKET]"
  note ss = assms [unfolded plain_section_def]
  have t: "trim_ascii ?raw = ?raw" by (rule trim_ascii_id) (simp add: trimmed_text_def is_space_def)
  have f: "char_position RBRACKET ?raw = Some (length s + 1)" using ss by (simp add: char_position_Some nth_Cons' nth_append)
  have "section_name ?raw = Some s" using f trim_ascii_id ss by (simp add: section_name_def)
  then show ?thesis
    using reads_as.header [of ?raw opts s t nl] t
    by (simp add: is_comment_marker_def new_header_def plain_record_def line_of_def)
qed

lemma new_blank_reads:
  "reads_as opts t (raw_text (new_line_ending nl)) nl \<lparr>lp_record = plain_record Blank t [] nl, next_section = [], changed_section = False\<rparr>"
  using reads_as.blank [of "[]"] by (simp add: new_line_ending_def empty_record_def trim_ascii_def without_blanks_def)

text \<open>A line whose value is replaced: the key is found where it was, and so is the comment.\<close>

lemma comment_head:
  "drop (find_inline_comment opts w) w = [] \<or> is_comment_marker opts (hd (drop (find_inline_comment opts w) w))"
  using inline_comment(2) [of opts w] by (cases "find_inline_comment opts w < length w") (simp_all add: hd_drop_conv_nth)

lemma replaced_value:
  assumes "value_cut opts raw n = (vp, v0, cs)" and "cs = [] \<or> is_space (hd cs)" and v: "plain_text v"
  shows "trim_ascii (take (find_inline_comment opts (vp @ v @ cs)) (vp @ v @ cs)) = v"
proof -
  let ?w = "drop (n + 1) raw"
  let ?D = "drop (find_inline_comment opts ?w) ?w"
  note pieces = cut_text_pieces [OF assms(1) [unfolded value_cut_def Let_def]]
  obtain b where b: "cs = b @ ?D" "list_all is_space b" using pieces(4) by blast
  let ?a = "vp @ v @ b"
  note vv = v [unfolded plain_text_def]
  have vp: "list_all is_space vp" by (rule pieces(2))
  have inert: "list_all inert ?a" using spaces_inert b(2) vp vv by simp
  have D: "?D = [] \<or> is_comment_marker opts (hd ?D)"
    by (rule comment_head)
  have no: "\<not> (is_space c \<and> is_comment_marker opts c)" for c by (auto simp: is_space_def is_comment_marker_def)
  have "find_inline_comment opts (?a @ ?D) = length ?a"
  proof (cases "?D = []")
    case True
    then show ?thesis using inert_no_comment [OF inert] by simp
  next
    case False
    then have "b \<noteq> []" using D no [of "hd ?D"] assms(2) b(1) by (cases b) auto
    then have "?a \<noteq> []" "is_space (last ?a)" using b(2) by (simp_all add: list_all_iff)
    then show ?thesis using comment_at_marker [OF inert D] by blast
  qed
  then show ?thesis using trim_surrounded [OF vp _ b(2)] vv b(1) by simp
qed

lemma separator_kept:
  "n < c \<Longrightarrow> n < length X \<Longrightarrow> take n X = take n raw \<Longrightarrow> X ! n = raw ! n \<Longrightarrow> raw ! n = EQUALS \<or> raw ! n = COLON
    \<Longrightarrow> EQUALS \<notin> set (take n raw) \<Longrightarrow> COLON \<notin> set (take n raw) \<Longrightarrow> separator_position (take c X) = Some n"
  unfolding separator_position_Some by (simp add: min_def)

lemma line_parse_simps: "changed_section \<lparr>lp_record = r, next_section = s, changed_section = b\<rparr> = b"
    "lp_record \<lparr>lp_record = r, next_section = s, changed_section = b\<rparr> = r"
  by simp_all

lemma key_value_line:
  "key_cut X n = (kp, key, ks) \<Longrightarrow> value_cut opts X n = (vp, v, cs) \<Longrightarrow>
    ini_line (key_value_record opts X s n r) = \<lparr>line_kind = KeyValue, line_section = s, line_key = key, line_value = v\<rparr>"
  by (simp add: key_value_record_def)

lemma with_value_line: "ini_line (with_value v r) = (ini_line r)\<lparr>line_value := v\<rparr>"
  by (simp add: with_value_def Let_def)

lemma with_value_reads:
  assumes "reads_as opts s raw nl p" and "is_key (lp_record p)" and v: "plain_text v"
    and "\<not> value_quoted (lp_record p)" and "comment_suffix (lp_record p) = [] \<or> is_space (hd (comment_suffix (lp_record p)))"
  shows "\<exists>p'. reads_as opts s (raw_text (with_value v (lp_record p))) nl p' \<and> changed_section p' = False
    \<and> ini_line (lp_record p') = ini_line (with_value v (lp_record p))"
    and "CR \<notin> set raw \<and> LF \<notin> set raw \<Longrightarrow> CR \<notin> set (raw_text (with_value v (lp_record p))) \<and> LF \<notin> set (raw_text (with_value v (lp_record p)))"
proof -
  obtain n where n: "lp_record p = key_value_record opts raw s n (plain_record Blank s raw nl)" "trim_ascii raw \<noteq> []"
      "\<not> is_comment_marker opts (hd (trim_ascii raw))" "hd (trim_ascii raw) \<noteq> LBRACKET"
      "separator_position (take (find_inline_comment opts raw) raw) = Some n" "s \<noteq> [] \<or> allow_global_keys opts"
    using assms(1,2) by (cases rule: reads_as.cases) (auto simp: is_key_def plain_record_def line_of_def)
  obtain kp key ks where k: "key_cut raw n = (kp, key, ks)" by (metis prod_cases3)
  obtain vp v0 cs where vc: "value_cut opts raw n = (vp, v0, cs)" by (metis prod_cases3)
  note sep = separator_found [OF n(5)]
  let ?P = "take (n + 1) raw" and ?w = "drop (n + 1) raw"
  let ?raw = "?P @ vp @ v @ cs"
  have P: "?P = take n raw @ [raw ! n]" using sep(1) by (simp add: take_Suc_conv_app_nth)
  have kpk: "take n raw = kp @ key @ ks" using cut_text_pieces(1) [OF k [unfolded key_cut_def]] by simp
  have w: "?w = vp @ v0 @ cs" using cut_text_pieces(1) [OF vc [unfolded value_cut_def Let_def], unfolded append_take_drop_id] .
  have raw: "raw_text (with_value v (lp_record p)) = ?raw"
    using assms(4) kpk P by (simp add: with_value_def rebuilt_text_def Let_def n(1) key_value_record_def k vc)
  have cs: "cs = [] \<or> is_space (hd cs)" using assms(5) by (simp add: n(1) key_value_record_def k vc)
  show "CR \<notin> set raw \<and> LF \<notin> set raw \<Longrightarrow> CR \<notin> set (raw_text (with_value v (lp_record p))) \<and> LF \<notin> set (raw_text (with_value v (lp_record p)))"
    using v w set_take_subset [of "n + 1" raw] set_drop_subset [of "n + 1" raw] unfolding raw plain_text_def by auto
  have lP: "length ?P = n + 1" using sep(1) by simp
  have "0 + length ?P \<le> comment_loop opts False False False None (?P @ ?w) 0"
    using sep(2) lP by (simp add: find_inline_comment_def)
  then have far: "n + 1 \<le> find_inline_comment opts ?raw"
    using comment_loop_prefix lP unfolding find_inline_comment_def by (metis add_0)
  have tk: "take n ?raw = take n raw" "?raw ! n = raw ! n" "drop (n + 1) ?raw = vp @ v @ cs" using sep(1) by (simp_all add: nth_append)
  have in_raw: "n < length ?raw" "n < find_inline_comment opts ?raw" using lP far by simp_all
  have sep': "separator_position (take (find_inline_comment opts ?raw) ?raw) = Some n"
    by (rule separator_kept [OF in_raw(2,1) tk(1,2) sep(3-5)])
  have mem: "raw ! n \<in> set ?P" "\<not> is_space (raw ! n)" using P sep(3) by (auto simp: is_space_def)
  have t: "trim_ascii ?raw \<noteq> []" "hd (trim_ascii ?raw) = hd (trim_ascii raw)"
    using hd_trim [OF mem, of "vp @ v @ cs"] hd_trim [OF mem, of ?w] by simp_all
  let ?p = "\<lparr>lp_record = key_value_record opts ?raw s n (plain_record Blank s ?raw nl), next_section = [], changed_section = False\<rparr>"
  have r: "reads_as opts s ?raw nl ?p"
    using reads_as.key_value [of ?raw opts n s nl] t n(2-4,6) sep' by simp
  have "fst (snd (value_cut opts ?raw n)) = v"
    unfolding value_cut_def Let_def cut_text_def tk(3) fst_conv snd_conv by (rule replaced_value [OF vc cs v])
  then obtain vp' cs' where vc': "value_cut opts ?raw n = (vp', v, cs')" by (metis surjective_pairing)
  have kc': "key_cut ?raw n = (kp, key, ks)" using k unfolding key_cut_def tk(1) .
  have "ini_line (key_value_record opts ?raw s n (plain_record Blank s ?raw nl)) = ini_line (with_value v (lp_record p))"
    unfolding key_value_line [OF kc' vc'] n(1) with_value_line key_value_line [OF k vc] by simp
  then have "reads_as opts s ?raw nl ?p \<and> changed_section ?p = False \<and> ini_line (lp_record ?p) = ini_line (with_value v (lp_record p))"
    using r unfolding line_parse_simps by blast
  then show "\<exists>p'. reads_as opts s (raw_text (with_value v (lp_record p))) nl p' \<and> changed_section p' = False
    \<and> ini_line (lp_record p') = ini_line (with_value v (lp_record p))" unfolding raw by blast
qed

section \<open>Reading the text again\<close>

definition same_line :: "LineRecord \<Rightarrow> LineRecord \<Rightarrow> bool" where
  "same_line r r' \<longleftrightarrow> is_section r' = is_section r \<and> is_key r' = is_key r
     \<and> (is_section r \<longrightarrow> line_section (ini_line r') = line_section (ini_line r))
     \<and> (is_key r \<longrightarrow> pair_of r' = pair_of r \<and> line_value (ini_line r') = line_value (ini_line r))"

text \<open>The lines are read, one by one, as lines that say the same.\<close>

inductive reread :: "IniReaderOptions \<Rightarrow> utf8 \<Rightarrow> LineRecord list \<Rightarrow> LineRecord list \<Rightarrow> bool" for opts where
  none: "reread opts section [] []"
| line: "reads_as opts section (raw_text r) (raw_ending r) p \<Longrightarrow> same_line r (lp_record p) \<Longrightarrow> utf8_is_valid (raw_text r) \<Longrightarrow>
    utf8_is_valid (raw_ending r) \<Longrightarrow> reread opts (section_after section p) rs rs' \<Longrightarrow> reread opts section (r # rs) (lp_record p # rs')"

inductive_cases reread_ConsE: "reread opts section (r # rs) rs'"

lemma section_after_line:
  "reads_as opts section raw ending p \<Longrightarrow> same_line r (lp_record p) \<Longrightarrow> section_after section p = last_section section [r]"
  using reads_as_record(3,4) [of opts "section" raw ending p] by (auto simp: same_line_def last_section_def section_after_def)

lemma reread_self: "lines_read opts section rs \<Longrightarrow> reread opts section rs rs"
proof (induction rule: lines_read.induct)
  case (line s r p rs)
  have "same_line r (lp_record p)" unfolding line(2) by (simp add: same_line_def)
  then show ?case using reread.line [of opts s r p rs rs] line by simp
qed (rule reread.none)

lemma last_section_Cons: "last_section s (r # rs) = last_section (last_section s [r]) rs"
  by (simp add: last_section_def)

lemma reread_append:
  "reread opts s a a' \<Longrightarrow> reread opts (last_section s a) b b' \<Longrightarrow> reread opts s (a @ b) (a' @ b')"
proof (induction rule: reread.induct)
  case (line s r p rs rs')
  have "section_after s p = last_section s [r]" using section_after_line line(1,2) by blast
  then show ?case using line reread.line [of opts s r p "rs @ b" "rs' @ b'"] last_section_Cons [of s r rs] by simp
qed (simp add: last_section_def)

lemma reread_split:
  "reread opts s (a @ b) c \<Longrightarrow> \<exists>a' b'. reread opts s a a' \<and> reread opts (last_section s a) b b'"
proof (induction a arbitrary: s c)
  case Nil
  then show ?case using reread.none by (auto simp: last_section_def)
next
  case (Cons r a)
  from Cons.prems obtain p rs' where p: "reads_as opts s (raw_text r) (raw_ending r) p" "same_line r (lp_record p)"
    "utf8_is_valid (raw_text r)" "utf8_is_valid (raw_ending r)" "reread opts (section_after s p) (a @ b) rs'"
    by (auto elim: reread_ConsE)
  from Cons.IH [OF p(5)] obtain a' b' where "reread opts (section_after s p) a a'" "reread opts (last_section (section_after s p) a) b b'" by blast
  then show ?case
    using reread.line [OF p(1-4)] section_after_line [OF p(1,2)] last_section_Cons [of s r a] by auto
qed

lemma reread_views:
  "reread opts s rs rs' \<Longrightarrow> entries rs' = entries rs \<and> headers rs' = headers rs \<and> pairs rs' = pairs rs \<and> text_of rs' = text_of rs
    \<and> lines_read opts s rs'"
proof (induction rule: reread.induct)
  case (line s r p rs rs')
  note rec = reads_as_record(1,2) [OF line(1)]
  have "lines_read opts s (lp_record p # rs')"
    using lines_read.line [of opts s "lp_record p" p rs'] line rec by simp
  then show ?case using line rec by (simp add: same_line_def)
qed (simp add: lines_read.none)

text \<open>Lines that end in LF or CR LF and hold neither inside.\<close>

definition terminated :: "LineRecord \<Rightarrow> bool" where
  "terminated r \<longleftrightarrow> (raw_ending r = [LF] \<or> raw_ending r = [CR, LF]) \<and> CR \<notin> set (raw_text r) \<and> LF \<notin> set (raw_text r)"

lemma split_terminated: "terminated r \<Longrightarrow> split_line (raw_text r @ raw_ending r @ t) = (raw_text r, raw_ending r, t)"
proof -
  assume r: "terminated r"
  then have "takeWhile (\<lambda>c. c \<noteq> CR \<and> c \<noteq> LF) (raw_text r @ raw_ending r @ t) = raw_text r"
    by (subst takeWhile_append2) (auto simp: terminated_def)
  then show ?thesis using r unfolding split_line_def Let_def by (auto simp: terminated_def)
qed

lemma fresh_Cons:
  assumes "reads_as opts section raw ending p" and "fresh opts ss sk (lp_record p # rs)"
  shows "\<not> rejects opts section ss sk p" "fresh opts (line_seen section p ss) (key_seen section p sk) rs"
proof -
  note r = reads_as_record(3-5) [OF assms(1)]
  have n: "is_section (lp_record p) \<Longrightarrow> \<not> is_key (lp_record p)" by (simp add: is_section_def is_key_def)
  moreover have "is_key (lp_record p) \<Longrightarrow> pair_of (lp_record p) = (section_after section p, line_key (ini_line (lp_record p)))"
    using r(1,3) calculation by (auto simp: pair_of_def is_key_def section_after_def)
  ultimately show "\<not> rejects opts section ss sk p" "fresh opts (line_seen section p ss) (key_seen section p sk) rs"
    using assms(2) r(1,2)
    by (auto simp: fresh_def rejects_def duplicate_section_def duplicate_key_def line_seen_def key_seen_def section_after_def is_key_def)
qed

lemma read_loop_accepts:
  "lines_read opts section rs \<Longrightarrow> list_all terminated rs \<Longrightarrow> utf8_is_valid section \<Longrightarrow> fresh opts ss sk rs
     \<Longrightarrow> read_loop opts (text_of rs) section n ss sk d = Ok (Ok (fold add_record rs d))"
proof (induction arbitrary: n ss sk d rule: lines_read.induct)
  case (none s)
  then show ?case by (simp add: read_loop.simps)
next
  case (line s r p rs)
  have s: "split_line (text_of (r # rs)) = (raw_text r, raw_ending r, text_of rs)" using split_terminated line(7) by simp
  have ne: "text_of (r # rs) \<noteq> []" using line(7) by (auto simp: terminated_def)
  have "parse_line (raw_text r) (raw_ending r) s opts n 1 = Ok (Ok p)"
    using parse_line_reads(1) [OF line(3,4) line(8) line(1)] .
  note round = read_round(2) [OF ne s this]
  note f = fresh_Cons [OF line(1), of ss sk rs, unfolded line(2), OF line(9)]
  have "utf8_is_valid (section_after s p)" using reads_as_record(6) [OF line(1)] line(3,8) by blast
  then show ?case using round [OF f(1)] line(6) [OF _ _ f(2)] line(7) by (simp add: line(2))
qed

lemma read_again:
  assumes "reread opts [] rs rs'" and "list_all terminated rs" and "fresh opts {} {} rs" and "erase_bom (text_of rs) = text_of rs"
  shows "\<exists>d. ini_read (text_of rs) opts = Ok (Ok d) \<and> records d = rs'"
proof -
  note v = reread_views [OF assms(1)]
  have t: "list_all terminated rs'" using assms(1,2)
    by (induction rule: reread.induct) (auto simp: terminated_def reads_as_record)
  have "fresh opts {} {} rs'" using assms(3) v by (simp add: fresh_def)
  then have "read_loop opts (text_of rs) [] 1 {} {} ini_document = Ok (Ok (fold add_record rs' ini_document))"
    using read_loop_accepts [of opts "[]" rs'] v t by simp
  then show ?thesis
    using assms(4) by (simp add: ini_read_def add_records(1) doc_wf_rebuild(2)) (simp add: ini_document_def)
qed

section \<open>Setting a value and reading it back\<close>

lemma new_lines_terminated:
  assumes "newline = [LF] \<or> newline = [CR, LF]"
  shows "terminated (new_line_ending newline)" "plain_section s \<Longrightarrow> terminated (new_header newline s)"
    and "plain_key k \<Longrightarrow> plain_text v \<Longrightarrow> terminated (new_key newline s k v)"
  using assms by (auto simp: terminated_def new_line_ending_def new_header_def new_key_def empty_record_def plain_section_def plain_key_def plain_text_def)

lemma reread_one:
  assumes "reads_as opts s (raw_text r) (raw_ending r) p" and "same_line r (lp_record p)" and "utf8_is_valid (raw_text r)" "utf8_is_valid (raw_ending r)"
  shows "reread opts s [r] [lp_record p]"
  using reread.line [OF assms reread.none] .

lemma section_lines_reread:
  assumes "plain_section s" and "utf8_is_valid nl"
  shows "\<exists>ls. reread opts t (section_lines nl s rs) ls"
proof -
  have b: "reread opts t [new_line_ending nl] [plain_record Blank t [] nl]" for t
    using reread_one [of opts t "new_line_ending nl", OF _ _ _ _] new_blank_reads [of opts t nl] assms(2)
    by (force simp: same_line_def new_line_ending_def empty_record_def plain_record_def line_of_def is_section_def is_key_def)
  have h: "reread opts t [new_header nl s] [new_header nl s]" for t
    using reread_one [of opts t "new_header nl s" "\<lparr>lp_record = new_header nl s, next_section = s, changed_section = True\<rparr>"]
      new_header_reads [OF assms(1)] new_records(5) [of nl s "[]" "[]"] assms
    by (simp add: same_line_def rec_valid_def plain_section_def) (simp add: new_header_def)
  show ?thesis
    using reread_append [OF b h] h reread.none unfolding section_lines_def by fastforce
qed

lemma default_ending_kept:
  "list_all terminated rs \<Longrightarrow> default_line_ending d = [LF] \<or> default_line_ending d = [CR, LF]
    \<Longrightarrow> default_line_ending (fold add_record rs d) = [LF] \<or> default_line_ending (fold add_record rs d) = [CR, LF]"
  by (induction rs arbitrary: d) (simp_all add: add_record_def terminated_def)

lemma lines_read_split: "lines_read opts s (a @ b) \<Longrightarrow> lines_read opts (last_section s a) b"
proof (induction a arbitrary: s)
  case (Cons r a)
  from Cons.prems obtain p where p: "reads_as opts s (raw_text r) (raw_ending r) p" "lp_record p = r" "lines_read opts (section_after s p) (a @ b)"
    by (auto elim: lines_read_ConsE)
  have "same_line r (lp_record p)" unfolding p(2) by (simp add: same_line_def)
  then show ?case using Cons.IH [OF p(3)] section_after_line [OF p(1)] last_section_Cons [of s r a] by simp
qed (simp add: last_section_def)

lemma reread_around:
  assumes "reread opts [] (a @ b) c" and "last_section [] a = s" and "reread opts s ls ls'" and "last_section s ls = s"
  shows "\<exists>rs. reread opts [] (a @ ls @ b) rs"
proof -
  obtain a' b' where ab: "reread opts [] a a'" "reread opts s b b'" using reread_split [OF assms(1)] assms(2) by blast
  have "reread opts s (ls @ b) (ls' @ b')" using reread_append [OF assms(3)] assms(4) ab(2) by simp
  then have "reread opts [] (a @ ls @ b) (a' @ ls' @ b')" using reread_append [OF ab(1)] assms(2) by simp
  then show ?thesis by blast
qed

definition value_replaceable :: "utf8 \<times> utf8 \<Rightarrow> LineRecord \<Rightarrow> bool" where
  "value_replaceable x r \<longleftrightarrow>
     (is_key r \<and> pair_of r = x \<longrightarrow> \<not> value_quoted r \<and> (comment_suffix r = [] \<or> is_space (hd (comment_suffix r))))"

lemma set_new_reread:
  assumes rs: "lines_read opts [] (records d)" "list_all terminated (records d)" and d: "doc_wf d" "default_line_ending d = [LF] \<or> default_line_ending d = [CR, LF]"
    and s: "plain_section s" "s \<noteq> [] \<or> allow_global_keys opts" and k: "plain_key k" and v: "plain_text v"
    and new: "(s, k) \<notin> set (pairs (records d))" and set: "ini_set s k v d = Ok d'"
  shows "\<exists>rs'. reread opts [] (records d') rs' \<and> list_all terminated (records d')"
proof -
  let ?nl = "line_ending_for_new_line d"
  have valid: "utf8_is_valid s" "utf8_is_valid k" "utf8_is_valid v" "utf8_is_valid ?nl"
    using s(1) k v valid_line_ending [OF d(1)] by (simp_all add: plain_section_def plain_key_def plain_text_def)
  have nl: "?nl = [LF] \<or> ?nl = [CR, LF]" using d(2) by (auto simp: line_ending_for_new_line_def)
  from set_new_key [OF d(1) valid(1-3) new] obtain a b where
    ab: "records d @ section_lines ?nl s (records d) = a @ b" "last_section [] a = s"
      "ini_set s k v d = Ok (rebuild_index (d\<lparr>records := a @ new_key ?nl s k v # b\<rparr>))" by blast
  have rec: "records d' = a @ [new_key ?nl s k v] @ b" using set ab(3) by (auto simp: doc_wf_rebuild(2))
  obtain c where c: "reread opts [] (a @ b) c"
    unfolding ab(1) [symmetric]
    using reread_append [OF reread_self [OF rs(1)]] section_lines_reread [OF s(1) valid(4)] by metis
  obtain p where p: "reads_as opts s (raw_text (new_key ?nl s k v)) ?nl p" "ini_line (lp_record p) = ini_line (new_key ?nl s k v)"
    using new_key_reads [OF k v s(2)] by blast
  have "same_line (new_key ?nl s k v) (lp_record p)" by (simp add: same_line_def is_section_def is_key_def pair_of_def p(2))
  then have "reread opts s [new_key ?nl s k v] [lp_record p]"
    using reread_one [of opts s "new_key ?nl s k v" p] p(1) new_records(6) [OF valid(4,1-3)]
    by (simp add: rec_valid_def) (simp add: new_key_def)
  from reread_around [OF c ab(2) this] have "\<exists>rs'. reread opts [] (records d') rs'" unfolding rec by (simp add: last_section_def)
  moreover have "list_all terminated (a @ b)"
    unfolding ab(1) [symmetric] using rs(2) new_lines_terminated [OF nl] s(1) by (simp add: section_lines_def)
  then have "list_all terminated (records d')" unfolding rec using new_lines_terminated(3) [OF nl k v] by simp
  ultimately show ?thesis by blast
qed

lemma set_existing_reread:
  assumes rs: "lines_read opts [] (records d)" "list_all terminated (records d)" and d: "doc_wf d"
    and v: "plain_text v" and ok: "\<forall>r \<in> set (records d). value_replaceable (s, k) r"
    and pos: "key_position s k d = Some i" and set: "ini_set s k v d = Ok d'"
  shows "\<exists>rs'. reread opts [] (records d') rs' \<and> list_all terminated (records d')"
proof -
  have dw: "coherent d" "keys_placed [] (records d)" using d by (simp_all add: doc_wf_def)
  from coherent_split [OF dw(1) pos] obtain a r b where r: "records d = a @ r # b" "length a = i" "is_key r" "pair_of r = (s, k)" .
  have uv: "utf8_is_valid v" using v by (simp add: plain_text_def)
  have rec: "records d' = a @ [with_value v r] @ b"
    using set set_existing_eq [OF d uv r(1)] pos r(2) by (auto simp: ini_set_def doc_wf_rebuild(2))
  have ns: "\<not> is_section r" using r(3) by (simp add: is_key_def is_section_def)
  then have sec: "last_section [] a = s" using dw(2) r(3,4) by (auto simp: r(1) pair_of_def)
  obtain p where p: "reads_as opts s (raw_text r) (raw_ending r) p" "lp_record p = r"
    using lines_read_split [of opts "[]" a "r # b"] rs(1) unfolding r(1) sec by (auto elim: lines_read_ConsE)
  have "value_replaceable (s, k) r" using ok r(1) by simp
  then have vr: "\<not> value_quoted r" "comment_suffix r = [] \<or> is_space (hd (comment_suffix r))" using r(3,4) by (simp_all add: value_replaceable_def)
  note w = with_value_reads [OF p(1), unfolded p(2), OF r(3) v vr]
  obtain p' where p': "reads_as opts s (raw_text (with_value v r)) (raw_ending r) p'" "ini_line (lp_record p') = ini_line (with_value v r)"
    using w(1) by blast
  have "rec_valid r" using d r(1) by (simp add: doc_wf_def)
  note valid = with_value_valid [OF this uv]
  have "same_line (with_value v r) (lp_record p')" by (simp add: same_line_def is_section_def is_key_def pair_of_def p'(2))
  then have one: "reread opts s [with_value v r] [lp_record p']"
    using reread_one [of opts s "with_value v r" p'] p'(1) valid by (simp add: rec_valid_def)
  have full: "reread opts [] (a @ [r] @ b) (records d)" using reread_self [OF rs(1)] by (simp add: r(1))
  obtain a' b' where ab: "reread opts [] a a'" "reread opts s (r # b) b'" using reread_split [OF full] sec by auto
  then obtain b'' where "reread opts s b b''"
    using reread_split [of opts s "[r]" b b'] ns by (auto simp: last_section_def)
  then have "reread opts s ([with_value v r] @ b) ([lp_record p'] @ b'')" using reread_append [OF one] ns by (simp add: last_section_def)
  then have "\<exists>rs'. reread opts [] (records d') rs'" unfolding rec using reread_append [OF ab(1)] sec by blast
  moreover have "terminated r" "list_all terminated (a @ b)" using rs(2) by (simp_all add: r(1))
  then have "list_all terminated (records d')" unfolding rec using w(2) by (simp add: terminated_def)
  ultimately show ?thesis by blast
qed

lemma read_line_ending:
  assumes "ini_read input opts = Ok (Ok d)" and "list_all terminated (records d)"
  shows "default_line_ending d = [LF] \<or> default_line_ending d = [CR, LF]"
proof -
  obtain d' where d': "read_loop opts (erase_bom input) [] 1 {} {} ini_document = Ok (Ok d')" "d = rebuild_index d'"
    using assms(1) by (auto simp: ini_read_def map_ok_def split: Result.splits)
  from read_loop_lines [OF valid_Nil d'(1)] obtain rs where "d' = fold add_record rs ini_document" by blast
  then show ?thesis
    using assms(2) default_ending_kept [of rs ini_document] d'(2) by (simp add: doc_wf_rebuild(2,3) add_records(1)) (simp add: ini_document_def)
qed

end
