(* ===== verification/Ini_Props.thy ===== *)
theory Ini_Props
  imports Ini_Persist
begin

text \<open>
  What the module promises: reading loses nothing and never throws, editing is editing a map,
  and a value that was set is the one read back from the text written.
\<close>

section \<open>Reading and writing\<close>

lemma erase_bom_take: "erase_bom t = (if take 3 t = [0xEF, 0xBB, 0xBF] then drop 3 t else t)"
proof (cases "length t \<ge> 3")
  case True
  then obtain a b c u where "t = a # b # c # u" by (auto simp: numeral_3_eq_3 Suc_le_length_iff)
  then show ?thesis by (simp add: erase_bom_def numeral_3_eq_3)
next
  case False
  then have "length (take 3 t) \<noteq> 3" by simp
  then have "take 3 t \<noteq> [0xEF, 0xBB, 0xBF]" by auto
  then show ?thesis using False by (simp add: erase_bom_def)
qed

text \<open>C38: reading never lets the exception of a string constructor escape, whatever the bytes of
  the input and the options are; and a document that was read is written, with the default empty
  \<^verbatim>\<open>line_ending\<close> of the writer, as the bytes of the input after its byte order mark, if it has one.\<close>

theorem ini_read_lossless:
  "\<exists>r. ini_read input opts = Ok r
    \<and> (\<forall>d. r = Ok d \<longrightarrow> ini_write d [] = Ok (if take 3 input = [0xEF, 0xBB, 0xBF] then drop 3 input else input))"
proof -
  obtain x where x: "read_loop opts (erase_bom input) [] 1 {} {} ini_document = Ok x"
    using read_loop_never_throws [OF valid_Nil] by blast
  then have "ini_read input opts = Ok (map_ok rebuild_index x)" by (simp add: ini_read_def)
  moreover have "ini_write d [] = Ok (erase_bom input)" if "ini_read input opts = Ok (Ok d)" for d
    using read_document [OF that] text_of_valid write_text by metis
  moreover have "erase_bom input = (if take 3 input = [0xEF, 0xBB, 0xBF] then drop 3 input else input)"
    by (rule erase_bom_take)
  ultimately show ?thesis by auto
qed

definition net_ini :: utf8 where
  "net_ini = ascii ''; head'' @ [LF] @ ascii ''[net]'' @ [CR, LF] @ ascii ''port = 80  # http'' @ [LF] @ ascii ''name = local''"

text \<open>A document read with the default options.\<close>

definition net_default :: IniDocument where
  "net_default = ok_val (ok_val (ini_read net_ini ini_reader_options))"

lemma net_default_read: "ini_read net_ini ini_reader_options = Ok (Ok net_default)"
proof -
  have "is_ok (ini_read net_ini ini_reader_options)" "is_ok (ok_val (ini_read net_ini ini_reader_options))" by code_simp+
  then show ?thesis unfolding net_default_def by (auto simp: is_ok_def split: Result.splits)
qed

text \<open>The same text after a byte order mark.\<close>

definition marked_ini :: utf8 where
  "marked_ini = [0xEF, 0xBB, 0xBF] @ net_ini"

theorem ini_read_lossless_witness: "\<exists>d. ini_read marked_ini ini_reader_options = Ok (Ok d) \<and> ini_write d [] = Ok net_ini"
proof -
  have "erase_bom marked_ini = erase_bom net_ini" "take 3 marked_ini = [0xEF, 0xBB, 0xBF]" "drop 3 marked_ini = net_ini" by code_simp+
  then have "ini_read marked_ini ini_reader_options = Ok (Ok net_default)" "take 3 marked_ini = [0xEF, 0xBB, 0xBF]" "drop 3 marked_ini = net_ini"
    using net_default_read by (simp_all add: ini_read_def)
  then show ?thesis using ini_read_lossless [of marked_ini ini_reader_options] by auto
qed

section \<open>Editing\<close>

text \<open>C39: a document without a repeated section header or a repeated key of a section, as every
  document is that was read with both policies for duplicates set to \<open>Error\<close>, behaves over any
  sequence of edits and queries with valid UTF-8 as the map from sections and keys to values
  with the list of section names: every result is the one of the map, a value that is set does
  not throw and changes that key alone, a removed section takes its keys and no other, and the
  two lookups agree with the map at the end.\<close>

theorem ini_refines_map:
  assumes "ini_read input opts = Ok (Ok d)"
    and "on_duplicate_section opts = Error \<and> on_duplicate_key opts = Error
      \<or> distinct (headers (records d)) \<and> distinct (pairs (records d))"
    and "list_all ini_legal ops"
  shows "let (rs, d') = run_ops ini_step ops d; (rs', a) = run_ops ini_spec_step ops (ini_spec_of d)
    in rs = rs' \<and> find_value s k d' = map_of (spec_values a) (s, k) \<and> ini_sections d' = spec_sections a"
proof -
  obtain rs d' rs' a where run: "run_ops ini_step ops d = (rs, d')" "run_ops ini_spec_step ops (ini_spec_of d) = (rs', a)"
    by fastforce
  have w: "doc_wf d" "unique d"
    using read_document [OF assms(1)] assms(2) by (auto simp: fresh_def unique_def)
  then have "rs = rs'" "ini_rel d' a"
    using ini.run_simulates [OF assms(3) spec_of_rel [OF w]] by (simp_all add: run)
  then show ?thesis
    using find_value_config [of d' s k] by (simp add: run ini_rel_def doc_wf_def ini_sections_def headers_def)
qed

definition net_edits :: "ini_op list" where
  "net_edits = [SetValue (ascii ''net'') (ascii ''port'') (ascii ''81''), SetValue (ascii ''log'') (ascii ''level'') (ascii ''2''),
     RemoveKey (ascii ''net'') (ascii ''name''), GetValue (ascii ''net'') (ascii ''port''), RemoveSection (ascii ''log''), Sections]"

theorem ini_refines_map_witness:
  "fst (run_ops ini_step net_edits net_default)
     = [Edited True, Edited True, Edited True, Found (Some (ascii ''81'')), Edited True, Names [ascii ''net'']]"
proof -
  have "distinct (headers (records net_default))" "distinct (pairs (records net_default))" by code_simp+
  moreover
  have "list_all ini_legal net_edits" by code_simp
  moreover have "fst (run_ops ini_spec_step net_edits (ini_spec_of net_default))
      = [Edited True, Edited True, Edited True, Found (Some (ascii ''81'')), Edited True, Names [ascii ''net'']]"
    unfolding net_default_def by code_simp
  ultimately show ?thesis
    using ini_refines_map [OF net_default_read disjI2, of net_edits] by (simp add: case_prod_beta Let_def)
qed

section \<open>Setting a value for good\<close>

text \<open>C40: for a document that was read and whose lines, the last one too, end in LF or CR LF; a
  section name, key and value without line breaks and blanks around them, the key and value
  without quotes, escapes and comment marks, the key also not empty, without separators and not
  beginning with a bracket, the section name without a closing bracket; an old line of the key, if there is one, without quotes and with a
  blank before its comment; and global keys allowed when the section is the empty name: setting
  succeeds and writing with the default ending succeeds, and if the text written does not begin
  with a byte order mark, it is read without error as a document with the new value, every other
  value and the same sections.\<close>

theorem ini_set_persists:
  assumes "ini_read input opts = Ok (Ok d)" and "list_all terminated (records d)"
    and "plain_section s" "plain_key k" "plain_text v" and "s \<noteq> [] \<or> allow_global_keys opts"
    and "list_all (value_replaceable (s, k)) (records d)"
  shows "\<exists>d' t. ini_set s k v d = Ok d' \<and> ini_write d' [] = Ok t
    \<and> (erase_bom t = t \<longrightarrow>
        (\<exists>d''. ini_read t opts = Ok (Ok d'') \<and> ini_sections d'' = ini_sections d'
          \<and> (\<forall>s' k'. find_value s' k' d'' = (if s' = s \<and> k' = k then Some v else find_value s' k' d))))"
proof -
  obtain rs where rs: "records d = rs" "erase_bom input = text_of rs" "lines_read opts [] rs" "doc_wf d" "fresh opts {} {} rs"
    using read_document [OF assms(1)] by blast
  have valid: "utf8_is_valid s" "utf8_is_valid k" "utf8_is_valid v"
    using assms(3-5) by (simp_all add: plain_section_def plain_key_def plain_text_def)
  obtain d' where d': "ini_set s k v d = Ok d'" "doc_wf d'" "config (records d') = (config (records d))((s, k) \<mapsto> v)"
    "headers (records d') = grown s (headers (records d))" "distinct (pairs (records d)) \<longrightarrow> distinct (pairs (records d'))"
    using set_correct [OF rs(4) valid] by blast
  have "\<exists>rs'. reread opts [] (records d') rs' \<and> list_all terminated (records d')"
  proof (cases "key_position s k d")
    case None
    then have "(s, k) \<notin> set (pairs (records d))" using key_position_None rs(4) by (simp add: doc_wf_def)
    then show ?thesis
      using set_new_reread [of opts d s k v d'] rs assms(2-6) d'(1) read_line_ending [OF assms(1,2)] by simp
  next
    case (Some i)
    then show ?thesis using set_existing_reread [of opts d v s k i d'] rs assms(2,5,7) d'(1) by (simp add: list_all_iff)
  qed
  then obtain rs' where rs': "reread opts [] (records d') rs'" "list_all terminated (records d')" by blast
  note views = reread_views [OF rs'(1)]
  have "fresh opts {} {} (records d')" using rs(1,5) d'(4,5) grown_distinct by (simp add: fresh_def)
  note again = read_again [OF rs' this]
  have wr: "ini_write d' [] = Ok (text_of (records d'))" using write_text text_of_valid views by metis
  have "find_value s' k' d'' = (if s' = s \<and> k' = k then Some v else find_value s' k' d)"
    and "ini_sections d'' = ini_sections d'"
    if "ini_read (text_of (records d')) opts = Ok (Ok d'')" and "records d'' = rs'" for d'' s' k'
  proof -
    have "coherent d''" "coherent d" using read_document [OF that(1)] rs(4) by (metis doc_wf_def)+
    then show "find_value s' k' d'' = (if s' = s \<and> k' = k then Some v else find_value s' k' d)"
      using find_value_config [of d''] find_value_config [of d] views d'(3) that(2) by (simp add: config_def)
    show "ini_sections d'' = ini_sections d'" using views that(2) by (simp add: ini_sections_def headers_def)
  qed
  then show ?thesis using d'(1) wr again by metis
qed

definition edited_ini :: utf8 where
  "edited_ini = ascii ''[net]'' @ [CR, LF] @ ascii ''port = 8080  # http'' @ [LF]"

definition served_ini :: utf8 where
  "served_ini = ascii ''[net]'' @ [CR, LF] @ ascii ''port = 80  # http'' @ [LF]"

definition served_document :: IniDocument where
  "served_document = ok_val (ok_val (ini_read served_ini ini_reader_options))"

theorem ini_set_persists_witness:
  "\<exists>d' d''. ini_set (ascii ''net'') (ascii ''port'') (ascii ''8080'') served_document = Ok d' \<and> ini_write d' [] = Ok edited_ini
    \<and> ini_read edited_ini ini_reader_options = Ok (Ok d'') \<and> find_value (ascii ''net'') (ascii ''port'') d'' = Some (ascii ''8080'')"
proof -
  let ?s = "ascii ''net''" and ?k = "ascii ''port''" and ?v = "ascii ''8080''"
  have "is_ok (ini_read served_ini ini_reader_options)" "is_ok (ok_val (ini_read served_ini ini_reader_options))" by code_simp+
  then have read: "ini_read served_ini ini_reader_options = Ok (Ok served_document)"
    unfolding served_document_def by (auto simp: is_ok_def split: Result.splits)
  have "list_all terminated (records served_document)" "plain_section ?s" "plain_key ?k" "plain_text ?v" "?s \<noteq> []"
    "list_all (value_replaceable (?s, ?k)) (records served_document)" by code_simp+
  from ini_set_persists [OF read this(1-4) disjI1 [OF this(5)] this(6)] obtain d' t where
    d': "ini_set ?s ?k ?v served_document = Ok d'" "ini_write d' [] = Ok t"
    "erase_bom t = t \<longrightarrow> (\<exists>d''. ini_read t ini_reader_options = Ok (Ok d'') \<and> find_value ?s ?k d'' = Some ?v)" by auto
  have "ini_write (ok_val (ini_set ?s ?k ?v served_document)) [] = Ok edited_ini" by code_simp
  then have "t = edited_ini" using d'(1,2) by simp
  moreover have "erase_bom edited_ini = edited_ini" by code_simp
  ultimately show ?thesis using d' by blast
qed

section \<open>Edits that are not read back\<close>

definition after_set :: "utf8 \<Rightarrow> utf8 \<Rightarrow> utf8 \<Rightarrow> utf8" where
  "after_set t k v = ok_val (ini_write (ok_val (ini_set [] k v (ok_val (ok_val (ini_read t ini_reader_options))))) [])"

text \<open>A new key after a last line without line ending is written onto that line.\<close>

lemma set_joins_lines: "after_set (ascii ''a=1'') (ascii ''b'') (ascii ''2'') = ascii ''a=1b = 2'' @ [LF]"
  by code_simp

text \<open>An empty value before a comment leaves no blank between the new value and the comment.\<close>

lemma set_before_comment: "after_set (ascii ''a = # b'' @ [LF]) (ascii ''a'') (ascii ''80'') = ascii ''a = 80# b'' @ [LF]"
  by code_simp

text \<open>\<^verbatim>\<open>get\<close> keeps the quotes that \<^verbatim>\<open>set\<close> adds: setting a quoted value to what \<^verbatim>\<open>get\<close> gave doubles them.\<close>

lemma set_doubles_quotes:
  "find_value [] (ascii ''a'') (ok_val (ok_val (ini_read (ascii ''a='' @ [QUOTE] @ ascii ''b'' @ [QUOTE]) ini_reader_options)))
     = Some ([QUOTE] @ ascii ''b'' @ [QUOTE])"
  "after_set (ascii ''a='' @ [QUOTE] @ ascii ''b'' @ [QUOTE]) (ascii ''a'') ([QUOTE] @ ascii ''b'' @ [QUOTE])
     = ascii ''a='' @ [QUOTE, QUOTE] @ ascii ''b'' @ [QUOTE, QUOTE]"
  by code_simp+

text \<open>Removing a key that is there twice leaves the first line of it.\<close>

lemma remove_leaves_duplicate:
  "find_value [] (ascii ''a'') (snd (ini_remove [] (ascii ''a'')
     (ok_val (ok_val (ini_read (ascii ''a=1'' @ [LF] @ ascii ''a=2'' @ [LF]) ini_reader_options))))) = Some (ascii ''1'')"
  by code_simp

end
