(* ===== verification/Collection_Lru.thy ===== *)
theory Collection_Lru
  imports Core_Result "HOL-Library.AList"
begin

text \<open>
  The least-recently-used cache of \<^verbatim>\<open>collection/lru_cache.hpp\<close>: a doubly linked list of
  nodes and a hash index of iterators into it.  A node has an identity, as an address; the
  list is the order of the nodes, the nodes are a store, and the index maps a key to the
  node that holds it.  Calls of the eviction callback are recorded.
\<close>

record CacheStatus =
  hits :: usize
  misses :: usize
  evictions :: usize

record ('k, 'v) LruCache =
  cache_capacity :: usize
  nodes :: "nat \<rightharpoonup> 'k \<times> 'v"
  items :: "nat list"
  index :: "'k \<rightharpoonup> nat"
  next_node :: nat
  cache_status :: CacheStatus
  evicted :: "('k \<times> 'v) list"

datatype lru_exn = invalid_argument

definition lru_new :: "usize \<Rightarrow> (('k, 'v) LruCache, lru_exn) Result" where
  "lru_new capacity =
     (if capacity = 0 then Err invalid_argument
      else Ok \<lparr>cache_capacity = capacity, nodes = Map.empty, items = [], index = Map.empty, next_node = 0,
               cache_status = \<lparr>hits = 0, misses = 0, evictions = 0\<rparr>, evicted = []\<rparr>)"

definition lru_len :: "('k, 'v) LruCache \<Rightarrow> usize" where
  "lru_len c = length (items c)"

definition lru_is_empty :: "('k, 'v) LruCache \<Rightarrow> bool" where
  "lru_is_empty c \<longleftrightarrow> items c = []"

definition contains_key :: "'k \<Rightarrow> ('k, 'v) LruCache \<Rightarrow> bool" where
  "contains_key key c \<longleftrightarrow> index c key \<noteq> None"

text \<open>\<^verbatim>\<open>items_.splice(items_.begin(), items_, node)\<close>\<close>

definition touch :: "nat \<Rightarrow> ('k, 'v) LruCache \<Rightarrow> ('k, 'v) LruCache" where
  "touch node c = c\<lparr>items := node # remove1 node (items c)\<rparr>"

text \<open>\<open>notify\<close> says whether a callback is registered.\<close>

definition evict_lru :: "bool \<Rightarrow> ('k, 'v) LruCache \<Rightarrow> ('k, 'v) LruCache" where
  "evict_lru notify c =
     (let node = last (items c); lru = the (nodes c node);
          c = (if notify then c\<lparr>evicted := evicted c @ [lru]\<rparr> else c);
          c = c\<lparr>index := (index c)(fst lru := None)\<rparr>;
          c = c\<lparr>items := butlast (items c), nodes := (nodes c)(node := None)\<rparr>
      in c\<lparr>cache_status := (cache_status c)\<lparr>evictions := usize_add (evictions (cache_status c)) 1\<rparr>\<rparr>)"

definition lru_get :: "'k \<Rightarrow> ('k, 'v) LruCache \<Rightarrow> 'v option \<times> ('k, 'v) LruCache" where
  "lru_get key c =
     (case index c key of
        None \<Rightarrow> (None, c\<lparr>cache_status := (cache_status c)\<lparr>misses := usize_add (misses (cache_status c)) 1\<rparr>\<rparr>)
      | Some node \<Rightarrow>
          let c = touch node c;
              c = c\<lparr>cache_status := (cache_status c)\<lparr>hits := usize_add (hits (cache_status c)) 1\<rparr>\<rparr>
          in (Some (snd (the (nodes c node))), c))"

definition lru_put :: "bool \<Rightarrow> 'k \<Rightarrow> 'v \<Rightarrow> ('k, 'v) LruCache \<Rightarrow> ('k, 'v) LruCache" where
  "lru_put notify key value c =
     (case index c key of
        Some node \<Rightarrow>
          let c = c\<lparr>nodes := (nodes c)(node \<mapsto> (fst (the (nodes c node)), value))\<rparr>
          in touch node c
      | None \<Rightarrow>
          let c = (if length (items c) \<ge> cache_capacity c then evict_lru notify c else c);
              node = next_node c;
              c = c\<lparr>nodes := (nodes c)(node \<mapsto> (key, value)), items := node # items c, next_node := node + 1\<rparr>
          in c\<lparr>index := (index c)(key \<mapsto> node)\<rparr>)"

definition lru_remove :: "'k \<Rightarrow> ('k, 'v) LruCache \<Rightarrow> 'v option \<times> ('k, 'v) LruCache" where
  "lru_remove key c =
     (case index c key of
        None \<Rightarrow> (None, c)
      | Some node \<Rightarrow>
          let old = snd (the (nodes c node));
              c = c\<lparr>items := remove1 node (items c), nodes := (nodes c)(node := None)\<rparr>
          in (Some old, c\<lparr>index := (index c)(key := None)\<rparr>))"

definition lru_clear :: "('k, 'v) LruCache \<Rightarrow> ('k, 'v) LruCache" where
  "lru_clear c = c\<lparr>items := [], nodes := Map.empty, index := Map.empty\<rparr>"

end
