(* ===== verification/Collection_Lru_Props.thy ===== *)
theory Collection_Lru_Props
  imports Collection_Lru Libca_Simulation "HOL-Library.Multiset"
begin

text \<open>
  The cache refines a list of key-value pairs in order of use.  The representation
  invariant ties the index to the nodes; the abstraction forgets both.
\<close>

section \<open>Specification\<close>

text \<open>
  The specification keeps the pairs, most recently used first, the pairs dropped so far and
  unbounded counters.  A \<open>put\<close> moves the key to the front and drops what exceeds the capacity.
\<close>

type_synonym ('k, 'v) recency = "('k \<times> 'v) list"

record ('k, 'v) lru_spec =
  spec_list :: "('k, 'v) recency"
  spec_dropped :: "('k, 'v) recency"
  spec_hits :: nat
  spec_misses :: nat

datatype ('k, 'v) lru_op = Get 'k | Put 'k 'v | Remove 'k | Clear

primrec spec_step :: "usize \<Rightarrow> ('k, 'v) lru_op \<Rightarrow> ('k, 'v) lru_spec \<Rightarrow> 'v option \<times> ('k, 'v) lru_spec" where
  "spec_step cap (Get k) s =
     (case map_of (spec_list s) k of
        None \<Rightarrow> (None, s\<lparr>spec_misses := spec_misses s + 1\<rparr>)
      | Some v \<Rightarrow> (Some v, s\<lparr>spec_list := (k, v) # AList.delete k (spec_list s), spec_hits := spec_hits s + 1\<rparr>))"
| "spec_step cap (Put k v) s =
     (let l = (k, v) # AList.delete k (spec_list s)
      in (None, s\<lparr>spec_list := take cap l, spec_dropped := spec_dropped s @ drop cap l\<rparr>))"
| "spec_step cap (Remove k) s = (map_of (spec_list s) k, s\<lparr>spec_list := AList.delete k (spec_list s)\<rparr>)"
| "spec_step cap Clear s = (None, s\<lparr>spec_list := []\<rparr>)"

definition spec_new :: "('k, 'v) lru_spec" where
  "spec_new = \<lparr>spec_list = [], spec_dropped = [], spec_hits = 0, spec_misses = 0\<rparr>"

primrec lru_step :: "bool \<Rightarrow> ('k, 'v) lru_op \<Rightarrow> ('k, 'v) LruCache \<Rightarrow> 'v option \<times> ('k, 'v) LruCache" where
  "lru_step notify (Get k) c = lru_get k c"
| "lru_step notify (Put k v) c = (None, lru_put notify k v c)"
| "lru_step notify (Remove k) c = lru_remove k c"
| "lru_step notify Clear c = (None, lru_clear c)"

section \<open>Representation\<close>

definition entry :: "('k, 'v) LruCache \<Rightarrow> nat \<Rightarrow> 'k \<times> 'v" where
  "entry c n = the (nodes c n)"

definition recency :: "('k, 'v) LruCache \<Rightarrow> ('k, 'v) recency" where
  "recency c = map (entry c) (items c)"

definition lru_inv :: "('k, 'v) LruCache \<Rightarrow> bool" where
  "lru_inv c \<longleftrightarrow> 0 < cache_capacity c \<and> length (items c) \<le> cache_capacity c
     \<and> distinct (map fst (recency c)) \<and> dom (nodes c) = set (items c) \<and> (\<forall>n \<in> set (items c). n < next_node c)
     \<and> (\<forall>k n. index c k = Some n \<longleftrightarrow> n \<in> set (items c) \<and> fst (entry c n) = k)"

lemma inv_distinct: "lru_inv c \<Longrightarrow> distinct (items c)"
  by (simp add: lru_inv_def recency_def distinct_map comp_def distinct_map)

lemma inv_keys_inj: "lru_inv c \<Longrightarrow> m \<in> set (items c) \<Longrightarrow> n \<in> set (items c) \<Longrightarrow> fst (entry c m) = fst (entry c n) \<Longrightarrow> m = n"
  by (auto simp: lru_inv_def recency_def distinct_map inj_on_def)

lemma inv_index: "lru_inv c \<Longrightarrow> index c k = Some n \<longleftrightarrow> n \<in> set (items c) \<and> fst (entry c n) = k"
  by (simp add: lru_inv_def)

lemma inv_index_None:
  "lru_inv c \<Longrightarrow> index c k = None \<longleftrightarrow> k \<notin> fst ` set (recency c)"
proof -
  assume c: "lru_inv c"
  have "k \<in> fst ` set (recency c) \<longleftrightarrow> (\<exists>n. index c k = Some n)"
    unfolding inv_index [OF c] by (auto simp: recency_def image_iff)
  then show ?thesis by auto
qed

text \<open>Deleting a key from the recency list is unlinking its node.\<close>

lemma delete_recency:
  assumes "lru_inv c" and "index c k = Some n"
  shows "AList.delete k (recency c) = map (entry c) (remove1 n (items c))"
proof -
  have n: "n \<in> set (items c)" "fst (entry c n) = k" using assms by (simp_all add: inv_index)
  have "AList.delete k (recency c) = map (entry c) (filter (\<lambda>m. fst (entry c m) \<noteq> k) (items c))"
    unfolding AList.delete_eq recency_def filter_map
    by (rule arg_cong [where f = "map (entry c)"], rule filter_cong) (auto simp: case_prod_beta)
  also have "filter (\<lambda>m. fst (entry c m) \<noteq> k) (items c) = filter (\<lambda>m. m \<noteq> n) (items c)"
  proof (rule filter_cong [OF refl])
    fix m assume m: "m \<in> set (items c)"
    show "fst (entry c m) \<noteq> k \<longleftrightarrow> m \<noteq> n"
      using inv_keys_inj [OF assms(1) m n(1)] n(2) by (cases "m = n") auto
  qed
  also have "\<dots> = remove1 n (items c)"
    unfolding distinct_remove1_removeAll [OF inv_distinct [OF assms(1)]] removeAll_filter_not_eq
    by (rule filter_cong) auto
  finally show ?thesis .
qed

lemma map_of_recency:
  assumes "lru_inv c" and "index c k = Some n"
  shows "map_of (recency c) k = Some (snd (entry c n))"
proof -
  have n: "n \<in> set (items c)" "fst (entry c n) = k" using assms by (simp_all add: inv_index)
  then have "(k, snd (entry c n)) \<in> set (recency c)" by (auto simp: recency_def image_iff intro!: bexI [of _ n])
  then show ?thesis using assms(1) by (simp add: lru_inv_def map_of_eq_Some_iff)
qed

lemma map_of_recency_None: "lru_inv c \<Longrightarrow> index c k = None \<Longrightarrow> map_of (recency c) k = None"
  by (simp add: inv_index_None map_of_eq_None_iff)

section \<open>Operations\<close>

lemma touch_refines:
  assumes "lru_inv c" and "index c k = Some n"
  shows "lru_inv (touch n c)" and "recency (touch n c) = entry c n # AList.delete k (recency c)"
proof -
  have n: "n \<in> set (items c)" using assms by (simp add: inv_index)
  have e: "entry (touch n c) = entry c" by (simp add: fun_eq_iff entry_def touch_def)
  show r: "recency (touch n c) = entry c n # AList.delete k (recency c)"
    unfolding delete_recency [OF assms] unfolding recency_def e by (simp add: touch_def)
  have s: "set (items (touch n c)) = set (items c)"
    using n inv_distinct [OF assms(1)] by (auto simp: touch_def)
  have "mset (recency (touch n c)) = mset (recency c)"
    unfolding recency_def e mset_map using n by (simp add: touch_def)
  then have "distinct (map fst (recency (touch n c)))"
    using assms(1) by (metis lru_inv_def mset_map mset_eq_imp_distinct_iff)
  moreover have "length (items (touch n c)) = length (items c)"
    using n by (auto simp: touch_def length_remove1 dest: length_pos_if_in_set)
  ultimately show "lru_inv (touch n c)"
    using assms(1) unfolding lru_inv_def e s by (simp add: touch_def)
qed

text \<open>Overwriting the value of a node.\<close>

lemma assign_refines:
  fixes v defines "c' \<equiv> \<lambda>c n. c\<lparr>nodes := (nodes c)(n \<mapsto> (fst (the (nodes c n)), v))\<rparr>"
  assumes "lru_inv c" and "index c k = Some n"
  shows "lru_inv (c' c n)" and "entry (c' c n) n = (k, v)" and "AList.delete k (recency (c' c n)) = AList.delete k (recency c)"
proof -
  have n: "n \<in> set (items c)" "fst (entry c n) = k" using assms by (simp_all add: inv_index)
  have e: "entry (c' c n) = (entry c)(n := (k, v))" using n by (simp add: fun_eq_iff entry_def c'_def)
  have fe: "fst (((entry c)(n := (k, v))) m) = fst (entry c m)" for m using n by simp
  have i: "items (c' c n) = items c" "index (c' c n) = index c" by (simp_all add: c'_def)
  show "entry (c' c n) n = (k, v)" by (simp add: e)
  have "map fst (recency (c' c n)) = map fst (recency c)" unfolding recency_def e i map_map comp_def fe ..
  then show inv: "lru_inv (c' c n)"
    using assms(2) n unfolding lru_inv_def e i fe by (auto simp: c'_def)
  have "n \<notin> set (remove1 n (items c))" using inv_distinct [OF assms(2)] by simp
  then show "AList.delete k (recency (c' c n)) = AList.delete k (recency c)"
    using delete_recency [OF inv, of k n] delete_recency [OF assms(2,3)] assms(3) by (simp add: i e cong: map_cong)
qed

text \<open>Unlinking a node: its key leaves the index and its entry leaves the recency list.\<close>

lemma unlink_refines:
  fixes c :: "('k, 'v) LruCache"
  assumes "lru_inv c" and "index c k = Some n"
    and "items c' = remove1 n (items c)" "nodes c' = (nodes c)(n := None)" "index c' = (index c)(k := None)"
    and "cache_capacity c' = cache_capacity c" "next_node c' = next_node c"
  shows "lru_inv c'" and "recency c' = AList.delete k (recency c)"
proof -
  have n: "n \<in> set (items c)" "fst (entry c n) = k" using assms by (simp_all add: inv_index)
  have s: "set (remove1 n (items c)) = set (items c) - {n}" using inv_distinct [OF assms(1)] by simp
  have e: "entry c' m = entry c m" if "m \<noteq> n" for m using that assms(4) by (simp add: entry_def)
  show r: "recency c' = AList.delete k (recency c)"
    unfolding delete_recency [OF assms(1,2)] unfolding recency_def assms(3)
    by (rule map_cong [OF refl], rule e) (auto simp: s)
  have "distinct (map fst (recency c'))" unfolding r using assms(1) by (simp add: lru_inv_def AList.distinct_delete)
  moreover have "length (items c') \<le> cache_capacity c'"
    using assms(1) unfolding assms(3,6) lru_inv_def by (auto simp: length_remove1)
  moreover have "index c' j = Some m \<longleftrightarrow> m \<in> set (items c') \<and> fst (entry c' m) = j" for j m
  proof (cases "m = n")
    case True
    then show ?thesis using inv_index [OF assms(1), of j n] n by (simp add: assms(3,5) s)
  next
    case False
    then show ?thesis
      using inv_index [OF assms(1), of j m] inv_keys_inj [OF assms(1) n(1), of m] n by (auto simp: assms(3,5) s e)
  qed
  ultimately show "lru_inv c'"
    using assms(1) unfolding lru_inv_def assms(3,4,6,7) s by auto
qed

lemma evict_refines:
  assumes "lru_inv c" and "items c \<noteq> []"
  shows "lru_inv (evict_lru b c)" and "recency (evict_lru b c) = butlast (recency c)"
    and "evicted (evict_lru b c) = evicted c @ (if b then [last (recency c)] else [])"
proof -
  define n where "n = last (items c)"
  have k: "index c (fst (entry c n)) = Some n" unfolding inv_index [OF assms(1)] n_def using assms(2) by simp
  have b: "butlast (items c) = remove1 n (items c)"
    using inv_distinct [OF assms(1)] assms(2) unfolding n_def
    by (cases "items c" rule: rev_cases) (auto simp: remove1_append)
  note u = unlink_refines [OF assms(1) k, of "evict_lru b c"]
  show "lru_inv (evict_lru b c)"
    by (rule u(1)) (simp_all add: evict_lru_def Let_def b n_def [symmetric] entry_def)
  have "recency (evict_lru b c) = map (entry c) (remove1 n (items c))"
    unfolding delete_recency [OF assms(1) k, symmetric]
    by (rule u(2)) (simp_all add: evict_lru_def Let_def b n_def [symmetric] entry_def)
  then show "recency (evict_lru b c) = butlast (recency c)" unfolding b [symmetric] recency_def by (simp add: map_butlast)
  show "evicted (evict_lru b c) = evicted c @ (if b then [last (recency c)] else [])"
    using assms(2) by (simp add: evict_lru_def Let_def recency_def last_map entry_def)
qed

text \<open>Linking a fresh node in front.\<close>

lemma insert_refines:
  fixes v defines "c' \<equiv> \<lambda>c k. c\<lparr>nodes := (nodes c)(next_node c \<mapsto> (k, v)), items := next_node c # items c,
                                next_node := next_node c + 1, index := (index c)(k \<mapsto> next_node c)\<rparr>"
  assumes "lru_inv c" and "index c k = None" and "length (items c) < cache_capacity c"
  shows "lru_inv (c' c k)" and "recency (c' c k) = (k, v) # recency c"
proof -
  have f: "n \<noteq> next_node c" if "n \<in> set (items c)" for n using that assms(2) by (auto simp: lru_inv_def)
  have e: "entry (c' c k) n = (if n = next_node c then (k, v) else entry c n)" for n by (simp add: entry_def c'_def)
  show r: "recency (c' c k) = (k, v) # recency c"
    unfolding recency_def using f by (auto simp: c'_def entry_def)
  have "distinct (map fst (recency (c' c k)))"
    unfolding r using assms(2,3) by (simp add: inv_index_None lru_inv_def)
  moreover have "index (c' c k) j = Some m \<longleftrightarrow> m \<in> set (items (c' c k)) \<and> fst (entry (c' c k) m) = j" for j m
    using inv_index [OF assms(2), of j m] f [of m] assms(3) unfolding e by (auto simp: c'_def)
  ultimately show "lru_inv (c' c k)"
    using assms(2,4) unfolding lru_inv_def by (auto simp: c'_def)
qed

section \<open>Refinement\<close>

definition counted :: "nat \<Rightarrow> usize" where
  "counted n = n mod (SIZE_MAX + 1)"

definition represents :: "usize \<Rightarrow> bool \<Rightarrow> ('k, 'v) LruCache \<Rightarrow> ('k, 'v) lru_spec \<Rightarrow> bool" where
  "represents cap notify c s \<longleftrightarrow> lru_inv c \<and> cache_capacity c = cap \<and> recency c = spec_list s
     \<and> evicted c = (if notify then spec_dropped s else [])
     \<and> cache_status c = \<lparr>hits = counted (spec_hits s), misses = counted (spec_misses s),
                        evictions = counted (length (spec_dropped s))\<rparr>"

lemma counted_0 [simp]: "counted 0 = 0"
  by (simp add: counted_def)

lemma counted_Suc [simp]: "usize_add (counted n) (Suc 0) = counted (Suc n)"
  by (simp add: counted_def usize_add_def mod_Suc_eq)

lemma entry_status [simp]: "entry (c\<lparr>cache_status := x\<rparr>) = entry c"
  by (simp add: fun_eq_iff entry_def)

lemma inv_status [simp]:
  "lru_inv (c\<lparr>cache_status := x\<rparr>) = lru_inv c" "recency (c\<lparr>cache_status := x\<rparr>) = recency c"
  by (simp_all add: lru_inv_def recency_def)

lemma touch_fields [simp]:
  "cache_status (touch n c) = cache_status c" "evicted (touch n c) = evicted c"
  "cache_capacity (touch n c) = cache_capacity c" "nodes (touch n c) = nodes c"
  by (simp_all add: touch_def)

lemma get_represents:
  assumes "represents cap b c s"
  shows "fst (lru_get k c) = fst (spec_step cap (Get k) s) \<and> represents cap b (snd (lru_get k c)) (snd (spec_step cap (Get k) s))"
proof (cases "index c k")
  case None
  with assms map_of_recency_None [of c k] show ?thesis
    by (simp add: represents_def lru_get_def)
next
  case (Some n)
  have c: "lru_inv c" and r: "recency c = spec_list s" using assms by (simp_all add: represents_def)
  have "entry c n = (k, snd (entry c n))" using Some c by (simp add: inv_index prod_eq_iff)
  then show ?thesis
    using assms Some map_of_recency [OF c Some] touch_refines [OF c Some]
    by (simp add: represents_def lru_get_def Let_def entry_def r)
qed

lemma remove_represents:
  assumes "represents cap b c s"
  shows "fst (lru_remove k c) = fst (spec_step cap (Remove k) s)
    \<and> represents cap b (snd (lru_remove k c)) (snd (spec_step cap (Remove k) s))"
proof (cases "index c k")
  case None
  have "AList.delete k (recency c) = recency c"
    using None assms by (simp add: represents_def inv_index_None AList.delete_id)
  with assms None map_of_recency_None [of c k] show ?thesis
    by (simp add: represents_def lru_remove_def)
next
  case (Some n)
  have c: "lru_inv c" and r: "recency c = spec_list s" using assms by (simp_all add: represents_def)
  note u = unlink_refines [OF c Some, of "snd (lru_remove k c)"]
  have "lru_inv (snd (lru_remove k c))" "recency (snd (lru_remove k c)) = AList.delete k (recency c)"
    by (rule u; simp add: lru_remove_def Some Let_def)+
  then show ?thesis
    using assms map_of_recency [OF c Some] by (simp add: represents_def lru_remove_def Let_def Some entry_def r)
qed

lemma clear_represents:
  "represents cap b c s \<Longrightarrow> represents cap b (lru_clear c) (snd (spec_step cap Clear s))"
  by (auto simp: represents_def lru_clear_def lru_inv_def recency_def)

text \<open>A full cache makes room for a new key; the specification drops the same entry.\<close>

lemma spec_put_room:
  "map_of l k = None \<Longrightarrow> length l < cap \<Longrightarrow>
     take cap ((k, v) # AList.delete k l) = (k, v) # l \<and> drop cap ((k, v) # AList.delete k l) = []"
  by (simp add: AList.delete_id map_of_eq_None_iff)

lemma drop_last: "l \<noteq> [] \<Longrightarrow> drop (length l - Suc 0) l = [last l]"
  by (cases l rule: rev_cases) simp_all

lemma spec_put_full:
  "map_of l k = None \<Longrightarrow> length l = cap \<Longrightarrow> 0 < cap \<Longrightarrow>
     take cap ((k, v) # AList.delete k l) = (k, v) # butlast l \<and> drop cap ((k, v) # AList.delete k l) = [last l]"
  by (subst (1 2) AList.delete_id) (auto simp: map_of_eq_None_iff take_Cons' drop_Cons' butlast_conv_take drop_eq_Nil
        intro!: drop_last)

lemma evict_fields [simp]:
  "cache_capacity (evict_lru b c) = cache_capacity c" "length (items (evict_lru b c)) = length (items c) - 1"
  "cache_status (evict_lru b c) = (cache_status c)\<lparr>evictions := usize_add (evictions (cache_status c)) 1\<rparr>"
  by (simp_all add: evict_lru_def Let_def)

lemma put_represents_new:
  assumes c: "represents cap b c s" and k: "index c k = None"
  shows "represents cap b (lru_put b k v c) (snd (spec_step cap (Put k v) s))"
proof (cases "length (items c) < cap")
  case True
  have inv: "lru_inv c" and r: "recency c = spec_list s" using c by (simp_all add: represents_def)
  have "length (spec_list s) < cap" "map_of (spec_list s) k = None"
    using True map_of_recency_None [OF inv k] unfolding r [symmetric] by (simp_all add: recency_def)
  then show ?thesis
    using insert_refines [OF inv k, of v] c True spec_put_room [of "spec_list s" k cap v]
    by (simp add: represents_def lru_put_def Let_def k)
next
  case False
  have inv: "lru_inv c" and r: "recency c = spec_list s" and cap: "cache_capacity c = cap"
    using c by (simp_all add: represents_def)
  have full: "length (items c) = cap" "0 < cap" using False inv cap by (auto simp: lru_inv_def)
  have ne: "items c \<noteq> []" using full by auto
  note e = evict_refines [OF inv ne, of b]
  have k': "index (evict_lru b c) k = None"
    using k inv_index_None [OF inv, of k] unfolding inv_index_None [OF e(1)] e(2) by (auto dest: in_set_butlastD)
  have "length (spec_list s) = cap" "map_of (spec_list s) k = None"
    using full map_of_recency_None [OF inv k] unfolding r [symmetric] by (simp_all add: recency_def)
  with insert_refines [OF e(1) k', of v] c full spec_put_full [of "spec_list s" k cap v] e
  show ?thesis by (simp add: represents_def lru_put_def Let_def k)
qed

lemma put_represents_old:
  assumes "represents cap b c s" and Some: "index c k = Some n"
  shows "represents cap b (lru_put b k v c) (snd (spec_step cap (Put k v) s))"
proof -
  have c: "lru_inv c" and r: "recency c = spec_list s" using assms by (simp_all add: represents_def)
  have n: "0 < length (items c)" "length (items c) \<le> cap"
    using assms c inv_index [OF c, of k n] by (auto simp: represents_def lru_inv_def)
  note a = assign_refines [OF c Some, of v]
  have i: "index (c\<lparr>nodes := (nodes c)(n \<mapsto> (fst (the (nodes c n)), v))\<rparr>) k = Some n" using Some by simp
  have "length (AList.delete k (spec_list s)) = length (items c) - 1"
    using delete_recency [OF c Some] c Some by (simp add: r inv_index length_remove1) 
  then have "length (AList.delete k (spec_list s)) < cap" using n by linarith
  then show ?thesis
    using assms a touch_refines [OF a(1) i] by (simp add: represents_def lru_put_def Some Let_def r)
qed

lemma put_represents:
  "represents cap b c s \<Longrightarrow> represents cap b (lru_put b k v c) (snd (spec_step cap (Put k v) s))"
  by (cases "index c k") (rule put_represents_new put_represents_old, assumption+)+

interpretation lru: simulation "\<lambda>_. True" "represents cap b" "lru_step b" "spec_step cap" for cap b
proof
  fix c :: "('k, 'v) LruCache" and s x
  assume r: "represents cap b c s"
  show "fst (lru_step b x c) = fst (spec_step cap x s)"
    using get_represents [OF r] remove_represents [OF r] by (cases x) (simp_all add: Let_def del: spec_step.simps(1,3))
  show "represents cap b (snd (lru_step b x c)) (snd (spec_step cap x s))"
    using get_represents [OF r] remove_represents [OF r] put_represents [OF r] clear_represents [OF r]
    by (cases x) (simp_all only: lru_step.simps snd_conv)
qed

lemma new_represents: "lru_new cap = Ok c \<Longrightarrow> represents cap b c spec_new"
  by (auto simp: lru_new_def represents_def spec_new_def lru_inv_def recency_def entry_def split: if_splits)

text \<open>C28: a cache of capacity \<open>cap\<close> behaves, over any sequence of gets, puts, removes and
  clears, as the list of its pairs in order of use: every result is the one of the list, an
  insertion beyond the capacity drops the least recently used pair and no other, each dropped
  pair is handed to the callback once and in that order, the counters are the numbers of
  hits, misses and evictions modulo \<open>2 ^ 64\<close>, and the size never exceeds the capacity.\<close>

theorem lru_refines:
  assumes "lru_new cap = Ok c"
  shows "let (rs, c') = run_ops (lru_step notify) xs c; (rs', s) = run_ops (spec_step cap) xs spec_new
    in rs = rs' \<and> recency c' = spec_list s \<and> evicted c' = (if notify then spec_dropped s else [])
      \<and> cache_status c' = \<lparr>hits = counted (spec_hits s), misses = counted (spec_misses s),
                           evictions = counted (length (spec_dropped s))\<rparr>
      \<and> lru_len c' \<le> cap \<and> lru_is_empty c' = (spec_list s = []) \<and> contains_key k c' = (map_of (spec_list s) k \<noteq> None)"
proof -
  obtain rs c' rs' s where run: "run_ops (lru_step notify) xs c = (rs, c')" "run_ops (spec_step cap) xs spec_new = (rs', s)"
    by fastforce
  have r: "rs = rs'" "represents cap notify c' s"
    using lru.run_simulates [OF _ new_represents [OF assms, of notify], of xs] by (simp_all add: run list_all_iff)
  then have inv: "lru_inv c'" and l: "recency c' = spec_list s" by (simp_all add: represents_def)
  have "contains_key k c' = (map_of (spec_list s) k \<noteq> None)"
    unfolding contains_key_def inv_index_None [OF inv] map_of_eq_None_iff l by (rule refl)
  moreover have "lru_is_empty c' = (spec_list s = [])" unfolding l [symmetric] by (simp add: lru_is_empty_def recency_def)
  ultimately show ?thesis using r inv by (simp add: run represents_def lru_inv_def lru_len_def)
qed

definition lru_example :: "(nat, string) LruCache" where
  "lru_example = (case lru_new 2 of Ok c \<Rightarrow> c)"

theorem lru_refines_witness:
  "lru_new 2 = Ok lru_example
   \<and> (let (rs, c) = run_ops (lru_step True) [Put 1 ''a'', Put 2 ''b'', Get 1, Put 3 ''c'', Get 2, Remove 1] lru_example
      in rs = [None, None, Some ''a'', None, None, Some ''a''] \<and> recency c = [(3, ''c'')] \<and> evicted c = [(2, ''b'')])"
proof -
  have new: "lru_new 2 = Ok lru_example" by (simp add: lru_new_def lru_example_def)
  show ?thesis
    using lru_refines [OF new, of True "[Put 1 ''a'', Put 2 ''b'', Get 1, Put 3 ''c'', Get 2, Remove 1]"]
    by (simp add: new spec_new_def Let_def case_prod_beta)
qed

end
