(* ===== verification/Json_Value.thy ===== *)
theory Json_Value
  imports Str_Arena Libca_Chars
begin

text \<open>
  JSON values (\<^verbatim>\<open>json_value.cpp\<close>), with the string builder their strings are made with.  The type tag and the variant of a \<open>JsonValue\<close> always agree, so a value is a
  datatype; a string is its bytes.  An accessor whose assertion fails is \<open>None\<close>.
\<close>

section \<open>The string builder\<close>

text \<open>
  A builder is the bytes appended so far; its buffer doubles and never loses them.  What
  \<^verbatim>\<open>append_code_point\<close> returns is whether the encoder wrote anything.
\<close>

definition sb_append_code_point :: "u32 \<Rightarrow> utf8 \<Rightarrow> utf8 option" where
  "sb_append_code_point cp sb =
     (let buf = utf8_encode_code_point cp in if length buf = 0 then None else Some (sb @ buf))"

definition sb_build_or_empty :: "utf8 \<Rightarrow> utf8" where
  "sb_build_or_empty sb =
     (if length sb = 0 then []
      else if fst (utf8_count_code_points sb) = 0 then [] else sb)"

section \<open>Values\<close>

datatype JsonValue =
  JNull | JBool bool | JInt i64 | JFloat f64 | JString utf8
| JArray "JsonValue list" | JObject "(utf8 \<times> JsonValue) list"

definition is_number :: "JsonValue \<Rightarrow> bool" where
  "is_number v = (case v of JInt _ \<Rightarrow> True | JFloat _ \<Rightarrow> True | _ \<Rightarrow> False)"

fun clone :: "JsonValue \<Rightarrow> JsonValue" where
  "clone (JArray vs) = JArray (map clone vs)"
| "clone (JObject ms) = JObject (map (\<lambda>m. (fst m, clone (snd m))) ms)"
| "clone v = v"

definition as_bool :: "JsonValue \<Rightarrow> bool option" where
  "as_bool v = (case v of JBool b \<Rightarrow> Some b | _ \<Rightarrow> None)"

definition as_int :: "JsonValue \<Rightarrow> i64 option" where
  "as_int v = (case v of JInt i \<Rightarrow> Some i | _ \<Rightarrow> None)"

definition as_float :: "JsonValue \<Rightarrow> f64 option" where
  "as_float v = (case v of JFloat x \<Rightarrow> Some x | _ \<Rightarrow> None)"

definition as_string :: "JsonValue \<Rightarrow> utf8 option" where
  "as_string v = (case v of JString s \<Rightarrow> Some s | _ \<Rightarrow> None)"

definition as_array :: "JsonValue \<Rightarrow> JsonValue list option" where
  "as_array v = (case v of JArray vs \<Rightarrow> Some vs | _ \<Rightarrow> None)"

definition as_object :: "JsonValue \<Rightarrow> (utf8 \<times> JsonValue) list option" where
  "as_object v = (case v of JObject ms \<Rightarrow> Some ms | _ \<Rightarrow> None)"

definition json_append :: "JsonValue \<Rightarrow> JsonValue \<Rightarrow> JsonValue option" where
  "json_append v a = (case a of JArray vs \<Rightarrow> Some (JArray (vs @ [v])) | _ \<Rightarrow> None)"

definition json_at :: "usize \<Rightarrow> JsonValue \<Rightarrow> JsonValue option" where
  "json_at i a = (case a of JArray vs \<Rightarrow> if i < length vs then Some (vs ! i) else None | _ \<Rightarrow> None)"

definition json_size :: "JsonValue \<Rightarrow> usize option" where
  "json_size a = (case a of JArray vs \<Rightarrow> Some (length vs) | _ \<Rightarrow> None)"

fun set_member :: "utf8 \<Rightarrow> JsonValue \<Rightarrow> (utf8 \<times> JsonValue) list \<Rightarrow> (utf8 \<times> JsonValue) list" where
  "set_member key v [] = [(key, v)]"
| "set_member key v (m # ms) = (if fst m = key then (fst m, v) # ms else m # set_member key v ms)"

definition json_set :: "utf8 \<Rightarrow> JsonValue \<Rightarrow> JsonValue \<Rightarrow> JsonValue option" where
  "json_set key v ob = (case ob of JObject ms \<Rightarrow> Some (JObject (set_member key v ms)) | _ \<Rightarrow> None)"

fun find_member :: "utf8 \<Rightarrow> (utf8 \<times> JsonValue) list \<Rightarrow> JsonValue option" where
  "find_member key [] = None"
| "find_member key (m # ms) = (if fst m = key then Some (snd m) else find_member key ms)"

definition json_find :: "utf8 \<Rightarrow> JsonValue \<Rightarrow> JsonValue option option" where
  "json_find key ob = (case ob of JObject ms \<Rightarrow> Some (find_member key ms) | _ \<Rightarrow> None)"

fun remove_member :: "utf8 \<Rightarrow> (utf8 \<times> JsonValue) list \<Rightarrow> bool \<times> (utf8 \<times> JsonValue) list" where
  "remove_member key [] = (False, [])"
| "remove_member key (m # ms) =
     (if fst m = key then (True, ms) else let (found, ms) = remove_member key ms in (found, m # ms))"

definition json_remove :: "utf8 \<Rightarrow> JsonValue \<Rightarrow> (bool \<times> JsonValue) option" where
  "json_remove key ob =
     (case ob of JObject ms \<Rightarrow> (let (found, ms) = remove_member key ms in Some (found, JObject ms)) | _ \<Rightarrow> None)"

end
