(* ===== verification/Json_Parser.thy ===== *)
theory Json_Parser
  imports Json_Value
begin

text \<open>
  The event parser of \<^verbatim>\<open>json_parser.cpp\<close>, the tree builder of \<^verbatim>\<open>json_dom_builder.cpp\<close> and the reader of
  \<^verbatim>\<open>json_reader.cpp\<close>.  The cursor is the input that is left; the calls of the handler are
  recorded in order, since the parser never reads the handler back.  The recursive descent
  carries fuel, and \<open>None\<close> is running out of it.
\<close>

section \<open>Locations, errors and events\<close>

record SourceLocation =
  offset :: usize
  line :: usize
  column :: usize

record JsonParseError =
  location :: SourceLocation
  message :: string

datatype JsonEvent =
  on_null SourceLocation
| on_bool bool SourceLocation
| on_int i64 SourceLocation
| on_float f64 SourceLocation
| on_string utf8 SourceLocation
| on_array_start SourceLocation
| on_array_end SourceLocation
| on_object_start SourceLocation
| on_object_end SourceLocation
| on_object_key utf8 SourceLocation
| on_error JsonParseError

record JsonParserOptions =
  allow_trailing_comma :: bool
  allow_comments :: bool
  max_depth :: usize

record JsonParser =
  rest :: utf8
  loc :: SourceLocation
  failed :: bool
  depth :: usize
  events :: "JsonEvent list"
  last_error :: JsonParseError

text \<open>
  \<^verbatim>\<open>std::from_chars\<close> on the integers, and the conversions of \<^verbatim>\<open>double\<close> the module uses as a
  parameter: the value with the number of bytes consumed, or the error.
\<close>

datatype 'v from_chars = Converted 'v usize | OutOfRange | InvalidArgument

record float_chars =
  from_chars_f64 :: "utf8 \<Rightarrow> f64 from_chars"
  to_chars_f64 :: "f64 \<Rightarrow> utf8 option"

definition is_digit :: "u8 \<Rightarrow> bool" where
  "is_digit c \<longleftrightarrow> ZERO \<le> c \<and> c \<le> NINE"

definition digits_value :: "utf8 \<Rightarrow> nat" where
  "digits_value ds = fold (\<lambda>d n. 10 * n + unat (d - ZERO)) ds 0"

definition from_chars_i64 :: "utf8 \<Rightarrow> i64 from_chars" where
  "from_chars_i64 t =
     (let neg = (t \<noteq> [] \<and> hd t = MINUS); ds = takeWhile is_digit (if neg then tl t else t);
          v = (if neg then - int (digits_value ds) else int (digits_value ds))
      in if ds = [] then InvalidArgument
         else if v < - (2 ^ 63) \<or> v \<ge> 2 ^ 63 then OutOfRange
         else Converted (word_of_int v) (length ds + (if neg then 1 else 0)))"

section \<open>Cursor\<close>

definition start_location :: SourceLocation where
  "start_location = \<lparr>offset = 0, line = 1, column = 1\<rparr>"

definition json_parser :: "utf8 \<Rightarrow> JsonParser" where
  "json_parser input =
     \<lparr>rest = input, loc = start_location, failed = False, depth = 0, events = [],
      last_error = \<lparr>location = start_location, message = ''''\<rparr>\<rparr>"

definition peek :: "JsonParser \<Rightarrow> u8" where
  "peek s = (case rest s of [] \<Rightarrow> 0 | c # r \<Rightarrow> c)"

definition peek_next :: "JsonParser \<Rightarrow> u8" where
  "peek_next s = (case rest s of c # d # r \<Rightarrow> d | _ \<Rightarrow> 0)"

definition at_end :: "JsonParser \<Rightarrow> bool" where
  "at_end s \<longleftrightarrow> rest s = []"

definition advance :: "JsonParser \<Rightarrow> JsonParser" where
  "advance s =
     (case rest s of
        [] \<Rightarrow> s
      | c # r \<Rightarrow>
          let l = (loc s)\<lparr>offset := usize_add (offset (loc s)) 1\<rparr>;
              l = (if c = LF then l\<lparr>line := usize_add (line l) 1, column := 1\<rparr>
                   else l\<lparr>column := usize_add (column l) 1\<rparr>)
          in s\<lparr>rest := r, loc := l\<rparr>)"

definition fail :: "SourceLocation \<Rightarrow> string \<Rightarrow> JsonParser \<Rightarrow> JsonParser" where
  "fail l msg s =
     (if failed s then s
      else let e = \<lparr>location = l, message = msg\<rparr>
           in s\<lparr>failed := True, last_error := e, events := events s @ [on_error e]\<rparr>)"

definition emit :: "JsonEvent \<Rightarrow> JsonParser \<Rightarrow> JsonParser" where
  "emit e s = s\<lparr>events := events s @ [e]\<rparr>"

definition advances :: "nat \<Rightarrow> JsonParser \<Rightarrow> JsonParser" where
  "advances n = advance ^^ n"

text \<open>\<^verbatim>\<open>while (pos_ < byte_length_ && p(data_[pos_])) advance();\<close>\<close>

definition advance_while :: "(u8 \<Rightarrow> bool) \<Rightarrow> JsonParser \<Rightarrow> JsonParser" where
  "advance_while p s = advances (length (takeWhile p (rest s))) s"

lemma rest_advance [simp]: "rest (advance s) = tl (rest s)"
  by (simp add: advance_def Let_def split: list.split)

lemma rest_advances [simp]: "rest (advances n s) = drop n (rest s)"
  by (induction n arbitrary: s) (simp_all add: advances_def funpow_swap1 drop_Suc)

lemma rest_advance_while [simp]: "rest (advance_while p s) = dropWhile p (rest s)"
  by (simp add: advance_while_def dropWhile_eq_drop)

lemma fields_fail [simp]: "rest (fail l m s) = rest s" "depth (fail l m s) = depth s" "failed (fail l m s)"
  by (simp_all add: fail_def Let_def)

section \<open>White space and comments\<close>

text \<open>To the end of a block comment; the result says whether it was closed.\<close>

function skip_block :: "JsonParser \<Rightarrow> bool \<times> JsonParser" where
  "skip_block s =
     (if rest s = [] then (False, s)
      else if hd (rest s) = STAR \<and> peek_next s = SLASH then (True, advance (advance s))
      else skip_block (advance s))"
  by auto
termination by (relation "measure (\<lambda>s. length (rest s))") auto

declare skip_block.simps [simp del]

lemma skip_block_le: "length (rest (snd (skip_block s))) \<le> length (rest s)"
  by (induction s rule: skip_block.induct) (subst skip_block.simps, auto simp: peek_next_def split: list.splits)

definition is_ws :: "u8 \<Rightarrow> bool" where
  "is_ws c \<longleftrightarrow> c = SPACE \<or> c = TAB \<or> c = LF \<or> c = CR"

function skip_ws_and_comments :: "JsonParserOptions \<Rightarrow> JsonParser \<Rightarrow> JsonParser" where
  "skip_ws_and_comments opts s =
     (if failed s \<or> rest s = [] then s
      else let c = hd (rest s) in
        if is_ws c then skip_ws_and_comments opts (advance s)
        else if allow_comments opts \<and> c = SLASH then
          if peek_next s = SLASH then
            skip_ws_and_comments opts (advance_while (\<lambda>c. c \<noteq> LF) (advance (advance s)))
          else if peek_next s = STAR then
            let start = loc s; (closed, s) = skip_block (advance (advance s))
            in if \<not> closed then fail start ''unterminated block comment'' s
               else skip_ws_and_comments opts s
          else s
        else s)"
  by auto
termination
  by (relation "measure (\<lambda>(opts, s). length (rest s))")
     (auto dest!: arg_cong [where f = snd] intro!: le_less_trans [OF length_dropWhile_le] le_less_trans [OF skip_block_le])

declare skip_ws_and_comments.simps [simp del]

section \<open>Scalars\<close>

definition parse_literal :: "string \<Rightarrow> JsonEvent \<Rightarrow> JsonParser \<Rightarrow> JsonParser" where
  "parse_literal kind event s =
     (let n = length kind in
      if take n (rest s) \<noteq> ascii kind
      then fail (loc s) (''invalid literal, expected '' @ [CHR 0x27] @ kind @ [CHR 0x27]) s
      else emit event (advances n s))"

text \<open>The integer part, after the sign; \<open>None\<close> when it has failed.\<close>

definition scan_integer :: "SourceLocation \<Rightarrow> JsonParser \<Rightarrow> JsonParser" where
  "scan_integer start s =
     (if peek s = ZERO then
        let s = advance s
        in if is_digit (peek s) then fail start ''leading zeros not allowed in number'' s else s
      else if is_digit (peek s) then advance_while is_digit s
      else fail start ''invalid number: digit expected'' s)"

definition scan_fraction :: "SourceLocation \<Rightarrow> JsonParser \<Rightarrow> bool \<times> JsonParser" where
  "scan_fraction start s =
     (if peek s = DOT then
        let s = advance s
        in (True, if \<not> is_digit (peek s) then fail start ''invalid number: digit expected after decimal point'' s
                  else advance_while is_digit s)
      else (False, s))"

definition scan_exponent :: "SourceLocation \<Rightarrow> JsonParser \<Rightarrow> bool \<times> JsonParser" where
  "scan_exponent start s =
     (if peek s = SMALL_E \<or> peek s = CAPITAL_E then
        let s = advance s; s = (if peek s = PLUS \<or> peek s = MINUS then advance s else s)
        in (True, if \<not> is_digit (peek s) then fail start ''invalid number: digit expected in exponent'' s
                  else advance_while is_digit s)
      else (False, s))"

text \<open>The conversion of the text that was scanned.\<close>

definition convert_float :: "float_chars \<Rightarrow> SourceLocation \<Rightarrow> utf8 \<Rightarrow> JsonParser \<Rightarrow> JsonParser" where
  "convert_float F start t s =
     (case from_chars_f64 F t of
        OutOfRange \<Rightarrow> fail start ''number out of range'' s
      | InvalidArgument \<Rightarrow> fail start ''invalid number'' s
      | Converted d n \<Rightarrow> if n \<noteq> length t then fail start ''invalid number'' s else emit (on_float d start) s)"

definition convert_number :: "float_chars \<Rightarrow> SourceLocation \<Rightarrow> bool \<Rightarrow> utf8 \<Rightarrow> JsonParser \<Rightarrow> JsonParser" where
  "convert_number F start is_float t s =
     (if \<not> is_float then
        case from_chars_i64 t of
          Converted v _ \<Rightarrow> emit (on_int v start) s
        | InvalidArgument \<Rightarrow> fail start ''invalid number'' s
        | OutOfRange \<Rightarrow> convert_float F start t s
      else convert_float F start t s)"

definition parse_number :: "float_chars \<Rightarrow> JsonParser \<Rightarrow> JsonParser" where
  "parse_number F s =
     (let start = loc s; begin = rest s;
          s = (if peek s = MINUS then advance s else s);
          s = scan_integer start s
      in if failed s then s
      else let (is_fraction, s) = scan_fraction start s
      in if failed s then s
      else let (is_exponent, s) = scan_exponent start s
      in if failed s then s
      else convert_number F start (is_fraction \<or> is_exponent) (take (length begin - length (rest s)) begin) s)"

section \<open>Strings\<close>

definition hex_digit :: "u8 \<Rightarrow> u32 option" where
  "hex_digit c =
     (if 0x30 \<le> c \<and> c \<le> 0x39 then Some (ucast c - 0x30)
      else if 0x61 \<le> c \<and> c \<le> 0x66 then Some (ucast c - 0x61 + 10)
      else if 0x41 \<le> c \<and> c \<le> 0x46 then Some (ucast c - 0x41 + 10)
      else None)"

fun hex_loop :: "utf8 \<Rightarrow> u32 \<Rightarrow> u32 option" where
  "hex_loop [] v = Some v"
| "hex_loop (c # cs) v = (case hex_digit c of None \<Rightarrow> None | Some d \<Rightarrow> hex_loop cs (push_bit 4 v OR d))"

definition parse_hex4 :: "utf8 \<Rightarrow> u32 option" where
  "parse_hex4 p = hex_loop (take 4 p) 0"

abbreviation backslash_u :: string where
  "backslash_u \<equiv> [CHR 0x5C, CHR ''u'']"

definition append_or_fail ::
    "SourceLocation \<Rightarrow> string \<Rightarrow> u32 \<Rightarrow> utf8 \<Rightarrow> JsonParser \<Rightarrow> utf8 \<times> JsonParser" where
  "append_or_fail start msg cp sb s =
     (case sb_append_code_point cp sb of None \<Rightarrow> (sb, fail start msg s) | Some sb \<Rightarrow> (sb, s))"

text \<open>The second half of a surrogate pair, after the first was read as \<open>cp\<close>.\<close>

definition parse_low_surrogate :: "SourceLocation \<Rightarrow> u32 \<Rightarrow> utf8 \<Rightarrow> JsonParser \<Rightarrow> utf8 \<times> JsonParser" where
  "parse_low_surrogate start cp sb s =
     (if \<not> (peek s = BACKSLASH \<and> peek_next s = SMALL_U) then (sb, fail start ''dangling high surrogate'' s)
      else let s = advance (advance s) in
        if length (rest s) < 4 then (sb, fail start (''incomplete low surrogate '' @ backslash_u @ '' escape'') s)
        else case parse_hex4 (rest s) of
          None \<Rightarrow> (sb, fail start (''invalid low surrogate '' @ backslash_u @ '' escape'') s)
        | Some low \<Rightarrow>
            let s = advances 4 s in
            if 0xDC00 \<le> low \<and> low \<le> 0xDFFF then
              append_or_fail start ''invalid code point from surrogate pair''
                (0x10000 + push_bit 10 (cp - 0xD800) + (low - 0xDC00)) sb s
            else (sb, fail start ''expected low surrogate after high surrogate'' s))"

definition parse_unicode_escape :: "SourceLocation \<Rightarrow> utf8 \<Rightarrow> JsonParser \<Rightarrow> utf8 \<times> JsonParser" where
  "parse_unicode_escape start sb s =
     (if length (rest s) < 4 then (sb, fail start (''incomplete '' @ backslash_u @ '' escape'') s)
      else case parse_hex4 (rest s) of
        None \<Rightarrow> (sb, fail start (''invalid '' @ backslash_u @ '' escape'') s)
      | Some cp \<Rightarrow>
          let s = advances 4 s in
          if 0xD800 \<le> cp \<and> cp \<le> 0xDBFF then parse_low_surrogate start cp sb s
          else if 0xDC00 \<le> cp \<and> cp \<le> 0xDFFF then
            (sb, fail start ''unexpected low surrogate without high surrogate'' s)
          else append_or_fail start ''invalid code point'' cp sb s)"

text \<open>After the backslash.\<close>

definition simple_escape :: "u8 \<Rightarrow> u8 option" where
  "simple_escape esc =
     (if esc = QUOTE \<or> esc = BACKSLASH \<or> esc = SLASH then Some esc
      else if esc = 0x62 then Some 0x08
      else if esc = 0x66 then Some 0x0C
      else if esc = 0x6E then Some LF
      else if esc = 0x72 then Some CR
      else if esc = 0x74 then Some TAB
      else None)"

definition parse_escape :: "SourceLocation \<Rightarrow> utf8 \<Rightarrow> JsonParser \<Rightarrow> utf8 \<times> JsonParser" where
  "parse_escape start sb s =
     (if at_end s then (sb, fail start ''unterminated escape'' s)
      else let esc = peek s; s = advance s in
        if esc = SMALL_U then parse_unicode_escape start sb s
        else case simple_escape esc of
          Some c \<Rightarrow> (sb @ [c], s)
        | None \<Rightarrow> (sb, fail start ''invalid escape character'' s))"

definition is_plain :: "u8 \<Rightarrow> bool" where
  "is_plain c \<longleftrightarrow> \<not> (c = QUOTE \<or> c = BACKSLASH \<or> c < 0x20)"

lemma parse_escape_le: "length (rest (snd (parse_escape start sb s))) \<le> length (rest s)"
  by (auto simp: parse_escape_def parse_unicode_escape_def parse_low_surrogate_def append_or_fail_def Let_def
      split: option.split)

text \<open>The loop over the segments of a string that has an escape.\<close>

function string_slow :: "SourceLocation \<Rightarrow> utf8 \<Rightarrow> JsonParser \<Rightarrow> utf8 \<times> JsonParser" where
  "string_slow start sb s =
     (if failed s then (sb, s)
      else if at_end s then (sb, fail start ''unterminated string'' s)
      else let c = peek s in
        if c = QUOTE then (sb, advance s)
        else if c = BACKSLASH then
          let (sb, s) = parse_escape start sb (advance s) in string_slow start sb s
        else if c < 0x20 then (sb, fail start ''unescaped control character in string'' s)
        else string_slow start (sb @ takeWhile is_plain (rest s)) (advance_while is_plain s))"
  by auto
termination
proof (relation "measure (\<lambda>(start, sb, s). length (rest s))", goal_cases)
  case (2 start sb s x p sb' s')
  then have "rest s \<noteq> []" "snd (parse_escape start sb (advance s)) = s'" by (simp_all add: at_end_def) (metis snd_conv)
  then show ?case using parse_escape_le [of start sb "advance s"] by (auto simp: neq_Nil_conv)
next
  case (3 start sb s x)
  then obtain ys where "rest s = x # ys" "is_plain x" by (cases "rest s") (auto simp: at_end_def peek_def is_plain_def)
  then show ?case by (simp add: le_imp_less_Suc length_dropWhile_le)
qed simp

declare string_slow.simps [simp del]

definition parse_string_into :: "JsonParser \<Rightarrow> utf8 \<times> JsonParser" where
  "parse_string_into s =
     (let start = loc s; s = advance s;
          content = takeWhile is_plain (rest s);
          s = advance_while is_plain s
      in if at_end s then ([], fail start ''unterminated string'' s)
         else if peek s = QUOTE then (arena_intern content, advance s)
         else if peek s = BACKSLASH then
           let (sb, s) = string_slow start content s
           in if failed s then ([], s) else (arena_intern (sb_build_or_empty sb), s)
         else ([], fail start ''unescaped control character in string'' s))"

definition parse_string_value :: "JsonParser \<Rightarrow> JsonParser" where
  "parse_string_value s =
     (let start = loc s; (value, s) = parse_string_into s
      in if failed s then s else emit (on_string value start) s)"

section \<open>Recursive descent\<close>

abbreviation expected_in_array :: string where
  "expected_in_array \<equiv>
     ''expected '' @ [CHR 0x27] @ '','' @ [CHR 0x27] @ '' or '' @ [CHR 0x27] @ '']'' @ [CHR 0x27] @ '' in array''"

abbreviation expected_in_object :: string where
  "expected_in_object \<equiv>
     ''expected '' @ [CHR 0x27] @ '','' @ [CHR 0x27] @ '' or '' @ [CHR 0x27] @ ''}'' @ [CHR 0x27] @ '' in object''"

abbreviation expected_colon :: string where
  "expected_colon \<equiv> ''expected '' @ [CHR 0x27] @ '':'' @ [CHR 0x27] @ '' after object key''"

text \<open>
  The functions of the descent call each other; \<open>value\<close> is the call of \<open>parse_value\<close>.  The
  first argument bounds the rounds of a loop and the depth of the recursion.
\<close>

primrec array_loop :: "nat \<Rightarrow> (JsonParser \<Rightarrow> JsonParser option) \<Rightarrow> JsonParserOptions \<Rightarrow> JsonParser \<Rightarrow> JsonParser option" where
  "array_loop 0 value opts s = None"
| "array_loop (Suc n) value opts s =
     (case value s of
        None \<Rightarrow> None
      | Some s \<Rightarrow>
          if failed s then Some s
          else let s = skip_ws_and_comments opts s in
            if failed s then Some s
            else let c = peek s in
              if c = COMMA then
                let s = advance s; s = skip_ws_and_comments opts s in
                if failed s then Some s
                else if peek s = RBRACKET then
                  if allow_trailing_comma opts then let s = advance s in Some (emit (on_array_end (loc s)) s)
                  else Some (fail (loc s) ''trailing comma in array (not allowed)'' s)
                else array_loop n value opts s
              else if c = RBRACKET then let s = advance s in Some (emit (on_array_end (loc s)) s)
              else Some (fail (loc s) expected_in_array s))"

definition parse_array :: "nat \<Rightarrow> (JsonParser \<Rightarrow> JsonParser option) \<Rightarrow> JsonParserOptions \<Rightarrow> JsonParser \<Rightarrow> JsonParser option" where
  "parse_array n value opts s =
     (let start = loc s; s = advance s; s = s\<lparr>depth := depth s + 1\<rparr> in
      if depth s > max_depth opts then
        let s = fail start ''nesting too deep'' s in Some (s\<lparr>depth := depth s - 1\<rparr>)
      else let s = emit (on_array_start start) s; s = skip_ws_and_comments opts s in
        if failed s then Some (s\<lparr>depth := depth s - 1\<rparr>)
        else if peek s = RBRACKET then
          let s = advance s; s = emit (on_array_end (loc s)) s in Some (s\<lparr>depth := depth s - 1\<rparr>)
        else map_option (\<lambda>s. s\<lparr>depth := depth s - 1\<rparr>) (array_loop n value opts s))"

primrec object_loop :: "nat \<Rightarrow> (JsonParser \<Rightarrow> JsonParser option) \<Rightarrow> JsonParserOptions \<Rightarrow> JsonParser \<Rightarrow> JsonParser option" where
  "object_loop 0 value opts s = None"
| "object_loop (Suc n) value opts s =
     (let s = skip_ws_and_comments opts s in
      if failed s then Some s
      else if peek s \<noteq> QUOTE then Some (fail (loc s) ''object key must be a string'' s)
      else let key_loc = loc s; (key, s) = parse_string_into s in
        if failed s then Some s
        else let s = emit (on_object_key key key_loc) s; s = skip_ws_and_comments opts s in
          if failed s then Some s
          else if peek s \<noteq> COLON then Some (fail (loc s) expected_colon s)
          else case value (advance s) of
            None \<Rightarrow> None
          | Some s \<Rightarrow>
              if failed s then Some s
              else let s = skip_ws_and_comments opts s in
                if failed s then Some s
                else let c = peek s in
                  if c = COMMA then
                    let s = advance s; s = skip_ws_and_comments opts s in
                    if failed s then Some s
                    else if peek s = RBRACE then
                      if allow_trailing_comma opts then let s = advance s in Some (emit (on_object_end (loc s)) s)
                      else Some (fail (loc s) ''trailing comma in object (not allowed)'' s)
                    else object_loop n value opts s
                  else if c = RBRACE then let s = advance s in Some (emit (on_object_end (loc s)) s)
                  else Some (fail (loc s) expected_in_object s))"

definition parse_object :: "nat \<Rightarrow> (JsonParser \<Rightarrow> JsonParser option) \<Rightarrow> JsonParserOptions \<Rightarrow> JsonParser \<Rightarrow> JsonParser option" where
  "parse_object n value opts s =
     (let start = loc s; s = advance s; s = s\<lparr>depth := depth s + 1\<rparr> in
      if depth s > max_depth opts then
        let s = fail start ''nesting too deep'' s in Some (s\<lparr>depth := depth s - 1\<rparr>)
      else let s = emit (on_object_start start) s; s = skip_ws_and_comments opts s in
        if failed s then Some (s\<lparr>depth := depth s - 1\<rparr>)
        else if peek s = RBRACE then
          let s = advance s; s = emit (on_object_end (loc s)) s in Some (s\<lparr>depth := depth s - 1\<rparr>)
        else map_option (\<lambda>s. s\<lparr>depth := depth s - 1\<rparr>) (object_loop n value opts s))"

primrec parse_value :: "nat \<Rightarrow> float_chars \<Rightarrow> JsonParserOptions \<Rightarrow> JsonParser \<Rightarrow> JsonParser option" where
  "parse_value 0 F opts s = None"
| "parse_value (Suc n) F opts s =
     (if failed s then Some s
      else let s = skip_ws_and_comments opts s in
        if failed s then Some s
        else if at_end s then Some (fail (loc s) ''unexpected end of input'' s)
        else let c = peek s in
          if c = LBRACE then parse_object n (parse_value n F opts) opts s
          else if c = LBRACKET then parse_array n (parse_value n F opts) opts s
          else if c = QUOTE then Some (parse_string_value s)
          else if c = 0x74 then Some (parse_literal ''true'' (on_bool True (loc s)) s)
          else if c = 0x66 then Some (parse_literal ''false'' (on_bool False (loc s)) s)
          else if c = 0x6E then Some (parse_literal ''null'' (on_null (loc s)) s)
          else if c = MINUS \<or> is_digit c then Some (parse_number F s)
          else Some (fail (loc s) ''unexpected character'' s))"

text \<open>
  A round of a loop and a level of the recursion each consume a byte, so the fuel below is
  enough on every input.
\<close>

definition parse_fuel :: "utf8 \<Rightarrow> nat" where
  "parse_fuel input = length input + 1"

definition parse :: "float_chars \<Rightarrow> JsonParserOptions \<Rightarrow> utf8 \<Rightarrow> JsonParser option" where
  "parse F opts input =
     (let s = json_parser input in
      if \<not> utf8_is_valid input then Some (fail start_location ''invalid UTF-8 in JSON text'' s)
      else let s = skip_ws_and_comments opts s in
        if failed s then Some s
        else if at_end s then Some (fail (loc s) ''empty input'' s)
        else if take 3 input = [0xEF, 0xBB, 0xBF] then Some (fail start_location ''unexpected BOM'' s)
        else case parse_value (parse_fuel input) F opts s of
          None \<Rightarrow> None
        | Some s \<Rightarrow>
            if failed s then Some s
            else let s = skip_ws_and_comments opts s in
              if failed s then Some s
              else if \<not> at_end s then Some (fail (loc s) ''trailing characters after JSON value'' s)
              else Some s)"

section \<open>The tree builder\<close>

text \<open>The innermost frame is the head of the stack.  \<open>None\<close> is a call that has no frame to work on.\<close>

record Frame =
  is_array :: bool
  array_items :: "JsonValue list"
  object_items :: "(utf8 \<times> JsonValue) list"
  pending_key :: utf8
  has_pending_key :: bool

record JsonDomBuilder =
  stack :: "Frame list"
  root :: JsonValue
  has_root :: bool
  has_error :: bool
  builder_error :: JsonParseError

definition json_dom_builder :: JsonDomBuilder where
  "json_dom_builder =
     \<lparr>stack = [], root = JNull, has_root = False, has_error = False,
      builder_error = \<lparr>location = start_location, message = ''''\<rparr>\<rparr>"

definition emit_value :: "JsonValue \<Rightarrow> JsonDomBuilder \<Rightarrow> JsonDomBuilder" where
  "emit_value v b =
     (case stack b of
        [] \<Rightarrow> if \<not> has_root b then b\<lparr>root := v, has_root := True\<rparr> else b
      | frame # fs \<Rightarrow>
          if is_array frame then b\<lparr>stack := frame\<lparr>array_items := array_items frame @ [v]\<rparr> # fs\<rparr>
          else if has_pending_key frame
          then b\<lparr>stack := frame\<lparr>object_items := object_items frame @ [(pending_key frame, v)], has_pending_key := False\<rparr> # fs\<rparr>
          else b)"

definition new_frame :: "bool \<Rightarrow> Frame" where
  "new_frame arr = \<lparr>is_array = arr, array_items = [], object_items = [], pending_key = [], has_pending_key = False\<rparr>"

fun handle :: "JsonEvent \<Rightarrow> JsonDomBuilder \<Rightarrow> JsonDomBuilder option" where
  "handle (on_null l) b = Some (emit_value JNull b)"
| "handle (on_bool v l) b = Some (emit_value (JBool v) b)"
| "handle (on_int i l) b = Some (emit_value (JInt i) b)"
| "handle (on_float x l) b = Some (emit_value (JFloat x) b)"
| "handle (on_string t l) b = Some (emit_value (JString t) b)"
| "handle (on_array_start l) b = Some (b\<lparr>stack := new_frame True # stack b\<rparr>)"
| "handle (on_array_end l) b =
     (case stack b of
        [] \<Rightarrow> None
      | frame # fs \<Rightarrow> Some (emit_value (JArray (array_items frame)) (b\<lparr>stack := fs\<rparr>)))"
| "handle (on_object_start l) b = Some (b\<lparr>stack := new_frame False # stack b\<rparr>)"
| "handle (on_object_end l) b =
     (case stack b of
        [] \<Rightarrow> None
      | frame # fs \<Rightarrow> Some (emit_value (JObject (object_items frame)) (b\<lparr>stack := fs\<rparr>)))"
| "handle (on_object_key key l) b =
     (case stack b of
        [] \<Rightarrow> None
      | frame # fs \<Rightarrow> Some (b\<lparr>stack := frame\<lparr>pending_key := key, has_pending_key := True\<rparr> # fs\<rparr>))"
| "handle (on_error e) b = Some (if has_error b then b else b\<lparr>has_error := True, builder_error := e\<rparr>)"

primrec handle_all :: "JsonEvent list \<Rightarrow> JsonDomBuilder \<Rightarrow> JsonDomBuilder option" where
  "handle_all [] b = Some b"
| "handle_all (e # es) b = (case handle e b of None \<Rightarrow> None | Some b \<Rightarrow> handle_all es b)"

section \<open>The reader\<close>

record JsonReaderOptions =
  r_allow_trailing_comma :: bool
  r_allow_comments :: bool

definition to_parser_options :: "JsonReaderOptions \<Rightarrow> JsonParserOptions" where
  "to_parser_options opts =
     \<lparr>allow_trailing_comma = r_allow_trailing_comma opts, allow_comments = r_allow_comments opts, max_depth = 1000\<rparr>"

text \<open>\<open>None\<close>: the descent ran out of fuel, or the builder was called without a frame.\<close>

definition json_read :: "float_chars \<Rightarrow> JsonReaderOptions \<Rightarrow> utf8 \<Rightarrow> (JsonValue, JsonParseError) Result option" where
  "json_read F opts input =
     (case parse F (to_parser_options opts) input of
        None \<Rightarrow> None
      | Some parser \<Rightarrow>
          case handle_all (events parser) json_dom_builder of
            None \<Rightarrow> None
          | Some builder \<Rightarrow>
              Some (if failed parser then Err (last_error parser)
                    else if has_error builder then Err (builder_error builder)
                    else Ok (root builder)))"

end
