(* ===== verification/Json_Writer.thy ===== *)
theory Json_Writer
  imports Json_Parser
begin

text \<open>
  The writer of \<^verbatim>\<open>json_writer.cpp\<close>.  Every function returns the bytes it appends to the
  builder; the nesting depth of the pretty printer is an argument.
\<close>

record JsonWriterOptions =
  pretty :: bool
  indent :: usize
  ensure_ascii :: bool

section \<open>Number formats\<close>

text \<open>\<^verbatim>\<open>%lld\<close> and \<^verbatim>\<open>%04x\<close>\<close>

definition format_lld :: "i64 \<Rightarrow> utf8" where
  "format_lld v =
     (if sint v < 0 then MINUS # map digit_char (digits_of 10 (nat (- sint v)))
      else map digit_char (digits_of 10 (nat (sint v))))"

definition format_04x :: "nat \<Rightarrow> utf8" where
  "format_04x n = (let ds = map digit_char (digits_of 16 n) in replicate (4 - length ds) ZERO @ ds)"

definition unicode_escape :: "u32 \<Rightarrow> utf8" where
  "unicode_escape v = [BACKSLASH, SMALL_U] @ format_04x (unat v)"

text \<open>The classification of a \<^verbatim>\<open>double\<close> by its bits.\<close>

definition f64_finite :: "f64 \<Rightarrow> bool" where
  "f64_finite x \<longleftrightarrow> drop_bit 52 x AND 0x7FF \<noteq> 0x7FF"

section \<open>Scalars\<close>

definition write_null :: utf8 where
  "write_null = ascii ''null''"

definition write_bool :: "bool \<Rightarrow> utf8" where
  "write_bool v = (if v then ascii ''true'' else ascii ''false'')"

definition write_int :: "i64 \<Rightarrow> utf8" where
  "write_int v = format_lld v"

definition has_dot_or_exp :: "utf8 \<Rightarrow> bool" where
  "has_dot_or_exp buf \<longleftrightarrow> (\<exists>c \<in> set buf. c = DOT \<or> c = SMALL_E \<or> c = CAPITAL_E)"

definition float_form :: "utf8 \<Rightarrow> utf8" where
  "float_form buf = (if \<not> has_dot_or_exp buf \<and> length buf + 2 < 64 then buf @ [DOT, ZERO] else buf)"

definition write_float :: "float_chars \<Rightarrow> f64 \<Rightarrow> utf8" where
  "write_float F v =
     (if \<not> f64_finite v then ascii ''null''
      else case to_chars_f64 F v of
        None \<Rightarrow> ascii ''0.0''
      | Some buf \<Rightarrow> float_form buf)"

section \<open>Strings\<close>

fun continue_code_point :: "nat \<Rightarrow> utf8 \<Rightarrow> u32 \<Rightarrow> u32 option" where
  "continue_code_point 0 data cp = Some cp"
| "continue_code_point (Suc k) data cp =
     (if hd data AND 0xC0 \<noteq> 0x80 then None
      else continue_code_point k (tl data) (push_bit 6 cp OR ucast (hd data AND 0x3F)))"

text \<open>The bytes appended, and by how much the index is advanced.\<close>

definition write_escaped_utf8 :: "utf8 \<Rightarrow> utf8 \<times> usize" where
  "write_escaped_utf8 data =
     (let c = hd data; fallback = (unicode_escape (ucast c), 0);
          lead = (if c AND 0x80 = 0 then Some (ucast c, 0)
                  else if c AND 0xE0 = 0xC0 then Some (ucast (c AND 0x1F), 1)
                  else if c AND 0xF0 = 0xE0 then Some (ucast (c AND 0x0F), 2)
                  else if c AND 0xF8 = 0xF0 then Some (ucast (c AND 0x07), 3)
                  else None)
      in case lead of
        None \<Rightarrow> fallback
      | Some (cp, extra) \<Rightarrow>
          if extra \<ge> length data then fallback
          else case continue_code_point extra (tl data) cp of
            None \<Rightarrow> fallback
          | Some cp \<Rightarrow>
              if cp \<le> 0xFFFF then (unicode_escape cp, extra)
              else let v = cp - 0x10000 in
                (unicode_escape (0xD800 + drop_bit 10 v) @ unicode_escape (0xDC00 + (v AND 0x3FF)), extra))"

definition short_escape :: "u8 \<Rightarrow> utf8 option" where
  "short_escape c =
     (if c = QUOTE then Some [BACKSLASH, QUOTE]
      else if c = BACKSLASH then Some [BACKSLASH, BACKSLASH]
      else if c = 0x08 then Some [BACKSLASH, 0x62]
      else if c = 0x0C then Some [BACKSLASH, 0x66]
      else if c = LF then Some [BACKSLASH, 0x6E]
      else if c = CR then Some [BACKSLASH, 0x72]
      else if c = TAB then Some [BACKSLASH, 0x74]
      else None)"

function string_loop :: "JsonWriterOptions \<Rightarrow> utf8 \<Rightarrow> utf8" where
  "string_loop opts data =
     (if data = [] then []
      else let c = hd data in
        case short_escape c of
          Some e \<Rightarrow> e @ string_loop opts (tl data)
        | None \<Rightarrow>
            if c < 0x20 then unicode_escape (ucast c) @ string_loop opts (tl data)
            else if ensure_ascii opts \<and> c \<ge> 0x80 then
              let (text, extra) = write_escaped_utf8 data in text @ string_loop opts (drop (extra + 1) data)
            else c # string_loop opts (tl data))"
  by auto
termination by (relation "measure (\<lambda>(opts, data). length data)") (auto simp: neq_Nil_conv)

declare string_loop.simps [simp del]

definition write_string :: "JsonWriterOptions \<Rightarrow> utf8 \<Rightarrow> utf8" where
  "write_string opts s = [QUOTE] @ string_loop opts s @ [QUOTE]"

section \<open>Values\<close>

definition newline_and_indent :: "JsonWriterOptions \<Rightarrow> usize \<Rightarrow> utf8" where
  "newline_and_indent opts d = (if \<not> pretty opts then [] else LF # replicate (usize_mul d (indent opts)) SPACE)"

definition space :: "JsonWriterOptions \<Rightarrow> utf8" where
  "space opts = (if pretty opts then [SPACE] else [])"

text \<open>\<^verbatim>\<open>if (i > 0) w.write_raw(",", 1);\<close> before each item\<close>

fun separated :: "utf8 list \<Rightarrow> utf8" where
  "separated [] = []"
| "separated [t] = t"
| "separated (t # u # ts) = t @ [COMMA] @ separated (u # ts)"

lemma size_member [termination_simp]: "m \<in> set ms \<Longrightarrow> size (snd m) < Suc (size_list (size_prod (\<lambda>x. 0) size) ms)"
  by (induction ms) auto

fun write_value :: "float_chars \<Rightarrow> JsonWriterOptions \<Rightarrow> usize \<Rightarrow> JsonValue \<Rightarrow> utf8" where
  "write_value F opts d JNull = write_null"
| "write_value F opts d (JBool v) = write_bool v"
| "write_value F opts d (JInt v) = write_int v"
| "write_value F opts d (JFloat v) = write_float F v"
| "write_value F opts d (JString s) = write_string opts s"
| "write_value F opts d (JArray vs) =
     (if pretty opts then
        if vs = [] then [LBRACKET, RBRACKET]
        else [LBRACKET] @ separated (map (\<lambda>v. newline_and_indent opts (d + 1) @ write_value F opts (d + 1) v) vs)
             @ newline_and_indent opts d @ [RBRACKET]
      else [LBRACKET] @ separated (map (write_value F opts d) vs) @ [RBRACKET])"
| "write_value F opts d (JObject ms) =
     (if pretty opts then
        if ms = [] then [LBRACE, RBRACE]
        else [LBRACE]
             @ separated (map (\<lambda>m. newline_and_indent opts (d + 1) @ write_string opts (fst m) @ [COLON] @ space opts
                                    @ write_value F opts (d + 1) (snd m)) ms)
             @ newline_and_indent opts d @ [RBRACE]
      else [LBRACE]
           @ separated (map (\<lambda>m. write_string opts (fst m) @ [COLON] @ write_value F opts d (snd m)) ms) @ [RBRACE])"

definition json_write :: "float_chars \<Rightarrow> JsonWriterOptions \<Rightarrow> JsonValue \<Rightarrow> utf8" where
  "json_write F opts v = sb_build_or_empty (write_value F opts 0 v)"

end
