(* ===== verification/Json_Parser_Props.thy ===== *)
theory Json_Parser_Props
  imports Json_Parser Str_Utf8_Props
begin

text \<open>
  What the parser does on an arbitrary input: it returns, it calls the tree builder only
  where a frame exists, and a tree it delivers has valid strings and a bounded depth.
\<close>

section \<open>Silent operations\<close>

text \<open>An operation that calls the handler at most to report an error.\<close>

definition quiet :: "JsonParser \<Rightarrow> JsonParser \<Rightarrow> bool" where
  "quiet s s' \<longleftrightarrow> depth s' = depth s \<and> length (rest s') \<le> length (rest s)
     \<and> (if failed s' then \<exists>e. events s' = events s @ [on_error e] else events s' = events s)"

lemma advance_fields [simp]:
  "failed (advance s) = failed s" "depth (advance s) = depth s" "events (advance s) = events s"
  by (simp_all add: advance_def Let_def split: list.split)

lemma advances_fields [simp]:
  "failed (advances n s) = failed s" "depth (advances n s) = depth s" "events (advances n s) = events s"
  by (induction n arbitrary: s) (simp_all add: advances_def funpow_swap1)

lemma advance_while_fields [simp]:
  "failed (advance_while p s) = failed s" "depth (advance_while p s) = depth s" "events (advance_while p s) = events s"
  by (simp_all add: advance_while_def)

lemma emit_fields [simp]:
  "failed (emit e s) = failed s" "depth (emit e s) = depth s" "events (emit e s) = events s @ [e]" "rest (emit e s) = rest s"
  "loc (emit e s) = loc s"
  by (simp_all add: emit_def)

lemma quiet_refl [simp]: "\<not> failed s \<Longrightarrow> quiet s s"
  by (simp add: quiet_def)

lemma quiet_trans: "quiet s s1 \<Longrightarrow> \<not> failed s1 \<Longrightarrow> quiet s1 s2 \<Longrightarrow> quiet s s2"
  by (auto simp: quiet_def split: if_splits)

lemma quiet_advance [simp]: "\<not> failed s \<Longrightarrow> quiet s (advance s)"
  by (simp add: quiet_def)

lemma quiet_advances [simp]: "\<not> failed s \<Longrightarrow> quiet s (advances n s)"
  by (simp add: quiet_def)

lemma quiet_advance_while [simp]: "\<not> failed s \<Longrightarrow> quiet s (advance_while p s)"
  by (simp add: quiet_def length_dropWhile_le)

lemma quiet_fail [simp]: "\<not> failed s \<Longrightarrow> quiet s (fail l m s)"
  by (simp add: quiet_def fail_def Let_def)

lemma quiet_skip_block: "\<not> failed s \<Longrightarrow> quiet s (snd (skip_block s)) \<and> \<not> failed (snd (skip_block s))"
proof (induction s rule: skip_block.induct)
  case (1 s)
  then show ?case
    by (subst (1 2) skip_block.simps) (auto intro: quiet_trans [of s "advance s"])
qed

lemma quiet_skip: "\<not> failed s \<Longrightarrow> quiet s (skip_ws_and_comments opts s)"
proof (induction opts s rule: skip_ws_and_comments.induct)
  case (1 opts s)
  have a: "quiet s (advance (advance s))"
    using quiet_trans [OF quiet_advance _ quiet_advance, of s] "1.prems" by simp
  show ?case
  proof (cases "rest s = [] \<or> \<not> is_ws (hd (rest s)) \<and> \<not> (allow_comments opts \<and> hd (rest s) = SLASH
      \<and> (peek_next s = SLASH \<or> peek_next s = STAR))")
    case True
    then show ?thesis using "1.prems" by (subst skip_ws_and_comments.simps) (auto simp: Let_def)
  next
    case False
    then consider (ws) "rest s \<noteq> []" "is_ws (hd (rest s))"
      | (line) "rest s \<noteq> []" "\<not> is_ws (hd (rest s))" "allow_comments opts" "hd (rest s) = SLASH" "peek_next s = SLASH"
      | (block) "rest s \<noteq> []" "\<not> is_ws (hd (rest s))" "allow_comments opts" "hd (rest s) = SLASH" "peek_next s = STAR"
      by blast
    then show ?thesis
    proof cases
      case ws
      then show ?thesis using "1.IH"(1) [of "hd (rest s)"] "1.prems" quiet_trans [of s "advance s"]
        by (subst skip_ws_and_comments.simps) simp
    next
      case line
      have "quiet s (advance_while (\<lambda>c. c \<noteq> LF) (advance (advance s)))"
        using quiet_trans [OF a _ quiet_advance_while] "1.prems" by simp
      from quiet_trans [OF this] "1.IH"(2) [of "hd (rest s)"] line "1.prems" show ?thesis
        by (subst skip_ws_and_comments.simps) simp
    next
      case block
      obtain closed s' where b: "skip_block (advance (advance s)) = (closed, s')" by fastforce
      then have q: "quiet s s'" "\<not> failed s'"
        using quiet_skip_block [of "advance (advance s)"] "1.prems" quiet_trans [OF a] by auto
      show ?thesis
      proof (cases closed)
        case True
        then show ?thesis
          using block "1.prems" b q "1.IH"(3) [of "hd (rest s)" "loc s" "(closed, s')" closed s'] quiet_trans [OF q]
          by (subst skip_ws_and_comments.simps) simp
      next
        case False
        then show ?thesis
          using block "1.prems" b quiet_trans [OF q quiet_fail [OF q(2)]] by (subst skip_ws_and_comments.simps) simp
      qed
    qed
  qed
qed

section \<open>Strings and numbers\<close>

lemma quiet_from:
  "\<not> failed s \<Longrightarrow> quiet (advance s) s' \<Longrightarrow> quiet s s'" "\<not> failed s \<Longrightarrow> quiet (advances n s) s' \<Longrightarrow> quiet s s'"
  using quiet_trans [OF quiet_advance, of s] quiet_trans [OF quiet_advances, of s] by simp_all

lemma quiet_append: "\<not> failed s \<Longrightarrow> quiet s (snd (append_or_fail start msg cp sb s))"
  by (simp add: append_or_fail_def split: option.split)

lemma quiet_low: "\<not> failed s \<Longrightarrow> quiet s (snd (parse_low_surrogate start cp sb s))"
  by (simp add: parse_low_surrogate_def Let_def quiet_from(1) [OF _ quiet_from(1), OF _ _ quiet_fail]
      quiet_from(1) [OF _ quiet_from(1), OF _ _ quiet_from(2), OF _ _ _ quiet_fail]
      quiet_from(1) [OF _ quiet_from(1), OF _ _ quiet_from(2), OF _ _ _ quiet_append] split: option.split)

lemma quiet_unicode: "\<not> failed s \<Longrightarrow> quiet s (snd (parse_unicode_escape start sb s))"
  by (simp add: parse_unicode_escape_def Let_def quiet_from(2) [OF _ quiet_low] quiet_from(2) [OF _ quiet_append]
      quiet_from(2) [OF _ quiet_fail] split: option.split)

lemma quiet_escape: "\<not> failed s \<Longrightarrow> quiet s (snd (parse_escape start sb s))"
  by (simp add: parse_escape_def Let_def quiet_from(1) [OF _ quiet_unicode] quiet_from(1) [OF _ quiet_fail] split: option.split)

lemma quiet_string_slow: "\<not> failed s \<Longrightarrow> quiet s (snd (string_slow start sb s))"
proof (induction start sb s rule: string_slow.induct)
  case (1 start sb s)
  show ?case
  proof (cases "at_end s \<or> peek s = QUOTE \<or> peek s < 0x20")
    case True
    then show ?thesis using "1.prems" by (subst string_slow.simps) (auto simp: Let_def)
  next
    case False
    show ?thesis
    proof (cases "peek s = BACKSLASH")
      case True
      obtain sb' s' where e: "parse_escape start sb (advance s) = (sb', s')" by fastforce
      have q: "quiet s s'"
        using quiet_trans [OF quiet_advance _ quiet_escape [of "advance s" start sb]] "1.prems" e by simp
      have "quiet s' (snd (string_slow start sb' s'))" if "\<not> failed s'"
        using "1.IH"(1) [of "peek s" "(sb', s')" sb' s'] that "1.prems" False True e by simp
      moreover have "string_slow start sb' s' = (sb', s')" if "failed s'"
        using that by (simp add: string_slow.simps)
      ultimately show ?thesis
        using quiet_trans [OF q] q "1.prems" False True e by (subst string_slow.simps) (cases "failed s'", auto simp: Let_def)
    next
      case b: False
      have "quiet (advance_while is_plain s) (snd (string_slow start (sb @ takeWhile is_plain (rest s)) (advance_while is_plain s)))"
        using "1.IH"(2) [of "peek s"] "1.prems" False b by simp
      with quiet_trans [OF quiet_advance_while, of s is_plain] "1.prems" False b show ?thesis
        by (subst string_slow.simps) (simp add: Let_def)
    qed
  qed
qed

lemma valid_intern [simp]: "utf8_is_valid (arena_intern t)"
  using count_zero_or_valid [of t] by (auto simp: arena_intern_def)

lemma quiet_string_into:
  assumes "\<not> failed s" and "rest s \<noteq> []"
  shows "quiet s (snd (parse_string_into s))" "length (rest (snd (parse_string_into s))) < length (rest s)"
    "utf8_is_valid (fst (parse_string_into s))"
proof -
  define s1 where "s1 = advance_while is_plain (advance s)"
  have 1: "quiet s s1" "\<not> failed s1" "length (rest s1) < length (rest s)"
    using assms quiet_trans [OF quiet_advance _ quiet_advance_while, of s] length_dropWhile_le [of is_plain "tl (rest s)"]
    by (auto simp: s1_def neq_Nil_conv)
  have 2: "quiet s1 s2 \<Longrightarrow> quiet s s2 \<and> length (rest s2) < length (rest s)" for s2
    using quiet_trans [OF 1(1,2), of s2] 1(3) by (auto simp: quiet_def)
  have "quiet s (snd (parse_string_into s)) \<and> length (rest (snd (parse_string_into s))) < length (rest s)"
    using 1(2) 2 [OF quiet_fail] 2 [OF quiet_advance] 2 [OF quiet_string_slow]
    by (auto simp: parse_string_into_def Let_def case_prod_beta s1_def [symmetric])
  then show "quiet s (snd (parse_string_into s))" "length (rest (snd (parse_string_into s))) < length (rest s)" by auto
  show "utf8_is_valid (fst (parse_string_into s))"
    by (simp add: parse_string_into_def Let_def case_prod_beta)
qed

lemma quiet_scan:
  assumes "\<not> failed s"
  shows "quiet s (scan_integer start s)" "quiet s (snd (scan_fraction start s))" "quiet s (snd (scan_exponent start s))"
proof -
  note q = quiet_trans [OF quiet_advance [OF assms]]
  have 2: "quiet s (advance (advance s))" using q assms by simp
  note q2 = quiet_trans [OF 2]
  show "quiet s (scan_integer start s)" "quiet s (snd (scan_fraction start s))"
    using assms q by (auto simp: scan_integer_def scan_fraction_def Let_def)
  show "quiet s (snd (scan_exponent start s))"
    using assms q q2 by (auto simp: scan_exponent_def Let_def)
qed

lemma scan_integer_consumes: "rest s \<noteq> [] \<Longrightarrow> \<not> failed (scan_integer start s) \<Longrightarrow> length (rest (scan_integer start s)) < length (rest s)"
  by (auto simp: scan_integer_def Let_def peek_def neq_Nil_conv le_imp_less_Suc length_dropWhile_le split: if_splits)

section \<open>Events and trees\<close>

text \<open>Valid strings throughout, and at most \<open>d\<close> levels of arrays and objects.\<close>

fun json_ok :: "nat \<Rightarrow> JsonValue \<Rightarrow> bool" where
  "json_ok d (JString t) = utf8_is_valid t"
| "json_ok d (JArray vs) = (0 < d \<and> (\<forall>v \<in> set vs. json_ok (d - 1) v))"
| "json_ok d (JObject ms) = (0 < d \<and> (\<forall>m \<in> set ms. utf8_is_valid (fst m) \<and> json_ok (d - 1) (snd m)))"
| "json_ok d v = True"

definition delivers :: "JsonEvent list \<Rightarrow> JsonValue \<Rightarrow> bool" where
  "delivers es v \<longleftrightarrow> (\<forall>b. handle_all es b = Some (emit_value v b))"

definition safe :: "JsonEvent list \<Rightarrow> bool" where
  "safe es \<longleftrightarrow> (\<forall>b. handle_all es b \<noteq> None)"

text \<open>The events inside an array and inside an object, up to the closing bracket.\<close>

definition closes_array :: "JsonEvent list \<Rightarrow> JsonValue list \<Rightarrow> bool" where
  "closes_array es vs \<longleftrightarrow> (\<forall>b f fs. stack b = f # fs \<longrightarrow> is_array f
     \<longrightarrow> handle_all es b = Some (emit_value (JArray (array_items f @ vs)) (b\<lparr>stack := fs\<rparr>)))"

definition closes_object :: "JsonEvent list \<Rightarrow> (utf8 \<times> JsonValue) list \<Rightarrow> bool" where
  "closes_object es ms \<longleftrightarrow> (\<forall>b f fs. stack b = f # fs \<longrightarrow> \<not> is_array f
     \<longrightarrow> handle_all es b = Some (emit_value (JObject (object_items f @ ms)) (b\<lparr>stack := fs\<rparr>)))"

definition safe_inside :: "JsonEvent list \<Rightarrow> bool" where
  "safe_inside es \<longleftrightarrow> (\<forall>b. stack b \<noteq> [] \<longrightarrow> handle_all es b \<noteq> None)"

lemma handle_all_append [simp]:
  "handle_all (es @ es') b = (case handle_all es b of None \<Rightarrow> None | Some b \<Rightarrow> handle_all es' b)"
  by (induction es arbitrary: b) (auto split: option.split)

lemma stack_emit_value [simp]: "stack (emit_value v b) = [] \<longleftrightarrow> stack b = []"
  by (auto simp: emit_value_def split: list.split)

lemma safe_error [simp]: "safe [on_error e]"
  by (simp add: safe_def)

lemma delivers_safe: "delivers es v \<Longrightarrow> safe es' \<Longrightarrow> safe (es @ es')"
  by (simp add: delivers_def safe_def)

lemma delivers_safe_inside: "delivers es v \<Longrightarrow> safe_inside es' \<Longrightarrow> safe_inside (es @ es')"
  by (simp add: delivers_def safe_inside_def)

lemma key_safe_inside: "safe_inside es \<Longrightarrow> safe_inside (on_object_key k l # es)"
  by (auto simp: safe_inside_def split: list.split)

lemma safe_safe_inside: "safe es \<Longrightarrow> safe_inside es"
  by (simp add: safe_def safe_inside_def)

lemma open_safe: "safe_inside es \<Longrightarrow> safe (on_array_start l # es)" "safe_inside es \<Longrightarrow> safe (on_object_start l # es)"
  by (simp_all add: safe_def safe_inside_def)

lemma emit_into_array: "stack b = f # fs \<Longrightarrow> is_array f \<Longrightarrow> emit_value v b = b\<lparr>stack := f\<lparr>array_items := array_items f @ [v]\<rparr> # fs\<rparr>"
  by (simp add: emit_value_def)

lemma emit_into_object:
  "stack b = f # fs \<Longrightarrow> \<not> is_array f \<Longrightarrow> has_pending_key f \<Longrightarrow>
     emit_value v b = b\<lparr>stack := f\<lparr>object_items := object_items f @ [(pending_key f, v)], has_pending_key := False\<rparr> # fs\<rparr>"
  by (simp add: emit_value_def)

lemma array_events:
  "closes_array [on_array_end l] []"
  "delivers es v \<Longrightarrow> closes_array es' vs \<Longrightarrow> closes_array (es @ es') (v # vs)"
  "closes_array es vs \<Longrightarrow> delivers (on_array_start l # es) (JArray vs)"
  by (simp_all add: closes_array_def delivers_def emit_into_array new_frame_def)

lemma object_events:
  "closes_object [on_object_end l] []"
  "delivers es v \<Longrightarrow> closes_object es' ms \<Longrightarrow> closes_object (on_object_key k l # es @ es') ((k, v) # ms)"
  "closes_object es ms \<Longrightarrow> delivers (on_object_start l # es) (JObject ms)"
  by (simp_all add: closes_object_def delivers_def emit_into_object new_frame_def)

section \<open>Outcomes\<close>

definition value_outcome :: "JsonParserOptions \<Rightarrow> JsonParser \<Rightarrow> JsonParser \<Rightarrow> bool" where
  "value_outcome opts s s' \<longleftrightarrow> depth s' = depth s \<and> length (rest s') \<le> length (rest s)
     \<and> (\<exists>es. events s' = events s @ es
        \<and> (if failed s' then safe es
           else length (rest s') < length (rest s) \<and> (\<exists>v. delivers es v \<and> json_ok (max_depth opts - depth s) v)))"

lemma quiet_outcome: "quiet s s' \<Longrightarrow> failed s' \<Longrightarrow> value_outcome opts s s'"
  by (auto simp: quiet_def value_outcome_def)

lemma fail_outcome [simp]: "\<not> failed s \<Longrightarrow> value_outcome opts s (fail l m s)"
  by (simp add: quiet_outcome)

lemma emit_outcome:
  assumes "quiet s s'" and "\<not> failed s'" and "length (rest s') < length (rest s)" and "delivers [e] v"
    and "json_ok (max_depth opts - depth s) v"
  shows "value_outcome opts s (emit e s')"
  using assms by (auto simp: value_outcome_def quiet_def)

lemma outcome_after_skip:
  assumes "quiet s s1" and "\<not> failed s1" and "value_outcome opts s1 s2"
  shows "value_outcome opts s s2"
  using assms by (auto simp: quiet_def value_outcome_def)

lemma string_outcome: "\<not> failed s \<Longrightarrow> rest s \<noteq> [] \<Longrightarrow> value_outcome opts s (parse_string_value s)"
  using quiet_string_into [of s]
  by (auto simp: parse_string_value_def case_prod_beta Let_def delivers_def intro: quiet_outcome emit_outcome)

lemma literal_outcome:
  assumes "\<not> failed s" and "rest s \<noteq> []" and "kind \<noteq> []" and "delivers [e] v" and "json_ok (max_depth opts - depth s) v"
  shows "value_outcome opts s (parse_literal kind e s)"
  using assms by (auto simp: parse_literal_def Let_def intro!: emit_outcome)

lemma number_outcome:
  assumes "\<not> failed s" and "rest s \<noteq> []"
  shows "value_outcome opts s (parse_number F s)"
proof -
  define s1 where "s1 = (if peek s = MINUS then advance s else s)"
  define s2 where "s2 = scan_integer (loc s) s1"
  obtain f s3 where s3: "scan_fraction (loc s) s2 = (f, s3)" by fastforce
  obtain x s4 where s4: "scan_exponent (loc s) s3 = (x, s4)" by fastforce
  have 1: "quiet s s1" "\<not> failed s1" "length (rest s1) \<le> length (rest s)" using assms by (simp_all add: s1_def)
  have 2: "quiet s s2" using quiet_trans [OF 1(1,2)] quiet_scan(1) [OF 1(2)] by (simp add: s2_def)
  have 3: "quiet s s3" if "\<not> failed s2"
    using quiet_trans [OF 2 that] quiet_scan(2) [OF that, of "loc s"] s3 by simp
  have 4: "quiet s s4" "length (rest s4) < length (rest s)" if "\<not> failed s2" "\<not> failed s3"
  proof -
    have q: "quiet s2 s3" "quiet s3 s4"
      using quiet_scan(2) [OF that(1), of "loc s"] s3 quiet_scan(3) [OF that(2), of "loc s"] s4 by simp_all
    show "quiet s s4" using quiet_trans [OF 3 [OF that(1)] that(2)] q by simp
    have "length (rest s4) \<le> length (rest s2)" using q by (simp add: quiet_def)
    moreover have "length (rest s2) < length (rest s)"
    proof (cases "rest s1 = []")
      case True
      then have "failed s2" by (simp add: s2_def scan_integer_def peek_def is_digit_def)
      with that show ?thesis by simp
    next
      case False
      then show ?thesis using scan_integer_consumes [of s1 "loc s"] that(1) 1(3) by (simp add: s2_def)
    qed
    ultimately show "length (rest s4) < length (rest s)" by simp
  qed
  have 5: "value_outcome opts s (convert_number F l b t s4)" if "\<not> failed s2" "\<not> failed s3" "\<not> failed s4" for l b t
  proof -
    note q = 4 [OF that(1,2)]
    have "value_outcome opts s (fail l m s4)" for l m
      by (rule quiet_outcome [OF quiet_trans [OF q(1) that(3) quiet_fail [OF that(3)]]]) simp
    moreover have "value_outcome opts s (emit (on_int i l) s4)" for i l
      by (rule emit_outcome [OF q(1) that(3) q(2), where v = "JInt i"]) (simp_all add: delivers_def)
    moreover have "value_outcome opts s (emit (on_float d l) s4)" for d l
      by (rule emit_outcome [OF q(1) that(3) q(2), where v = "JFloat d"]) (simp_all add: delivers_def)
    ultimately show ?thesis by (simp add: convert_number_def convert_float_def split: from_chars.split)
  qed
  show ?thesis
    using 2 3 4 5 quiet_outcome
    by (auto simp: parse_number_def Let_def s1_def [symmetric] s2_def [symmetric] s3 s4)
qed

section \<open>Loops\<close>

text \<open>
  The contract of what stands between two brackets: events of items, events that close the
  container, and how they combine.  Arrays and objects are the two instances.
\<close>

definition loop_outcome ::
    "(JsonEvent list \<Rightarrow> 'a list \<Rightarrow> bool) \<Rightarrow> ('a \<Rightarrow> bool) \<Rightarrow> JsonParser \<Rightarrow> JsonParser \<Rightarrow> bool" where
  "loop_outcome closes ok s s' \<longleftrightarrow> depth s' = depth s \<and> length (rest s') \<le> length (rest s)
     \<and> (\<exists>es. events s' = events s @ es
        \<and> (if failed s' then safe_inside es else \<exists>xs. closes es xs \<and> (\<forall>x \<in> set xs. ok x)))"

definition added :: "(JsonEvent list \<Rightarrow> 'a \<Rightarrow> bool) \<Rightarrow> JsonParser \<Rightarrow> JsonParser \<Rightarrow> 'a \<Rightarrow> bool" where
  "added item s s' x \<longleftrightarrow> \<not> failed s' \<and> depth s' = depth s \<and> length (rest s') < length (rest s)
     \<and> (\<exists>es. events s' = events s @ es \<and> item es x)"

lemma added_quiet: "added item s s1 x \<Longrightarrow> quiet s1 s2 \<Longrightarrow> \<not> failed s2 \<Longrightarrow> added item s s2 x"
  by (auto simp: added_def quiet_def)

lemma quiet_loop_outcome: "quiet s s' \<Longrightarrow> failed s' \<Longrightarrow> loop_outcome closes ok s s'"
  by (auto simp: quiet_def loop_outcome_def safe_safe_inside)

locale bracketed =
  fixes item :: "JsonEvent list \<Rightarrow> 'a \<Rightarrow> bool" and closes :: "JsonEvent list \<Rightarrow> 'a list \<Rightarrow> bool"
    and close_event :: "SourceLocation \<Rightarrow> JsonEvent"
  assumes item_safe: "item es x \<Longrightarrow> safe_inside es' \<Longrightarrow> safe_inside (es @ es')"
    and item_closes: "item es x \<Longrightarrow> closes es' xs \<Longrightarrow> closes (es @ es') (x # xs)"
    and close_closes: "closes [close_event l] []"
begin

lemma failed_after_item: "added item s s1 x \<Longrightarrow> quiet s1 s2 \<Longrightarrow> failed s2 \<Longrightarrow> loop_outcome closes ok s s2"
  using item_safe safe_safe_inside [OF safe_error] by (fastforce simp: added_def quiet_def loop_outcome_def)

lemma closed_after_item: "added item s s1 x \<Longrightarrow> ok x \<Longrightarrow> loop_outcome closes ok s (emit (close_event l) (advance s1))"
  using item_closes [OF _ close_closes] by (fastforce simp: added_def loop_outcome_def)

lemma more_after_item:
  assumes "added item s s1 x" and "ok x" and "loop_outcome closes ok s1 s2"
  shows "loop_outcome closes ok s s2"
proof -
  obtain es where es: "events s1 = events s @ es" "item es x" "depth s1 = depth s" "length (rest s1) < length (rest s)"
    using assms(1) by (auto simp: added_def)
  obtain es' where es': "events s2 = events s1 @ es'" "depth s2 = depth s1" "length (rest s2) \<le> length (rest s1)"
    and f: "if failed s2 then safe_inside es' else \<exists>xs. closes es' xs \<and> (\<forall>x \<in> set xs. ok x)"
    using assms(3) by (auto simp: loop_outcome_def)
  have "if failed s2 then safe_inside (es @ es') else \<exists>xs. closes (es @ es') xs \<and> (\<forall>x \<in> set xs. ok x)"
  proof (cases "failed s2")
    case True
    with f item_safe [OF es(2)] show ?thesis by simp
  next
    case False
    with f obtain xs where "closes es' xs" "\<forall>x \<in> set xs. ok x" by auto
    with False item_closes [OF es(2)] assms(2) show ?thesis by (auto intro!: exI [of _ "x # xs"])
  qed
  with es es' show ?thesis by (auto simp: loop_outcome_def)
qed

end

interpretation arr: bracketed delivers closes_array on_array_end
  by unfold_locales (simp_all add: delivers_safe_inside array_events)

definition member_events :: "JsonEvent list \<Rightarrow> utf8 \<times> JsonValue \<Rightarrow> bool" where
  "member_events es m \<longleftrightarrow> (\<exists>l es'. es = on_object_key (fst m) l # es' \<and> delivers es' (snd m))"

interpretation obj: bracketed member_events closes_object on_object_end
  by unfold_locales (auto simp: member_events_def delivers_safe_inside key_safe_inside object_events)

text \<open>What a call of \<open>parse_value\<close> on less than \<open>m\<close> bytes does.\<close>

definition parses :: "nat \<Rightarrow> JsonParserOptions \<Rightarrow> (JsonParser \<Rightarrow> JsonParser option) \<Rightarrow> bool" where
  "parses m opts value \<longleftrightarrow>
     (\<forall>s. \<not> failed s \<longrightarrow> length (rest s) < m \<longrightarrow> (\<exists>s'. value s = Some s' \<and> value_outcome opts s s'))"

lemma outcome_cases:
  assumes "value_outcome opts s s'"
  obtains (failed) "failed s'" 
  | (added) v where "\<not> failed s'" "added delivers s s' v" "json_ok (max_depth opts - depth s) v"
  using assms by (cases "failed s'") (auto simp: value_outcome_def added_def)

lemma failed_value_loop: "value_outcome opts s s' \<Longrightarrow> failed s' \<Longrightarrow> loop_outcome closes ok s s'"
  by (auto simp: value_outcome_def loop_outcome_def safe_safe_inside)

text \<open>What both loops do after an item; \<open>again\<close> is the next round.\<close>

definition item_tail ::
    "u8 \<Rightarrow> (SourceLocation \<Rightarrow> JsonEvent) \<Rightarrow> string \<Rightarrow> string \<Rightarrow> JsonParserOptions \<Rightarrow> (JsonParser \<Rightarrow> JsonParser option)
      \<Rightarrow> JsonParser \<Rightarrow> JsonParser option" where
  "item_tail bracket close_event trailing expected opts again s =
     (let s = skip_ws_and_comments opts s in
      if failed s then Some s
      else if peek s = COMMA then
        let s = skip_ws_and_comments opts (advance s) in
        if failed s then Some s
        else if peek s = bracket then
          if allow_trailing_comma opts then Some (emit (close_event (loc (advance s))) (advance s))
          else Some (fail (loc s) trailing s)
        else again s
      else if peek s = bracket then Some (emit (close_event (loc (advance s))) (advance s))
      else Some (fail (loc s) expected s))"

context bracketed
begin

lemma tail_outcome:
  assumes "added item s s1 x" and "ok x"
    and again: "\<And>s3. added item s s3 x \<Longrightarrow> \<exists>s'. again s3 = Some s' \<and> loop_outcome closes ok s3 s'"
  shows "\<exists>s'. item_tail bracket close_event trailing expected opts again s1 = Some s' \<and> loop_outcome closes ok s s'"
proof -
  define s2 where "s2 = skip_ws_and_comments opts s1"
  define s3 where "s3 = skip_ws_and_comments opts (advance s2)"
  have f1: "\<not> failed s1" using assms(1) by (simp add: added_def)
  have q2: "quiet s1 s2" using f1 by (simp add: s2_def quiet_skip)
  note a2 = added_quiet [OF assms(1) q2]
  have q3: "quiet s2 s3" if "\<not> failed s2" using quiet_from(1) [OF that quiet_skip] that by (simp add: s3_def)
  note a3 = added_quiet [OF a2 q3]
  have "loop_outcome closes ok s s2" if "failed s2" using failed_after_item [OF assms(1) q2 that] .
  moreover have "loop_outcome closes ok s (emit (close_event l) (advance s2))" if "\<not> failed s2" for l
    by (rule closed_after_item [where ok = ok, OF a2 [OF that] assms(2)])
  moreover have "loop_outcome closes ok s (fail l m s2)" if "\<not> failed s2" for l m
    by (rule failed_after_item [OF a2 [OF that] quiet_fail [OF that]]) simp
  moreover have "loop_outcome closes ok s s3" if "\<not> failed s2" "failed s3"
    using failed_after_item [OF a2 [OF that(1)] q3 [OF that(1)] that(2)] .
  moreover have "loop_outcome closes ok s (emit (close_event l) (advance s3))" if "\<not> failed s2" "\<not> failed s3" for l
    by (rule closed_after_item [where ok = ok, OF a3 [OF that(1,1,2)] assms(2)])
  moreover have "loop_outcome closes ok s (fail l m s3)" if "\<not> failed s2" "\<not> failed s3" for l m
    by (rule failed_after_item [OF a3 [OF that(1,1,2)] quiet_fail [OF that(2)]]) simp
  moreover have "\<exists>s'. again s3 = Some s' \<and> loop_outcome closes ok s s'" if "\<not> failed s2" "\<not> failed s3"
    using again [OF a3 [OF that(1,1,2)]] more_after_item [where ok = ok, OF a3 [OF that(1,1,2)] assms(2)] by blast
  ultimately show ?thesis
    by (auto simp: item_tail_def Let_def s2_def [symmetric] s3_def [symmetric])
qed

end

lemma array_loop_tail:
  "array_loop (Suc n) value opts s =
     (case value s of
        None \<Rightarrow> None
      | Some s \<Rightarrow>
          if failed s then Some s
          else item_tail RBRACKET on_array_end ''trailing comma in array (not allowed)'' expected_in_array opts
                 (array_loop n value opts) s)"
  by (simp add: item_tail_def Let_def split: option.split)

lemma array_loop_outcome:
  assumes "parses m opts value"
  shows "\<not> failed s \<Longrightarrow> length (rest s) < n \<Longrightarrow> length (rest s) < m \<Longrightarrow>
    \<exists>s'. array_loop n value opts s = Some s' \<and> loop_outcome closes_array (json_ok (max_depth opts - depth s)) s s'"
proof (induction n arbitrary: s)
  case (Suc n)
  obtain s1 where s1: "value s = Some s1" "value_outcome opts s s1"
    using assms Suc.prems by (auto simp: parses_def)
  from s1(2) show ?case
  proof (cases rule: outcome_cases)
    case failed
    then show ?thesis using failed_value_loop [OF s1(2)] by (simp add: s1(1))
  next
    case (added v)
    have again: "\<exists>s'. array_loop n value opts s3 = Some s' \<and> loop_outcome closes_array (json_ok (max_depth opts - depth s)) s3 s'"
      if "added delivers s s3 v" for s3
      using Suc.IH [of s3] Suc.prems that by (simp add: added_def)
    show ?thesis
      unfolding array_loop_tail s1(1) using added(1) arr.tail_outcome [OF added(2), where ok = "json_ok (max_depth opts - depth s)", OF added(3) again]
      by simp
  qed
qed simp

text \<open>A member starts with its key.\<close>

definition keyed :: "JsonParser \<Rightarrow> JsonParser \<Rightarrow> utf8 \<Rightarrow> bool" where
  "keyed s s' k \<longleftrightarrow> \<not> failed s' \<and> depth s' = depth s \<and> length (rest s') < length (rest s)
     \<and> (\<exists>l. events s' = events s @ [on_object_key k l])"

lemma keyed_quiet: "keyed s s1 k \<Longrightarrow> quiet s1 s2 \<Longrightarrow> \<not> failed s2 \<Longrightarrow> keyed s s2 k"
  by (auto simp: keyed_def quiet_def)

lemma keyed_fails: "keyed s s1 k \<Longrightarrow> quiet s1 s2 \<Longrightarrow> failed s2 \<Longrightarrow> loop_outcome closes ok s s2"
  using key_safe_inside [OF safe_safe_inside [OF safe_error]] by (auto simp: keyed_def quiet_def loop_outcome_def)

lemma keyed_value_fails: "keyed s s1 k \<Longrightarrow> value_outcome opts s1 s2 \<Longrightarrow> failed s2 \<Longrightarrow> loop_outcome closes ok s s2"
  using key_safe_inside [OF safe_safe_inside] by (auto simp: keyed_def value_outcome_def loop_outcome_def)

lemma keyed_value:
  "keyed s s1 k \<Longrightarrow> value_outcome opts s1 s2 \<Longrightarrow> \<not> failed s2 \<Longrightarrow>
     \<exists>v. added member_events s s2 (k, v) \<and> json_ok (max_depth opts - depth s) v"
  by (auto simp: keyed_def value_outcome_def added_def member_events_def)

text \<open>The part of a round before the value has been read.\<close>

definition parse_member :: "(JsonParser \<Rightarrow> JsonParser option) \<Rightarrow> JsonParserOptions \<Rightarrow> JsonParser \<Rightarrow> JsonParser option" where
  "parse_member value opts s =
     (let s = skip_ws_and_comments opts s in
      if failed s then Some s
      else if peek s \<noteq> QUOTE then Some (fail (loc s) ''object key must be a string'' s)
      else let l = loc s; (key, s) = parse_string_into s in
        if failed s then Some s
        else let s = skip_ws_and_comments opts (emit (on_object_key key l) s) in
          if failed s then Some s
          else if peek s \<noteq> COLON then Some (fail (loc s) expected_colon s)
          else value (advance s))"

lemma object_loop_tail:
  "object_loop (Suc n) value opts s =
     (case parse_member value opts s of
        None \<Rightarrow> None
      | Some s \<Rightarrow>
          if failed s then Some s
          else item_tail RBRACE on_object_end ''trailing comma in object (not allowed)'' expected_in_object opts
                 (object_loop n value opts) s)"
  by (simp add: parse_member_def item_tail_def Let_def case_prod_beta split: option.split)

abbreviation member_ok :: "nat \<Rightarrow> utf8 \<times> JsonValue \<Rightarrow> bool" where
  "member_ok d m \<equiv> utf8_is_valid (fst m) \<and> json_ok d (snd m)"

definition member_outcome :: "JsonParserOptions \<Rightarrow> JsonParser \<Rightarrow> JsonParser \<Rightarrow> bool" where
  "member_outcome opts s s' \<longleftrightarrow>
     (if failed s' then loop_outcome closes_object (member_ok (max_depth opts - depth s)) s s'
      else \<exists>m. added member_events s s' m \<and> member_ok (max_depth opts - depth s) m)"

lemma key_outcome:
  assumes q1: "quiet s s1" and f1: "\<not> failed s1" and "peek s1 = QUOTE" and s2: "parse_string_into s1 = (key, s2)"
  shows "quiet s s2" "utf8_is_valid key" "\<not> failed s2 \<Longrightarrow> keyed s (emit (on_object_key key (loc s1)) s2) key"
proof -
  have "rest s1 \<noteq> []" using assms(3) by (auto simp: peek_def)
  then have q2: "quiet s1 s2" "length (rest s2) < length (rest s1)" and k: "utf8_is_valid key"
    using quiet_string_into [of s1] f1 by (simp_all add: s2)
  show q: "quiet s s2" using quiet_trans [OF q1 f1 q2(1)] .
  show "utf8_is_valid key" by (rule k)
  show "keyed s (emit (on_object_key key (loc s1)) s2) key" if "\<not> failed s2"
    using q q2(2) q1 that by (auto simp: keyed_def quiet_def)
qed

lemma value_member_outcome:
  assumes "keyed s s1 k" and "utf8_is_valid k" and "value_outcome opts s1 s2"
  shows "member_outcome opts s s2"
  using keyed_value_fails [OF assms(1,3)] keyed_value [OF assms(1,3)] assms(2) by (auto simp: member_outcome_def)

lemma parse_member_outcome:
  assumes "parses m opts value" and f: "\<not> failed s" and "length (rest s) < m"
  shows "\<exists>s'. parse_member value opts s = Some s' \<and> member_outcome opts s s'"
proof -
  have failed: "member_outcome opts s s'" if "quiet s s'" "failed s'" for s'
    using quiet_loop_outcome [OF that] that(2) by (simp add: member_outcome_def)
  define s1 where "s1 = skip_ws_and_comments opts s"
  have q1: "quiet s s1" using f by (simp add: s1_def quiet_skip)
  obtain key s2 where s2: "parse_string_into s1 = (key, s2)" by fastforce
  define s2' where "s2' = emit (on_object_key key (loc s1)) s2"
  define s3 where "s3 = skip_ws_and_comments opts s2'"
  note eq = parse_member_def [of "value" opts s, folded s1_def, unfolded Let_def s2 prod.case, folded s2'_def, folded s3_def]
  consider (a) "failed s1" | (b) "\<not> failed s1" "peek s1 \<noteq> QUOTE" | (c) "\<not> failed s1" "peek s1 = QUOTE" by blast
  then show ?thesis
  proof cases
    case a
    then show ?thesis using failed [OF q1] by (simp add: eq)
  next
    case b
    then show ?thesis using failed [OF quiet_trans [OF q1 b(1) quiet_fail [OF b(1)]]] by (simp add: eq)
  next
    case c
    note k = key_outcome [OF q1 c s2, folded s2'_def]
    show ?thesis
    proof (cases "failed s2")
      case True
      then show ?thesis using failed [OF k(1)] c by (simp add: eq)
    next
      case f2: False
      have q3: "quiet s2' s3" using f2 by (simp add: s3_def s2'_def quiet_skip)
      have out: "member_outcome opts s s'" if "quiet s2' s'" "failed s'" for s'
        using keyed_fails [OF k(3) [OF f2] that] that(2) by (simp add: member_outcome_def)
      have v: "\<exists>s'. value (advance s3) = Some s' \<and> member_outcome opts s s'" if "\<not> failed s3"
      proof -
        have a: "keyed s (advance s3) key"
          using keyed_quiet [OF keyed_quiet [OF k(3) [OF f2] q3 that] quiet_advance] that by simp
        then have "\<not> failed (advance s3)" "length (rest (advance s3)) < m" using assms(3) by (simp_all add: keyed_def)
        with assms(1) value_member_outcome [OF a k(2)] show ?thesis unfolding parses_def by blast
      qed
      show ?thesis
        using c f2 v out [OF q3] out [OF quiet_trans [OF q3 _ quiet_fail]] by (auto simp: eq)
    qed
  qed
qed

lemma object_loop_outcome:
  assumes "parses m opts value"
  shows "\<not> failed s \<Longrightarrow> length (rest s) < n \<Longrightarrow> length (rest s) < m \<Longrightarrow>
    \<exists>s'. object_loop n value opts s = Some s' \<and> loop_outcome closes_object (member_ok (max_depth opts - depth s)) s s'"
proof (induction n arbitrary: s)
  case (Suc n)
  let ?ok = "member_ok (max_depth opts - depth s)"
  obtain s1 where s1: "parse_member value opts s = Some s1" "member_outcome opts s s1"
    using parse_member_outcome [OF assms] Suc.prems by blast
  show ?case
  proof (cases "failed s1")
    case True
    then show ?thesis using s1 unfolding object_loop_tail by (simp add: member_outcome_def)
  next
    case False
    then obtain x where x: "added member_events s s1 x" "?ok x" using s1(2) by (auto simp: member_outcome_def)
    have again: "\<exists>s'. object_loop n value opts s3 = Some s' \<and> loop_outcome closes_object ?ok s3 s'"
      if "added member_events s s3 x" for s3
      using Suc.IH [of s3] Suc.prems that by (simp add: added_def)
    show ?thesis
      unfolding object_loop_tail s1(1) using False obj.tail_outcome [OF x(1), where ok = ?ok, OF x(2) again] by simp
  qed
qed simp

section \<open>Every input\<close>

text \<open>An array and an object differ in their brackets, their events and their loop.\<close>

definition parse_container ::
    "(SourceLocation \<Rightarrow> JsonEvent) \<Rightarrow> (SourceLocation \<Rightarrow> JsonEvent) \<Rightarrow> u8 \<Rightarrow> (JsonParser \<Rightarrow> JsonParser option)
      \<Rightarrow> JsonParserOptions \<Rightarrow> JsonParser \<Rightarrow> JsonParser option" where
  "parse_container open_event close_event bracket items opts s =
     (let s1 = (advance s)\<lparr>depth := depth s + 1\<rparr> in
      if depth s1 > max_depth opts then Some ((fail (loc s) ''nesting too deep'' s1)\<lparr>depth := depth s\<rparr>)
      else let s = skip_ws_and_comments opts (emit (open_event (loc s)) s1) in
        map_option (\<lambda>s. s\<lparr>depth := depth s - 1\<rparr>)
          (if failed s then Some s
           else if peek s = bracket then Some (emit (close_event (loc (advance s))) (advance s))
           else items s))"

lemma parse_array_container:
  "parse_array n value opts = parse_container on_array_start on_array_end RBRACKET (array_loop n value opts) opts"
  by (simp add: fun_eq_iff parse_array_def parse_container_def Let_def)

lemma parse_object_container:
  "parse_object n value opts = parse_container on_object_start on_object_end RBRACE (object_loop n value opts) opts"
  by (simp add: fun_eq_iff parse_object_def parse_container_def Let_def)

locale container = bracketed +
  fixes open_event :: "SourceLocation \<Rightarrow> JsonEvent" and make :: "'a list \<Rightarrow> JsonValue" and ok :: "nat \<Rightarrow> 'a \<Rightarrow> bool"
  assumes open_delivers: "closes es xs \<Longrightarrow> delivers (open_event l # es) (make xs)"
    and open_keeps_safe: "safe_inside es \<Longrightarrow> safe (open_event l # es)"
    and make_ok: "0 < d \<Longrightarrow> (\<forall>x \<in> set xs. ok (d - 1) x) \<Longrightarrow> json_ok d (make xs)"
begin

lemma close_outcome:
  assumes "loop_outcome closes (ok (max_depth opts - depth s - 1)) (emit (open_event l) ((advance s)\<lparr>depth := depth s + 1\<rparr>)) s'"
    and "depth s < max_depth opts" and "rest s \<noteq> []"
  shows "value_outcome opts s (s'\<lparr>depth := depth s' - 1\<rparr>)"
proof -
  obtain es where es: "events s' = events s @ open_event l # es" "depth s' = depth s + 1" "length (rest s') < length (rest s)"
    and f: "if failed s' then safe_inside es else \<exists>xs. closes es xs \<and> (\<forall>x \<in> set xs. ok (max_depth opts - depth s - 1) x)"
    using assms(1,3) by (auto simp: loop_outcome_def neq_Nil_conv)
  have "if failed s' then safe (open_event l # es)
    else \<exists>v. delivers (open_event l # es) v \<and> json_ok (max_depth opts - depth s) v"
  proof (cases "failed s'")
    case False
    with f obtain xs where "closes es xs" "\<forall>x \<in> set xs. ok (max_depth opts - depth s - 1) x" by auto
    with False open_delivers make_ok [of "max_depth opts - depth s" xs] assms(2) show ?thesis by auto
  qed (use f open_keeps_safe in simp)
  with es show ?thesis by (auto simp: value_outcome_def split: if_splits)
qed

lemma container_outcome:
  assumes f: "\<not> failed s" and "rest s \<noteq> []"
    and items: "\<And>s1. \<not> failed s1 \<Longrightarrow> length (rest s1) < length (rest s) \<Longrightarrow> depth s1 = depth s + 1 \<Longrightarrow>
      \<exists>s'. items s1 = Some s' \<and> loop_outcome closes (ok (max_depth opts - depth s1)) s1 s'"
  shows "\<exists>s'. parse_container open_event close_event bracket items opts s = Some s' \<and> value_outcome opts s s'"
proof (cases "depth s < max_depth opts")
  case False
  then show ?thesis
    using f assms(2) by (auto simp: parse_container_def Let_def value_outcome_def fail_def)
next
  case True
  define s1 where "s1 = emit (open_event (loc s)) ((advance s)\<lparr>depth := depth s + 1\<rparr>)"
  define s2 where "s2 = skip_ws_and_comments opts s1"
  have s1: "\<not> failed s1" "depth s1 = depth s + 1" "length (rest s1) < length (rest s)"
    using f assms(2) by (auto simp: s1_def neq_Nil_conv)
  have q: "quiet s1 s2" using s1(1) by (simp add: s2_def quiet_skip)
  let ?out = "loop_outcome closes (ok (max_depth opts - depth s - 1))"
  have out: "?out s1 s'" if "?out s2 s'" "\<not> failed s2" for s'
    using that q by (auto simp: loop_outcome_def quiet_def)
  have "?out s1 s2" if "failed s2" using quiet_loop_outcome [OF q that] .
  moreover have "?out s1 (emit (close_event l) (advance s2))" if "\<not> failed s2" for l
    by (rule out [OF _ that]) (use that close_closes in \<open>auto simp: loop_outcome_def intro!: exI [of _ "[]"]\<close>)
  moreover have "\<exists>s'. items s2 = Some s' \<and> ?out s1 s'" if "\<not> failed s2"
    using items [OF that] q s1 out that by (auto simp: quiet_def)
  ultimately obtain s' where s': "?out s1 s'" "(if failed s2 then Some s2
      else if peek s2 = bracket then Some (emit (close_event (loc (advance s2))) (advance s2)) else items s2) = Some s'"
    by (cases "failed s2"; cases "peek s2 = bracket") auto
  have "parse_container open_event close_event bracket items opts s = Some (s'\<lparr>depth := depth s' - 1\<rparr>)"
    unfolding parse_container_def Let_def s1_def [symmetric] s2_def [symmetric] s'(2) using True by simp
  with close_outcome [of opts s "loc s", folded s1_def, OF s'(1) True assms(2)] show ?thesis by blast
qed

end

interpretation arr: container delivers closes_array on_array_end on_array_start JArray json_ok
  by unfold_locales (simp_all add: array_events open_safe)

interpretation obj: container member_events closes_object on_object_end on_object_start JObject member_ok
  by unfold_locales (simp_all add: object_events open_safe)

lemma array_outcome:
  assumes "parses n opts value" and "\<not> failed s" and "length (rest s) \<le> n" and "rest s \<noteq> []"
  shows "\<exists>s'. parse_array n value opts s = Some s' \<and> value_outcome opts s s'"
  unfolding parse_array_container
  by (rule arr.container_outcome [OF assms(2,4)], rule array_loop_outcome [OF assms(1)]) (use assms(3) in simp_all)

lemma object_outcome:
  assumes "parses n opts value" and "\<not> failed s" and "length (rest s) \<le> n" and "rest s \<noteq> []"
  shows "\<exists>s'. parse_object n value opts s = Some s' \<and> value_outcome opts s s'"
  unfolding parse_object_container
  by (rule obj.container_outcome [OF assms(2,4)], rule object_loop_outcome [OF assms(1)]) (use assms(3) in simp_all)

lemma parse_value_outcome: "parses n opts (parse_value n F opts)"
proof (induction n)
  case (Suc n)
  show ?case
    unfolding parses_def
  proof (intro allI impI)
    fix s :: JsonParser
    assume f: "\<not> failed s" and l: "length (rest s) < Suc n"
    define s1 where "s1 = skip_ws_and_comments opts s"
    have q: "quiet s s1" using f by (simp add: s1_def quiet_skip)
    show "\<exists>s'. parse_value (Suc n) F opts s = Some s' \<and> value_outcome opts s s'"
    proof (cases "failed s1 \<or> at_end s1")
      case True
      then show ?thesis
        using f q quiet_outcome [OF q] quiet_outcome [OF quiet_trans [OF q _ quiet_fail]]
        by (auto simp: s1_def [symmetric])
    next
      case False
      have r: "rest s1 \<noteq> []" "length (rest s1) \<le> n" "\<not> failed s1" using False q l by (auto simp: at_end_def quiet_def)
      note out = outcome_after_skip [OF q r(3)]
      have v: "delivers [on_bool b l] (JBool b)" "delivers [on_null l] JNull" for b l by (simp_all add: delivers_def)
      have "\<exists>s'. (if peek s1 = LBRACE then parse_object n (parse_value n F opts) opts s1
          else if peek s1 = LBRACKET then parse_array n (parse_value n F opts) opts s1 else None) = Some s' \<and> value_outcome opts s s'"
        if "peek s1 = LBRACE \<or> peek s1 = LBRACKET"
        using that out array_outcome [OF Suc r(3,2,1)] object_outcome [OF Suc r(3,2,1)] by auto
      then show ?thesis
        using f False out [OF string_outcome [OF r(3,1)]] out [OF number_outcome [OF r(3,1)]] out [OF fail_outcome [OF r(3)]]
          out [OF literal_outcome [OF r(3,1) _ v(1)]] out [OF literal_outcome [OF r(3,1) _ v(2)]]
        by (auto simp: s1_def [symmetric] Let_def)
    qed
  qed
qed (simp add: parses_def)

text \<open>The whole parser: the events of a run, and the tree they build.\<close>

definition run_outcome :: "JsonParserOptions \<Rightarrow> utf8 \<Rightarrow> JsonParser \<Rightarrow> bool" where
  "run_outcome opts input s \<longleftrightarrow>
     (if failed s then safe (events s)
      else utf8_is_valid input \<and> rest s = [] \<and> (\<exists>v. delivers (events s) v \<and> json_ok (max_depth opts) v))"

lemma quiet_safe: "quiet s s' \<Longrightarrow> failed s' \<Longrightarrow> \<exists>e. events s' = events s @ [on_error e]"
  by (simp add: quiet_def)

lemma run_fails: "quiet (json_parser input) s \<Longrightarrow> failed s \<Longrightarrow> run_outcome opts input s"
  using quiet_safe [of "json_parser input" s] by (auto simp: run_outcome_def json_parser_def)

lemma run_after_value:
  assumes "events s = es" and "delivers es v" and "json_ok (max_depth opts) v" and "quiet s s'"
    and "utf8_is_valid input" and "failed s' \<or> rest s' = []"
  shows "run_outcome opts input s'"
  using assms delivers_safe [OF assms(2) safe_error] by (auto simp: run_outcome_def quiet_def split: if_splits)

lemma parse_outcome: "\<exists>s. parse F opts input = Some s \<and> run_outcome opts input s"
proof -
  define s0 where "s0 = json_parser input"
  have s0: "\<not> failed s0" "rest s0 = input" "depth s0 = 0" "events s0 = []" by (simp_all add: s0_def json_parser_def)
  define s1 where "s1 = skip_ws_and_comments opts s0"
  have q1: "quiet s0 s1" using s0 by (simp add: s1_def quiet_skip)
  note fails = run_fails [of input, folded s0_def]
  show ?thesis
  proof (cases "utf8_is_valid input \<and> \<not> failed s1 \<and> \<not> at_end s1 \<and> take 3 input \<noteq> [0xEF, 0xBB, 0xBF]")
    case False
    then show ?thesis
      using fails [OF quiet_fail [OF s0(1)]] fails [OF q1] fails [OF quiet_trans [OF q1 _ quiet_fail]]
      by (auto simp: parse_def Let_def s0_def [symmetric] s1_def [symmetric])
  next
    case True
    have "length (rest s1) < parse_fuel input" using q1 s0 by (simp add: quiet_def parse_fuel_def)
    then obtain s2 where s2: "parse_value (parse_fuel input) F opts s1 = Some s2" "value_outcome opts s1 s2"
      using parse_value_outcome [of "parse_fuel input" opts F] True by (auto simp: parses_def)
    define s3 where "s3 = skip_ws_and_comments opts s2"
    have e1: "events s1 = []" "depth s1 = 0" using q1 True s0 by (simp_all add: quiet_def)
    have eq: "parse F opts input = (if failed s2 then Some s2 else if failed s3 then Some s3
        else if \<not> at_end s3 then Some (fail (loc s3) ''trailing characters after JSON value'' s3) else Some s3)"
      using True by (simp add: parse_def Let_def s0_def [symmetric] s1_def [symmetric] s2(1) s3_def [symmetric])
    show ?thesis
    proof (cases "failed s2")
      case f: True
      have "run_outcome opts input s2" using s2(2) f e1 by (simp add: run_outcome_def value_outcome_def)
      then show ?thesis using f by (simp add: eq)
    next
      case f: False
      obtain v where v: "delivers (events s2) v" "json_ok (max_depth opts) v" using s2(2) f e1 by (auto simp: value_outcome_def)
      have q3: "quiet s2 s3" using f by (simp add: s3_def quiet_skip)
      have "run_outcome opts input s'" if "quiet s2 s'" "failed s' \<or> rest s' = []" for s'
        using run_after_value [OF refl v that(1) _ that(2)] True by simp
      then show ?thesis
        using f q3 quiet_trans [OF q3 _ quiet_fail] by (auto simp: eq at_end_def)
    qed
  qed
qed

text \<open>C30: the recursive descent returns on every input, under every option: the fuel of the
  model, one unit per byte and one more, is never used up.\<close>

theorem json_parse_terminates: "\<exists>s. parse F opts input = Some s"
  using parse_outcome by blast

text \<open>C31: reading never calls the tree builder without a frame, and a tree that is returned
  comes from valid UTF-8, has valid UTF-8 in every string and key, and nests at most
  1000 levels deep.\<close>

theorem json_read_well_formed:
  "case json_read F opts input of
     None \<Rightarrow> False
   | Some (Err e) \<Rightarrow> True
   | Some (Ok v) \<Rightarrow> utf8_is_valid input \<and> json_ok 1000 v"
proof -
  obtain s where s: "parse F (to_parser_options opts) input = Some s" "run_outcome (to_parser_options opts) input s"
    using parse_outcome by blast
  show ?thesis
  proof (cases "failed s")
    case True
    then obtain b where "handle_all (events s) json_dom_builder = Some b" using s(2) by (auto simp: run_outcome_def safe_def)
    then show ?thesis using True by (simp add: json_read_def s(1))
  next
    case False
    then obtain v where "delivers (events s) v" "json_ok 1000 v" "utf8_is_valid input"
      using s(2) by (auto simp: run_outcome_def to_parser_options_def)
    then show ?thesis
      using False by (simp add: json_read_def s(1) delivers_def emit_value_def json_dom_builder_def)
  qed
qed

end
