(* ===== verification/Json_Scalar_Props.thy ===== *)
theory Json_Scalar_Props
  imports Json_Writer Json_Parser_Props
begin

text \<open>
  Literals, numbers and strings: the parser reads what the writer printed.  A number is
  scanned by the parts of its grammar; a string is a sequence of plain bytes and escapes.
\<close>

section \<open>Reading a prefix\<close>

text \<open>From \<open>s\<close> to \<open>s'\<close> without an error, up to the rest \<open>r\<close>, with the events \<open>es\<close>.\<close>

definition reads :: "JsonParser \<Rightarrow> JsonParser \<Rightarrow> utf8 \<Rightarrow> JsonEvent list \<Rightarrow> bool" where
  "reads s s' r es \<longleftrightarrow> \<not> failed s' \<and> depth s' = depth s \<and> rest s' = r \<and> events s' = events s @ es"

lemma reads_trans: "reads s s1 r es \<Longrightarrow> reads s1 s2 r' es' \<Longrightarrow> reads s s2 r' (es @ es')"
  by (simp add: reads_def)

lemma reads_advance: "\<not> failed s \<Longrightarrow> rest s = c # r \<Longrightarrow> reads s (advance s) r []"
  by (simp add: reads_def)

lemma reads_advances: "\<not> failed s \<Longrightarrow> rest s = t @ r \<Longrightarrow> n = length t \<Longrightarrow> reads s (advances n s) r []"
  by (simp add: reads_def)

lemma reads_emit: "reads s s1 r es \<Longrightarrow> reads s (emit e s1) r (es @ [e])"
  by (simp add: reads_def)

lemma peek_Cons [simp]: "rest s = c # r \<Longrightarrow> peek s = c"
  by (simp add: peek_def)

lemma takeWhile_run:
  "(\<forall>c \<in> set t. p c) \<Longrightarrow> r = [] \<or> \<not> p (hd r) \<Longrightarrow> takeWhile p (t @ r) = t \<and> dropWhile p (t @ r) = r"
  by (cases r) (auto simp: takeWhile_eq_all_conv dropWhile_append2)

lemma reads_advance_while:
  assumes "\<not> failed s" and "rest s = t @ r" and "\<forall>c \<in> set t. p c" and "r = [] \<or> \<not> p (hd r)"
  shows "reads s (advance_while p s) r []"
  using assms takeWhile_run [OF assms(3,4)] by (simp add: reads_def)

definition blank :: "utf8 \<Rightarrow> bool" where
  "blank ws \<longleftrightarrow> (\<forall>c \<in> set ws. is_ws c)"

definition stands :: "utf8 \<Rightarrow> bool" where
  "stands r \<longleftrightarrow> r = [] \<or> \<not> is_ws (hd r) \<and> hd r \<noteq> SLASH"

lemma skip_reads:
  "\<not> failed s \<Longrightarrow> rest s = ws @ r \<Longrightarrow> blank ws \<Longrightarrow> stands r \<Longrightarrow> reads s (skip_ws_and_comments opts s) r []"
proof (induction ws arbitrary: s)
  case Nil
  then show ?case by (subst skip_ws_and_comments.simps) (auto simp: reads_def stands_def Let_def)
next
  case (Cons c ws)
  then have "reads (advance s) (skip_ws_and_comments opts (advance s)) r []" by (simp add: blank_def)
  moreover have "skip_ws_and_comments opts s = skip_ws_and_comments opts (advance s)"
    using Cons.prems by (subst skip_ws_and_comments.simps) (simp add: blank_def)
  ultimately show ?case by (simp add: reads_def)
qed

section \<open>Literals and numbers\<close>

lemma literal_reads:
  assumes "\<not> failed s" and "rest s = ascii kind @ r"
  shows "reads s (parse_literal kind e s) r [e]"
  using assms by (simp add: parse_literal_def Let_def ascii_def reads_def)

text \<open>The parts of a number in the grammar of RFC 8259.\<close>

definition digits :: "utf8 \<Rightarrow> bool" where
  "digits ds \<longleftrightarrow> (\<forall>c \<in> set ds. is_digit c)"

definition integer_part :: "utf8 \<Rightarrow> bool" where
  "integer_part ip \<longleftrightarrow> ip = [ZERO] \<or> ip \<noteq> [] \<and> hd ip \<noteq> ZERO \<and> digits ip"

definition fraction_part :: "utf8 \<Rightarrow> bool" where
  "fraction_part fp \<longleftrightarrow> fp = [] \<or> hd fp = DOT \<and> tl fp \<noteq> [] \<and> digits (tl fp)"

definition exponent_part :: "utf8 \<Rightarrow> bool" where
  "exponent_part ep \<longleftrightarrow> ep = []
     \<or> (\<exists>c sign ds. ep = c # sign @ ds \<and> (c = SMALL_E \<or> c = CAPITAL_E) \<and> sign \<in> {[], [PLUS], [MINUS]} \<and> ds \<noteq> [] \<and> digits ds)"

text \<open>What may follow a number.\<close>

definition stops :: "utf8 \<Rightarrow> bool" where
  "stops r \<longleftrightarrow> r = [] \<or> \<not> is_digit (hd r) \<and> hd r \<noteq> DOT \<and> hd r \<noteq> SMALL_E \<and> hd r \<noteq> CAPITAL_E"

lemma not_digit [simp]:
  "\<not> is_digit MINUS" "\<not> is_digit PLUS" "\<not> is_digit DOT" "\<not> is_digit SMALL_E" "\<not> is_digit CAPITAL_E" "is_digit ZERO"
  by (simp_all add: is_digit_def)

lemma integer_reads:
  assumes "\<not> failed s" and "rest s = ip @ r" and "integer_part ip" and "r = [] \<or> \<not> is_digit (hd r)"
  shows "reads s (scan_integer start s) r []"
proof (cases "ip = [ZERO]")
  case True
  have "peek (advance s) = (if r = [] then 0 else hd r)" using assms True by (simp add: peek_def split: list.split)
  then have "\<not> is_digit (peek (advance s))" using assms(4) by (auto simp: is_digit_def)
  then show ?thesis using assms True by (simp add: scan_integer_def reads_def)
next
  case False
  then obtain c ds where c: "ip = c # ds" "c \<noteq> ZERO" "is_digit c" "digits ip"
    using assms(3) by (auto simp: integer_part_def digits_def neq_Nil_conv)
  then show ?thesis
    using assms reads_advance_while [OF assms(1,2), of is_digit] by (simp add: scan_integer_def digits_def)
qed

lemma fraction_reads:
  assumes "\<not> failed s" and "rest s = fp @ r" and "fraction_part fp" and "r = [] \<or> \<not> is_digit (hd r) \<and> hd r \<noteq> DOT"
  shows "fst (scan_fraction start s) = (fp \<noteq> [])" "reads s (snd (scan_fraction start s)) r []"
proof -
  have "fst (scan_fraction start s) = (fp \<noteq> []) \<and> reads s (snd (scan_fraction start s)) r []"
  proof (cases fp)
    case Nil
    then have "peek s \<noteq> DOT" using assms by (auto simp: peek_def split: list.split)
    then show ?thesis using assms Nil by (simp add: scan_fraction_def reads_def)
  next
    case (Cons c ds)
    then have ds: "c = DOT" "ds \<noteq> []" "digits ds" using assms(3) by (auto simp: fraction_part_def)
    have "reads (advance s) (advance_while is_digit (advance s)) r []"
      by (rule reads_advance_while [of _ ds]) (use assms ds Cons in \<open>auto simp: digits_def\<close>)
    moreover have "is_digit (peek (advance s))" using assms(2) Cons ds by (cases ds) (auto simp: digits_def)
    ultimately show ?thesis using assms(2) Cons ds by (simp add: scan_fraction_def reads_def)
  qed
  then show "fst (scan_fraction start s) = (fp \<noteq> [])" "reads s (snd (scan_fraction start s)) r []" by simp_all
qed

lemma exponent_reads:
  assumes "\<not> failed s" and "rest s = ep @ r" and "exponent_part ep" and "stops r"
  shows "fst (scan_exponent start s) = (ep \<noteq> [])" "reads s (snd (scan_exponent start s)) r []"
proof -
  have "fst (scan_exponent start s) = (ep \<noteq> []) \<and> reads s (snd (scan_exponent start s)) r []"
  proof (cases "ep = []")
    case True
    then have "peek s \<noteq> SMALL_E" "peek s \<noteq> CAPITAL_E" using assms by (auto simp: peek_def stops_def split: list.split)
    then show ?thesis using assms True by (simp add: scan_exponent_def reads_def)
  next
    case False
    then obtain c sign ds where ep: "ep = c # sign @ ds" "c = SMALL_E \<or> c = CAPITAL_E" "sign \<in> {[], [PLUS], [MINUS]}"
      "ds \<noteq> []" "digits ds"
      using assms(3) unfolding exponent_part_def by blast
    define s1 where "s1 = (if peek (advance s) = PLUS \<or> peek (advance s) = MINUS then advance (advance s) else advance s)"
    obtain d ds' where ds: "ds = d # ds'" "is_digit d" using ep(4,5) by (cases ds) (auto simp: digits_def)
    have r1: "rest s1 = ds @ r" "\<not> failed s1" "depth s1 = depth s" "events s1 = events s"
      using ep(3) assms(1,2) ep(1) ds by (auto simp: s1_def)
    have "reads s1 (advance_while is_digit s1) r []"
      by (rule reads_advance_while [OF r1(2,1)]) (use ep(5) assms(4) in \<open>auto simp: digits_def stops_def\<close>)
    then show ?thesis
      using ep(1,2) assms(2) r1 ds by (auto simp: scan_exponent_def Let_def s1_def [symmetric] reads_def)
  qed
  then show "fst (scan_exponent start s) = (ep \<noteq> [])" "reads s (snd (scan_exponent start s)) r []" by simp_all
qed

definition number_parts :: "utf8 \<Rightarrow> utf8 \<Rightarrow> utf8 \<Rightarrow> utf8 \<Rightarrow> bool" where
  "number_parts sign ip fp ep \<longleftrightarrow> sign \<in> {[], [MINUS]} \<and> integer_part ip \<and> fraction_part fp \<and> exponent_part ep"

lemma integer_part_hd: "integer_part ip \<Longrightarrow> ip \<noteq> [] \<and> is_digit (hd ip)"
  by (auto simp: integer_part_def digits_def)

lemma parts_follow:
  assumes "fraction_part fp" and "exponent_part ep" and "stops r"
  shows "fp @ ep @ r = [] \<or> \<not> is_digit (hd (fp @ ep @ r))"
    and "ep @ r = [] \<or> \<not> is_digit (hd (ep @ r)) \<and> hd (ep @ r) \<noteq> DOT"
  using assms by (cases fp; cases ep; auto simp: fraction_part_def exponent_part_def stops_def)+

lemma number_scanned:
  assumes "\<not> failed s" and "rest s = t @ r" and t: "t = sign @ ip @ fp @ ep" and p: "number_parts sign ip fp ep" and "stops r"
  shows "\<exists>s'. reads s s' r [] \<and> parse_number F s = convert_number F (loc s) (fp \<noteq> [] \<or> ep \<noteq> []) t s'"
proof -
  define s1 where "s1 = (if peek s = MINUS then advance s else s)"
  define s2 where "s2 = scan_integer (loc s) s1"
  define s3 where "s3 = snd (scan_fraction (loc s) s2)"
  define s4 where "s4 = snd (scan_exponent (loc s) s3)"
  have ip: "integer_part ip" "ip \<noteq> []" "is_digit (hd ip)" using p integer_part_hd by (auto simp: number_parts_def)
  have r1: "reads s s1 (ip @ fp @ ep @ r) []"
    using assms(1,2) p ip by (cases ip) (auto simp: s1_def reads_def number_parts_def t)
  note follow = parts_follow [of fp ep r]
  have r2: "reads s1 s2 (fp @ ep @ r) []"
    unfolding s2_def by (rule integer_reads) (use r1 ip(1) p follow(1) assms(5) in \<open>auto simp: reads_def number_parts_def\<close>)
  have r3: "fst (scan_fraction (loc s) s2) = (fp \<noteq> [])" "reads s2 s3 (ep @ r) []"
    using fraction_reads [of s2 fp "ep @ r" "loc s"] r2 p follow(2) assms(5) by (auto simp: reads_def number_parts_def s3_def)
  have r4: "fst (scan_exponent (loc s) s3) = (ep \<noteq> [])" "reads s3 s4 r []"
    using exponent_reads [of s3 ep r "loc s"] r3 p assms(5) by (auto simp: reads_def number_parts_def s4_def)
  have "parse_number F s = convert_number F (loc s) (fp \<noteq> [] \<or> ep \<noteq> []) t s4"
    using r2 r3 r4 assms(2)
    by (simp add: parse_number_def Let_def case_prod_beta s1_def [symmetric] s2_def [symmetric] s3_def [symmetric]
        s4_def [symmetric] reads_def)
  moreover have "reads s s4 r []" using r1 r2 r3 r4 by (simp add: reads_def)
  ultimately show ?thesis by blast
qed

text \<open>Decimal and hexadecimal digits.\<close>

lemma digit_char_value: "d < 10 \<Longrightarrow> is_digit (digit_char d) \<and> unat (digit_char d - ZERO) = d"
proof -
  assume d: "d < 10"
  have u: "unat (digit_char d) = 48 + d"
    using d unat_of_nat_small [of "48 + d", where 'w = 8] by (simp add: digit_char_def del: of_nat_add)
  have "unat (digit_char d - ZERO) = unat (digit_char d) - unat ZERO"
    by (rule unat_sub) (use u in \<open>simp add: word_le_nat_alt\<close>)
  then show ?thesis using d u by (simp add: is_digit_def word_le_nat_alt)
qed

lemma digits_value_snoc: "digits_value (ds @ [d]) = 10 * digits_value ds + unat (d - ZERO)"
  by (simp add: digits_value_def)

lemma digits_value_of: "digits_value (map digit_char (digits_of 10 n)) = n"
proof (induction "10 :: nat" n rule: digits_of.induct)
  case (1 n)
  show ?case
  proof (cases "n < 10")
    case True
    then show ?thesis by (subst digits_of.simps) (simp add: digits_value_def digit_char_value)
  next
    case False
    with 1 show ?thesis by (subst digits_of.simps) (simp add: digits_value_snoc digit_char_value)
  qed
qed

lemma decimal_integer_part: "integer_part (map digit_char (digits_of 10 n))"
proof (cases "n = 0")
  case True
  then show ?thesis by (simp add: digits_of.simps integer_part_def digit_char_def)
next
  case False
  define ds where "ds = digits_of 10 n"
  have ds: "ds \<noteq> []" "hd ds \<noteq> 0" "\<forall>d \<in> set ds. d < 10"
    using digits_of_hd [of n] False digits_of_less [of 10] by (auto simp: ds_def)
  have "digit_char (hd ds) \<noteq> ZERO"
  proof
    assume "digit_char (hd ds) = ZERO"
    then have "unat (digit_char (hd ds) - ZERO) = 0" by simp
    with digit_char_value [of "hd ds"] ds show False by auto
  qed
  with ds show ?thesis by (auto simp: ds_def [symmetric] integer_part_def digits_def digit_char_value hd_map)
qed

lemma from_chars_digits:
  assumes "digits ds" and "ds \<noteq> []"
  shows "digits_value ds \<le> 2 ^ 63 \<Longrightarrow> from_chars_i64 (MINUS # ds) = Converted (- of_nat (digits_value ds)) (length ds + 1)"
    and "digits_value ds < 2 ^ 63 \<Longrightarrow> from_chars_i64 ds = Converted (of_nat (digits_value ds)) (length ds)"
proof -
  have t: "takeWhile is_digit ds = ds" using assms(1) by (simp add: digits_def takeWhile_eq_all_conv)
  have h: "hd ds \<noteq> MINUS" using assms by (cases ds) (auto simp: digits_def)
  show "digits_value ds \<le> 2 ^ 63 \<Longrightarrow> from_chars_i64 (MINUS # ds) = Converted (- of_nat (digits_value ds)) (length ds + 1)"
    using assms(2) by (simp add: from_chars_i64_def t)
  show "digits_value ds < 2 ^ 63 \<Longrightarrow> from_chars_i64 ds = Converted (of_nat (digits_value ds)) (length ds)"
    using assms(2) by (simp add: from_chars_i64_def t h)
qed

lemma from_chars_lld: "\<exists>n. from_chars_i64 (format_lld v) = Converted v n"
proof -
  define k where "k = nat \<bar>sint v\<bar>"
  define ds where "ds = map digit_char (digits_of 10 k)"
  have ds: "digits_value ds = k" "digits ds" "ds \<noteq> []"
    using integer_part_hd [OF decimal_integer_part [of k]] digit_char_value digits_of_less [of 10]
    by (auto simp: ds_def digits_value_of digits_def)
  have b: "- (2 ^ 63) \<le> sint v" "sint v < 2 ^ 63" using sint_greater_eq [of v] sint_less [of v] by simp_all
  have s: "sint v = (if sint v < 0 then - int k else int k)" by (simp add: k_def)
  have f: "format_lld v = (if sint v < 0 then MINUS # ds else ds)" by (simp add: format_lld_def ds_def k_def)
  have "v = of_int (sint v)" by simp
  also have "\<dots> = of_int (if sint v < 0 then - int k else int k)" using s by simp
  finally have v: "v = (if sint v < 0 then - of_nat k else of_nat k)" by (cases "sint v < 0") simp_all
  show ?thesis
  proof (cases "sint v < 0")
    case True
    then have "k \<le> 2 ^ 63" using b s by simp
    then have "from_chars_i64 (MINUS # ds) = Converted v (length ds + 1)"
      using from_chars_digits(1) [OF ds(2,3)] v True by (simp add: ds(1))
    then show ?thesis using f True by auto
  next
    case False
    then have "k < 2 ^ 63" using b s by simp
    then have "from_chars_i64 ds = Converted v (length ds)"
      using from_chars_digits(2) [OF ds(2,3)] v False by (simp add: ds(1))
    then show ?thesis using f False by auto
  qed
qed

lemma int_reads:
  assumes "\<not> failed s" and "rest s = write_int v @ r" and "stops r"
  shows "\<exists>l. reads s (parse_number F s) r [on_int v l]"
proof -
  define ds where "ds = map digit_char (digits_of 10 (nat \<bar>sint v\<bar>))"
  define sign where "sign = (if sint v < 0 then [MINUS] else [])"
  have t: "write_int v = sign @ ds @ [] @ []" by (simp add: write_int_def format_lld_def ds_def sign_def)
  have "number_parts sign ds [] []"
    by (simp add: number_parts_def sign_def ds_def decimal_integer_part fraction_part_def exponent_part_def)
  from number_scanned [OF assms(1,2) t this assms(3)] obtain s'
    where s': "reads s s' r []" "parse_number F s = convert_number F (loc s) False (write_int v) s'"
    by auto
  obtain n where "from_chars_i64 (write_int v) = Converted v n" using from_chars_lld [of v] by (auto simp: write_int_def)
  then have "parse_number F s = emit (on_int v (loc s)) s'" by (simp add: s'(2) convert_number_def)
  then show ?thesis using reads_emit [OF s'(1)] by auto
qed

text \<open>
  What the writer relies on of \<^verbatim>\<open>std::to_chars\<close> and \<^verbatim>\<open>std::from_chars\<close>: a finite number is printed as
  a decimal number, in the grammar above and in less than 62 characters, which is read back
  exactly (the documented round trip of the shortest output); and a decimal integer denotes
  the same number with the fraction \<^verbatim>\<open>.0\<close> after it.
\<close>

definition float_conversions :: "float_chars \<Rightarrow> bool" where
  "float_conversions F \<longleftrightarrow>
     (\<forall>x. f64_finite x \<longrightarrow>
        (\<exists>sign ip fp ep. let t = sign @ ip @ fp @ ep in
           number_parts sign ip fp ep \<and> length t < 62 \<and> to_chars_f64 F x = Some t
           \<and> from_chars_f64 F t = Converted x (length t)))
     \<and> (\<forall>sign ip x. number_parts sign ip [] [] \<and> from_chars_f64 F (sign @ ip) = Converted x (length (sign @ ip)) \<longrightarrow>
          from_chars_f64 F (sign @ ip @ [DOT, ZERO]) = Converted x (length (sign @ ip @ [DOT, ZERO])))"

lemma digits_no_mark: "digits ds \<Longrightarrow> c \<in> set ds \<Longrightarrow> c \<noteq> DOT \<and> c \<noteq> SMALL_E \<and> c \<noteq> CAPITAL_E"
  by (auto simp: digits_def is_digit_def)

lemma mark_append: "has_dot_or_exp (a @ b) \<longleftrightarrow> has_dot_or_exp a \<or> has_dot_or_exp b" "\<not> has_dot_or_exp []"
  by (auto simp: has_dot_or_exp_def)

lemma digits_mark: "digits ds \<Longrightarrow> \<not> has_dot_or_exp ds"
  using digits_no_mark [of ds] by (auto simp: has_dot_or_exp_def)

lemma mark_Cons: "has_dot_or_exp (c # t) \<longleftrightarrow> (c = DOT \<or> c = SMALL_E \<or> c = CAPITAL_E) \<or> has_dot_or_exp t"
  by (simp add: has_dot_or_exp_def)

lemma has_dot_or_exp_parts:
  assumes "number_parts sign ip fp ep"
  shows "has_dot_or_exp (sign @ ip @ fp @ ep) \<longleftrightarrow> fp \<noteq> [] \<or> ep \<noteq> []"
proof -
  have "digits ip" using assms by (auto simp: number_parts_def integer_part_def digits_def)
  then have ip: "\<not> has_dot_or_exp ip" by (rule digits_mark)
  have sign: "\<not> has_dot_or_exp sign" using assms by (auto simp: number_parts_def mark_Cons mark_append)
  have fp: "has_dot_or_exp fp" if "fp \<noteq> []"
    using assms that by (cases fp) (auto simp: number_parts_def fraction_part_def mark_Cons)
  have ep: "has_dot_or_exp ep" if "ep \<noteq> []"
    using assms that by (auto simp: number_parts_def exponent_part_def mark_Cons)
  show ?thesis using ip sign fp ep by (cases "fp = []"; cases "ep = []") (simp_all add: mark_append)
qed

lemma float_form_parts:
  assumes "number_parts sign ip fp ep" and "length (sign @ ip @ fp @ ep) < 62"
  obtains fp' where "float_form (sign @ ip @ fp @ ep) = sign @ ip @ fp' @ ep" "number_parts sign ip fp' ep" "fp' \<noteq> [] \<or> ep \<noteq> []"
proof (cases "fp \<noteq> [] \<or> ep \<noteq> []")
  case True
  then show ?thesis using that [of fp] assms has_dot_or_exp_parts [OF assms(1)] by (auto simp: float_form_def)
next
  case False
  then show ?thesis
    using that [of "[DOT, ZERO]"] assms has_dot_or_exp_parts [OF assms(1)]
    by (auto simp: float_form_def number_parts_def fraction_part_def digits_def)
qed

lemma write_float_parts:
  assumes "float_conversions F" and "f64_finite x"
  obtains sign ip fp ep where "number_parts sign ip fp ep" "fp \<noteq> [] \<or> ep \<noteq> []" "write_float F x = sign @ ip @ fp @ ep"
    "from_chars_f64 F (write_float F x) = Converted x (length (write_float F x))"
proof -
  obtain sign ip fp ep where p: "number_parts sign ip fp ep" "length (sign @ ip @ fp @ ep) < 62"
    "to_chars_f64 F x = Some (sign @ ip @ fp @ ep)"
    "from_chars_f64 F (sign @ ip @ fp @ ep) = Converted x (length (sign @ ip @ fp @ ep))"
    using assms unfolding float_conversions_def Let_def by blast
  have reread: "from_chars_f64 F (float_form (sign @ ip @ fp @ ep)) = Converted x (length (float_form (sign @ ip @ fp @ ep)))"
  proof (cases "fp \<noteq> [] \<or> ep \<noteq> []")
    case True
    then show ?thesis using p(4) has_dot_or_exp_parts [OF p(1)] by (simp add: float_form_def)
  next
    case False
    then have "from_chars_f64 F (sign @ ip @ [DOT, ZERO]) = Converted x (length (sign @ ip @ [DOT, ZERO]))"
      using assms(1) p(1,4) unfolding float_conversions_def by simp
    then show ?thesis using False p(2) has_dot_or_exp_parts [OF p(1)] by (simp add: float_form_def)
  qed
  have w: "write_float F x = float_form (sign @ ip @ fp @ ep)" using assms(2) p(3) by (simp add: write_float_def)
  show thesis by (rule float_form_parts [OF p(1,2)]) (use that reread w in metis)
qed

lemma float_reads:
  assumes "float_conversions F" and "f64_finite x" and "\<not> failed s" and "rest s = write_float F x @ r" and "stops r"
  shows "\<exists>l. reads s (parse_number F s) r [on_float x l]"
proof -
  obtain sign ip fp ep where p: "number_parts sign ip fp ep" "fp \<noteq> [] \<or> ep \<noteq> []" "write_float F x = sign @ ip @ fp @ ep"
    "from_chars_f64 F (write_float F x) = Converted x (length (write_float F x))"
    using write_float_parts [OF assms(1,2)] by blast
  obtain s' where s': "reads s s' r []" "parse_number F s = convert_number F (loc s) True (write_float F x) s'"
    using number_scanned [OF assms(3,4) p(3,1) assms(5)] p(2) by auto
  then have "parse_number F s = emit (on_float x (loc s)) s'" using p(4) by (simp add: convert_number_def convert_float_def)
  then show ?thesis using reads_emit [OF s'(1)] by auto
qed

section \<open>Strings\<close>

text \<open>An escape, after its backslash, that the parser turns into the bytes \<open>b\<close>.\<close>

definition escapes :: "utf8 \<Rightarrow> utf8 \<Rightarrow> bool" where
  "escapes e b \<longleftrightarrow> (\<forall>start sb s r. \<not> failed s \<longrightarrow> rest s = e @ r \<longrightarrow>
     fst (parse_escape start sb s) = sb @ b \<and> reads s (snd (parse_escape start sb s)) r [])"

inductive spells :: "utf8 \<Rightarrow> utf8 \<Rightarrow> bool" where
  Nil: "spells [] []"
| Plain: "is_plain c \<Longrightarrow> spells t bs \<Longrightarrow> spells (c # t) (c # bs)"
| Escape: "escapes e b \<Longrightarrow> spells t bs \<Longrightarrow> spells (BACKSLASH # e @ t) (b @ bs)"

inductive_cases spells_Nil: "spells [] bs"
inductive_cases spells_Backslash: "spells (BACKSLASH # t) bs"

lemma spells_run: "spells t bs \<Longrightarrow> \<exists>bs'. bs = takeWhile is_plain t @ bs' \<and> spells (dropWhile is_plain t) bs'"
  by (induction rule: spells.induct) (auto simp: is_plain_def intro: spells.intros)

lemma spells_hd: "spells t bs \<Longrightarrow> t \<noteq> [] \<Longrightarrow> \<not> is_plain (hd t) \<Longrightarrow> hd t = BACKSLASH"
  by (induction rule: spells.induct) auto

lemma takeWhile_plain_quote [simp]:
  "takeWhile is_plain (t @ QUOTE # r) = takeWhile is_plain t" "dropWhile is_plain (t @ QUOTE # r) = dropWhile is_plain t @ QUOTE # r"
  by (induction t) (simp_all add: is_plain_def)

lemma string_slow_reads:
  "\<not> failed s \<Longrightarrow> rest s = t @ QUOTE # r \<Longrightarrow> spells t bs \<Longrightarrow>
     fst (string_slow start sb s) = sb @ bs \<and> reads s (snd (string_slow start sb s)) r []"
proof (induction "length t" arbitrary: t bs sb s rule: less_induct)
  case less
  consider (fin) "t = []" | (escape) "t \<noteq> []" "\<not> is_plain (hd t)" | (run) "t \<noteq> []" "is_plain (hd t)" by blast
  then show ?case
  proof cases
    case fin
    then have "bs = []" "peek s = QUOTE" "\<not> at_end s" using less.prems by (auto simp: at_end_def elim: spells_Nil)
    then show ?thesis using less.prems fin by (subst (1 2) string_slow.simps) (simp add: reads_def)
  next
    case escape
    then have "hd t = BACKSLASH" using spells_hd less.prems(3) by blast
    then obtain e b t' bs' where t: "t = BACKSLASH # e @ t'" "bs = b @ bs'" "escapes e b" "spells t' bs'"
      using less.prems(3) escape(1) by (cases t) (auto elim: spells_Backslash simp: is_plain_def)
    have e: "fst (parse_escape start sb (advance s)) = sb @ b" "reads (advance s) (snd (parse_escape start sb (advance s))) (t' @ QUOTE # r) []"
      using t(3) less.prems(1,2) unfolding escapes_def by (auto simp: t(1))
    define s' where "s' = snd (parse_escape start sb (advance s))"
    have "string_slow start sb s = string_slow start (sb @ b) s'"
      using less.prems e by (subst string_slow.simps) (simp add: at_end_def t(1) Let_def case_prod_beta s'_def)
    moreover have "fst (string_slow start (sb @ b) s') = (sb @ b) @ bs' \<and> reads s' (snd (string_slow start (sb @ b) s')) r []"
      using less.hyps [of t' s' bs' "sb @ b"] e(2) t by (simp add: reads_def s'_def)
    ultimately show ?thesis using e(2) t(2) by (simp add: reads_def s'_def)
  next
    case run
    obtain c u where c: "t = c # u" "is_plain c" using run by (cases t) auto
    obtain bs' where bs': "bs = takeWhile is_plain t @ bs'" "spells (dropWhile is_plain t) bs'"
      using spells_run [OF less.prems(3)] by blast
    define s' where "s' = advance_while is_plain s"
    have s': "reads s s' (dropWhile is_plain t @ QUOTE # r) []" using less.prems by (simp add: reads_def s'_def)
    have "string_slow start sb s = string_slow start (sb @ takeWhile is_plain t) s'"
      using less.prems c by (subst string_slow.simps) (simp add: at_end_def is_plain_def s'_def)
    moreover have "fst (string_slow start (sb @ takeWhile is_plain t) s') = (sb @ takeWhile is_plain t) @ bs'
        \<and> reads s' (snd (string_slow start (sb @ takeWhile is_plain t) s')) r []"
      by (rule less.hyps [of "dropWhile is_plain t"])
         (use s' bs' c in \<open>auto simp: reads_def le_imp_less_Suc length_dropWhile_le\<close>)
    ultimately show ?thesis using s' bs'(1) by (simp add: reads_def)
  qed
qed

text \<open>Four hexadecimal digits.\<close>

lemma digits_of_16: "n < 16 \<Longrightarrow> digits_of 16 n = [n]" "16 \<le> n \<Longrightarrow> digits_of 16 n = digits_of 16 (n div 16) @ [n mod 16]"
  by (subst digits_of.simps, simp)+

definition hex4 :: "nat \<Rightarrow> nat list" where
  "hex4 n = [n div 4096, n div 256 mod 16, n div 16 mod 16, n mod 16]"

lemma format_04x_hex4:
  assumes "n < 65536"
  shows "format_04x n = map digit_char (hex4 n)"
proof -
  have z: "digit_char 0 = ZERO" by (simp add: digit_char_def)
  consider "n < 16" | "16 \<le> n" "n < 256" | "256 \<le> n" "n < 4096" | "4096 \<le> n" by linarith
  then show ?thesis
  proof cases
    case 1
    then have "n div 16 = 0" "n div 256 = 0" "n div 4096 = 0" by simp_all
    with 1 show ?thesis by (simp add: format_04x_def digits_of_16 hex4_def z Let_def numeral_3_eq_3)
  next
    case 2
    then have "n div 16 < 16" "n div 256 = 0" "n div 4096 = 0" by simp_all
    with 2 show ?thesis by (simp add: format_04x_def digits_of_16 hex4_def z Let_def numeral_2_eq_2)
  next
    case 3
    then have "16 \<le> n div 16" "n div 256 < 16" "n div 4096 = 0" "n div 16 div 16 = n div 256" by simp_all
    with 3 show ?thesis by (simp add: format_04x_def digits_of_16 hex4_def z Let_def)
  next
    case 4
    then have "16 \<le> n div 16" "16 \<le> n div 256" "n div 4096 < 16" "n div 16 div 16 = n div 256" "n div 256 div 16 = n div 4096"
      using assms by simp_all
    with 4 show ?thesis by (simp add: format_04x_def digits_of_16 hex4_def z Let_def)
  qed
qed

lemma hex_digit_char: "d < 16 \<Longrightarrow> hex_digit (digit_char d) = Some (of_nat d)"
proof -
  assume d: "d < 16"
  note u = unat_digit_char [OF d]
  have w: "ucast (digit_char d) = (of_nat (unat (digit_char d)) :: u32)" by simp
  show ?thesis
    using d u by (cases "d < 10") (simp_all add: hex_digit_def word_le_nat_alt word_less_nat_alt w)
qed

lemma hex_step:
  assumes "16 * v + d < 2 ^ 32" and "d < 16"
  shows "push_bit 4 (of_nat v) OR of_nat d = (of_nat (16 * v + d) :: u32)"
proof -
  have u: "unat (of_nat v :: u32) = v" "unat (of_nat d :: u32) = d" "unat (of_nat (16 * v + d) :: u32) = 16 * v + d"
    by (rule unat_of_nat_small; use assms in simp)+
  have "unat (push_bit 4 (of_nat v) OR of_nat d :: u32) = 16 * v + d"
    using unat_push_or [of "of_nat d :: u32" 4 "of_nat v"] assms by (simp add: u mult.commute)
  then show ?thesis unfolding word_unat_eq_iff u(3) .
qed

lemma parse_hex4_format:
  assumes "n < 65536"
  shows "parse_hex4 (format_04x n @ r) = Some (of_nat n)"
proof -
  have b: "n div 4096 < 16" using assms by simp
  have "16 * (n div 4096) + n div 256 mod 16 = n div 256" "16 * (n div 256) + n div 16 mod 16 = n div 16"
    "16 * (n div 16) + n mod 16 = n"
    using mult_div_mod_eq [of 16 "n div 256"] mult_div_mod_eq [of 16 "n div 16"] mult_div_mod_eq [of 16 n]
    by (simp_all flip: div_mult2_eq)
  note eq = this
  have "n div 256 < 2 ^ 32" "n div 16 < 2 ^ 32" "n < 2 ^ 32" using assms by simp_all
  note h = hex_step [of "n div 4096" "n div 256 mod 16", unfolded eq, OF this(1)]
    hex_step [of "n div 256" "n div 16 mod 16", unfolded eq, OF this(2)] hex_step [of "n div 16" "n mod 16", unfolded eq, OF this(3)]
  show ?thesis
    using h b by (simp add: parse_hex4_def format_04x_hex4 [OF assms] hex4_def hex_digit_char)
qed

lemma length_format_04x: "n < 65536 \<Longrightarrow> length (format_04x n) = 4"
  by (simp add: format_04x_hex4 hex4_def)

lemma of_nat_unat_u32 [simp]: "(of_nat (unat (w :: u32)) :: u32) = w"
  by simp

lemma append_scalar: "\<not> not_scalar cp \<Longrightarrow> append_or_fail start msg cp sb s = (sb @ utf8_encode_code_point cp, s)"
  using read_encoded(4) by (auto simp: append_or_fail_def sb_append_code_point_def Let_def)

lemma bmp_escapes:
  assumes "unat v < 65536" and "\<not> not_scalar v"
  shows "escapes (SMALL_U # format_04x (unat v)) (utf8_encode_code_point v)"
  unfolding escapes_def
proof (intro allI impI)
  fix start sb r and s :: JsonParser
  assume f: "\<not> failed s" and r: "rest s = (SMALL_U # format_04x (unat v)) @ r"
  have h: "parse_hex4 (format_04x (unat v) @ r) = Some v" using parse_hex4_format [OF assms(1)] by simp
  have l: "length (format_04x (unat v)) = 4" using length_format_04x [OF assms(1)] .
  have ns: "\<not> (0xD800 \<le> v \<and> v \<le> 0xDFFF)" using assms(2) by (auto simp: not_scalar_def)
  then have ns': "\<not> (0xD800 \<le> v \<and> v \<le> 0xDBFF)" "\<not> (0xDC00 \<le> v \<and> v \<le> 0xDFFF)"
    by (auto simp: word_le_nat_alt)
  have "parse_escape start sb s = (sb @ utf8_encode_code_point v, advances 4 (advance s))"
    using r l h ns' assms(2)
    by (auto simp: parse_escape_def parse_unicode_escape_def at_end_def append_scalar Let_def)
  then show "fst (parse_escape start sb s) = sb @ utf8_encode_code_point v \<and> reads s (snd (parse_escape start sb s)) r []"
    using f r l by (simp add: reads_def)
qed

lemma surrogate_nat:
  fixes cp :: u32
  assumes "0x10000 \<le> unat cp" and "unat cp \<le> 0x10FFFF"
  defines "v \<equiv> cp - 0x10000"
  shows "unat (0xD800 + drop_bit 10 v) = 0xD800 + (unat cp - 0x10000) div 1024"
    "unat (0xDC00 + (v AND 0x3FF)) = 0xDC00 + (unat cp - 0x10000) mod 1024"
    "0x10000 + push_bit 10 (0xD800 + drop_bit 10 v - 0xD800) + (0xDC00 + (v AND 0x3FF) - 0xDC00) = cp"
proof -
  have uv: "unat v = unat cp - 0x10000"
    unfolding v_def by (subst unat_sub) (use assms(1) in \<open>simp_all add: word_le_nat_alt\<close>)
  have d: "unat (drop_bit 10 v) = unat v div 1024" unfolding unat_drop_bit_eq by (simp add: drop_bit_eq_div)
  have m: "v AND 0x3FF = take_bit 10 v" using take_bit_eq_mask [of 10 v] by (simp add: mask_eq_exp_minus_1)
  have t: "unat (take_bit 10 v) = unat v mod 1024" by (simp add: unat_take_bit_word)
  have b: "unat v div 1024 < 1024" "unat v mod 1024 < 1024" using assms(2) uv by simp_all
  show "unat (0xD800 + drop_bit 10 v) = 0xD800 + (unat cp - 0x10000) div 1024"
    unfolding uv [symmetric] d [symmetric] using b(1) d by (simp add: unat_word_ariths)
  show "unat (0xDC00 + (v AND 0x3FF)) = 0xDC00 + (unat cp - 0x10000) mod 1024"
    unfolding uv [symmetric] m t [symmetric] using b(2) t by (simp add: unat_word_ariths)
  show "0x10000 + push_bit 10 (0xD800 + drop_bit 10 v - 0xD800) + (0xDC00 + (v AND 0x3FF) - 0xDC00) = cp"
    using bits_ident [of 10 v] unfolding m by (simp add: v_def add.assoc)
qed

lemma pair_escapes:
  assumes "0x10000 \<le> unat cp" and "unat cp \<le> 0x10FFFF"
  defines "v \<equiv> cp - 0x10000"
  defines "hi \<equiv> 0xD800 + drop_bit 10 v" and "lo \<equiv> 0xDC00 + (v AND 0x3FF)"
  shows "escapes (SMALL_U # format_04x (unat hi) @ unicode_escape lo) (utf8_encode_code_point cp)"
  unfolding escapes_def
proof (intro allI impI)
  fix start sb r and s :: JsonParser
  assume f: "\<not> failed s" and r: "rest s = (SMALL_U # format_04x (unat hi) @ unicode_escape lo) @ r"
  note n = surrogate_nat [OF assms(1,2), folded v_def, folded hi_def lo_def]
  have b: "unat hi < 65536" "unat lo < 65536" and rng: "0xD800 \<le> hi \<and> hi \<le> 0xDBFF" "0xDC00 \<le> lo \<and> lo \<le> 0xDFFF"
    using assms(2) by (auto simp: word_le_nat_alt n(1,2) div_le_mono less_mult_imp_div_less)
  have h: "parse_hex4 (format_04x (unat hi) @ x) = Some hi" "parse_hex4 (format_04x (unat lo) @ x) = Some lo" for x
    using parse_hex4_format [OF b(1)] parse_hex4_format [OF b(2)] by simp_all
  have l: "length (format_04x (unat hi)) = 4" "length (format_04x (unat lo)) = 4" using length_format_04x b by simp_all
  have ns: "\<not> not_scalar cp" using assms(1,2) by (simp add: not_scalar_nat)
  define s1 where "s1 = advances 4 (advance s)"
  have s1: "rest s1 = BACKSLASH # SMALL_U # format_04x (unat lo) @ r" "\<not> failed s1"
    using r l(1) f by (simp_all add: s1_def unicode_escape_def)
  have "parse_escape start sb s = parse_low_surrogate start hi sb s1"
    using r l h(1) rng(1) by (simp add: parse_escape_def parse_unicode_escape_def at_end_def s1_def unicode_escape_def)
  also have "\<dots> = (sb @ utf8_encode_code_point cp, advances 4 (advance (advance s1)))"
    using s1 l(2) h(2) rng(2) n(3) append_scalar [OF ns] by (simp add: parse_low_surrogate_def peek_next_def)
  finally show "fst (parse_escape start sb s) = sb @ utf8_encode_code_point cp \<and> reads s (snd (parse_escape start sb s)) r []"
    using s1 l(2) f by (simp add: reads_def) (simp add: s1_def)
qed

text \<open>The text of one code point: what it spells, and that it is valid.\<close>

definition spells_code_point :: "utf8 \<Rightarrow> u32 \<Rightarrow> bool" where
  "spells_code_point t cp \<longleftrightarrow> utf8_is_valid t
     \<and> (\<forall>t' bs. spells t' bs \<longrightarrow> spells (t @ t') (utf8_encode_code_point cp @ bs))"

lemma format_04x_ascii:
  assumes "n < 65536"
  shows "\<forall>c \<in> set (format_04x n). unat c < 128"
proof -
  have "\<forall>d \<in> set (hex4 n). d < 16" using assms by (simp add: hex4_def)
  then show ?thesis unfolding format_04x_hex4 [OF assms] using unat_digit_char by auto
qed

lemma unicode_escape_ascii: "unat v < 65536 \<Longrightarrow> \<forall>c \<in> set (unicode_escape v). unat c < 128"
  using format_04x_ascii by (auto simp: unicode_escape_def)

lemma spells_bmp:
  assumes "unat v < 65536" and "\<not> not_scalar v"
  shows "spells_code_point (unicode_escape v) v"
  using Escape [OF bmp_escapes [OF assms]] valid_ascii [OF unicode_escape_ascii [OF assms(1)]]
  by (simp add: spells_code_point_def unicode_escape_def)

lemma spells_plain:
  assumes "\<forall>c \<in> set (utf8_encode_code_point cp). is_plain c" and "\<not> not_scalar cp"
  shows "spells_code_point (utf8_encode_code_point cp) cp"
proof -
  have "spells (u @ t') (u @ bs)" if "\<forall>c \<in> set u. is_plain c" "spells t' bs" for u t' bs
    using that by (induction u) (auto intro: Plain)
  moreover have "utf8_is_valid (utf8_encode_code_point cp)" using valid_text [of "[cp]"] assms(2) by simp
  ultimately show ?thesis using assms(1) by (simp add: spells_code_point_def)
qed

lemma spells_short:
  assumes "short_escape c = Some e" and "utf8_encode_code_point cp = [c]"
  shows "spells_code_point e cp"
proof -
  have "c \<in> {QUOTE, BACKSLASH, 0x08, 0x0C, LF, CR, TAB}"
    using assms(1) by (rule contrapos_pp) (simp add: short_escape_def)
  then have "e = [BACKSLASH, e ! 1] \<and> simple_escape (e ! 1) = Some c \<and> e ! 1 \<noteq> SMALL_U \<and> unat (e ! 1) < 128"
    using assms(1) by (elim insertE emptyE) (auto simp: short_escape_def simple_escape_def)
  then obtain x where e: "e = [BACKSLASH, x]" "simple_escape x = Some c" "x \<noteq> SMALL_U" "unat x < 128" by blast
  have "escapes [x] [c]" using e by (auto simp: escapes_def parse_escape_def at_end_def reads_def)
  from Escape [OF this] e assms(2) show ?thesis by (simp add: spells_code_point_def valid_ascii)
qed

lemma continue_step: "unat x < 2 ^ 26 \<Longrightarrow> unat (push_bit 6 x OR ucast (b AND 0x3F) :: u32) = unat x * 64 + unat (b :: u8) mod 64"
  using unat_push_or [of "ucast (b AND 0x3F) :: u32" 6 x] by simp

lemma continue_bytes:
  "128 \<le> unat b \<Longrightarrow> unat b < 192 \<Longrightarrow>
     continue_code_point (Suc k) (b # data) cp = continue_code_point k data (push_bit 6 cp OR ucast (b AND 0x3F))"
  "128 \<le> unat b \<Longrightarrow> unat b < 192 \<Longrightarrow>
     continue_code_point 2 (b # data) cp = continue_code_point 1 data (push_bit 6 cp OR ucast (b AND 0x3F))"
  "128 \<le> unat b \<Longrightarrow> unat b < 192 \<Longrightarrow>
     continue_code_point 3 (b # data) cp = continue_code_point 2 data (push_bit 6 cp OR ucast (b AND 0x3F))"
  by (simp_all add: numeral_2_eq_2 numeral_3_eq_3)

lemma unat_lead_bits:
  fixes b :: u8
  shows "unat (ucast (b AND 0x1F) :: u32) = unat b mod 32" "unat (ucast (b AND 0x0F) :: u32) = unat b mod 16"
    "unat (ucast (b AND 0x07) :: u32) = unat b mod 8"
  by simp_all

lemma escaped_code_point:
  assumes "\<not> not_scalar cp" and "0x80 \<le> unat cp"
  defines "v \<equiv> cp - 0x10000"
  shows "write_escaped_utf8 (utf8_encode_code_point cp @ data) =
    (if unat cp < 0x10000 then unicode_escape cp
     else unicode_escape (0xD800 + drop_bit 10 v) @ unicode_escape (0xDC00 + (v AND 0x3FF)), length (utf8_encode_code_point cp) - 1)"
proof (cases rule: encode_bytes [OF assms(1)])
  case 1
  with assms(2) show ?thesis by simp
next
  case (2 b0 b1)
  have "unat cp div 64 < 32" using 2 by simp
  then have "push_bit 6 (ucast (b0 AND 0x1F)) OR ucast (b1 AND 0x3F) = cp"
    unfolding word_unat_eq_iff by (subst continue_step) (simp_all add: unat_lead_bits 2)
  with 2 \<open>unat cp div 64 < 32\<close> show ?thesis
    by (simp add: write_escaped_utf8_def continue_bytes word_le_nat_alt)
next
  case (3 b0 b1 b2)
  have b: "unat cp div 64 div 64 < 16" using 3 by simp
  then have "push_bit 6 (push_bit 6 (ucast (b0 AND 0x0F)) OR ucast (b1 AND 0x3F)) OR ucast (b2 AND 0x3F) = cp"
    unfolding word_unat_eq_iff using horner(1) [of "unat cp"]
    by (subst continue_step, subst continue_step) (simp_all add: unat_lead_bits 3 continue_step)
  with 3 b show ?thesis
    by (simp add: write_escaped_utf8_def continue_bytes word_le_nat_alt)
next
  case (4 b0 b1 b2 b3)
  have b: "unat cp div 64 div 64 div 64 < 8"
    using div_le_mono [OF 4(7), of 262144] by (simp flip: div_mult2_eq)
  have c: "unat cp div 64 < 67108864" using 4(7) by simp
  then have c2: "unat cp div 64 div 64 < 67108864" by (rule le_less_trans [OF div_le_dividend])
  define x1 :: u32 where "x1 = push_bit 6 (ucast (b0 AND 0x07)) OR ucast (b1 AND 0x3F)"
  define x2 where "x2 = push_bit 6 x1 OR ucast (b2 AND 0x3F)"
  have u1: "unat x1 = unat cp div 64 div 64"
    unfolding x1_def using b by (subst continue_step) (simp_all add: unat_lead_bits 4)
  have u2: "unat x2 = unat cp div 64"
    unfolding x2_def using c2 by (subst continue_step) (simp_all add: u1 4)
  have "push_bit 6 x2 OR ucast (b3 AND 0x3F) = cp"
    unfolding word_unat_eq_iff using c by (subst continue_step) (simp_all add: u2 4)
  note this [unfolded x2_def x1_def]
  with 4 b show ?thesis
    by (simp add: write_escaped_utf8_def continue_bytes word_le_nat_alt v_def Let_def)
qed

lemma high_bytes:
  assumes "\<not> not_scalar cp" and "0x80 \<le> unat cp"
  shows "\<forall>c \<in> set (utf8_encode_code_point cp). 128 \<le> unat c" "utf8_encode_code_point cp \<noteq> []"
  using assms by (cases rule: encode_bytes [OF assms(1)]; auto)+

lemma high_byte: "128 \<le> unat c \<Longrightarrow> short_escape c = None \<and> \<not> c < 0x20 \<and> 0x80 \<le> c \<and> is_plain c"
  by (auto simp: short_escape_def word_less_nat_alt word_le_nat_alt is_plain_def)

lemma string_loop_Nil [simp]: "string_loop opts [] = []"
  by (simp add: string_loop.simps)

lemma string_loop_high:
  "\<not> ensure_ascii opts \<Longrightarrow> \<forall>c \<in> set u. 128 \<le> unat c \<Longrightarrow> string_loop opts (u @ data) = u @ string_loop opts data"
proof (induction u)
  case (Cons c u)
  then show ?case using high_byte [of c] by (subst string_loop.simps) simp
qed simp

lemma string_loop_code_point:
  assumes "\<not> not_scalar cp"
  shows "\<exists>t. string_loop opts (utf8_encode_code_point cp @ data) = t @ string_loop opts data \<and> spells_code_point t cp"
proof (cases "unat cp < 0x80")
  case True
  then obtain c where c: "utf8_encode_code_point cp = [c]" "unat c = unat cp"
  proof -
    have "\<exists>c. utf8_encode_code_point cp = [c] \<and> unat c = unat cp"
      by (cases rule: encode_bytes [OF assms]) (use True in auto)
    with that show thesis by blast
  qed
  then have cc: "ucast c = cp" by (simp add: word_unat_eq_iff)
  consider (short) e where "short_escape c = Some e" | (control) "short_escape c = None" "c < 0x20"
    | (plain) "short_escape c = None" "\<not> c < 0x20" by (cases "short_escape c") auto
  then show ?thesis
  proof cases
    case short
    then show ?thesis using spells_short [OF short c(1)] by (auto simp: c(1) string_loop.simps [of opts "c # data"])
  next
    case control
    then have "spells_code_point (unicode_escape cp) cp" using spells_bmp [of cp] assms True by simp
    with control show ?thesis by (auto simp: c(1) cc string_loop.simps [of opts "c # data"])
  next
    case plain
    then have "is_plain c" by (auto simp: is_plain_def short_escape_def)
    then have "spells_code_point [c] cp" using spells_plain [of cp] c(1) assms by simp
    moreover have "\<not> 0x80 \<le> c" using True c(2) by (simp add: word_le_nat_alt)
    ultimately show ?thesis using plain by (auto simp: c(1) string_loop.simps [of opts "c # data"])
  qed
next
  case False
  then have hi: "0x80 \<le> unat cp" by simp
  note hb = high_bytes [OF assms hi]
  show ?thesis
  proof (cases "ensure_ascii opts")
    case True
    obtain c u where c: "utf8_encode_code_point cp = c # u" using hb(2) by (cases "utf8_encode_code_point cp") auto
    define v where "v = cp - 0x10000"
    define t where "t = (if unat cp < 0x10000 then unicode_escape cp
      else unicode_escape (0xD800 + drop_bit 10 v) @ unicode_escape (0xDC00 + (v AND 0x3FF)))"
    have "string_loop opts (utf8_encode_code_point cp @ data) = t @ string_loop opts data"
      using escaped_code_point [OF assms hi, of data, folded v_def, folded t_def] high_byte [of c] hb(1) True
      by (subst string_loop.simps) (simp add: c)
    moreover have "spells_code_point t cp"
    proof (cases "unat cp < 0x10000")
      case True
      then show ?thesis using spells_bmp [of cp] assms by (simp add: t_def)
    next
      case False
      then have r: "0x10000 \<le> unat cp" "unat cp \<le> 0x10FFFF" using assms by (simp_all add: not_scalar_nat)
      note n = surrogate_nat [OF r, folded v_def]
      have "unat (0xD800 + drop_bit 10 v) < 65536" "unat (0xDC00 + (v AND 0x3FF)) < 65536"
        using r by (auto simp: n(1,2) less_mult_imp_div_less)
      then have "utf8_is_valid t"
        using False unicode_escape_ascii by (auto simp: t_def intro!: valid_ascii)
      then show ?thesis
        using Escape [OF pair_escapes [OF r, folded v_def]] False
        by (simp add: spells_code_point_def t_def unicode_escape_def)
    qed
    ultimately show ?thesis by blast
  next
    case False
    then show ?thesis
      using string_loop_high [OF False hb(1)] spells_plain [OF _ assms] high_byte hb(1) by blast
  qed
qed

lemma string_loop_spells: "scalars cps \<Longrightarrow> spells (string_loop opts (utf8_text cps)) (utf8_text cps) \<and> utf8_is_valid (string_loop opts (utf8_text cps))"
proof (induction cps)
  case (Cons cp cps)
  then show ?case
    using string_loop_code_point [of cp opts "utf8_text cps"] by (auto simp: spells_code_point_def valid_append)
qed (simp add: Nil)

lemma intern_valid: "utf8_is_valid t \<Longrightarrow> arena_intern t = t \<and> sb_build_or_empty t = t"
  using valid_count [of t] by (cases "t = []") (auto simp: arena_intern_def sb_build_or_empty_def)

lemma string_reads:
  assumes "\<not> failed s" and "rest s = write_string opts str @ r" and "utf8_is_valid str"
  shows "fst (parse_string_into s) = str \<and> reads s (snd (parse_string_into s)) r []"
proof -
  define t where "t = string_loop opts str"
  have sp: "spells t str" using string_loop_spells valid_is_text [OF assms(3)] unfolding t_def by metis
  obtain bs where bs: "str = takeWhile is_plain t @ bs" "spells (dropWhile is_plain t) bs" using spells_run [OF sp] by blast
  have r: "rest s = QUOTE # t @ QUOTE # r" using assms(2) by (simp add: write_string_def t_def)
  define s1 where "s1 = advance_while is_plain (advance s)"
  have s1: "reads s s1 (dropWhile is_plain t @ QUOTE # r) []" using assms(1) r by (simp add: reads_def s1_def)
  have c: "takeWhile is_plain (rest (advance s)) = takeWhile is_plain t" using r by simp
  have eq: "parse_string_into s = (if peek s1 = QUOTE then (arena_intern (takeWhile is_plain t), advance s1)
      else if peek s1 = BACKSLASH then let (sb, s) = string_slow (loc s) (takeWhile is_plain t) s1
        in if failed s then ([], s) else (arena_intern (sb_build_or_empty sb), s)
      else ([], fail (loc s) ''unescaped control character in string'' s1))"
    unfolding parse_string_into_def Let_def s1_def [symmetric] c using s1 by (simp add: at_end_def reads_def)
  show ?thesis
  proof (cases "dropWhile is_plain t = []")
    case True
    have "spells [] bs" "rest s1 = QUOTE # r" using bs(2) s1 unfolding True by (simp_all add: reads_def)
    then have "bs = []" "peek s1 = QUOTE" by (auto elim: spells_Nil)
    then show ?thesis using s1 True bs(1) intern_valid [OF assms(3)] by (simp add: eq reads_def)
  next
    case False
    then have h: "hd (dropWhile is_plain t) = BACKSLASH" using spells_hd [OF bs(2)] hd_dropWhile [of is_plain t] by blast
    then have "peek s1 = BACKSLASH" using s1 False by (cases "dropWhile is_plain t") (auto simp: reads_def)
    moreover have "fst (string_slow (loc s) (takeWhile is_plain t) s1) = str \<and> reads s1 (snd (string_slow (loc s) (takeWhile is_plain t) s1)) r []"
      using string_slow_reads [OF _ _ bs(2), of s1 r] s1 bs(1) by (simp add: reads_def)
    ultimately show ?thesis
      using intern_valid [OF assms(3)] s1 by (simp add: eq case_prod_beta Let_def reads_def)
  qed
qed

end
