(* ===== verification/Json_Props.thy ===== *)
theory Json_Props
  imports Json_Scalar_Props
begin

text \<open>
  Round trip of JSON: the text of a value, compact or pretty, with or without escaping of
  non-ASCII characters, is read back as the value.
\<close>

section \<open>Texts of values\<close>

text \<open>How the text of a value begins.\<close>

definition starts :: "utf8 \<Rightarrow> bool" where
  "starts t \<longleftrightarrow> t \<noteq> [] \<and> \<not> is_ws (hd t) \<and> hd t \<notin> {SLASH, RBRACKET, RBRACE, 0xEF}"

text \<open>\<open>p\<close> reads the text \<open>t\<close> at depth \<open>d\<close>, after any blanks and before anything that ends a number.\<close>

definition reads_text ::
    "nat \<Rightarrow> nat \<Rightarrow> (JsonParser \<Rightarrow> JsonParser option) \<Rightarrow> (JsonEvent list \<Rightarrow> bool) \<Rightarrow> utf8 \<Rightarrow> bool" where
  "reads_text m d p done t \<longleftrightarrow>
     (\<forall>s ws r. \<not> failed s \<longrightarrow> depth s = d \<longrightarrow> rest s = ws @ t @ r \<longrightarrow> blank ws \<longrightarrow> stops r \<longrightarrow> length (rest s) < m \<longrightarrow>
        (\<exists>s' es. p s = Some s' \<and> reads s s' r es \<and> done es))"

lemma reads_textD:
  "reads_text m d p done t \<Longrightarrow> \<not> failed s \<Longrightarrow> depth s = d \<Longrightarrow> rest s = ws @ t @ r \<Longrightarrow> blank ws \<Longrightarrow> stops r \<Longrightarrow>
     length (rest s) < m \<Longrightarrow> \<exists>s' es. p s = Some s' \<and> reads s s' r es \<and> done es"
  by (simp add: reads_text_def)

lemma blank_simps [simp]: "blank []" "blank (ws @ ws') \<longleftrightarrow> blank ws \<and> blank ws'" "blank (c # ws) \<longleftrightarrow> is_ws c \<and> blank ws"
  by (auto simp: blank_def)

lemma stops_simps [simp]: "stops []" "stops (COMMA # r)" "stops (RBRACKET # r)" "stops (RBRACE # r)"
  by (simp_all add: stops_def is_digit_def)

lemma stops_blank: "blank ws \<Longrightarrow> stops r \<Longrightarrow> stops (ws @ r)"
  by (cases ws) (auto simp: stops_def is_ws_def is_digit_def)

lemma stands_simps [simp]:
  "stands []" "stands (COMMA # r)" "stands (RBRACKET # r)" "stands (RBRACE # r)" "stands (COLON # r)" "stands (QUOTE # r)"
  "starts t \<Longrightarrow> stands (t @ r)"
  by (auto simp: stands_def is_ws_def starts_def)

text \<open>The texts after the first one, each after a comma.\<close>

definition more :: "utf8 \<Rightarrow> utf8 list \<Rightarrow> utf8" where
  "more ind ts = concat (map (\<lambda>t. COMMA # ind @ t) ts)"

lemma more_simps [simp]: "more ind [] = []" "more ind (t # ts) = COMMA # ind @ t @ more ind ts"
  by (simp_all add: more_def)

lemma separated_more: "separated (map (\<lambda>t. ind @ t) (t # ts)) = ind @ t @ more ind ts"
  by (induction ts arbitrary: t) simp_all

lemma stops_more: "blank ws \<Longrightarrow> stops r \<Longrightarrow> stops (more ind ts @ ws @ r)"
  by (cases ts) (simp_all add: stops_blank)

section \<open>Loops\<close>

lemma tail_closes:
  assumes "\<not> failed s" and "rest s = ws @ bracket # r" and "blank ws" and "bracket \<in> {RBRACKET, RBRACE}"
  shows "\<exists>s' l. item_tail bracket close_event trailing expected opts again s = Some s' \<and> reads s s' r [close_event l]"
proof -
  define s1 where "s1 = skip_ws_and_comments opts s"
  have s1: "reads s s1 (bracket # r) []"
    unfolding s1_def by (rule skip_reads [OF assms(1,2,3)]) (use assms(4) in auto)
  have "item_tail bracket close_event trailing expected opts again s = Some (emit (close_event (loc (advance s1))) (advance s1))"
    using s1 assms(4) by (auto simp: item_tail_def Let_def s1_def [symmetric] reads_def)
  with s1 show ?thesis by (auto simp: reads_def)
qed

lemma tail_continues:
  assumes "\<not> failed s" and "rest s = COMMA # ws @ t @ r" and "blank ws" and "starts t" and "bracket \<in> {RBRACKET, RBRACE}"
  shows "\<exists>s'. item_tail bracket close_event trailing expected opts again s = again s' \<and> reads s s' (t @ r) []"
proof -
  define s1 where "s1 = skip_ws_and_comments opts s"
  define s2 where "s2 = skip_ws_and_comments opts (advance s1)"
  have s1: "reads s s1 (COMMA # ws @ t @ r) []"
    unfolding s1_def by (rule skip_reads [of _ "[]"]) (use assms in simp_all)
  have s2: "reads (advance s1) s2 (t @ r) []"
    unfolding s2_def by (rule skip_reads [OF _ _ assms(3)]) (use s1 assms in \<open>simp_all add: reads_def\<close>)
  have "peek s2 \<noteq> bracket" using s2 assms(4,5) by (auto simp: peek_def reads_def starts_def neq_Nil_conv)
  moreover have "peek s1 = COMMA" using s1 by (simp add: reads_def)
  ultimately have "item_tail bracket close_event trailing expected opts again s = again s2"
    using s1 s2 by (simp add: item_tail_def Let_def s1_def [symmetric] s2_def [symmetric] reads_def)
  moreover have "reads s s2 (t @ r) []" using s1 s2 by (simp add: reads_def)
  ultimately show ?thesis by blast
qed

context bracketed
begin

text \<open>A loop over the texts \<open>fst x\<close> of the items \<open>snd x\<close>.\<close>

lemma loop_reads:
  assumes step: "\<And>n s. loop (Suc n) s = (case one s of None \<Rightarrow> None | Some s \<Rightarrow> if failed s then Some s
      else item_tail bracket close_event trailing expected opts (loop n) s)"
    and b: "bracket \<in> {RBRACKET, RBRACE}" and ind: "blank ind" "blank ind'"
  shows "\<forall>y \<in> set (x # xs). starts (fst y) \<and> reads_text m d one (\<lambda>es. item es (snd y)) (fst y) \<Longrightarrow>
    \<not> failed s \<Longrightarrow> depth s = d \<Longrightarrow> blank ws \<Longrightarrow> rest s = ws @ fst x @ more ind (map fst xs) @ ind' @ bracket # r \<Longrightarrow>
    length (rest s) < n \<Longrightarrow> length (rest s) < m \<Longrightarrow>
    \<exists>s' es. loop n s = Some s' \<and> reads s s' r es \<and> closes es (map snd (x # xs))"
proof (induction xs arbitrary: x s ws n)
  case Nil
  obtain k where n: "n = Suc k" using Nil.prems(6) by (cases n) auto
  have st: "stops (ind' @ bracket # r)" by (rule stops_blank [OF ind(2)]) (use b in auto)
  obtain s1 es where s1: "one s = Some s1" "reads s s1 (ind' @ bracket # r) es" "item es (snd x)"
    using reads_textD [of m d one "\<lambda>es. item es (snd x)" "fst x" s ws "ind' @ bracket # r"] Nil.prems st
    by auto
  obtain s' l where s': "item_tail bracket close_event trailing expected opts (loop k) s1 = Some s'" "reads s1 s' r [close_event l]"
    using tail_closes [OF _ _ ind(2) b, of s1 r close_event trailing expected opts "loop k"] s1(2)
    unfolding reads_def by blast
  have "loop n s = Some s'" unfolding n step s1(1) using s1(2) s'(1) by (simp add: reads_def)
  moreover have "closes (es @ [close_event l]) [snd x]" using item_closes [OF s1(3) close_closes] .
  ultimately show ?case using reads_trans [OF s1(2) s'(2)] by auto
next
  case (Cons y ys)
  obtain k where n: "n = Suc k" using Cons.prems(6) by (cases n) auto
  let ?r = "fst y @ more ind (map fst ys) @ ind' @ bracket # r"
  obtain s1 es where s1: "one s = Some s1" "reads s s1 (COMMA # ind @ ?r) es" "item es (snd x)"
    using reads_textD [of m d one "\<lambda>es. item es (snd x)" "fst x" s ws "COMMA # ind @ ?r"] Cons.prems by auto
  obtain s2 where s2: "item_tail bracket close_event trailing expected opts (loop k) s1 = loop k s2" "reads s1 s2 ?r []"
    using tail_continues [OF _ _ ind(1) _ b, of s1 "fst y" "more ind (map fst ys) @ ind' @ bracket # r"
        close_event trailing expected opts "loop k"] s1(2) Cons.prems(1)
    by (simp add: reads_def) blast
  have len: "length (rest s2) < k" "length (rest s2) < m"
    using s1(2) s2(2) Cons.prems(5,6,7) n by (auto simp: reads_def)
  obtain s' es' where s': "loop k s2 = Some s'" "reads s2 s' r es'" "closes es' (map snd (y # ys))"
    using Cons.IH [of y s2 "[]" k] Cons.prems(1,3) s1(2) s2(2) len by (auto simp: reads_def)
  have "loop n s = Some s'" unfolding n step s1(1) using s1(2) s2(1) s'(1) by (simp add: reads_def)
  moreover have "closes (es @ es') (map snd (x # y # ys))" using item_closes [OF s1(3) s'(3)] by simp
  ultimately show ?case using reads_trans [OF reads_trans [OF s1(2) s2(2)] s'(2)] by auto
qed

end

context container
begin

lemma container_reads:
  assumes "\<not> failed s" and "depth s < max_depth opts" and "rest s = c # ws @ u" and "blank ws" and "stands u"
    and b: "bracket \<in> {RBRACKET, RBRACE}"
    and u: "u = bracket # r \<and> xs = [] \<or> u \<noteq> [] \<and> hd u \<noteq> bracket \<and>
      (\<forall>s1. \<not> failed s1 \<longrightarrow> depth s1 = Suc (depth s) \<longrightarrow> rest s1 = u \<longrightarrow>
        (\<exists>s' es. items s1 = Some s' \<and> reads s1 s' r es \<and> closes es xs))"
  shows "\<exists>s' es. parse_container open_event close_event bracket items opts s = Some s' \<and> reads s s' r es \<and> delivers es (make xs)"
proof -
  define s1 where "s1 = emit (open_event (loc s)) ((advance s)\<lparr>depth := depth s + 1\<rparr>)"
  define s2 where "s2 = skip_ws_and_comments opts s1"
  have s1: "\<not> failed s1" "rest s1 = ws @ u" "depth s1 = Suc (depth s)" "events s1 = events s @ [open_event (loc s)]"
    using assms(1,3) by (simp_all add: s1_def)
  have s2: "reads s1 s2 u []" unfolding s2_def by (rule skip_reads [OF s1(1,2) assms(4,5)])
  have eq: "parse_container open_event close_event bracket items opts s = map_option (\<lambda>s. s\<lparr>depth := depth s - 1\<rparr>)
      (if peek s2 = bracket then Some (emit (close_event (loc (advance s2))) (advance s2)) else items s2)"
    unfolding parse_container_def Let_def s1_def [symmetric] s2_def [symmetric] using assms(1,2) s2 by (simp add: reads_def)
  obtain s3 es where s3: "(if peek s2 = bracket then Some (emit (close_event (loc (advance s2))) (advance s2)) else items s2) = Some s3"
    "reads s2 s3 r es" "closes es xs"
  proof (cases "u = bracket # r \<and> xs = []")
    case True
    then show thesis
      using that [of "emit (close_event (loc (advance s2))) (advance s2)"] close_closes s2 by (simp add: reads_def)
  next
    case False
    then have "peek s2 \<noteq> bracket" using u s2 by (auto simp: reads_def peek_def neq_Nil_conv)
    moreover have "\<exists>s' es. items s2 = Some s' \<and> reads s2 s' r es \<and> closes es xs"
      using False u s1(3) s2 by (auto simp: reads_def)
    ultimately show thesis using that by auto
  qed
  have "parse_container open_event close_event bracket items opts s = Some (s3\<lparr>depth := depth s3 - 1\<rparr>)"
    unfolding eq s3(1) by simp
  moreover have "reads s (s3\<lparr>depth := depth s3 - 1\<rparr>) r (open_event (loc s) # es)" using s1 s2 s3(2) by (simp add: reads_def)
  ultimately show ?thesis using open_delivers [OF s3(3)] by blast
qed

text \<open>The bracketed text of a list of items, with blanks before each and before the end.\<close>

lemma list_reads:
  assumes step: "\<And>n s. loop (Suc n) s = (case one s of None \<Rightarrow> None | Some s \<Rightarrow> if failed s then Some s
      else item_tail bracket close_event trailing expected opts (loop n) s)"
    and b: "bracket \<in> {RBRACKET, RBRACE}" and ind: "blank ind" "blank ind'"
    and s: "\<not> failed s" "depth s < max_depth opts" "length (rest s) \<le> m"
    and its: "\<forall>y \<in> set ys. starts (fst y) \<and> reads_text m (Suc (depth s)) one (\<lambda>es. item es (snd y)) (fst y)"
    and whole: "rest s = c # separated (map (\<lambda>y. ind @ fst y) ys) @ (if ys = [] then [] else ind') @ bracket # r"
  shows "\<exists>s' es. parse_container open_event close_event bracket (loop m) opts s = Some s' \<and> reads s s' r es
    \<and> delivers es (make (map snd ys))"
proof (cases ys)
  case Nil
  then show ?thesis
    using container_reads [OF s(1,2), of c "[]" "bracket # r" bracket r "[]" "loop m"] whole b by auto
next
  case (Cons x xs)
  let ?u = "fst x @ more ind (map fst xs) @ ind' @ bracket # r"
  have t: "rest s = c # ind @ ?u"
    using whole separated_more [of ind "fst x" "map fst xs"] by (simp add: Cons comp_def)
  have u: "?u \<noteq> [] \<and> hd ?u \<noteq> bracket" using its b by (auto simp: Cons starts_def)
  have "\<exists>s' es. loop m s1 = Some s' \<and> reads s1 s' r es \<and> closes es (map snd ys)"
    if "\<not> failed s1" "depth s1 = Suc (depth s)" "rest s1 = ?u" for s1
    unfolding Cons by (rule loop_reads [where loop = loop and one = one, OF step b ind, of x xs m "Suc (depth s)" s1 "[]"])
      (use its that s(3) t in \<open>auto simp: Cons\<close>)
  then show ?thesis
    using container_reads [OF s(1,2) t ind(1) _ b, of r "map snd ys" "loop m"] u its by (auto simp: Cons)
qed

end

text \<open>A member: its key, a colon and its value.\<close>

lemma member_reads:
  assumes "reads_text m d value (\<lambda>es. delivers es v) t" and "utf8_is_valid k" and "blank sp"
  shows "reads_text m d (parse_member value opts) (\<lambda>es. member_events es (k, v)) (write_string wo k @ [COLON] @ sp @ t)"
  unfolding reads_text_def
proof (intro allI impI)
  fix s :: JsonParser and ws r
  assume s: "\<not> failed s" "depth s = d" and r: "rest s = ws @ (write_string wo k @ [COLON] @ sp @ t) @ r" and ws: "blank ws"
    and st: "stops r" and len: "length (rest s) < m"
  define s1 where "s1 = skip_ws_and_comments opts s"
  have q: "write_string wo k @ x = QUOTE # string_loop wo k @ QUOTE # x" for x by (simp add: write_string_def)
  have s1: "reads s s1 (write_string wo k @ COLON # sp @ t @ r) []"
    unfolding s1_def by (rule skip_reads [OF s(1) _ ws]) (use r in \<open>simp_all add: q\<close>)
  have p1: "peek s1 = QUOTE" using s1 by (simp add: reads_def q)
  obtain s2 where s2: "parse_string_into s1 = (k, s2)" "reads s1 s2 (COLON # sp @ t @ r) []"
    using string_reads [of s1 wo k, OF _ _ assms(2)] s1 by (cases "parse_string_into s1") (auto simp: reads_def)
  define s2' where "s2' = emit (on_object_key k (loc s1)) s2"
  define s3 where "s3 = skip_ws_and_comments opts s2'"
  have s3: "reads s2' s3 (COLON # sp @ t @ r) []"
    unfolding s3_def by (rule skip_reads [of _ "[]"]) (use s2(2) in \<open>simp_all add: reads_def s2'_def\<close>)
  have pre: "reads s (advance s3) (sp @ t @ r) [on_object_key k (loc s1)]"
    using s1 s2(2) s3 by (simp add: reads_def s2'_def)
  obtain s' es where s': "value (advance s3) = Some s'" "reads (advance s3) s' r es" "delivers es v"
    using reads_textD [OF assms(1), of "advance s3" sp r] pre s r len assms(3) st by (auto simp: reads_def)
  have "parse_member value opts s = Some s'"
    using s1 p1 s2 s3 s'(1) by (simp add: parse_member_def Let_def s1_def [symmetric] s2'_def [symmetric] s3_def [symmetric] reads_def)
  with reads_trans [OF pre s'(2)] s'(3) show "\<exists>s' es. parse_member value opts s = Some s' \<and> reads s s' r es \<and> member_events es (k, v)"
    by (auto simp: member_events_def)
qed


section \<open>Values\<close>

text \<open>What \<open>parse_value\<close> does once the blanks are skipped.\<close>

definition dispatch :: "nat \<Rightarrow> float_chars \<Rightarrow> JsonParserOptions \<Rightarrow> JsonParser \<Rightarrow> JsonParser option" where
  "dispatch n F opts s =
     (let c = peek s in
      if c = LBRACE then parse_object n (parse_value n F opts) opts s
      else if c = LBRACKET then parse_array n (parse_value n F opts) opts s
      else if c = QUOTE then Some (parse_string_value s)
      else if c = 0x74 then Some (parse_literal ''true'' (on_bool True (loc s)) s)
      else if c = 0x66 then Some (parse_literal ''false'' (on_bool False (loc s)) s)
      else if c = 0x6E then Some (parse_literal ''null'' (on_null (loc s)) s)
      else if c = MINUS \<or> is_digit c then Some (parse_number F s)
      else Some (fail (loc s) ''unexpected character'' s))"

lemma parse_value_dispatch:
  "parse_value (Suc n) F opts s =
     (if failed s then Some s
      else let s = skip_ws_and_comments opts s in
        if failed s then Some s
        else if at_end s then Some (fail (loc s) ''unexpected end of input'' s)
        else dispatch n F opts s)"
  by (simp only: parse_value.simps dispatch_def Let_def)

lemma value_text:
  assumes "starts t"
    and "\<And>s r. \<not> failed s \<Longrightarrow> depth s = d \<Longrightarrow> rest s = t @ r \<Longrightarrow> stops r \<Longrightarrow> length (rest s) \<le> n \<Longrightarrow>
      \<exists>s' es. dispatch n F opts s = Some s' \<and> reads s s' r es \<and> done es"
  shows "reads_text (Suc n) d (parse_value (Suc n) F opts) done t"
  unfolding reads_text_def
proof (intro allI impI)
  fix s :: JsonParser and ws r
  assume s: "\<not> failed s" "depth s = d" and r: "rest s = ws @ t @ r" and ws: "blank ws"
    and st: "stops r" and len: "length (rest s) < Suc n"
  define s1 where "s1 = skip_ws_and_comments opts s"
  have s1: "reads s s1 (t @ r) []"
    unfolding s1_def by (rule skip_reads [OF s(1) r ws]) (use assms(1) in simp)
  then obtain s' es where s': "dispatch n F opts s1 = Some s'" "reads s1 s' r es" "done es"
    using assms(2) [of s1 r] s(2) st len r by (auto simp: reads_def)
  have "\<not> failed s1" "\<not> at_end s1" using s1 assms(1) by (auto simp: reads_def at_end_def starts_def)
  then have "parse_value (Suc n) F opts s = Some s'"
    using s(1) s'(1) by (simp add: parse_value_dispatch s1_def [symmetric] del: parse_value.simps)
  with reads_trans [OF s1 s'(2)] s'(3) show "\<exists>s' es. parse_value (Suc n) F opts s = Some s' \<and> reads s s' r es \<and> done es"
    by auto
qed

fun floats_finite :: "JsonValue \<Rightarrow> bool" where
  "floats_finite (JFloat x) = f64_finite x"
| "floats_finite (JArray vs) = (\<forall>v \<in> set vs. floats_finite v)"
| "floats_finite (JObject ms) = (\<forall>m \<in> set ms. floats_finite (snd m))"
| "floats_finite v = True"

definition value_reads :: "float_chars \<Rightarrow> JsonParserOptions \<Rightarrow> nat \<Rightarrow> JsonValue \<Rightarrow> utf8 \<Rightarrow> bool" where
  "value_reads F opts d v t \<longleftrightarrow>
     starts t \<and> (\<forall>n. reads_text n d (parse_value n F opts) (\<lambda>es. delivers es v) t)"

lemma value_readsI:
  assumes "starts t"
    and "\<And>n s r. \<not> failed s \<Longrightarrow> depth s = d \<Longrightarrow> rest s = t @ r \<Longrightarrow> stops r \<Longrightarrow> length (rest s) \<le> n \<Longrightarrow>
      \<exists>s' es. dispatch n F opts s = Some s' \<and> reads s s' r es \<and> delivers es v"
  shows "value_reads F opts d v t"
proof -
  have "reads_text n d (parse_value n F opts) (\<lambda>es. delivers es v) t" for n
  proof (cases n)
    case 0
    then show ?thesis by (simp only: reads_text_def) simp
  next
    case (Suc k)
    show ?thesis unfolding Suc by (rule value_text [OF assms(1)]) (rule assms(2))
  qed
  then show ?thesis using assms(1) by (simp only: value_reads_def) simp
qed

lemma delivers_scalar:
  "delivers [on_null l] JNull" "delivers [on_bool b l] (JBool b)" "delivers [on_int i l] (JInt i)"
  "delivers [on_float x l] (JFloat x)" "delivers [on_string t l] (JString t)"
  by (simp_all add: delivers_def)

lemma starts_Cons: "starts (c # t) \<longleftrightarrow> \<not> is_ws c \<and> c \<notin> {SLASH, RBRACKET, RBRACE, 0xEF}"
  by (simp add: starts_def)

lemma number_starts: "number_parts sign ip fp ep \<Longrightarrow> starts (sign @ ip @ fp @ ep) \<and>
    (hd (sign @ ip @ fp @ ep) = MINUS \<or> is_digit (hd (sign @ ip @ fp @ ep)))"
  using integer_part_hd [of ip] by (cases ip) (auto simp: number_parts_def starts_def is_ws_def is_digit_def)

lemma dispatch_number:
  assumes "rest s = t @ r" and "t \<noteq> []" and "hd t = MINUS \<or> is_digit (hd t)"
  shows "dispatch n F opts s = Some (parse_number F s)"
  using assms by (cases t) (auto simp: dispatch_def is_digit_def)

lemma literal_value:
  assumes "starts (ascii kind)"
    and "\<And>n s r. rest s = ascii kind @ r \<Longrightarrow> dispatch n F opts s = Some (parse_literal kind (e (loc s)) s)"
    and "\<And>l. delivers [e l] v"
  shows "value_reads F opts d v (ascii kind)"
  by (rule value_readsI [OF assms(1)]) (use assms(2) literal_reads assms(3) in blast)

lemma literals_read:
  "value_reads F opts d JNull write_null" "value_reads F opts d (JBool b) (write_bool b)"
proof -
  show "value_reads F opts d JNull write_null" unfolding write_null_def
    by (rule literal_value [OF _ _ delivers_scalar(1)]) (simp_all add: dispatch_def ascii_def starts_Cons is_ws_def)
  show "value_reads F opts d (JBool b) (write_bool b)"
  proof (cases b)
    case True
    then show ?thesis unfolding write_bool_def if_P [OF True]
      by (intro literal_value [OF _ _ delivers_scalar(2)]) (simp_all add: dispatch_def ascii_def starts_Cons is_ws_def)
  next
    case False
    then show ?thesis unfolding write_bool_def if_not_P [OF False]
      by (intro literal_value [OF _ _ delivers_scalar(2)]) (simp_all add: dispatch_def ascii_def starts_Cons is_ws_def)
  qed
qed

lemma number_value:
  assumes "number_parts sign ip fp ep" and t: "t = sign @ ip @ fp @ ep"
    and "\<And>s r. \<not> failed s \<Longrightarrow> rest s = t @ r \<Longrightarrow> stops r \<Longrightarrow> \<exists>l. reads s (parse_number F s) r [e l]"
    and "\<And>l. delivers [e l] v"
  shows "value_reads F opts d v t"
proof (rule value_readsI)
  note st = number_starts [OF assms(1), folded t]
  show "starts t" using st ..
  fix n r and s :: JsonParser
  assume s: "\<not> failed s" "rest s = t @ r" "stops r"
  have "dispatch n F opts s = Some (parse_number F s)"
    by (rule dispatch_number [OF s(2)]) (use st in \<open>auto simp: starts_def\<close>)
  with assms(3) [OF s] assms(4) show "\<exists>s' es. dispatch n F opts s = Some s' \<and> reads s s' r es \<and> delivers es v" by blast
qed

lemma int_value: "value_reads F opts d (JInt i) (write_int i)"
proof -
  define sign where "sign = (if sint i < 0 then [MINUS] else [])"
  define ds where "ds = map digit_char (digits_of 10 (nat \<bar>sint i\<bar>))"
  have t: "write_int i = sign @ ds @ [] @ []" by (simp add: write_int_def format_lld_def ds_def sign_def)
  have p: "number_parts sign ds [] []"
    by (simp add: number_parts_def sign_def ds_def decimal_integer_part fraction_part_def exponent_part_def)
  show ?thesis by (rule number_value [OF p t int_reads delivers_scalar(3)])
qed

lemma float_value:
  assumes "float_conversions F" and "f64_finite x"
  shows "value_reads F opts d (JFloat x) (write_float F x)"
proof -
  obtain sign ip fp ep where p: "number_parts sign ip fp ep" and t: "write_float F x = sign @ ip @ fp @ ep"
    by (rule write_float_parts [OF assms])
  show ?thesis by (rule number_value [OF p t float_reads [OF assms] delivers_scalar(4)])
qed

lemma string_value:
  assumes "utf8_is_valid str"
  shows "value_reads F opts d (JString str) (write_string wo str)"
proof (rule value_readsI)
  show "starts (write_string wo str)" by (simp add: write_string_def starts_Cons is_ws_def)
  fix n r and s :: JsonParser
  assume s: "\<not> failed s" "rest s = write_string wo str @ r"
  obtain s' where s': "parse_string_into s = (str, s')" "reads s s' r []"
    using string_reads [OF s assms] by (cases "parse_string_into s") auto
  have "dispatch n F opts s = Some (parse_string_value s)" using s(2) by (simp add: dispatch_def write_string_def)
  moreover have "parse_string_value s = emit (on_string str (loc s)) s'"
    using s' by (simp add: parse_string_value_def Let_def reads_def)
  ultimately show "\<exists>s' es. dispatch n F opts s = Some s' \<and> reads s s' r es \<and> delivers es (JString str)"
    using reads_emit [OF s'(2)] delivers_scalar(5) by auto
qed

lemma array_value:
  assumes "\<forall>y \<in> set ys. value_reads F opts (Suc d) (snd y) (fst y)" and "d < max_depth opts" and "blank ind" "blank ind'"
  shows "value_reads F opts d (JArray (map snd ys))
    (LBRACKET # separated (map (\<lambda>y. ind @ fst y) ys) @ (if ys = [] then [] else ind') @ [RBRACKET])"
proof (rule value_readsI)
  fix n r and s :: JsonParser
  let ?t = "LBRACKET # separated (map (\<lambda>y. ind @ fst y) ys) @ (if ys = [] then [] else ind') @ [RBRACKET]"
  assume s: "\<not> failed s" "depth s = d" "rest s = ?t @ r" "length (rest s) \<le> n"
  have "dispatch n F opts s = parse_array n (parse_value n F opts) opts s" using s(3) by (simp add: dispatch_def)
  moreover have "\<exists>s' es. parse_array n (parse_value n F opts) opts s = Some s' \<and> reads s s' r es \<and> delivers es (JArray (map snd ys))"
    unfolding parse_array_container
    by (rule arr.list_reads [where loop = "\<lambda>k. array_loop k (parse_value n F opts) opts" and one = "parse_value n F opts",
          OF array_loop_tail _ assms(3,4) s(1) _ s(4)])
       (use assms(1,2) s(2,3) in \<open>simp_all add: value_reads_def\<close>)
  ultimately show "\<exists>s' es. dispatch n F opts s = Some s' \<and> reads s s' r es \<and> delivers es (JArray (map snd ys))" by simp
qed (simp add: starts_Cons is_ws_def)

lemma object_value:
  assumes "\<forall>y \<in> set ys. utf8_is_valid (fst (snd y)) \<and> value_reads F opts (Suc d) (snd (snd y)) (fst y)"
    and "d < max_depth opts" and "blank ind" "blank ind'" "blank sp"
  shows "value_reads F opts d (JObject (map snd ys))
    (LBRACE # separated (map (\<lambda>y. ind @ write_string wo (fst (snd y)) @ [COLON] @ sp @ fst y) ys)
      @ (if ys = [] then [] else ind') @ [RBRACE])"
proof (rule value_readsI)
  fix n r and s :: JsonParser
  let ?f = "\<lambda>y. write_string wo (fst (snd y)) @ [COLON] @ sp @ fst y"
  let ?t = "LBRACE # separated (map (\<lambda>y. ind @ ?f y) ys) @ (if ys = [] then [] else ind') @ [RBRACE]"
  assume s: "\<not> failed s" "depth s = d" "rest s = ?t @ r" "length (rest s) \<le> n"
  define zs where "zs = map (\<lambda>y. (?f y, snd y)) ys"
  have zs: "map snd zs = map snd ys" "map (\<lambda>z. ind @ fst z) zs = map (\<lambda>y. ind @ ?f y) ys" "zs = [] \<longleftrightarrow> ys = []"
    by (simp_all add: zs_def)
  have m: "\<forall>z \<in> set zs. starts (fst z) \<and>
      reads_text n (Suc (depth s)) (parse_member (parse_value n F opts) opts) (\<lambda>es. member_events es (snd z)) (fst z)"
    using assms(1) member_reads [OF _ _ assms(5), of n "Suc d" "parse_value n F opts"] s(2)
    by (auto simp: zs_def value_reads_def write_string_def starts_Cons is_ws_def)
  have "dispatch n F opts s = parse_object n (parse_value n F opts) opts s" using s(3) by (simp add: dispatch_def)
  moreover have "\<exists>s' es. parse_object n (parse_value n F opts) opts s = Some s' \<and> reads s s' r es \<and> delivers es (JObject (map snd zs))"
    unfolding parse_object_container
    by (rule obj.list_reads [where loop = "\<lambda>k. object_loop k (parse_value n F opts) opts"
          and one = "parse_member (parse_value n F opts) opts",
          OF object_loop_tail _ assms(3,4) s(1) _ s(4) m])
       (use assms(2) s(2,3) in \<open>simp_all add: zs\<close>)
  ultimately show "\<exists>s' es. dispatch n F opts s = Some s' \<and> reads s s' r es \<and> delivers es (JObject (map snd ys))"
    by (simp add: zs)
qed (simp add: starts_Cons is_ws_def)


text \<open>The text of every value.\<close>

lemma blank_indent: "blank (newline_and_indent wo d)" "blank (space wo)"
  by (simp_all add: newline_and_indent_def space_def is_ws_def blank_def)

definition indents :: "JsonWriterOptions \<Rightarrow> usize \<Rightarrow> utf8 \<times> utf8 \<times> utf8 \<times> usize" where
  "indents wo d =
     (if pretty wo then (newline_and_indent wo (d + 1), newline_and_indent wo d, [SPACE], d + 1) else ([], [], [], d))"

lemma write_array:
  assumes "indents wo d = (ind, ind', sp, d')"
  shows "write_value F wo d (JArray vs) =
    LBRACKET # separated (map (\<lambda>v. ind @ write_value F wo d' v) vs) @ (if vs = [] then [] else ind') @ [RBRACKET]"
  using assms by (auto simp: indents_def split: if_splits)

lemma write_object:
  assumes "indents wo d = (ind, ind', sp, d')"
  shows "write_value F wo d (JObject ms) =
    LBRACE # separated (map (\<lambda>m. ind @ write_string wo (fst m) @ [COLON] @ sp @ write_value F wo d' (snd m)) ms)
      @ (if ms = [] then [] else ind') @ [RBRACE]"
  using assms by (auto simp: indents_def space_def split: if_splits)

lemma write_value_reads:
  assumes F: "float_conversions F"
  shows "json_ok (max_depth opts - d) v \<Longrightarrow> floats_finite v \<Longrightarrow> value_reads F opts d v (write_value F wo wd v)"
proof (induction v arbitrary: d wd)
  case JNull
  then show ?case using literals_read(1) by simp
next
  case (JBool b)
  then show ?case using literals_read(2) by simp
next
  case (JInt i)
  then show ?case using int_value by simp
next
  case (JFloat x)
  then show ?case using float_value [OF F] by simp
next
  case (JString str)
  then show ?case using string_value by simp
next
  case (JArray vs)
  obtain ind ind' sp wd' where i: "indents wo wd = (ind, ind', sp, wd')" by (cases "indents wo wd")
  have b: "blank ind" "blank ind'" using i blank_indent by (auto simp: indents_def split: if_splits)
  let ?ys = "map (\<lambda>v. (write_value F wo wd' v, v)) vs"
  have d: "d < max_depth opts" using JArray.prems(1) by auto
  have "value_reads F opts (Suc d) v (write_value F wo wd' v)" if "v \<in> set vs" for v
    using JArray.IH [OF that, of "Suc d" wd'] JArray.prems that by simp
  then have "\<forall>y \<in> set ?ys. value_reads F opts (Suc d) (snd y) (fst y)" by simp
  note array_value [OF this d b]
  moreover have "map snd ?ys = vs" "map (\<lambda>y. ind @ fst y) ?ys = map (\<lambda>v. ind @ write_value F wo wd' v) vs" "?ys = [] \<longleftrightarrow> vs = []"
    by (simp_all add: comp_def)
  ultimately show ?case unfolding write_array [OF i] by (simp only:)
next
  case (JObject ms)
  obtain ind ind' sp wd' where i: "indents wo wd = (ind, ind', sp, wd')" by (cases "indents wo wd")
  have b: "blank ind" "blank ind'" "blank sp" using i blank_indent by (auto simp: indents_def is_ws_def split: if_splits)
  let ?ys = "map (\<lambda>m. (write_value F wo wd' (snd m), m)) ms"
  have d: "d < max_depth opts" using JObject.prems(1) by auto
  have "value_reads F opts (Suc d) (snd m) (write_value F wo wd' (snd m))" if "m \<in> set ms" for m
    using JObject.IH [OF that, of "snd m" "Suc d" wd'] JObject.prems that by (simp add: snds.intros)
  then have "\<forall>y \<in> set ?ys. utf8_is_valid (fst (snd y)) \<and> value_reads F opts (Suc d) (snd (snd y)) (fst y)"
    using JObject.prems(1) by auto
  note object_value [OF this d b, of wo]
  moreover have "map snd ?ys = ms" "?ys = [] \<longleftrightarrow> ms = []"
    "map (\<lambda>y. ind @ write_string wo (fst (snd y)) @ [COLON] @ sp @ fst y) ?ys
      = map (\<lambda>m. ind @ write_string wo (fst m) @ [COLON] @ sp @ write_value F wo wd' (snd m)) ms"
    by (simp_all add: comp_def)
  ultimately show ?case unfolding write_object [OF i] by (simp only:)
qed

section \<open>Validity of the text\<close>

lemma valid_appends [intro]: "utf8_is_valid a \<Longrightarrow> utf8_is_valid b \<Longrightarrow> utf8_is_valid (a @ b)"
  by (rule valid_append)

lemma valid_separated: "\<forall>t \<in> set ts. utf8_is_valid t \<Longrightarrow> utf8_is_valid (separated ts)"
  by (induction ts rule: separated.induct) (simp_all add: valid_append valid_ascii_byte)

lemma valid_string: "utf8_is_valid str \<Longrightarrow> utf8_is_valid (write_string wo str)"
proof -
  assume "utf8_is_valid str"
  then have "utf8_is_valid (string_loop wo str)" using string_loop_spells valid_is_text by metis
  then show ?thesis by (simp add: write_string_def valid_ascii_byte valid_append)
qed

lemma ascii_digit: "is_digit c \<Longrightarrow> unat c < 128"
  by (simp add: is_digit_def word_le_nat_alt)

lemma ascii_blank: "blank ws \<Longrightarrow> \<forall>c \<in> set ws. unat c < 128"
  by (auto simp: blank_def is_ws_def)

lemma valid_blank: "blank ws \<Longrightarrow> utf8_is_valid ws"
  using valid_ascii ascii_blank by blast

lemma ascii_digits: "digits ds \<Longrightarrow> \<forall>c \<in> set ds. unat c < 128"
  using ascii_digit by (auto simp: digits_def)

lemma ascii_number:
  assumes "number_parts sign ip fp ep"
  shows "\<forall>c \<in> set (sign @ ip @ fp @ ep). unat c < 128"
proof -
  have "\<forall>c \<in> set ip. unat c < 128" using assms ascii_digits [of ip] by (auto simp: number_parts_def integer_part_def)
  moreover have "\<forall>c \<in> set fp. unat c < 128" using assms ascii_digits [of "tl fp"] by (cases fp) (auto simp: number_parts_def fraction_part_def)
  moreover have "\<forall>c \<in> set ep. unat c < 128" using assms ascii_digits [of "tl ep"] ascii_digits [of "tl (tl ep)"] by (cases ep; cases "tl ep") (auto simp: number_parts_def exponent_part_def)
  ultimately show ?thesis using assms by (auto simp: number_parts_def)
qed

lemma valid_int: "utf8_is_valid (write_int i)"
proof (rule valid_ascii)
  have "\<forall>c \<in> set (map digit_char (digits_of 10 n)). unat c < 128" for n
    using decimal_integer_part [of n] ascii_digits by (auto simp: integer_part_def)
  then show "\<forall>c \<in> set (write_int i). unat c < 128" by (simp add: write_int_def format_lld_def)
qed

lemma valid_float:
  assumes "float_conversions F" and "f64_finite x"
  shows "utf8_is_valid (write_float F x)"
proof -
  obtain sign ip fp ep where p: "number_parts sign ip fp ep" and t: "write_float F x = sign @ ip @ fp @ ep"
    by (rule write_float_parts [OF assms])
  show ?thesis unfolding t by (rule valid_ascii [OF ascii_number [OF p]])
qed

lemma valid_bracketed:
  "utf8_is_valid t \<Longrightarrow> blank ws \<Longrightarrow> unat a < 128 \<Longrightarrow> unat b < 128 \<Longrightarrow> utf8_is_valid (a # t @ ws @ [b])"
  by (simp add: valid_ascii_byte valid_append valid_blank)

lemma valid_write_value:
  assumes F: "float_conversions F"
  shows "json_ok d v \<Longrightarrow> floats_finite v \<Longrightarrow> utf8_is_valid (write_value F wo wd v)"
proof (induction v arbitrary: d wd)
  case JNull
  then show ?case by (simp add: write_null_def ascii_def valid_ascii_byte)
next
  case (JBool b)
  then show ?case by (simp add: write_bool_def ascii_def valid_ascii_byte)
next
  case (JInt i)
  then show ?case by (simp add: valid_int)
next
  case (JFloat x)
  then show ?case by (simp add: valid_float [OF F])
next
  case (JString str)
  then show ?case by (simp add: valid_string)
next
  case (JArray vs)
  obtain ind ind' sp wd' where i: "indents wo wd = (ind, ind', sp, wd')" by (cases "indents wo wd")
  have b: "blank ind" "blank ind'" using i blank_indent by (auto simp: indents_def split: if_splits)
  have "utf8_is_valid (ind @ write_value F wo wd' v)" if "v \<in> set vs" for v
    using JArray.IH [OF that, of "d - 1" wd'] JArray.prems that by (simp add: valid_append valid_blank b)
  then have "utf8_is_valid (separated (map (\<lambda>v. ind @ write_value F wo wd' v) vs))" by (intro valid_separated) auto
  then show ?case unfolding write_array [OF i] by (rule valid_bracketed) (use b in simp_all)
next
  case (JObject ms)
  obtain ind ind' sp wd' where i: "indents wo wd = (ind, ind', sp, wd')" by (cases "indents wo wd")
  have b: "blank ind" "blank ind'" "blank sp" using i blank_indent by (auto simp: indents_def is_ws_def split: if_splits)
  have "utf8_is_valid (ind @ write_string wo (fst m) @ [COLON] @ sp @ write_value F wo wd' (snd m))" if "m \<in> set ms" for m
    using JObject.IH [OF that, of "snd m" "d - 1" wd'] JObject.prems that b
    by (simp add: valid_append valid_blank valid_string valid_ascii_byte snds.intros)
  then have "utf8_is_valid (separated (map (\<lambda>m. ind @ write_string wo (fst m) @ [COLON] @ sp @ write_value F wo wd' (snd m)) ms))"
    by (intro valid_separated) auto
  then show ?case unfolding write_object [OF i] by (rule valid_bracketed) (use b in simp_all)
qed

section \<open>The round trip\<close>

lemma parse_text:
  assumes v: "value_reads F opts 0 v t" and "utf8_is_valid t"
  shows "\<exists>s. parse F opts t = Some s \<and> \<not> failed s \<and> delivers (events s) v"
proof -
  define s0 where "s0 = json_parser t"
  have s0: "\<not> failed s0" "rest s0 = [] @ t" "depth s0 = 0" "events s0 = []" by (simp_all add: s0_def json_parser_def)
  have st: "starts t" using v by (simp add: value_reads_def)
  then have bom: "t \<noteq> []" "take 3 t \<noteq> [0xEF, 0xBB, 0xBF]" by (cases t; simp add: starts_Cons starts_def)+
  define s1 where "s1 = skip_ws_and_comments opts s0"
  have s1: "reads s0 s1 t []"
    unfolding s1_def by (rule skip_reads [OF s0(1,2)]) (use st stands_simps(7) [of t "[]"] in simp_all)
  obtain s2 es where s2: "parse_value (parse_fuel t) F opts s1 = Some s2" "reads s1 s2 [] es" "delivers es v"
    using reads_textD [of "parse_fuel t" 0 "parse_value (parse_fuel t) F opts" "\<lambda>es. delivers es v" t s1 "[]" "[]"] v s0 s1
    by (auto simp: reads_def value_reads_def parse_fuel_def simp del: parse_value.simps)
  have s3: "reads s2 (skip_ws_and_comments opts s2) [] []"
    by (rule skip_reads [of _ "[]"]) (use s2(2) in \<open>simp_all add: reads_def\<close>)
  have "parse F opts t = Some (skip_ws_and_comments opts s2)"
    unfolding parse_def Let_def s0_def [symmetric] s1_def [symmetric] s2(1)
    using assms(2) bom s1 s2(2) s3 by (simp add: reads_def at_end_def)
  moreover have "events (skip_ws_and_comments opts s2) = es" using s0 s1 s2(2) s3 by (simp add: reads_def)
  ultimately show ?thesis using s2(3) s3 by (simp add: reads_def)
qed

text \<open>C29: the text written for a value, compact or pretty, with any indent, with or without
  the escaping of non-ASCII characters, is read back as that value by every reader.  The
  value has valid UTF-8 in its strings and keys, finite numbers, and at most 1000 levels
  of arrays and objects; \<open>float_conversions\<close> is the documented round trip of the shortest
  decimal form of a \<^verbatim>\<open>double\<close> through \<^verbatim>\<open>std::to_chars\<close> and \<^verbatim>\<open>std::from_chars\<close>.\<close>

theorem json_roundtrip:
  assumes "json_ok 1000 v" and "floats_finite v" and "float_conversions F"
  shows "json_read F ro (json_write F wo v) = Some (Ok v)"
proof -
  let ?opts = "to_parser_options ro"
  define t where "t = write_value F wo 0 v"
  have ok: "utf8_is_valid t" using valid_write_value [OF assms(3,1,2)] by (simp add: t_def)
  have "value_reads F ?opts 0 v t"
    unfolding t_def by (rule write_value_reads [OF assms(3)]) (use assms(1,2) in \<open>simp_all add: to_parser_options_def\<close>)
  from parse_text [OF this ok] obtain s where s: "parse F ?opts t = Some s" "\<not> failed s" "delivers (events s) v"
    by blast
  have "json_write F wo v = t" using intern_valid [OF ok] by (simp add: json_write_def t_def)
  then show ?thesis
    using s by (simp add: json_read_def delivers_def emit_value_def json_dom_builder_def)
qed

text \<open>Conversions with the documented law: every bit pattern by its decimal number.\<close>

definition decimal_chars :: float_chars where
  "decimal_chars =
     \<lparr>from_chars_f64 = (\<lambda>t. Converted (of_nat (digits_value (takeWhile is_digit t))) (length t)),
      to_chars_f64 = (\<lambda>x. Some (map digit_char (digits_of 10 (unat x))))\<rparr>"

lemma decimal_chars_conversions: "float_conversions decimal_chars"
  unfolding float_conversions_def
proof (intro conjI allI impI)
  fix x :: f64
  define ds where "ds = map digit_char (digits_of 10 (unat x))"
  have i: "integer_part ds" unfolding ds_def by (rule decimal_integer_part)
  then have d: "digits ds" by (auto simp: integer_part_def digits_def)
  have "unat x < 10 ^ Suc 19" using unsigned_less [where 'a = nat and w = x] by simp
  from length_digits_of [OF this] have len: "length ds < 62" by (simp add: ds_def)
  have tw: "takeWhile is_digit ds = ds" using d by (auto simp: digits_def takeWhile_eq_all_conv)
  have "from_chars_f64 decimal_chars ds = Converted x (length ds)"
    by (simp add: decimal_chars_def tw) (simp add: ds_def digits_value_of)
  moreover have "number_parts [] ds [] []" using i by (simp add: number_parts_def fraction_part_def exponent_part_def)
  ultimately show "\<exists>sign ip fp ep. let t = sign @ ip @ fp @ ep in number_parts sign ip fp ep \<and> length t < 62
      \<and> to_chars_f64 decimal_chars x = Some t \<and> from_chars_f64 decimal_chars t = Converted x (length t)"
    using len by (intro exI [of _ "[]"] exI [of _ ds]) (simp add: decimal_chars_def ds_def)
next
  fix sign ip and x :: f64
  assume a: "number_parts sign ip [] [] \<and> from_chars_f64 decimal_chars (sign @ ip) = Converted x (length (sign @ ip))"
  then have d: "digits ip" "sign = [] \<or> sign = [MINUS]"
    by (auto simp: number_parts_def integer_part_def digits_def)
  have ip: "takeWhile is_digit (ip @ [DOT, ZERO]) = ip" using d(1) by (simp add: digits_def takeWhile_append2)
  have tw: "takeWhile is_digit ip = ip" using d(1) by (auto simp: digits_def takeWhile_eq_all_conv)
  from d(2) have "takeWhile is_digit (sign @ ip @ [DOT, ZERO]) = takeWhile is_digit (sign @ ip)"
    by (elim disjE) (simp_all add: ip tw)
  with a show "from_chars_f64 decimal_chars (sign @ ip @ [DOT, ZERO]) = Converted x (length (sign @ ip @ [DOT, ZERO]))"
    by (simp add: decimal_chars_def)
qed

text \<open>An object with an escaped key, a pair outside the first plane, numbers and a nested array.\<close>

definition sample :: JsonValue where
  "sample = JObject
     [([QUOTE, LF, 0x01], JArray [JInt (- 5), JFloat 0x3FF0000000000000, JNull, JBool True, JArray []]),
      ([], JString [0xF0, 0x9F, 0x98, 0x80, 0xC3, 0xA9])]"

theorem json_roundtrip_witness:
  "json_read decimal_chars \<lparr>r_allow_trailing_comma = False, r_allow_comments = True\<rparr>
     (json_write decimal_chars \<lparr>pretty = True, indent = 2, ensure_ascii = True\<rparr> sample) = Some (Ok sample)"
  by (rule json_roundtrip)
     (simp_all add: sample_def decimal_chars_conversions f64_finite_def, code_simp)

end
