(* ===== verification/Io_Stream.thy ===== *)
theory Io_Stream
  imports Core_Status Libca_Chars
begin

text \<open>
  The streams of \<^verbatim>\<open>io\<close>: errors (\<^verbatim>\<open>error.cpp\<close>), the interfaces \<^verbatim>\<open>Reader\<close> and \<^verbatim>\<open>Writer\<close> with
  the loops built on them (\<^verbatim>\<open>reader.cpp\<close>, \<^verbatim>\<open>writer.cpp\<close>), and their buffered forms
  (\<^verbatim>\<open>buffered.cpp\<close>).

  A stream behind the virtual functions is the list of what its calls will return, so every
  short transfer, interruption, failure and miscount is a list.  A reader whose list is used
  up is at its end; a writer whose list is used up takes everything.  Buffers are not null,
  and allocations succeed.
\<close>

section \<open>Errors\<close>

datatype IoErrorKind =
  NotFound | PermissionDenied | ConnectionRefused | ConnectionReset | ConnectionAborted | NotConnected
| AddrInUse | AddrNotAvailable | BrokenPipe | AlreadyExists | WouldBlock | InvalidInput | InvalidData
| TimedOut | WriteZero | Interrupted | UnexpectedEof | OutOfMemory | Unsupported | Other

primrec io_error_kind_name :: "IoErrorKind \<Rightarrow> string" where
  "io_error_kind_name NotFound = ''NotFound''"
| "io_error_kind_name PermissionDenied = ''PermissionDenied''"
| "io_error_kind_name ConnectionRefused = ''ConnectionRefused''"
| "io_error_kind_name ConnectionReset = ''ConnectionReset''"
| "io_error_kind_name ConnectionAborted = ''ConnectionAborted''"
| "io_error_kind_name NotConnected = ''NotConnected''"
| "io_error_kind_name AddrInUse = ''AddrInUse''"
| "io_error_kind_name AddrNotAvailable = ''AddrNotAvailable''"
| "io_error_kind_name BrokenPipe = ''BrokenPipe''"
| "io_error_kind_name AlreadyExists = ''AlreadyExists''"
| "io_error_kind_name WouldBlock = ''WouldBlock''"
| "io_error_kind_name InvalidInput = ''InvalidInput''"
| "io_error_kind_name InvalidData = ''InvalidData''"
| "io_error_kind_name TimedOut = ''TimedOut''"
| "io_error_kind_name WriteZero = ''WriteZero''"
| "io_error_kind_name Interrupted = ''Interrupted''"
| "io_error_kind_name UnexpectedEof = ''UnexpectedEof''"
| "io_error_kind_name OutOfMemory = ''OutOfMemory''"
| "io_error_kind_name Unsupported = ''Unsupported''"
| "io_error_kind_name Other = ''Other''"

primrec status_code_for :: "IoErrorKind \<Rightarrow> StatusCode" where
  "status_code_for NotFound = NOT_FOUND"
| "status_code_for PermissionDenied = PERMISSION_DENIED"
| "status_code_for AlreadyExists = ALREADY_EXISTS"
| "status_code_for AddrInUse = ALREADY_EXISTS"
| "status_code_for WouldBlock = UNAVAILABLE"
| "status_code_for ConnectionRefused = UNAVAILABLE"
| "status_code_for ConnectionReset = UNAVAILABLE"
| "status_code_for ConnectionAborted = UNAVAILABLE"
| "status_code_for NotConnected = UNAVAILABLE"
| "status_code_for AddrNotAvailable = UNAVAILABLE"
| "status_code_for BrokenPipe = UNAVAILABLE"
| "status_code_for InvalidInput = INVALID_ARGUMENT"
| "status_code_for TimedOut = DEADLINE_EXCEEDED"
| "status_code_for Interrupted = ABORTED"
| "status_code_for UnexpectedEof = DATA_LOSS"
| "status_code_for InvalidData = DATA_LOSS"
| "status_code_for WriteZero = DATA_LOSS"
| "status_code_for OutOfMemory = RESOURCE_EXHAUSTED"
| "status_code_for Unsupported = UNIMPLEMENTED"
| "status_code_for Other = INTERNAL"

record IoError =
  io_kind :: IoErrorKind
  native_code :: i64
  io_message :: string

definition io_error :: "IoErrorKind \<Rightarrow> string \<Rightarrow> IoError" where
  "io_error k msg = \<lparr>io_kind = k, native_code = 0, io_message = msg\<rparr>"

definition format_i64 :: "i64 \<Rightarrow> string" where
  "format_i64 v =
     (if sint v < 0 then ''-'' @ map (\<lambda>d. char_of (48 + d)) (digits_of 10 (nat (- sint v)))
      else map (\<lambda>d. char_of (48 + d)) (digits_of 10 (nat (sint v))))"

definition io_error_to_string :: "IoError \<Rightarrow> string" where
  "io_error_to_string e =
     io_error_kind_name (io_kind e)
     @ (if native_code e \<noteq> 0 then '' (native '' @ format_i64 (native_code e) @ '')'' else [])
     @ (if io_message e \<noteq> [] then '': '' @ io_message e else [])"

definition io_error_to_status :: "IoError \<Rightarrow> Status" where
  "io_error_to_status e = ErrStatus (status_code_for (io_kind e)) (io_error_to_string e)"

section \<open>Reader\<close>

datatype read_outcome = Received "u8 list" | ReadFailed IoError

type_synonym reader = "read_outcome list"

text \<open>\<^verbatim>\<open>read(buffer, capacity)\<close>: the count that is returned is the length of the bytes.\<close>

definition read_from :: "reader \<Rightarrow> (u8 list, IoError) Result \<times> reader" where
  "read_from r =
     (case r of
        [] \<Rightarrow> (Ok [], [])
      | Received bs # r \<Rightarrow> (Ok bs, r)
      | ReadFailed e # r \<Rightarrow> (Err e, r))"

lemma read_from_simps [simp]:
  "read_from [] = (Ok [], [])" "read_from (Received bs # r) = (Ok bs, r)" "read_from (ReadFailed e # r) = (Err e, r)"
  by (simp_all add: read_from_def)

lemma read_from_less: "read_from r = (v, r') \<Longrightarrow> v \<noteq> Ok [] \<Longrightarrow> length r' < length r"
  by (cases r rule: list.exhaust; cases "hd r") auto

text \<open>
  A well-behaved stream: it may be interrupted, and otherwise delivers between one byte and
  \<open>n\<close> bytes until its end; and the bytes it will deliver.
\<close>

fun well_delivered :: "usize \<Rightarrow> reader \<Rightarrow> bool" where
  "well_delivered n [] = True"
| "well_delivered n (Received bs # r) = (bs \<noteq> [] \<and> length bs \<le> n \<and> well_delivered n r)"
| "well_delivered n (ReadFailed e # r) = (io_kind e = Interrupted \<and> well_delivered n r)"

fun stream_bytes :: "reader \<Rightarrow> u8 list" where
  "stream_bytes [] = []"
| "stream_bytes (Received bs # r) = bs @ stream_bytes r"
| "stream_bytes (ReadFailed e # r) = stream_bytes r"

definition invalid_read_count_error :: IoError where
  "invalid_read_count_error = io_error InvalidData ''Reader returned more bytes than the requested capacity''"

function read_exact_loop :: "usize \<Rightarrow> u8 list \<Rightarrow> reader \<Rightarrow> (u8 list, IoError) Result \<times> reader" where
  "read_exact_loop n got r =
     (if length got < n then
        case read_from r of
          (Err e, r') \<Rightarrow> if io_kind e = Interrupted then read_exact_loop n got r' else (Err e, r')
        | (Ok bs, r') \<Rightarrow>
            if length bs > n - length got then (Err invalid_read_count_error, r')
            else if length bs = 0 then
              (Err (io_error UnexpectedEof ''stream ended before the requested bytes were read''), r')
            else read_exact_loop n (got @ bs) r'
      else (Ok got, r))"
  by auto
termination by (relation "measure (\<lambda>(n, got, r). length r)") (auto dest: read_from_less [OF sym])

declare read_exact_loop.simps [simp del]

definition read_exact :: "usize \<Rightarrow> reader \<Rightarrow> (u8 list, IoError) Result \<times> reader" where
  "read_exact n r = read_exact_loop n [] r"

function read_to_end_loop :: "usize \<Rightarrow> u8 list \<Rightarrow> reader \<Rightarrow> (u8 list, IoError) Result \<times> reader" where
  "read_to_end_loop max_length output r =
     (let remaining = max_length - length output;
          request = (if remaining < 8192 then remaining + 1 else 8192) in
      case read_from r of
        (Err e, r') \<Rightarrow> if io_kind e = Interrupted then read_to_end_loop max_length output r' else (Err e, r')
      | (Ok bs, r') \<Rightarrow>
          if length bs > request then (Err invalid_read_count_error, r')
          else if length bs = 0 then (Ok output, r')
          else if length bs > remaining then
            (Err (io_error InvalidData ''stream exceeds the configured read limit''), r')
          else read_to_end_loop max_length (output @ bs) r')"
  by auto
termination by (relation "measure (\<lambda>(n, got, r). length r)") (auto dest: read_from_less [OF sym])

declare read_to_end_loop.simps [simp del]

definition read_to_end :: "usize \<Rightarrow> reader \<Rightarrow> (u8 list, IoError) Result \<times> reader" where
  "read_to_end max_length r = read_to_end_loop max_length [] r"

section \<open>Writer\<close>

datatype write_outcome = Wrote usize | WriteFailed IoError

record writer =
  sent :: "u8 list"
  outcomes :: "write_outcome list"

text \<open>A failed call has taken nothing; one that reports more than it was given has taken all.\<close>

definition write_to :: "u8 list \<Rightarrow> writer \<Rightarrow> (usize, IoError) Result \<times> writer" where
  "write_to data w =
     (case outcomes w of
        [] \<Rightarrow> (Ok (length data), w\<lparr>sent := sent w @ data\<rparr>)
      | Wrote n # os \<Rightarrow> (Ok n, w\<lparr>sent := sent w @ take n data, outcomes := os\<rparr>)
      | WriteFailed e # os \<Rightarrow> (Err e, w\<lparr>outcomes := os\<rparr>))"

definition flush_to :: "writer \<Rightarrow> (unit, IoError) Result \<times> writer" where
  "flush_to w =
     (case outcomes w of
        WriteFailed e # os \<Rightarrow> (Err e, w\<lparr>outcomes := os\<rparr>)
      | _ \<Rightarrow> (Ok (), w))"

lemma write_to_Err: "write_to data w = (Err e, w') \<Longrightarrow> sent w' = sent w \<and> length (outcomes w') < length (outcomes w)"
  by (auto simp: write_to_def split: list.splits write_outcome.splits)

lemma write_to_Ok: "write_to data w = (Ok n, w') \<Longrightarrow> sent w' = sent w @ take n data \<and> length (outcomes w') \<le> length (outcomes w)"
  by (auto simp: write_to_def split: list.splits write_outcome.splits)

function write_all :: "u8 list \<Rightarrow> writer \<Rightarrow> (unit, IoError) Result \<times> writer" where
  "write_all data w =
     (if data = [] then (Ok (), w)
      else case write_to data w of
        (Err e, w') \<Rightarrow> if io_kind e = Interrupted then write_all data w' else (Err e, w')
      | (Ok n, w') \<Rightarrow>
          if n > length data then
            (Err (io_error InvalidData ''Writer returned more bytes than the requested length''), w')
          else if n = 0 then
            (Err (io_error WriteZero ''Writer returned zero before all bytes were written''), w')
          else write_all (drop n data) w')"
  by auto
termination
  by (relation "measure (\<lambda>(data, w). length data + length (outcomes w))")
     (auto dest!: write_to_Err [OF sym] write_to_Ok [OF sym])

declare write_all.simps [simp del]

section \<open>BufReader\<close>

text \<open>
  The bytes of the buffer between \<^verbatim>\<open>position_\<close> and \<^verbatim>\<open>filled_\<close> are \<open>buffered\<close>.  \<open>has_inner\<close> is
  false once the inner reader was taken out or moved away.
\<close>

record BufReader =
  inner :: reader
  has_inner :: bool
  buffer_size :: usize
  buffered :: "u8 list"

definition invalid_buffered_stream :: "string \<Rightarrow> IoError" where
  "invalid_buffered_stream operation = io_error InvalidInput (operation @ '' on an empty buffered stream'')"

definition invalid_read_count :: IoError where
  "invalid_read_count = io_error InvalidData ''Reader returned more bytes than the provided buffer''"

definition buf_reader_create :: "reader option \<Rightarrow> usize \<Rightarrow> (BufReader, IoError) Result" where
  "buf_reader_create source capacity =
     (case source of
        None \<Rightarrow> Err (io_error InvalidInput ''BufReader requires a Reader'')
      | Some r \<Rightarrow>
          if capacity = 0 then Err (io_error InvalidInput ''BufReader capacity must be nonzero'')
          else Ok \<lparr>inner = r, has_inner = True, buffer_size = capacity, buffered = []\<rparr>)"

text \<open>What \<^verbatim>\<open>fill_buf\<close> shows of the buffer.\<close>

definition fill_buf :: "BufReader \<Rightarrow> (u8 list, IoError) Result \<times> BufReader" where
  "fill_buf b =
     (if \<not> has_inner b then (Err (invalid_buffered_stream ''fill_buf''), b)
      else if buffered b \<noteq> [] then (Ok (buffered b), b)
      else case read_from (inner b) of
        (Err e, r) \<Rightarrow> (Err e, b\<lparr>inner := r\<rparr>)
      | (Ok bs, r) \<Rightarrow>
          if length bs > buffer_size b then (Err invalid_read_count, b\<lparr>inner := r\<rparr>)
          else (Ok bs, b\<lparr>inner := r, buffered := bs\<rparr>))"

definition buf_read :: "usize \<Rightarrow> BufReader \<Rightarrow> (u8 list, IoError) Result \<times> BufReader" where
  "buf_read capacity b =
     (if capacity = 0 then (Ok [], b)
      else if \<not> has_inner b then (Err (invalid_buffered_stream ''read''), b)
      else if buffered b \<noteq> [] then
        (Ok (take capacity (buffered b)), b\<lparr>buffered := drop capacity (buffered b)\<rparr>)
      else if capacity \<ge> buffer_size b then
        let (result, r) = read_from (inner b); b = b\<lparr>inner := r\<rparr> in
        (case result of
           Ok bs \<Rightarrow> if length bs > capacity then (Err invalid_read_count, b) else (Ok bs, b)
         | Err e \<Rightarrow> (Err e, b))
      else case fill_buf b of
        (Err e, b) \<Rightarrow> (Err e, b)
      | (Ok view, b) \<Rightarrow>
          if view = [] then (Ok [], b)
          else (Ok (take capacity view), b\<lparr>buffered := drop capacity (buffered b)\<rparr>))"

definition buf_consume :: "usize \<Rightarrow> BufReader \<Rightarrow> (unit, IoError) Result \<times> BufReader" where
  "buf_consume amount b =
     (if \<not> has_inner b then (Err (invalid_buffered_stream ''consume''), b)
      else if amount > length (buffered b) then
        (Err (io_error InvalidInput ''consume amount exceeds buffered data''), b)
      else (Ok (), b\<lparr>buffered := drop amount (buffered b)\<rparr>))"

lemma fill_buf_less:
  "fill_buf b = (v, b') \<Longrightarrow> has_inner b \<Longrightarrow> buffered b = [] \<Longrightarrow> v \<noteq> Ok [] \<Longrightarrow> length (inner b') < length (inner b)"
  by (auto simp: fill_buf_def split: prod.splits Result.splits if_splits dest: read_from_less)

lemma fill_buf_kept: "fill_buf b = (v, b') \<Longrightarrow> buffered b \<noteq> [] \<Longrightarrow> has_inner b \<Longrightarrow> v = Ok (buffered b) \<and> b' = b"
  by (auto simp: fill_buf_def)

lemma fill_buf_Ok: "fill_buf b = (Ok view, b') \<Longrightarrow> buffered b' = view \<and> (has_inner b' \<longleftrightarrow> has_inner b) \<and> has_inner b"
  by (auto simp: fill_buf_def split: prod.splits Result.splits if_splits)

lemma fill_buf_Err: "fill_buf b = (Err e, b') \<Longrightarrow> io_kind e = Interrupted \<Longrightarrow> has_inner b \<and> buffered b = []"
  by (auto simp: fill_buf_def invalid_buffered_stream_def io_error_def split: if_splits)

lemma fill_buf_shrinks:
  assumes "fill_buf b = (Ok view, b')" and "view \<noteq> []"
  shows "length (inner b') < length (inner b) \<or> length (inner b') = length (inner b) \<and> 0 < length (buffered b)"
proof (cases "buffered b = []")
  case True
  then show ?thesis using fill_buf_less [OF assms(1)] fill_buf_Ok [OF assms(1)] assms(2) by simp
next
  case False
  then have "b' = b" using fill_buf_kept [OF assms(1)] fill_buf_Ok [OF assms(1)] by simp
  then show ?thesis using False by simp
qed

text \<open>The bytes before the first \<open>delimiter\<close> and the delimiter, or all of the view.\<close>

definition until :: "u8 \<Rightarrow> u8 list \<Rightarrow> usize" where
  "until delimiter view =
     (if delimiter \<in> set view then length (takeWhile (\<lambda>c. c \<noteq> delimiter) view) + 1 else length view)"

function read_until :: "u8 \<Rightarrow> u8 list \<Rightarrow> usize \<Rightarrow> BufReader \<Rightarrow> (usize, IoError) Result \<times> u8 list \<times> BufReader" where
  "read_until delimiter output tot b =
     (case fill_buf b of
        (Err e, b') \<Rightarrow> if io_kind e = Interrupted then read_until delimiter output tot b' else (Err e, output, b')
      | (Ok view, b') \<Rightarrow>
          if view = [] then (Ok tot, output, b')
          else let count = until delimiter view;
                   output = output @ take count view;
                   b' = b'\<lparr>buffered := drop count (buffered b')\<rparr>
            in if delimiter \<in> set view then (Ok (tot + count), output, b')
               else read_until delimiter output (tot + count) b')"
  by auto
termination
proof (relation "measures [\<lambda>(d, acc, tot, b). length (inner b), \<lambda>(d, acc, tot, b). length (buffered b)]", goal_cases)
  case (2 delimiter acc tot b x b' view)
  then have f: "fill_buf b = (Ok view, b')" "view \<noteq> []" "delimiter \<notin> set view" by simp_all
  from fill_buf_shrinks [OF f(1,2)] fill_buf_Ok [OF f(1)] f(3) show ?case unfolding 2(4,5,6) by (simp add: until_def)
next
  case (3 delimiter acc tot b x b' e)
  then have "fill_buf b = (Err e, b')" "io_kind e = Interrupted" by simp_all
  then show ?case using fill_buf_Err [of b e b'] fill_buf_less [of b "Err e" b'] by simp
qed simp

declare read_until.simps [simp del]

definition into_inner :: "BufReader \<Rightarrow> reader option \<times> BufReader" where
  "into_inner b = (if has_inner b then Some (inner b) else None, b\<lparr>has_inner := False, buffered := []\<rparr>)"

text \<open>A move: the new object, and what the old one becomes; its buffer is empty too.\<close>

definition buf_reader_move :: "BufReader \<Rightarrow> BufReader \<times> BufReader" where
  "buf_reader_move b = (b, \<lparr>inner = [], has_inner = False, buffer_size = 0, buffered = []\<rparr>)"

section \<open>BufWriter\<close>

text \<open>The first \<^verbatim>\<open>used_\<close> bytes of the buffer are \<open>pending\<close>.\<close>

record BufWriter =
  out :: writer
  has_out :: bool
  out_size :: usize
  pending :: "u8 list"

definition invalid_write_count :: IoError where
  "invalid_write_count = io_error InvalidData ''Writer returned more bytes than the provided input''"

definition buf_writer_create :: "writer option \<Rightarrow> usize \<Rightarrow> (BufWriter, IoError) Result" where
  "buf_writer_create target capacity =
     (case target of
        None \<Rightarrow> Err (io_error InvalidInput ''BufWriter requires a Writer'')
      | Some w \<Rightarrow>
          if capacity = 0 then Err (io_error InvalidInput ''BufWriter capacity must be nonzero'')
          else Ok \<lparr>out = w, has_out = True, out_size = capacity, pending = []\<rparr>)"

definition discard_written_prefix :: "usize \<Rightarrow> BufWriter \<Rightarrow> BufWriter" where
  "discard_written_prefix count b = (if count = 0 then b else b\<lparr>pending := drop count (pending b)\<rparr>)"

text \<open>The loop of \<^verbatim>\<open>flush_buffer\<close>; the result says how much was written.\<close>

function flush_loop :: "u8 list \<Rightarrow> usize \<Rightarrow> writer \<Rightarrow> (unit, IoError) Result \<times> usize \<times> writer" where
  "flush_loop buf written w =
     (if written < length buf then
        case write_to (drop written buf) w of
          (Err e, w') \<Rightarrow> if io_kind e = Interrupted then flush_loop buf written w' else (Err e, written, w')
        | (Ok n, w') \<Rightarrow>
            if n > length buf - written then (Err invalid_write_count, written, w')
            else if n = 0 then
              (Err (io_error WriteZero ''Writer returned zero while flushing buffered data''), written, w')
            else flush_loop buf (written + n) w'
      else (Ok (), written, w))"
  by auto
termination
  by (relation "measure (\<lambda>(buf, written, w). length buf - written + length (outcomes w))")
     (auto dest!: write_to_Err [OF sym] write_to_Ok [OF sym])

declare flush_loop.simps [simp del]

definition flush_buffer :: "BufWriter \<Rightarrow> (unit, IoError) Result \<times> BufWriter" where
  "flush_buffer b =
     (if \<not> has_out b then (Err (invalid_buffered_stream ''flush_buffer''), b)
      else case flush_loop (pending b) 0 (out b) of
        (Err e, written, w) \<Rightarrow> (Err e, discard_written_prefix written (b\<lparr>out := w\<rparr>))
      | (Ok _, written, w) \<Rightarrow> (Ok (), b\<lparr>out := w, pending := []\<rparr>))"

definition buf_write :: "u8 list \<Rightarrow> BufWriter \<Rightarrow> (usize, IoError) Result \<times> BufWriter" where
  "buf_write data b =
     (if data = [] then (Ok 0, b)
      else if \<not> has_out b then (Err (invalid_buffered_stream ''write''), b)
      else case (if length data > out_size b - length (pending b) then flush_buffer b else (Ok (), b)) of
        (Err e, b) \<Rightarrow> (Err e, b)
      | (Ok _, b) \<Rightarrow>
          if length data \<ge> out_size b then
            let (result, w) = write_to data (out b); b = b\<lparr>out := w\<rparr> in
            (case result of
               Ok n \<Rightarrow> if n > length data then (Err invalid_write_count, b) else (Ok n, b)
             | Err e \<Rightarrow> (Err e, b))
          else (Ok (length data), b\<lparr>pending := pending b @ data\<rparr>))"

definition buf_flush :: "BufWriter \<Rightarrow> (unit, IoError) Result \<times> BufWriter" where
  "buf_flush b =
     (if \<not> has_out b then (Err (invalid_buffered_stream ''flush''), b)
      else case flush_buffer b of
        (Err e, b) \<Rightarrow> (Err e, b)
      | (Ok _, b) \<Rightarrow> let (result, w) = flush_to (out b) in (result, b\<lparr>out := w\<rparr>))"

definition buf_finish :: "BufWriter \<Rightarrow> (writer, IoError) Result \<times> BufWriter" where
  "buf_finish b =
     (case buf_flush b of
        (Err e, b) \<Rightarrow> (Err e, b)
      | (Ok _, b) \<Rightarrow> (Ok (out b), b\<lparr>has_out := False\<rparr>))"

text \<open>The destructor flushes what it can.\<close>

definition buf_destroy :: "BufWriter \<Rightarrow> BufWriter" where
  "buf_destroy b = (if has_out b then snd (flush_buffer b) else b)"

definition buf_writer_move :: "BufWriter \<Rightarrow> BufWriter \<times> BufWriter" where
  "buf_writer_move b = (b, \<lparr>out = \<lparr>sent = [], outcomes = []\<rparr>, has_out = False, out_size = 0, pending = []\<rparr>)"

text \<open>Assignment to another object flushes what it can of it; its writer is what is destroyed.\<close>

definition buf_writer_assign :: "BufWriter \<Rightarrow> BufWriter \<Rightarrow> writer \<times> BufWriter \<times> BufWriter" where
  "buf_writer_assign b other = (out (buf_destroy b), buf_writer_move other)"

end
