(* ===== verification/Io_Props.thy ===== *)
theory Io_Props
  imports Io_Stream
begin

text \<open>
  Properties of the buffered streams: a \<^verbatim>\<open>BufWriter\<close> sends what it accepted once and in
  order, and \<^verbatim>\<open>read_until\<close> of a \<^verbatim>\<open>BufReader\<close> cuts the stream at the delimiter.
\<close>

section \<open>BufWriter\<close>

text \<open>
  What a writer was given, and what of it has left: the bytes of \<^verbatim>\<open>writer\<close> and those still in
  the buffer.
\<close>

definition all_sent :: "BufWriter \<Rightarrow> u8 list" where
  "all_sent b = sent (out b) @ pending b"

definition buf_ok :: "usize \<Rightarrow> BufWriter \<Rightarrow> bool" where
  "buf_ok capacity b \<longleftrightarrow> out_size b = capacity \<and> length (pending b) \<le> capacity"

lemma flush_loop_sent:
  assumes "flush_loop buf k w = (v, k', w')" and "v \<noteq> Err invalid_write_count" and "k \<le> length buf"
  shows "k \<le> k' \<and> k' \<le> length buf \<and> sent w' = sent w @ take (k' - k) (drop k buf) \<and> (is_ok v \<longrightarrow> k' = length buf)"
  using assms
proof (induction buf k w rule: flush_loop.induct)
  case (1 buf k w)
  show ?case
  proof (cases "k < length buf")
    case False
    then show ?thesis using 1(3,5) by (subst (asm) flush_loop.simps) auto
  next
    case True
    obtain r w1 where r: "write_to (drop k buf) w = (r, w1)" by (cases "write_to (drop k buf) w")
    show ?thesis
    proof (cases r)
      case (Err e)
      have s: "sent w1 = sent w" using write_to_Err r Err by blast
      show ?thesis
      proof (cases "io_kind e = Interrupted")
        case int: True
        then have "flush_loop buf k w1 = (v, k', w')" using 1(3) True r Err by (simp add: flush_loop.simps [of buf k w])
        from 1(2) [OF True r [symmetric] Err int this 1(4,5)] s show ?thesis by simp
      next
        case False
        then show ?thesis using 1(3) True r Err s by (auto simp: flush_loop.simps [of buf k w] is_ok_def)
      qed
    next
      case (Ok n)
      have s: "sent w1 = sent w @ take n (drop k buf)" using write_to_Ok r Ok by blast
      show ?thesis
      proof (cases "n > length buf - k")
        case bad: True
        then show ?thesis using 1(3,4) True r Ok by (simp add: flush_loop.simps [of buf k w])
      next
        case le: False
        show ?thesis
        proof (cases "n = 0")
          case zero: True
          then show ?thesis using 1(3) True r Ok s by (auto simp: flush_loop.simps [of buf k w] is_ok_def)
        next
          case pos: False
          then have f: "flush_loop buf (k + n) w1 = (v, k', w')"
            using 1(3) True r Ok le by (simp add: flush_loop.simps [of buf k w])
          have ih: "k + n \<le> k' \<and> k' \<le> length buf \<and> sent w' = sent w1 @ take (k' - (k + n)) (drop (k + n) buf)
              \<and> (is_ok v \<longrightarrow> k' = length buf)"
            by (rule 1(1) [OF True r [symmetric] Ok le pos f 1(4)]) (use le True in linarith)
          then have "take (k' - k) (drop k buf) = take n (drop k buf) @ take (k' - (k + n)) (drop (k + n) buf)"
            using take_add [of n "k' - (k + n)" "drop k buf"] by (simp add: add.commute)
          with ih s show ?thesis by simp
        qed
      qed
    qed
  qed
qed

lemma flush_buffer_sent:
  assumes "flush_buffer b = (v, b')" and "v \<noteq> Err invalid_write_count"
  shows "all_sent b' = all_sent b" and "out_size b' = out_size b" and "length (pending b') \<le> length (pending b)"
    and "is_ok v \<Longrightarrow> pending b' = [] \<and> has_out b" and "has_out b' = has_out b"
proof -
  have "all_sent b' = all_sent b \<and> out_size b' = out_size b \<and> length (pending b') \<le> length (pending b)
      \<and> (is_ok v \<longrightarrow> pending b' = [] \<and> has_out b) \<and> has_out b' = has_out b"
  proof (cases "has_out b")
    case False
    then show ?thesis using assms(1) by (auto simp: flush_buffer_def is_ok_def)
  next
    case True
    obtain r k w where f: "flush_loop (pending b) 0 (out b) = (r, k, w)" by (cases "flush_loop (pending b) 0 (out b)")
    have v: "r = Err e \<Longrightarrow> v = Err e" "is_ok r = is_ok v" for e
      using assms(1) f True by (auto simp: flush_buffer_def is_ok_def split: Result.splits)
    have "r \<noteq> Err invalid_write_count" using v(1) assms(2) by auto
    from flush_loop_sent [OF f this] have s: "sent w = sent (out b) @ take k (pending b)" "is_ok r \<longrightarrow> k = length (pending b)"
      by simp_all
    then show ?thesis
      using assms(1) f True by (auto simp: flush_buffer_def all_sent_def discard_written_prefix_def is_ok_def split: Result.splits)
  qed
  then show "all_sent b' = all_sent b" "out_size b' = out_size b" "length (pending b') \<le> length (pending b)"
    "is_ok v \<Longrightarrow> pending b' = [] \<and> has_out b" "has_out b' = has_out b" by blast+
qed

lemma buf_write_sent:
  assumes "buf_write data b = (v, b')" and "v \<noteq> Err invalid_write_count" and "buf_ok capacity b"
  shows "all_sent b' = all_sent b @ (case v of Ok n \<Rightarrow> take n data | Err e \<Rightarrow> [])" and "buf_ok capacity b'"
proof -
  have "all_sent b' = all_sent b @ (case v of Ok n \<Rightarrow> take n data | Err e \<Rightarrow> []) \<and> buf_ok capacity b'"
  proof (cases "data = [] \<or> \<not> has_out b")
    case True
    then show ?thesis using assms by (auto simp: buf_write_def split: if_splits)
  next
    case False
    let ?m = "if length data > out_size b - length (pending b) then flush_buffer b else (Ok (), b)"
    obtain r b1 where m: "?m = (r, b1)" by (cases ?m)
    show ?thesis
    proof (cases r)
      case (Err e)
      then have f: "flush_buffer b = (Err e, b1)" "v = Err e" "b' = b1"
        using m assms(1) False by (auto simp: buf_write_def split: if_splits)
      from flush_buffer_sent [OF f(1)] f(2,3) assms(2,3) show ?thesis by (auto simp: buf_ok_def)
    next
      case (Ok u)
      have b1: "all_sent b1 = all_sent b \<and> out_size b1 = out_size b
          \<and> (pending b1 = [] \<or> b1 = b \<and> length data \<le> out_size b - length (pending b))"
        using m Ok flush_buffer_sent [of b "Ok u" b1] by (auto simp: is_ok_def split: if_splits)
      show ?thesis
      proof (cases "length data \<ge> out_size b1")
        case direct: True
        obtain a w where w: "write_to data (out b1) = (a, w)" by (cases "write_to data (out b1)")
        have p: "pending b1 = []"
          using b1 direct False assms(3) by (cases "pending b1") (auto simp: buf_ok_def)
        have eq: "(v, b') = (case a of
            Ok n \<Rightarrow> if n > length data then (Err invalid_write_count, b1\<lparr>out := w\<rparr>) else (Ok n, b1\<lparr>out := w\<rparr>)
          | Err e \<Rightarrow> (Err e, b1\<lparr>out := w\<rparr>))"
          using assms(1) m Ok False direct w unfolding buf_write_def by (cases a) (auto simp: Let_def)
        show ?thesis
        proof (cases a)
          case (Ok n)
          from write_to_Ok [OF w [unfolded Ok]] eq Ok assms(2,3) b1 p show ?thesis
            by (simp add: all_sent_def buf_ok_def split: if_splits)
        next
          case (Err e)
          from write_to_Err [OF w [unfolded Err]] eq Err assms(2,3) b1 p show ?thesis
            by (simp add: all_sent_def buf_ok_def)
        qed
      next
        case buffered: False
        then have "v = Ok (length data)" "b' = b1\<lparr>pending := pending b1 @ data\<rparr>"
          using assms(1) m Ok False by (auto simp: buf_write_def)
        then show ?thesis using b1 buffered assms(3) by (auto simp: all_sent_def buf_ok_def)
      qed
    qed
  qed
  then show "all_sent b' = all_sent b @ (case v of Ok n \<Rightarrow> take n data | Err e \<Rightarrow> [])" "buf_ok capacity b'" by blast+
qed

lemma flush_to_sent: "flush_to w = (v, w') \<Longrightarrow> sent w' = sent w"
  by (auto simp: flush_to_def split: list.splits write_outcome.splits)

lemma buf_flush_sent:
  assumes "buf_flush b = (v, b')" and "v \<noteq> Err invalid_write_count"
  shows "all_sent b' = all_sent b" and "buf_ok capacity b \<Longrightarrow> buf_ok capacity b'" and "is_ok v \<Longrightarrow> pending b' = []"
proof -
  obtain r b1 where f: "flush_buffer b = (r, b1)" by (cases "flush_buffer b")
  have "all_sent b' = all_sent b \<and> (buf_ok capacity b \<longrightarrow> buf_ok capacity b') \<and> (is_ok v \<longrightarrow> pending b' = [])"
  proof (cases "has_out b \<and> is_ok r")
    case True
    then obtain w where w: "flush_to (out b1) = (v, w)" "b' = b1\<lparr>out := w\<rparr>"
      using assms(1) f by (cases r) (auto simp: buf_flush_def is_ok_def Let_def split: prod.splits)
    have "r \<noteq> Err invalid_write_count" using True by (auto simp: is_ok_def)
    from flush_buffer_sent [OF f this] True flush_to_sent [OF w(1)] w(2) show ?thesis
      by (auto simp: all_sent_def buf_ok_def)
  next
    case False
    then have "v = r \<and> b' = b1 \<and> \<not> is_ok r \<or> b' = b \<and> \<not> is_ok v"
    proof (cases "has_out b")
      case True
      then show ?thesis using assms(1) f False unfolding buf_flush_def by (cases r) (simp_all add: is_ok_def)
    next
      case nout: False
      then show ?thesis using assms(1) unfolding buf_flush_def by (auto simp: is_ok_def)
    qed
    with flush_buffer_sent [OF f] assms(2) show ?thesis by (auto simp: buf_ok_def)
  qed
  then show "all_sent b' = all_sent b" "buf_ok capacity b \<Longrightarrow> buf_ok capacity b'" "is_ok v \<Longrightarrow> pending b' = []" by blast+
qed

text \<open>
  A client that calls in any order, and goes on after any error but that of a writer that
  claims more than it was given; \<open>data\<close> are the bytes that the calls reported as taken.
\<close>

inductive buf_steps :: "BufWriter \<Rightarrow> u8 list \<Rightarrow> BufWriter \<Rightarrow> bool" for b where
  start: "buf_steps b [] b"
| wrote: "buf_steps b data b1 \<Longrightarrow> buf_write chunk b1 = (Ok n, b2) \<Longrightarrow> buf_steps b (data @ take n chunk) b2"
| failed: "buf_steps b data b1 \<Longrightarrow> buf_write chunk b1 = (Err e, b2) \<Longrightarrow> e \<noteq> invalid_write_count \<Longrightarrow> buf_steps b data b2"
| flushed: "buf_steps b data b1 \<Longrightarrow> buf_flush b1 = (v, b2) \<Longrightarrow> v \<noteq> Err invalid_write_count \<Longrightarrow> buf_steps b data b2"

lemma buf_steps_sent: "buf_steps b data b' \<Longrightarrow> buf_ok capacity b \<Longrightarrow> all_sent b' = all_sent b @ data \<and> buf_ok capacity b'"
proof (induction rule: buf_steps.induct)
  case (wrote data b1 chunk n b2)
  then show ?case using buf_write_sent [of chunk b1 "Ok n" b2 capacity] by simp
next
  case (failed data b1 chunk e b2)
  then show ?case using buf_write_sent [of chunk b1 "Err e" b2 capacity] by simp
next
  case (flushed data b1 v b2)
  then show ?case using buf_flush_sent(1) [of b1 v b2] buf_flush_sent(2) [of b1 v b2 capacity] by simp
qed simp

text \<open>C36: Nothing that a \<^verbatim>\<open>BufWriter\<close> took is lost, sent twice or out of order, whatever part of
  a call the writer below takes, however often it is interrupted or fails in between: after any
  calls, the bytes below and in the buffer are those taken, the buffer is within its capacity,
  and a \<^verbatim>\<open>finish\<close> that succeeds hands back a writer that has received exactly those.\<close>

theorem buf_writer_exactly_once:
  assumes "buf_writer_create (Some w) capacity = Ok b" and "buf_steps b data b'"
  shows "sent (out b') @ pending b' = sent w @ data \<and> length (pending b') \<le> capacity
    \<and> (case buf_finish b' of (Ok w', _) \<Rightarrow> sent w' = sent w @ data | (Err e, _) \<Rightarrow> True)"
proof -
  have b: "buf_ok capacity b" "all_sent b = sent w"
    using assms(1) by (auto simp: buf_writer_create_def buf_ok_def all_sent_def split: if_splits)
  note s = buf_steps_sent [OF assms(2) b(1)]
  obtain r b1 where f: "buf_flush b' = (r, b1)" by (cases "buf_flush b'")
  have "sent w' = sent w @ data" if "buf_finish b' = (Ok w', b2)" for w' b2
  proof -
    have r: "is_ok r" "w' = out b1" using that f by (cases r; auto simp: buf_finish_def is_ok_def)+
    then have "r \<noteq> Err invalid_write_count" by (auto simp: is_ok_def)
    from buf_flush_sent(1,3) [OF f this] r s b show ?thesis by (simp add: all_sent_def)
  qed
  then show ?thesis using s b by (auto simp: all_sent_def buf_ok_def split: prod.splits Result.splits)
qed

definition half_sink :: writer where
  "half_sink = \<lparr>sent = [9], outcomes = [Wrote 1, WriteFailed (io_error Interrupted []), WriteFailed (io_error BrokenPipe [])]\<rparr>"

theorem buf_writer_exactly_once_witness:
  "let b = \<lparr>out = half_sink, has_out = True, out_size = 3, pending = []\<rparr>;
       b1 = snd (buf_write [1, 2] b);
       b2 = snd (buf_write [3, 4] b1) in
     sent (out b2) @ pending b2 = [9, 1, 2] \<and> sent (out b2) = [9, 1] \<and> sent (out (snd (buf_finish b2))) = [9, 1, 2]"
proof -
  let ?b = "\<lparr>out = half_sink, has_out = True, out_size = 3, pending = []\<rparr>"
  let ?b1 = "snd (buf_write [1, 2] ?b)"
  let ?b2 = "snd (buf_write [3, 4] ?b1)"
  have create: "buf_writer_create (Some half_sink) 3 = Ok ?b" by (simp add: buf_writer_create_def)
  have w1: "fst (buf_write [1, 2] ?b) = Ok 2" by code_simp
  have w2: "case fst (buf_write [3, 4] ?b1) of Ok _ \<Rightarrow> False | Err e \<Rightarrow> io_kind e = BrokenPipe" by code_simp
  obtain e where e: "fst (buf_write [3, 4] ?b1) = Err e" "io_kind e = BrokenPipe" using w2 by (auto split: Result.splits)
  have "buf_steps ?b ([] @ take 2 [1, 2]) ?b1"
    by (rule buf_steps.wrote [OF buf_steps.start]) (simp only: prod_eq_iff w1 fst_conv snd_conv)
  moreover have "buf_write [3, 4] ?b1 = (Err e, ?b2)" by (simp only: prod_eq_iff e fst_conv snd_conv)
  moreover have "e \<noteq> invalid_write_count" using e(2) by (auto simp: invalid_write_count_def io_error_def)
  ultimately have "buf_steps ?b ([] @ take 2 [1, 2]) ?b2" by (rule buf_steps.failed)
  then have "buf_steps ?b [1, 2] ?b2" by (simp only: append.left_neutral take_Suc_Cons numeral_2_eq_2 take_0)
  moreover have "sent (out ?b2) = [9, 1]" by code_simp
  moreover have "sent (out (snd (buf_finish ?b2))) = [9, 1, 2]" by code_simp
  ultimately show ?thesis using buf_writer_exactly_once [OF create, of "[1, 2]" ?b2] unfolding Let_def by (simp only: half_sink_def writer.simps append.simps simp_thms)
qed

section \<open>BufReader\<close>

text \<open>What a reader will still deliver.\<close>

definition unread_bytes :: "BufReader \<Rightarrow> u8 list" where
  "unread_bytes b = buffered b @ stream_bytes (inner b)"

definition reads_on :: "BufReader \<Rightarrow> bool" where
  "reads_on b \<longleftrightarrow> has_inner b \<and> well_delivered (buffer_size b) (inner b)"

lemma fill_buf_delivered:
  assumes "fill_buf b = (v, b')" and "reads_on b"
  shows "reads_on b'" and "unread_bytes b' = unread_bytes b"
    and "v = Ok (buffered b') \<and> (buffered b' = [] \<longrightarrow> unread_bytes b = []) \<or> (\<exists>e. v = Err e \<and> io_kind e = Interrupted)"
proof -
  have "reads_on b' \<and> unread_bytes b' = unread_bytes b
    \<and> (v = Ok (buffered b') \<and> (buffered b' = [] \<longrightarrow> unread_bytes b = []) \<or> (\<exists>e. v = Err e \<and> io_kind e = Interrupted))"
  proof (cases "buffered b = []")
    case False
    then show ?thesis using assms by (auto simp: fill_buf_def reads_on_def)
  next
    case True
    then show ?thesis
      using assms
      by (cases "inner b" rule: stream_bytes.cases)
         (auto simp: fill_buf_def reads_on_def unread_bytes_def)
  qed
  then show "reads_on b'" "unread_bytes b' = unread_bytes b"
    "v = Ok (buffered b') \<and> (buffered b' = [] \<longrightarrow> unread_bytes b = []) \<or> (\<exists>e. v = Err e \<and> io_kind e = Interrupted)" by blast+
qed

lemma until_append:
  "until d (u @ v) = (if d \<in> set u then until d u else length u + until d v)"
  by (auto simp: until_def takeWhile_append)

lemma until_le: "until d u \<le> length u"
proof (cases "d \<in> set u")
  case True
  then obtain xs ys where "u = xs @ d # ys" "d \<notin> set xs" by (meson split_list_first)
  then show ?thesis by (simp add: until_def takeWhile_append)
qed (simp add: until_def)

lemma read_until_reads:
  assumes "reads_on b"
  shows "\<exists>b'. read_until d acc n b = (Ok (n + until d (unread_bytes b)), acc @ take (until d (unread_bytes b)) (unread_bytes b), b')
    \<and> unread_bytes b' = drop (until d (unread_bytes b)) (unread_bytes b) \<and> reads_on b'"
  using assms
proof (induction d acc n b rule: read_until.induct)
  case (1 d acc n b)
  obtain v b1 where f: "fill_buf b = (v, b1)" by (cases "fill_buf b")
  note s = fill_buf_delivered [OF f 1(3)]
  from s(3) consider (view) "v = Ok (buffered b1)" "buffered b1 = [] \<longrightarrow> unread_bytes b = []"
    | (int) e where "v = Err e" "io_kind e = Interrupted" by blast
  then show ?case
  proof cases
    case int
    then have "read_until d acc n b = read_until d acc n b1" using f by (simp add: read_until.simps [of d acc n b])
    with 1(2) [OF f [symmetric] int s(1)] s(2) show ?thesis by simp
  next
    case view
    let ?u = "buffered b1"
    let ?b = "b1\<lparr>buffered := drop (until d ?u) ?u\<rparr>"
    have whole: "unread_bytes b = ?u @ stream_bytes (inner b1)" using s(2) by (simp add: unread_bytes_def)
    have reads: "reads_on ?b" using s(1) by (simp add: reads_on_def)
    show ?thesis
    proof (cases "?u = []")
      case True
      then show ?thesis using view f s by (simp add: read_until.simps [of d acc n b] until_def)
    next
      case ne: False
      show ?thesis
      proof (cases "d \<in> set ?u")
        case True
        then have "read_until d acc n b = (Ok (n + until d ?u), acc @ take (until d ?u) ?u, ?b)"
          using view f ne by (simp add: read_until.simps [of d acc n b] Let_def)
        then show ?thesis
          using True reads until_le [of d ?u] by (simp add: whole until_append) (simp add: unread_bytes_def)
      next
        case False
        have u: "until d ?u = length ?u" using False by (simp add: until_def)
        have "read_until d acc n b = read_until d (acc @ take (until d ?u) ?u) (n + until d ?u) ?b"
          using view f ne False by (simp add: read_until.simps [of d acc n b] Let_def)
        moreover have "unread_bytes ?b = stream_bytes (inner b1)" using u by (simp add: unread_bytes_def)
        ultimately show ?thesis
          using 1(1) [OF f [symmetric] view(1) ne refl refl refl False reads] u False by (auto simp: whole until_append)
      qed
    qed
  qed
qed

lemma until_found: "d \<notin> set xs \<Longrightarrow> until d (xs @ d # ys) = length xs + 1"
  by (simp add: until_def takeWhile_append)

lemma until_none: "d \<notin> set xs \<Longrightarrow> until d xs = length xs"
  by (simp add: until_def)

text \<open>C37: On a stream that is only interrupted, \<^verbatim>\<open>read_until\<close> cuts what is still to come in two,
  however the stream and the buffer deliver it: it appends the first part to its output and
  reports its length, and the second part is what is read next.  The first part ends with the
  delimiter and has no other; or the delimiter does not occur, and the first part is everything.\<close>

theorem read_until_cuts_stream:
  assumes "reads_on b"
  shows "\<exists>got later b'. unread_bytes b = got @ later
    \<and> read_until d acc n b = (Ok (n + length got), acc @ got, b') \<and> unread_bytes b' = later \<and> reads_on b'
    \<and> ((\<exists>line. got = line @ [d] \<and> d \<notin> set line) \<or> d \<notin> set got \<and> later = [])"
proof -
  let ?u = "unread_bytes b"
  obtain b' where r: "read_until d acc n b = (Ok (n + until d ?u), acc @ take (until d ?u) ?u, b')"
    "unread_bytes b' = drop (until d ?u) ?u" "reads_on b'" using read_until_reads [OF assms] by blast
  show ?thesis
  proof (cases "d \<in> set ?u")
    case True
    then obtain xs ys where u: "?u = xs @ d # ys" "d \<notin> set xs" by (meson split_list_first)
    then show ?thesis
      using r until_found [OF u(2), of ys] by (intro exI [of _ "xs @ [d]"] exI [of _ ys] exI [of _ b']) simp
  next
    case False
    then show ?thesis
      using r until_none [OF False] by (intro exI [of _ ?u] exI [of _ "[]"] exI [of _ b']) simp
  qed
qed

theorem read_until_cuts_stream_witness:
  "\<exists>got later b'. [3, 1, 0, 2] = got @ later
    \<and> read_until 0 [5] 0 \<lparr>inner = [ReadFailed (io_error Interrupted []), Received [1, 0, 2]], has_inner = True, buffer_size = 4, buffered = [3]\<rparr>
      = (Ok (0 + length got), [5] @ got, b') \<and> unread_bytes b' = later \<and> reads_on b'
    \<and> ((\<exists>line. got = line @ [0] \<and> 0 \<notin> set line) \<or> 0 \<notin> set got \<and> later = [])"
proof -
  let ?b = "\<lparr>inner = [ReadFailed (io_error Interrupted []), Received [1, 0, 2]], has_inner = True, buffer_size = 4, buffered = [3 :: u8]\<rparr>"
  have "reads_on ?b" "unread_bytes ?b = [3, 1, 0, 2]" by (simp_all add: reads_on_def unread_bytes_def io_error_def)
  then show ?thesis using read_until_cuts_stream [of ?b 0 "[5]" 0] by (simp only:)
qed

end
