(* ===== verification/Http_Message.thy ===== *)
theory Http_Message
  imports Io_Stream
begin

text \<open>
  The data of \<^verbatim>\<open>http\<close>: errors (\<^verbatim>\<open>http_error.cpp\<close>), header fields (\<^verbatim>\<open>headers.cpp\<close>) and
  messages (\<^verbatim>\<open>message.cpp\<close>).  A \<^verbatim>\<open>std::string\<close> and a body are their bytes.
\<close>

section \<open>Errors\<close>

datatype HttpErrorKind =
  Io | InvalidUrl | InvalidMessage | InvalidState | ExpectationFailed | HeaderLimitExceeded | BodyLimitExceeded
| Unsupported

primrec http_error_kind_name :: "HttpErrorKind \<Rightarrow> string" where
  "http_error_kind_name Io = ''Io''"
| "http_error_kind_name InvalidUrl = ''InvalidUrl''"
| "http_error_kind_name InvalidMessage = ''InvalidMessage''"
| "http_error_kind_name InvalidState = ''InvalidState''"
| "http_error_kind_name ExpectationFailed = ''ExpectationFailed''"
| "http_error_kind_name HeaderLimitExceeded = ''HeaderLimitExceeded''"
| "http_error_kind_name BodyLimitExceeded = ''BodyLimitExceeded''"
| "http_error_kind_name Unsupported = ''Unsupported''"

record HttpError =
  http_kind :: HttpErrorKind
  http_message :: string
  http_io_error :: "IoError option"

definition http_error :: "HttpErrorKind \<Rightarrow> string \<Rightarrow> HttpError" where
  "http_error k msg = \<lparr>http_kind = k, http_message = msg, http_io_error = None\<rparr>"

definition from_io :: "IoError \<Rightarrow> string \<Rightarrow> HttpError" where
  "from_io e operation =
     \<lparr>http_kind = Io, http_message = (if operation \<noteq> [] then operation @ '': '' else []) @ io_message e,
      http_io_error = Some e\<rparr>"

definition http_error_to_string :: "HttpError \<Rightarrow> string" where
  "http_error_to_string e =
     http_error_kind_name (http_kind e) @ (if http_message e \<noteq> [] then '': '' @ http_message e else [])"

section \<open>Header fields\<close>

type_synonym bytes = "u8 list"

record HttpHeader =
  hname :: bytes
  hvalue :: bytes

text \<open>\<^verbatim>\<open>HttpHeaders\<close> holds the fields in order, repeated names included.\<close>

type_synonym HttpHeaders = "HttpHeader list"

definition is_token_character :: "u8 \<Rightarrow> bool" where
  "is_token_character c \<longleftrightarrow>
     0x61 \<le> c \<and> c \<le> 0x7A \<or> 0x41 \<le> c \<and> c \<le> 0x5A \<or> 0x30 \<le> c \<and> c \<le> 0x39
     \<or> c \<in> set (ascii ''!#$%&*+-.^_|~'') \<or> c = 0x27 \<or> c = 0x60"

definition ascii_lower :: "u8 \<Rightarrow> u8" where
  "ascii_lower c = (if 0x41 \<le> c \<and> c \<le> 0x5A then c + 0x20 else c)"

definition ascii_equals :: "bytes \<Rightarrow> bytes \<Rightarrow> bool" where
  "ascii_equals lhs rhs \<longleftrightarrow> list_all2 (\<lambda>a b. ascii_lower a = ascii_lower b) lhs rhs"

definition valid_name :: "bytes \<Rightarrow> bool" where
  "valid_name name \<longleftrightarrow> name \<noteq> [] \<and> list_all is_token_character name"

definition valid_value :: "bytes \<Rightarrow> bool" where
  "valid_value v = list_all (\<lambda>c. c = TAB \<or> c \<ge> 0x20 \<and> c \<noteq> 0x7F) v"

definition headers_append :: "bytes \<Rightarrow> bytes \<Rightarrow> HttpHeaders \<Rightarrow> (HttpHeaders, HttpError) Result" where
  "headers_append name v hs =
     (if \<not> valid_name name then Err (http_error InvalidMessage ''HTTP header name is not a valid token'')
      else if \<not> valid_value v then
        Err (http_error InvalidMessage ''HTTP header value contains a forbidden control byte'')
      else Ok (hs @ [\<lparr>hname = name, hvalue = v\<rparr>]))"

definition headers_remove :: "bytes \<Rightarrow> HttpHeaders \<Rightarrow> usize \<times> HttpHeaders" where
  "headers_remove name hs =
     (let kept = filter (\<lambda>h. \<not> ascii_equals (hname h) name) hs in (length hs - length kept, kept))"

definition headers_set :: "bytes \<Rightarrow> bytes \<Rightarrow> HttpHeaders \<Rightarrow> (HttpHeaders, HttpError) Result" where
  "headers_set name v hs =
     (if \<not> valid_name name then Err (http_error InvalidMessage ''HTTP header name is not a valid token'')
      else if \<not> valid_value v then
        Err (http_error InvalidMessage ''HTTP header value contains a forbidden control byte'')
      else Ok (snd (headers_remove name hs) @ [\<lparr>hname = name, hvalue = v\<rparr>]))"

primrec headers_get :: "bytes \<Rightarrow> HttpHeaders \<Rightarrow> bytes option" where
  "headers_get name [] = None"
| "headers_get name (h # hs) = (if ascii_equals (hname h) name then Some (hvalue h) else headers_get name hs)"

definition headers_get_all :: "bytes \<Rightarrow> HttpHeaders \<Rightarrow> bytes list" where
  "headers_get_all name hs = map hvalue (filter (\<lambda>h. ascii_equals (hname h) name) hs)"

definition headers_contains :: "bytes \<Rightarrow> HttpHeaders \<Rightarrow> bool" where
  "headers_contains name hs \<longleftrightarrow> headers_get name hs \<noteq> None"

section \<open>Messages\<close>

datatype HttpVersion = Http10 | Http11

definition http_version_name :: "HttpVersion \<Rightarrow> bytes" where
  "http_version_name v = (case v of Http10 \<Rightarrow> ascii ''HTTP/1.0'' | Http11 \<Rightarrow> ascii ''HTTP/1.1'')"

definition default_reason_phrase :: "u16 \<Rightarrow> string" where
  "default_reason_phrase status =
     (case map_of
        [(100, ''Continue''), (101, ''Switching Protocols''), (200, ''OK''), (201, ''Created''), (202, ''Accepted''),
         (204, ''No Content''), (206, ''Partial Content''), (300, ''Multiple Choices''),
         (301, ''Moved Permanently''), (302, ''Found''), (303, ''See Other''), (304, ''Not Modified''),
         (307, ''Temporary Redirect''), (308, ''Permanent Redirect''), (400, ''Bad Request''),
         (401, ''Unauthorized''), (403, ''Forbidden''), (404, ''Not Found''), (405, ''Method Not Allowed''),
         (408, ''Request Timeout''), (409, ''Conflict''), (411, ''Length Required''), (413, ''Content Too Large''),
         (414, ''URI Too Long''), (415, ''Unsupported Media Type''), (422, ''Unprocessable Content''),
         (426, ''Upgrade Required''), (429, ''Too Many Requests''), (431, ''Request Header Fields Too Large''),
         (500, ''Internal Server Error''), (501, ''Not Implemented''), (502, ''Bad Gateway''),
         (503, ''Service Unavailable''), (504, ''Gateway Timeout''), (505, ''HTTP Version Not Supported'')] status
      of None \<Rightarrow> [] | Some s \<Rightarrow> s)"

definition status_forbids_body :: "u16 \<Rightarrow> bool" where
  "status_forbids_body status \<longleftrightarrow> status \<ge> 100 \<and> status < 200 \<or> status = 204 \<or> status = 304"

text \<open>The pieces between commas, at least one, and a piece without surrounding blanks.\<close>

fun split_commas :: "bytes \<Rightarrow> bytes list" where
  "split_commas [] = [[]]"
| "split_commas (c # cs) =
     (if c = COMMA then [] # split_commas cs
      else case split_commas cs of t # ts \<Rightarrow> (c # t) # ts | [] \<Rightarrow> [[c]])"

definition is_ows :: "u8 \<Rightarrow> bool" where
  "is_ows c \<longleftrightarrow> c = SPACE \<or> c = TAB"

definition trim_ows :: "bytes \<Rightarrow> bytes" where
  "trim_ows v = rev (dropWhile is_ows (rev (dropWhile is_ows v)))"

definition contains_connection_token :: "HttpHeaders \<Rightarrow> bytes \<Rightarrow> bool" where
  "contains_connection_token hs expected =
     list_ex (\<lambda>h. ascii_equals (hname h) (ascii ''Connection'')
       \<and> list_ex (\<lambda>t. ascii_equals (trim_ows t) expected) (split_commas (hvalue h))) hs"

definition should_keep_alive :: "HttpVersion \<Rightarrow> HttpHeaders \<Rightarrow> bool" where
  "should_keep_alive v hs =
     (if contains_connection_token hs (ascii ''close'') then False
      else if v = Http11 then True
      else contains_connection_token hs (ascii ''keep-alive''))"

record HttpLimits =
  max_start_line_bytes :: usize
  max_header_bytes :: usize
  max_header_count :: usize
  max_body_bytes :: usize

record HttpRequestHead =
  req_method :: bytes
  req_target :: bytes
  req_version :: HttpVersion
  req_headers :: HttpHeaders

record HttpResponseHead =
  resp_version :: HttpVersion
  resp_status :: u16
  resp_reason :: bytes
  resp_headers :: HttpHeaders

datatype HttpBodyKind = NoBody | ContentLength | Chunked | CloseDelimited

record HttpBodyInfo =
  body_kind :: HttpBodyKind
  content_length :: usize

record HttpRequest = HttpRequestHead +
  req_body :: bytes
  req_trailers :: HttpHeaders

record HttpResponse = HttpResponseHead +
  resp_body :: bytes
  resp_trailers :: HttpHeaders

end
