(* ===== verification/Http_Codec.thy ===== *)
theory Http_Codec
  imports Http_Message
begin

text \<open>
  The HTTP/1 codec of \<^verbatim>\<open>http1_codec.cpp\<close>.  An operation of the reader or of the writer maps
  a state to its result and the state afterwards; a failure leaves the state as the source
  leaves it.
\<close>

section \<open>Operations with a state\<close>

type_synonym ('s, 'a) http_op = "'s \<Rightarrow> ('a, HttpError) Result \<times> 's"

definition http_then :: "('s, 'a) http_op \<Rightarrow> ('a \<Rightarrow> ('s, 'b) http_op) \<Rightarrow> ('s, 'b) http_op" where
  "http_then m f s = (case m s of (Err e, s) \<Rightarrow> (Err e, s) | (Ok v, s) \<Rightarrow> f v s)"

definition http_return :: "'a \<Rightarrow> ('s, 'a) http_op" where
  "http_return v s = (Ok v, s)"

definition http_fail :: "HttpErrorKind \<Rightarrow> string \<Rightarrow> ('s, 'a) http_op" where
  "http_fail k msg s = (Err (http_error k msg), s)"

definition http_lift :: "('a, HttpError) Result \<Rightarrow> ('s, 'a) http_op" where
  "http_lift r s = (r, s)"

definition http_modify :: "('s \<Rightarrow> 's) \<Rightarrow> ('s, unit) http_op" where
  "http_modify f s = (Ok (), f s)"

section \<open>Fields of a message\<close>

definition valid_request_target :: "bytes \<Rightarrow> bool" where
  "valid_request_target v \<longleftrightarrow> v \<noteq> [] \<and> list_all (\<lambda>c. c > 0x20 \<and> c \<noteq> 0x7F) v"

definition parse_http_version :: "bytes \<Rightarrow> (HttpVersion, HttpError) Result" where
  "parse_http_version v =
     (if v = ascii ''HTTP/1.0'' then Ok Http10
      else if v = ascii ''HTTP/1.1'' then Ok Http11
      else Err (http_error Unsupported ''only HTTP/1.0 and HTTP/1.1 are supported''))"

fun decimal_loop :: "bytes \<Rightarrow> usize \<Rightarrow> (usize, HttpError) Result" where
  "decimal_loop [] len = Ok len"
| "decimal_loop (c # cs) len =
     (if c < ZERO \<or> c > NINE then Err (http_error InvalidMessage ''Content-Length contains a non-decimal byte'')
      else let digit = unat (c - ZERO) in
        if len > (SIZE_MAX - digit) div 10 then Err (http_error InvalidMessage ''Content-Length overflows usize'')
        else decimal_loop cs (len * 10 + digit))"

fun content_length_loop :: "bytes list \<Rightarrow> usize option \<Rightarrow> (usize option, HttpError) Result" where
  "content_length_loop [] parsed_length = Ok parsed_length"
| "content_length_loop (t # ts) parsed_length =
     (let token = trim_ows t in
      if token = [] then Err (http_error InvalidMessage ''Content-Length contains an empty value'')
      else case decimal_loop token 0 of
        Err e \<Rightarrow> Err e
      | Ok len \<Rightarrow>
          if parsed_length \<noteq> None \<and> parsed_length \<noteq> Some len
          then Err (http_error InvalidMessage ''conflicting Content-Length values are not allowed'')
          else content_length_loop ts (Some len))"

definition parse_content_length :: "HttpHeaders \<Rightarrow> (usize option, HttpError) Result" where
  "parse_content_length hs =
     content_length_loop (concat (map split_commas (headers_get_all (ascii ''Content-Length'') hs))) None"

fun codings_loop :: "bytes list \<Rightarrow> bytes list \<Rightarrow> (bytes list, HttpError) Result" where
  "codings_loop [] codings = Ok codings"
| "codings_loop (t # ts) codings =
     (if trim_ows t = [] then Err (http_error InvalidMessage ''Transfer-Encoding contains an empty coding'')
      else codings_loop ts (codings @ [trim_ows t]))"

definition parse_chunked_transfer_encoding :: "HttpHeaders \<Rightarrow> (bool, HttpError) Result" where
  "parse_chunked_transfer_encoding hs =
     (let vs = headers_get_all (ascii ''Transfer-Encoding'') hs in
      if vs = [] then Ok False
      else and_then (codings_loop (concat (map split_commas vs)) []) (\<lambda>codings.
        if length codings \<noteq> 1 \<or> \<not> ascii_equals (hd codings) (ascii ''chunked'')
        then Err (http_error Unsupported ''only a single final chunked transfer coding is supported'')
        else Ok True))"

definition body_framing :: "HttpHeaders \<Rightarrow> bool \<Rightarrow> (HttpBodyInfo, HttpError) Result" where
  "body_framing hs close_delimited =
     and_then (parse_content_length hs) (\<lambda>len.
     and_then (parse_chunked_transfer_encoding hs) (\<lambda>chunked.
       if chunked \<and> len \<noteq> None then
         Err (http_error InvalidMessage ''Transfer-Encoding and Content-Length cannot appear together'')
       else if chunked then Ok \<lparr>body_kind = Chunked, content_length = 0\<rparr>
       else case len of
         Some n \<Rightarrow> Ok \<lparr>body_kind = ContentLength, content_length = n\<rparr>
       | None \<Rightarrow> Ok \<lparr>body_kind = (if close_delimited then CloseDelimited else NoBody), content_length = 0\<rparr>))"

definition hex_value :: "u8 \<Rightarrow> usize option" where
  "hex_value c =
     (if ZERO \<le> c \<and> c \<le> NINE then Some (unat (c - ZERO))
      else if 0x61 \<le> c \<and> c \<le> 0x66 then Some (unat (c - 0x61) + 10)
      else if 0x41 \<le> c \<and> c \<le> 0x46 then Some (unat (c - 0x41) + 10)
      else None)"

fun chunk_size_loop :: "bytes \<Rightarrow> usize \<Rightarrow> (usize, HttpError) Result" where
  "chunk_size_loop [] n = Ok n"
| "chunk_size_loop (c # cs) n =
     (case hex_value c of
        None \<Rightarrow> Err (http_error InvalidMessage ''chunk-size is not hexadecimal'')
      | Some digit \<Rightarrow>
          if n > (SIZE_MAX - digit) div 16 then Err (http_error InvalidMessage ''chunk-size overflows usize'')
          else chunk_size_loop cs (n * 16 + digit))"

definition parse_chunk_size :: "bytes \<Rightarrow> (usize, HttpError) Result" where
  "parse_chunk_size chunk_line =
     (if \<not> valid_value chunk_line then Err (http_error InvalidMessage ''chunk-size line contains a forbidden byte'')
      else let size_text = takeWhile (\<lambda>c. c \<noteq> 0x3B) chunk_line in
        if size_text = [] then Err (http_error InvalidMessage ''chunk-size is empty'')
        else chunk_size_loop size_text 0)"

definition status_forbids_framing :: "u16 \<Rightarrow> bool" where
  "status_forbids_framing status \<longleftrightarrow> status \<ge> 100 \<and> status < 200 \<or> status = 204"

definition forbidden_trailer_name :: "bytes \<Rightarrow> bool" where
  "forbidden_trailer_name name \<longleftrightarrow>
     ascii_equals name (ascii ''Content-Length'') \<or> ascii_equals name (ascii ''Transfer-Encoding'')
     \<or> ascii_equals name (ascii ''Host'') \<or> ascii_equals name (ascii ''Trailer'')"

definition validate_trailers :: "HttpHeaders \<Rightarrow> (unit, HttpError) Result" where
  "validate_trailers trailers =
     (if list_ex (\<lambda>t. forbidden_trailer_name (hname t)) trailers
      then Err (http_error InvalidMessage ''HTTP trailers cannot contain framing, Host, or Trailer fields'')
      else Ok ())"

definition decimal_text :: "nat \<Rightarrow> bytes" where
  "decimal_text n = map digit_char (digits_of 10 n)"

definition hex_text :: "nat \<Rightarrow> bytes" where
  "hex_text n = map digit_char (digits_of 16 n)"

definition set_content_length :: "usize \<Rightarrow> HttpHeaders \<Rightarrow> (HttpHeaders, HttpError) Result" where
  "set_content_length len hs = headers_set (ascii ''Content-Length'') (decimal_text len) hs"

text \<open>The checks of a request that the reader and the writer share.\<close>

definition check_host :: "HttpVersion \<Rightarrow> HttpHeaders \<Rightarrow> (unit, HttpError) Result" where
  "check_host v hs =
     (let hosts = headers_get_all (ascii ''Host'') hs in
      if v = Http11 \<and> (length hosts \<noteq> 1 \<or> trim_ows (hd hosts) = [] \<or> COMMA \<in> set (hd hosts))
      then Err (http_error InvalidMessage ''HTTP/1.1 request must contain exactly one nonempty Host header'')
      else Ok ())"

definition check_http10_encoding :: "string \<Rightarrow> HttpVersion \<Rightarrow> HttpHeaders \<Rightarrow> (unit, HttpError) Result" where
  "check_http10_encoding msg v hs =
     (if v = Http10 \<and> headers_contains (ascii ''Transfer-Encoding'') hs then Err (http_error InvalidMessage msg)
      else Ok ())"

definition is_connect_tunnel :: "bytes \<Rightarrow> u16 \<Rightarrow> bool" where
  "is_connect_tunnel request_method status \<longleftrightarrow> request_method = ascii ''CONNECT'' \<and> status \<ge> 200 \<and> status < 300"

definition is_head_response :: "bytes \<Rightarrow> bool" where
  "is_head_response request_method \<longleftrightarrow> request_method = ascii ''HEAD''"

section \<open>The reader\<close>

datatype ReadState =
  Ready | ReadingHead | FixedBody | ChunkSize | ChunkData | ChunkDataEnding | CloseDelimitedBody | BodyComplete | Failed

text \<open>\<open>unread\<close> are the bytes of the buffer from \<^verbatim>\<open>position_\<close> to \<^verbatim>\<open>filled_\<close>.\<close>

record Http1Reader =
  rd_stream :: reader
  limits :: HttpLimits
  unread :: bytes
  read_state :: ReadState
  body_info :: HttpBodyInfo
  body_remaining :: usize
  body_decoded :: usize
  used_header_bytes :: usize
  used_header_count :: usize
  body_trailers :: HttpHeaders
  last_head_method :: bytes

type_synonym 'a reader_op = "(Http1Reader, 'a) http_op"

definition no_body :: HttpBodyInfo where
  "no_body = \<lparr>body_kind = NoBody, content_length = 0\<rparr>"

definition http1_reader :: "reader \<Rightarrow> HttpLimits \<Rightarrow> Http1Reader" where
  "http1_reader r l =
     \<lparr>rd_stream = r, limits = l, unread = [], read_state = Ready, body_info = no_body, body_remaining = 0,
      body_decoded = 0, used_header_bytes = 0, used_header_count = 0, body_trailers = [], last_head_method = []\<rparr>"

definition validate_limits :: "unit reader_op" where
  "validate_limits s =
     (if max_start_line_bytes (limits s) = 0 \<or> max_header_bytes (limits s) = 0 \<or> max_header_count (limits s) = 0
         \<or> max_body_bytes (limits s) = 0
      then http_fail InvalidMessage ''all HTTP parsing limits must be greater than zero'' s
      else http_return () s)"

definition ensure_ready :: "unit reader_op" where
  "ensure_ready s =
     (if read_state s \<noteq> Ready
      then http_fail InvalidState ''the previous HTTP body must be finished before reading another head'' s
      else http_then validate_limits (\<lambda>_. http_modify (\<lambda>s. s\<lparr>read_state := ReadingHead\<rparr>)) s)"

definition begin_body :: "HttpBodyInfo \<Rightarrow> usize \<Rightarrow> usize \<Rightarrow> unit reader_op" where
  "begin_body body used_bytes used_count s =
     (let s = s\<lparr>body_info := body, body_remaining := content_length body, body_decoded := 0,
                used_header_bytes := used_bytes, used_header_count := used_count, body_trailers := []\<rparr>
      in case body_kind body of
        NoBody \<Rightarrow> http_return () (s\<lparr>read_state := BodyComplete\<rparr>)
      | ContentLength \<Rightarrow>
          if content_length body > max_body_bytes (limits s)
          then http_fail BodyLimitExceeded ''HTTP body exceeds configured limit'' (s\<lparr>read_state := Failed\<rparr>)
          else http_return () (s\<lparr>read_state := (if content_length body = 0 then BodyComplete else FixedBody)\<rparr>)
      | Chunked \<Rightarrow> http_return () (s\<lparr>read_state := ChunkSize\<rparr>)
      | CloseDelimited \<Rightarrow> http_return () (s\<lparr>read_state := CloseDelimitedBody\<rparr>))"

text \<open>The loop of \<^verbatim>\<open>fill_buffer\<close> skips interrupted reads.\<close>

fun fill_from :: "reader \<Rightarrow> (bytes, HttpError) Result \<times> reader" where
  "fill_from [] = (Ok [], [])"
| "fill_from (ReadFailed e # r) =
     (if io_kind e = Interrupted then fill_from r else (Err (from_io e ''read HTTP stream''), r))"
| "fill_from (Received bs # r) =
     (if length bs > 8192 then (Err (http_error InvalidMessage ''Reader returned more bytes than requested''), r)
      else (Ok bs, r))"

definition fill_buffer :: "bool reader_op" where
  "fill_buffer s =
     (if unread s \<noteq> [] then (Ok True, s)
      else case fill_from (rd_stream s) of
        (Err e, r) \<Rightarrow> (Err e, s\<lparr>rd_stream := r\<rparr>)
      | (Ok bs, r) \<Rightarrow> (Ok (bs \<noteq> []), s\<lparr>rd_stream := r, unread := bs\<rparr>))"

definition read_byte :: "u8 option reader_op" where
  "read_byte = http_then fill_buffer (\<lambda>filled s.
     if \<not> filled then (Ok None, s) else (Ok (Some (hd (unread s))), s\<lparr>unread := tl (unread s)\<rparr>))"

text \<open>How much is left to read: the measure of the loops.\<close>

fun outcome_size :: "read_outcome \<Rightarrow> nat" where
  "outcome_size (Received bs) = length bs"
| "outcome_size (ReadFailed e) = 0"

definition bytes_left :: "Http1Reader \<Rightarrow> nat" where
  "bytes_left s = length (unread s) + sum_list (map outcome_size (rd_stream s))"

lemma fill_from_left: "fill_from r = (v, r') \<Longrightarrow>
    (case v of Ok bs \<Rightarrow> length bs | Err e \<Rightarrow> 0) + sum_list (map outcome_size r') \<le> sum_list (map outcome_size r)"
  by (induction r rule: fill_from.induct) (auto split: if_splits)

lemma fill_buffer_left: "fill_buffer s = (v, s') \<Longrightarrow>
    bytes_left s' \<le> bytes_left s \<and> limits s' = limits s \<and> read_state s' = read_state s \<and> (v = Ok True \<longrightarrow> unread s' \<noteq> [])"
  using fill_from_left [of "rd_stream s"]
  by (auto simp: fill_buffer_def bytes_left_def split: if_splits prod.splits Result.splits)

lemma read_byte_left: "read_byte s = (v, s') \<Longrightarrow>
    bytes_left s' \<le> bytes_left s \<and> limits s' = limits s \<and> read_state s' = read_state s
      \<and> (\<forall>c. v = Ok (Some c) \<longrightarrow> bytes_left s' < bytes_left s)"
  using fill_buffer_left [of s]
  by (fastforce simp: read_byte_def http_then_def bytes_left_def neq_Nil_conv split: prod.splits Result.splits if_splits)

end
