(* ===== verification/Http_Reader.thy ===== *)
theory Http_Reader
  imports Http_Codec
begin

text \<open>
  \<^verbatim>\<open>Http1Reader\<close>: lines, header blocks, message heads, the three framings of a body, and
  whole messages.
\<close>

section \<open>Lines\<close>

function read_line_loop :: "usize \<Rightarrow> bool \<Rightarrow> bytes \<Rightarrow> bool \<Rightarrow> bool \<Rightarrow> bytes option reader_op" where
  "read_line_loop limit allow_clean_eof line saw_carriage_return saw_any_byte s =
     (case read_byte s of
        (Err e, s) \<Rightarrow> (Err e, s)
      | (Ok None, s) \<Rightarrow>
          if allow_clean_eof \<and> \<not> saw_any_byte then (Ok None, s)
          else http_fail InvalidMessage ''unexpected EOF inside an HTTP line'' s
      | (Ok (Some v), s) \<Rightarrow>
          if saw_carriage_return then
            if v \<noteq> LF then http_fail InvalidMessage ''HTTP lines must end with CRLF'' s else (Ok (Some line), s)
          else if v = CR then read_line_loop limit allow_clean_eof line True True s
          else if v = LF then http_fail InvalidMessage ''bare LF is not allowed in HTTP/1'' s
          else if length line \<ge> limit then http_fail HeaderLimitExceeded ''HTTP line exceeds configured limit'' s
          else read_line_loop limit allow_clean_eof (line @ [v]) False True s)"
  by pat_completeness auto
termination
  by (relation "measure (\<lambda>(limit, clean, line, cr, any, s). bytes_left s)") (auto dest!: read_byte_left [OF sym])

declare read_line_loop.simps [simp del]

definition read_line :: "usize \<Rightarrow> bool \<Rightarrow> bytes option reader_op" where
  "read_line limit allow_clean_eof = read_line_loop limit allow_clean_eof [] False False"

lemma read_line_loop_left: "read_line_loop limit clean line cr any s = (v, s') \<Longrightarrow>
    bytes_left s' \<le> bytes_left s \<and> limits s' = limits s \<and> read_state s' = read_state s
      \<and> (\<forall>l. v = Ok (Some l) \<longrightarrow> bytes_left s' < bytes_left s) \<and> (v = Ok None \<longrightarrow> clean)"
proof (induction limit clean line cr any s rule: read_line_loop.induct)
  case (1 limit clean line cr any s)
  obtain r s1 where r: "read_byte s = (r, s1)" by (cases "read_byte s")
  note l = read_byte_left [OF r]
  show ?case
  proof (cases r)
    case (Err e)
    then show ?thesis using 1(3) r l by (subst (asm) read_line_loop.simps) auto
  next
    case (Ok b)
    show ?thesis
    proof (cases b)
      case None
      then show ?thesis
        using 1(3) r l Ok by (subst (asm) read_line_loop.simps) (auto simp: http_fail_def split: if_splits)
    next
      case (Some c)
      have eq: "(if cr then if c \<noteq> LF then http_fail InvalidMessage ''HTTP lines must end with CRLF'' s1 else (Ok (Some line), s1)
          else if c = CR then read_line_loop limit clean line True True s1
          else if c = LF then http_fail InvalidMessage ''bare LF is not allowed in HTTP/1'' s1
          else if length line \<ge> limit then http_fail HeaderLimitExceeded ''HTTP line exceeds configured limit'' s1
          else read_line_loop limit clean (line @ [c]) False True s1) = (v, s')"
        using 1(3) by (subst (asm) read_line_loop.simps) (simp add: r Ok Some)
      have l': "bytes_left s1 < bytes_left s" using l Ok Some by simp
      note ih = 1(1) [OF r [symmetric] Ok Some] 1(2) [OF r [symmetric] Ok Some]
      consider "cr" | "\<not> cr" "c = CR" | "\<not> cr" "c \<noteq> CR" "c = LF \<or> length line \<ge> limit"
        | "\<not> cr" "c \<noteq> CR" "c \<noteq> LF" "\<not> length line \<ge> limit" by blast
      then show ?thesis
      proof cases
        case 1
        then show ?thesis using eq l l' by (auto simp: http_fail_def split: if_splits)
      next
        case 2
        then have "read_line_loop limit clean line True True s1 = (v, s')" using eq by simp
        with ih(1) [OF 2] l l' show ?thesis by auto
      next
        case 3
        then show ?thesis using eq l l' by (auto simp: http_fail_def split: if_splits)
      next
        case 4
        then have "read_line_loop limit clean (line @ [c]) False True s1 = (v, s')" using eq by simp
        with ih(2) [OF 4] l l' show ?thesis by auto
      qed
    qed
  qed
qed

lemmas read_line_left = read_line_loop_left [of _ _ "[]" False False, folded read_line_def]

section \<open>Headers\<close>

definition find_byte :: "u8 \<Rightarrow> bytes \<Rightarrow> usize option" where
  "find_byte c v = (if c \<in> set v then Some (length (takeWhile (\<lambda>x. x \<noteq> c) v)) else None)"

text \<open>
  The counters are references in the source, so they come back with a failure too.  The line
  is there whenever \<^verbatim>\<open>read_line\<close> succeeds, since no end of input is allowed.
\<close>

function read_headers :: "HttpHeaders \<Rightarrow> usize \<Rightarrow> usize \<Rightarrow> Http1Reader
    \<Rightarrow> ((HttpHeaders, HttpError) Result \<times> usize \<times> usize) \<times> Http1Reader" where
  "read_headers headers used_bytes used_count s =
     (if used_bytes \<ge> max_header_bytes (limits s)
      then ((Err (http_error HeaderLimitExceeded ''HTTP headers exceed configured byte limit''), used_bytes, used_count), s)
      else case read_line (max_header_bytes (limits s) - used_bytes) False s of
        (Err e, s') \<Rightarrow> ((Err e, used_bytes, used_count), s')
      | (Ok line, s') \<Rightarrow>
          let v = the line in
          if length v + 2 > max_header_bytes (limits s) - used_bytes
          then ((Err (http_error HeaderLimitExceeded ''HTTP headers exceed configured byte limit''), used_bytes, used_count), s')
          else let used_bytes = used_bytes + length v + 2 in
          if v = [] then ((Ok headers, used_bytes, used_count), s')
          else if hd v = SPACE \<or> hd v = TAB
          then ((Err (http_error InvalidMessage ''obsolete folded HTTP headers are not allowed''), used_bytes, used_count), s')
          else if used_count \<ge> max_header_count (limits s)
          then ((Err (http_error HeaderLimitExceeded ''HTTP header count exceeds configured limit''), used_bytes, used_count), s')
          else case find_byte COLON v of
            None \<Rightarrow> ((Err (http_error InvalidMessage (''HTTP header line is missing '' @ [CHR 0x27] @ '':'' @ [CHR 0x27])),
                      used_bytes, used_count), s')
          | Some colon \<Rightarrow>
              case headers_append (take colon v) (trim_ows (drop (colon + 1) v)) headers of
                Err e \<Rightarrow> ((Err e, used_bytes, used_count), s')
              | Ok headers \<Rightarrow> read_headers headers used_bytes (used_count + 1) s')"
  by pat_completeness auto
termination
proof (relation "measure (\<lambda>(h, ub, uc, s). bytes_left s)", goal_cases)
  case (2 headers ub uc s x s' line)
  then have "read_line (max_header_bytes (limits s) - ub) False s = (Ok line, s')" by simp
  from read_line_left [OF this] show ?case by (cases line) simp_all
qed simp

declare read_headers.simps [simp del]

lemma read_headers_left: "read_headers hs ub uc s = (v, s') \<Longrightarrow>
    bytes_left s' \<le> bytes_left s \<and> limits s' = limits s \<and> read_state s' = read_state s"
proof (induction hs ub uc s rule: read_headers.induct)
  case (1 hs ub uc s)
  obtain r s1 where r: "read_line (max_header_bytes (limits s) - ub) False s = (r, s1)"
    by (cases "read_line (max_header_bytes (limits s) - ub) False s")
  note l = read_line_left [OF r]
  show ?case
  proof (cases "ub \<ge> max_header_bytes (limits s)")
    case True
    then show ?thesis using 1(2) by (subst (asm) read_headers.simps) simp
  next
    case ub: False
    show ?thesis
    proof (cases r)
      case (Err e)
      then show ?thesis using 1(2) r l ub by (subst (asm) read_headers.simps) simp
    next
      case (Ok line)
      then show ?thesis
        using 1(1) [OF ub r [symmetric] Ok refl _ refl] 1(2) r l ub
        by (subst (asm) (2) read_headers.simps)
           (fastforce simp: Let_def split: if_splits option.splits Result.splits)
    qed
  qed
qed

section \<open>Heads\<close>

text \<open>Method, target and version of a request line.\<close>

definition split_request_line :: "bytes \<Rightarrow> (bytes \<times> bytes \<times> bytes, HttpError) Result" where
  "split_request_line line =
     (let malformed = Err (http_error InvalidMessage ''HTTP request line must contain method target version'') in
      case find_byte SPACE line of
        None \<Rightarrow> malformed
      | Some first_space \<Rightarrow>
          let rest = drop (first_space + 1) line in
          case find_byte SPACE rest of
            None \<Rightarrow> malformed
          | Some second_space \<Rightarrow>
              if SPACE \<in> set (drop (second_space + 1) rest) then malformed
              else Ok (take first_space line, take second_space rest, drop (second_space + 1) rest))"

definition check_request_line :: "bytes \<Rightarrow> bytes \<Rightarrow> (unit, HttpError) Result" where
  "check_request_line meth tgt =
     (if \<not> valid_name meth \<or> \<not> valid_request_target tgt
      then Err (http_error InvalidMessage ''HTTP request method or target is invalid'') else Ok ())"

definition headers_of_head :: "(HttpHeaders \<times> usize \<times> usize) reader_op" where
  "headers_of_head s =
     (case read_headers [] 0 0 s of
        ((Err e, _, _), s) \<Rightarrow> (Err e, s)
      | ((Ok hs, used_bytes, used_count), s) \<Rightarrow> (Ok (hs, used_bytes, used_count), s))"

definition read_start_line :: "bytes option reader_op" where
  "read_start_line s = read_line (max_start_line_bytes (limits s)) True s"

definition request_head_after :: "bytes \<Rightarrow> HttpRequestHead option reader_op" where
  "request_head_after request_line =
     http_then (http_lift (split_request_line request_line)) (\<lambda>(meth, tgt, version_text).
     http_then (http_lift (check_request_line meth tgt)) (\<lambda>_.
     http_then (http_modify (\<lambda>s. s\<lparr>last_head_method := meth\<rparr>)) (\<lambda>_.
     http_then (http_lift (parse_http_version version_text)) (\<lambda>version.
     http_then headers_of_head (\<lambda>(hs, used_bytes, used_count).
     http_then (http_lift (check_host version hs)) (\<lambda>_.
     http_then (http_lift (check_http10_encoding ''HTTP/1.0 request cannot use Transfer-Encoding'' version hs)) (\<lambda>_.
     http_then (http_lift (body_framing hs False)) (\<lambda>framing.
     http_then (begin_body framing used_bytes used_count) (\<lambda>_.
     http_return (Some \<lparr>req_method = meth, req_target = tgt, req_version = version, req_headers = hs\<rparr>))))))))))"

definition read_request_head :: "HttpRequestHead option reader_op" where
  "read_request_head =
     http_then ensure_ready (\<lambda>_.
     http_then read_start_line (\<lambda>line.
       case line of
         None \<Rightarrow> http_then (http_modify (\<lambda>s. s\<lparr>read_state := Ready\<rparr>)) (\<lambda>_. http_return None)
       | Some request_line \<Rightarrow> request_head_after request_line))"

text \<open>Version text, status and reason of a status line.\<close>

definition split_status_line :: "bytes \<Rightarrow> (HttpVersion \<times> u16 \<times> bytes, HttpError) Result" where
  "split_status_line line =
     (case find_byte SPACE line of
        None \<Rightarrow> Err (http_error InvalidMessage ''HTTP status line is incomplete'')
      | Some first_space \<Rightarrow>
          if length line < first_space + 4 then Err (http_error InvalidMessage ''HTTP status line is incomplete'')
          else and_then (parse_http_version (take first_space line)) (\<lambda>version.
            let status_text = take 3 (drop (first_space + 1) line) in
            if \<not> list_all (\<lambda>c. ZERO \<le> c \<and> c \<le> NINE) status_text
            then Err (http_error InvalidMessage ''HTTP status code must contain three decimal digits'')
            else if length line > first_space + 4 \<and> line ! (first_space + 4) \<noteq> SPACE
            then Err (http_error InvalidMessage ''HTTP status code must be followed by SP'')
            else let status = of_nat (unat (status_text ! 0 - ZERO) * 100 + unat (status_text ! 1 - ZERO) * 10
                                      + unat (status_text ! 2 - ZERO)) in
              if status < 100 then Err (http_error InvalidMessage ''HTTP status code must be at least 100'')
              else let reason = (if length line > first_space + 4 then drop (first_space + 5) line else []) in
                if \<not> valid_value reason
                then Err (http_error InvalidMessage ''HTTP reason phrase contains a forbidden byte'')
                else Ok (version, status, reason)))"

definition check_status_framing :: "u16 \<Rightarrow> HttpHeaders \<Rightarrow> (unit, HttpError) Result" where
  "check_status_framing status hs =
     (if status_forbids_framing status
         \<and> (headers_contains (ascii ''Content-Length'') hs \<or> headers_contains (ascii ''Transfer-Encoding'') hs)
      then Err (http_error InvalidMessage ''informational and 204 responses cannot contain body framing fields'')
      else Ok ())"

definition response_head_after :: "bytes \<Rightarrow> bytes \<Rightarrow> HttpResponseHead option reader_op" where
  "response_head_after request_method status_line =
     http_then (http_lift (split_status_line status_line)) (\<lambda>(version, status, reason).
     http_then headers_of_head (\<lambda>(hs, used_bytes, used_count).
     http_then (http_lift (check_http10_encoding ''HTTP/1.0 response cannot use Transfer-Encoding'' version hs)) (\<lambda>_.
     http_then (http_lift (check_status_framing status hs)) (\<lambda>_.
     http_then (http_lift
         (if status_forbids_body status \<or> is_head_response request_method \<or> is_connect_tunnel request_method status
          then Ok no_body else body_framing hs True)) (\<lambda>framing.
     http_then (begin_body framing used_bytes used_count) (\<lambda>_.
     http_return (Some \<lparr>resp_version = version, resp_status = status, resp_reason = reason, resp_headers = hs\<rparr>)))))))"

definition read_response_head :: "bytes \<Rightarrow> HttpResponseHead option reader_op" where
  "read_response_head request_method =
     http_then ensure_ready (\<lambda>_.
     http_then read_start_line (\<lambda>line.
       case line of
         None \<Rightarrow> http_then (http_modify (\<lambda>s. s\<lparr>read_state := Ready\<rparr>)) (\<lambda>_. http_return None)
       | Some status_line \<Rightarrow> response_head_after request_method status_line))"

section \<open>Bodies\<close>

text \<open>The bytes a call copies out of the buffer.\<close>

definition take_part :: "usize \<Rightarrow> bytes reader_op" where
  "take_part count s =
     (Ok (take count (unread s)),
      s\<lparr>unread := drop count (unread s), body_remaining := body_remaining s - count, body_decoded := body_decoded s + count\<rparr>)"

definition read_fixed_body_part :: "usize \<Rightarrow> bytes reader_op" where
  "read_fixed_body_part capacity =
     http_then fill_buffer (\<lambda>filled s.
       if \<not> filled then http_fail InvalidMessage ''unexpected EOF inside HTTP body'' s
       else let count = min capacity (min (body_remaining s) (length (unread s))) in
         http_then (take_part count) (\<lambda>part s.
           (Ok part, if body_remaining s = 0 then s\<lparr>read_state := BodyComplete\<rparr> else s)) s)"

text \<open>The size line of a chunk, up to the last one with its trailers; \<open>True\<close> when data follow.\<close>

definition read_chunk_head :: "bool reader_op" where
  "read_chunk_head =
     http_then (\<lambda>s. read_line (max_start_line_bytes (limits s)) False s) (\<lambda>line.
     http_then (http_lift (parse_chunk_size (the line))) (\<lambda>chunk_size s.
       if chunk_size = 0 then
         case read_headers [] (used_header_bytes s) (used_header_count s) s of
           ((r, used_bytes, used_count), s) \<Rightarrow>
             let s = s\<lparr>used_header_bytes := used_bytes, used_header_count := used_count\<rparr> in
             (case r of
                Err e \<Rightarrow> (Err e, s)
              | Ok trailers \<Rightarrow>
                  http_then (http_lift (validate_trailers trailers))
                    (\<lambda>_ s. (Ok False, s\<lparr>read_state := BodyComplete\<rparr>)) (s\<lparr>body_trailers := trailers\<rparr>))
       else if chunk_size > max_body_bytes (limits s) - body_decoded s
       then http_fail BodyLimitExceeded ''chunked HTTP body exceeds configured limit'' s
       else (Ok True, s\<lparr>body_remaining := chunk_size, read_state := ChunkData\<rparr>)))"

definition read_chunk_data :: "usize \<Rightarrow> bytes reader_op" where
  "read_chunk_data capacity =
     http_then fill_buffer (\<lambda>filled s.
       if \<not> filled then http_fail InvalidMessage ''unexpected EOF inside HTTP chunk'' s
       else let count = min capacity (min (body_remaining s) (length (unread s))) in
         http_then (take_part count) (\<lambda>part s.
           (Ok part, if body_remaining s = 0 then s\<lparr>read_state := ChunkDataEnding\<rparr> else s)) s)"

definition read_chunk_ending :: "unit reader_op" where
  "read_chunk_ending =
     http_then read_byte (\<lambda>carriage_return.
     http_then read_byte (\<lambda>line_feed.
       if carriage_return \<noteq> Some CR \<or> line_feed \<noteq> Some LF
       then http_fail InvalidMessage ''chunk data must be followed by CRLF''
       else http_modify (\<lambda>s. s\<lparr>read_state := ChunkSize\<rparr>)))"

text \<open>
  The loop of \<^verbatim>\<open>read_chunked_body_part\<close> returns from the states of a size line and of chunk
  data, and goes from the end of a chunk to the next size line: it has at most two rounds.
\<close>

definition chunk_round :: "usize \<Rightarrow> bytes reader_op" where
  "chunk_round capacity s =
     (if read_state s = ChunkSize then
        http_then read_chunk_head (\<lambda>more. if more then read_chunk_data capacity else http_return []) s
      else read_chunk_data capacity s)"

definition read_chunked_body_part :: "usize \<Rightarrow> bytes reader_op" where
  "read_chunked_body_part capacity s =
     (if read_state s = ChunkSize \<or> read_state s = ChunkData then chunk_round capacity s
      else http_then read_chunk_ending (\<lambda>_. chunk_round capacity) s)"

definition read_close_delimited_body_part :: "usize \<Rightarrow> bytes reader_op" where
  "read_close_delimited_body_part capacity =
     http_then fill_buffer (\<lambda>filled s.
       if \<not> filled then (Ok [], s\<lparr>read_state := BodyComplete\<rparr>)
       else let count = min capacity (length (unread s)) in
         if count > max_body_bytes (limits s) - body_decoded s
         then http_fail BodyLimitExceeded ''close-delimited HTTP body exceeds configured limit'' s
         else (Ok (take count (unread s)),
               s\<lparr>unread := drop count (unread s), body_decoded := body_decoded s + count\<rparr>))"

definition read_body :: "usize \<Rightarrow> bytes reader_op" where
  "read_body capacity s =
     (if read_state s = Ready \<or> read_state s = ReadingHead \<or> read_state s = Failed
      then http_fail InvalidState ''there is no readable HTTP body'' s
      else if read_state s = BodyComplete \<or> capacity = 0 then (Ok [], s)
      else let (result, s) =
             (if read_state s = FixedBody then read_fixed_body_part capacity s
              else if read_state s = CloseDelimitedBody then read_close_delimited_body_part capacity s
              else read_chunked_body_part capacity s)
        in (result, if is_err result then s\<lparr>read_state := Failed\<rparr> else s))"

definition body_finished :: "Http1Reader \<Rightarrow> bool" where
  "body_finished s \<longleftrightarrow> read_state s = BodyComplete"

definition finish_body :: "HttpHeaders reader_op" where
  "finish_body s =
     (if read_state s \<noteq> BodyComplete
      then http_fail InvalidState ''HTTP body has not reached its message boundary'' s
      else (Ok (body_trailers s),
            s\<lparr>body_trailers := [], body_info := no_body, body_remaining := 0, body_decoded := 0,
              used_header_bytes := 0, used_header_count := 0, read_state := Ready\<rparr>))"

definition buffered_len :: "Http1Reader \<Rightarrow> usize" where
  "buffered_len s = length (unread s)"

section \<open>Whole bodies and messages\<close>

text \<open>A call on a body that is not at its end ends it, uses some of the input, or ends a chunk.\<close>

lemma chunk_head_left:
  assumes "read_chunk_head s = (v, s')"
  shows "bytes_left s' \<le> bytes_left s" and "v = Ok go \<Longrightarrow> bytes_left s' < bytes_left s"
    and "v = Ok go \<Longrightarrow> read_state s' = (if go then ChunkData else BodyComplete)"
proof -
  obtain r s1 where l: "read_line (max_start_line_bytes (limits s)) False s = (r, s1)"
    by (cases "read_line (max_start_line_bytes (limits s)) False s")
  note left = read_line_left [OF l]
  have "bytes_left s' \<le> bytes_left s \<and> (v = Ok go \<longrightarrow> bytes_left s' < bytes_left s
      \<and> read_state s' = (if go then ChunkData else BodyComplete))" for go
  proof (cases r)
    case (Err e)
    then show ?thesis using assms left by (auto simp: read_chunk_head_def http_then_def l)
  next
    case (Ok line)
    then have less: "bytes_left s1 < bytes_left s" using left by (cases line) auto
    obtain h s2 where h: "read_headers [] (used_header_bytes s1) (used_header_count s1) s1 = (h, s2)"
      by (cases "read_headers [] (used_header_bytes s1) (used_header_count s1) s1")
    then have "bytes_left s2 < bytes_left s" using read_headers_left [OF h] less by simp
    then show ?thesis
      using assms less
      by (auto simp: read_chunk_head_def http_then_def l h Ok http_lift_def http_fail_def Let_def bytes_left_def
          split: Result.splits if_splits prod.splits)
  qed
  then show "bytes_left s' \<le> bytes_left s" "v = Ok go \<Longrightarrow> bytes_left s' < bytes_left s"
    "v = Ok go \<Longrightarrow> read_state s' = (if go then ChunkData else BodyComplete)" by blast+
qed

lemma take_part_left: "take_part n s = (v, s') \<Longrightarrow> n \<le> length (unread s) \<Longrightarrow>
    bytes_left s' + n = bytes_left s \<and> body_remaining s' = body_remaining s - n \<and> read_state s' = read_state s"
  by (auto simp: take_part_def bytes_left_def)

text \<open>A part that is copied out of a filled buffer.\<close>

lemma copied_part:
  assumes "http_then (take_part n) (\<lambda>part s. (Ok part, if body_remaining s = 0 then s\<lparr>read_state := st\<rparr> else s)) s = (v, s')"
    and "n = min capacity (min (body_remaining s) (length (unread s)))" and "unread s \<noteq> []" and "0 < capacity"
  shows "bytes_left s' < bytes_left s \<or> bytes_left s' = bytes_left s \<and> read_state s' = st"
proof -
  let ?s = "snd (take_part n s)"
  have s': "s' = (if body_remaining ?s = 0 then ?s\<lparr>read_state := st\<rparr> else ?s)"
    using assms(1) by (auto simp: http_then_def take_part_def)
  have n: "n \<le> length (unread s)" using assms(2) by simp
  from take_part_left [OF surjective_pairing n] have left: "bytes_left ?s + n = bytes_left s" "body_remaining ?s = body_remaining s - n"
    by simp_all
  have "bytes_left s' = bytes_left ?s" unfolding s' by (simp add: bytes_left_def)
  moreover have "0 < n \<or> body_remaining s = 0" using assms(2-4) by auto
  moreover have "body_remaining s = 0 \<Longrightarrow> read_state s' = st" unfolding s' using left by simp
  ultimately show ?thesis using left by linarith
qed

lemma chunk_data_left:
  assumes "read_chunk_data capacity s = (v, s')" and "0 < capacity"
  shows "bytes_left s' \<le> bytes_left s"
    and "v = Ok bs \<Longrightarrow> bytes_left s' < bytes_left s \<or> bytes_left s' = bytes_left s \<and> read_state s' = ChunkDataEnding"
proof -
  obtain r s1 where f: "fill_buffer s = (r, s1)" by (cases "fill_buffer s")
  note left = fill_buffer_left [OF f]
  have "bytes_left s' \<le> bytes_left s
    \<and> (v = Ok bs \<longrightarrow> bytes_left s' < bytes_left s \<or> bytes_left s' = bytes_left s \<and> read_state s' = ChunkDataEnding)" for bs
  proof (cases "r = Ok True")
    case True
    then have "unread s1 \<noteq> []" using left by simp
    from copied_part [OF _ refl this assms(2), of ChunkDataEnding v s'] assms(1) True left show ?thesis
      by (simp add: read_chunk_data_def http_then_def [of fill_buffer] f Let_def) linarith
  next
    case False
    then show ?thesis
      using assms(1) left by (auto simp: read_chunk_data_def http_then_def f http_fail_def split: Result.splits)
  qed
  then show "bytes_left s' \<le> bytes_left s"
    "v = Ok bs \<Longrightarrow> bytes_left s' < bytes_left s \<or> bytes_left s' = bytes_left s \<and> read_state s' = ChunkDataEnding" by blast+
qed

lemma chunk_ending_left:
  assumes "read_chunk_ending s = (Ok u, s')"
  shows "bytes_left s' < bytes_left s" and "read_state s' = ChunkSize"
proof -
  obtain r1 s1 where 1: "read_byte s = (r1, s1)" by (cases "read_byte s")
  obtain r2 s2 where 2: "read_byte s1 = (r2, s2)" by (cases "read_byte s1")
  show "bytes_left s' < bytes_left s" "read_state s' = ChunkSize"
    using assms read_byte_left [OF 1] read_byte_left [OF 2]
    by (auto simp: read_chunk_ending_def http_then_def 1 2 http_fail_def http_modify_def bytes_left_def
        split: Result.splits if_splits)
qed

lemma chunk_round_left:
  assumes "chunk_round capacity s = (Ok bs, s')" and "0 < capacity"
  shows "bytes_left s' \<le> bytes_left s"
    and "bytes_left s' < bytes_left s \<or> read_state s \<noteq> ChunkSize \<and> read_state s' = ChunkDataEnding"
proof -
  have "bytes_left s' \<le> bytes_left s
      \<and> (bytes_left s' < bytes_left s \<or> read_state s \<noteq> ChunkSize \<and> read_state s' = ChunkDataEnding)"
  proof (cases "read_state s = ChunkSize")
    case True
    obtain r s1 where h: "read_chunk_head s = (r, s1)" by (cases "read_chunk_head s")
    obtain go where go: "r = Ok go"
      using assms(1) True h by (cases r) (auto simp: chunk_round_def http_then_def)
    note l = chunk_head_left(2) [OF h go]
    show ?thesis
    proof (cases go)
      case True
      then have "read_chunk_data capacity s1 = (Ok bs, s')"
        using assms(1) \<open>read_state s = ChunkSize\<close> h go by (simp add: chunk_round_def http_then_def)
      from chunk_data_left(1) [OF this assms(2)] l show ?thesis by simp
    next
      case False
      then have "s' = s1"
        using assms(1) \<open>read_state s = ChunkSize\<close> h go by (simp add: chunk_round_def http_then_def http_return_def)
      with l show ?thesis by simp
    qed
  next
    case False
    then have "read_chunk_data capacity s = (Ok bs, s')" using assms(1) by (simp add: chunk_round_def)
    from chunk_data_left [OF this assms(2)] False show ?thesis by auto
  qed
  then show "bytes_left s' \<le> bytes_left s"
    "bytes_left s' < bytes_left s \<or> read_state s \<noteq> ChunkSize \<and> read_state s' = ChunkDataEnding" by blast+
qed

lemma fixed_part_left:
  assumes "read_fixed_body_part capacity s = (Ok bs, s')" and "0 < capacity"
  shows "read_state s' = BodyComplete \<or> bytes_left s' < bytes_left s"
proof -
  obtain r s1 where f: "fill_buffer s = (r, s1)" by (cases "fill_buffer s")
  have r: "r = Ok True" using assms(1) f
    by (auto simp: read_fixed_body_part_def http_then_def http_fail_def split: Result.splits if_splits)
  then have u: "unread s1 \<noteq> []" "bytes_left s1 \<le> bytes_left s" using fill_buffer_left [OF f] by auto
  from copied_part [OF _ refl u(1) assms(2), of BodyComplete "Ok bs" s'] assms(1) r u(2) show ?thesis
    by (simp add: read_fixed_body_part_def http_then_def [of fill_buffer] f Let_def) linarith
qed

lemma close_part_left:
  assumes "read_close_delimited_body_part capacity s = (Ok bs, s')" and "0 < capacity"
  shows "read_state s' = BodyComplete \<or> bytes_left s' < bytes_left s"
proof -
  obtain r s1 where f: "fill_buffer s = (r, s1)" by (cases "fill_buffer s")
  note left = fill_buffer_left [OF f]
  obtain go where r: "r = Ok go" using assms(1) f by (cases r) (auto simp: read_close_delimited_body_part_def http_then_def)
  show ?thesis
  proof (cases go)
    case True
    let ?n = "min capacity (length (unread s1))"
    have "0 < ?n" "?n \<le> length (unread s1)" using left True r assms(2) by auto
    moreover have "bytes_left s' = bytes_left (s1\<lparr>unread := drop ?n (unread s1)\<rparr>)"
      using assms(1) True
      by (auto simp: read_close_delimited_body_part_def http_then_def f r Let_def http_fail_def bytes_left_def split: if_splits)
    moreover have "bytes_left (s1\<lparr>unread := drop ?n (unread s1)\<rparr>) + ?n = bytes_left s1"
      using \<open>?n \<le> length (unread s1)\<close> by (simp add: bytes_left_def)
    ultimately show ?thesis using left by linarith
  next
    case False
    then show ?thesis using assms(1) by (auto simp: read_close_delimited_body_part_def http_then_def f r)
  qed
qed

lemma chunked_part_left:
  assumes "read_chunked_body_part capacity s = (Ok bs, s')" and "0 < capacity"
  shows "bytes_left s' < bytes_left s \<or> bytes_left s' = bytes_left s \<and> read_state s = ChunkData \<and> read_state s' = ChunkDataEnding"
proof (cases "read_state s = ChunkSize \<or> read_state s = ChunkData")
  case True
  then have "chunk_round capacity s = (Ok bs, s')" using assms(1) by (simp add: read_chunked_body_part_def)
  from chunk_round_left [OF this assms(2)] True show ?thesis by auto
next
  case False
  obtain r s1 where e: "read_chunk_ending s = (r, s1)" by (cases "read_chunk_ending s")
  obtain u where u: "r = Ok u"
    using assms(1) False e by (cases r) (auto simp: read_chunked_body_part_def http_then_def)
  have "chunk_round capacity s1 = (Ok bs, s')"
    using assms(1) False e u by (simp add: read_chunked_body_part_def http_then_def)
  from chunk_round_left(1) [OF this assms(2)] chunk_ending_left [of s u s1] e u show ?thesis by simp
qed

lemma read_body_left:
  assumes "read_body capacity s = (Ok bs, s')" and "0 < capacity" and "read_state s \<noteq> BodyComplete"
  shows "read_state s' = BodyComplete \<or> bytes_left s' < bytes_left s
    \<or> bytes_left s' = bytes_left s \<and> read_state s = ChunkData \<and> read_state s' = ChunkDataEnding"
proof -
  have "(if read_state s = FixedBody then read_fixed_body_part capacity s
      else if read_state s = CloseDelimitedBody then read_close_delimited_body_part capacity s
      else read_chunked_body_part capacity s) = (Ok bs, s')"
    using assms by (auto simp: read_body_def http_fail_def is_err_def is_ok_def split: if_splits prod.splits Result.splits)
  then show ?thesis
    using fixed_part_left [OF _ assms(2)] close_part_left [OF _ assms(2)] chunked_part_left [OF _ assms(2)]
    by (auto split: if_splits)
qed

definition read_rank :: "Http1Reader \<Rightarrow> nat" where
  "read_rank s = (if read_state s = ChunkData then 1 else 0)"

function discard_loop :: "unit reader_op" where
  "discard_loop s =
     (if body_finished s then (Ok (), s)
      else case read_body 8192 s of
        (Err e, s) \<Rightarrow> (Err e, s)
      | (Ok bs, s) \<Rightarrow> if body_finished s then (Ok (), s) else discard_loop s)"
  by auto
termination
proof (relation "measures [bytes_left, read_rank]", goal_cases)
  case (2 s r s' bs)
  then have "read_body 8192 s = (Ok bs, s')" "read_state s \<noteq> BodyComplete" "read_state s' \<noteq> BodyComplete"
    by (simp_all add: body_finished_def)
  from read_body_left [OF this(1) _ this(2)] this(3) show ?case by (auto simp: read_rank_def)
qed simp

declare discard_loop.simps [simp del]

definition discard_body :: "HttpHeaders reader_op" where
  "discard_body s =
     (if read_state s = Ready \<or> read_state s = ReadingHead \<or> read_state s = Failed
      then http_fail InvalidState ''there is no discardable HTTP body'' s
      else http_then discard_loop (\<lambda>_. finish_body) s)"

text \<open>The loop of \<^verbatim>\<open>read_body_all\<close>.\<close>

function body_loop :: "bytes \<Rightarrow> bytes reader_op" where
  "body_loop output s =
     (if body_finished s then (Ok output, s)
      else case read_body 8192 s of
        (Err e, s) \<Rightarrow> (Err e, s)
      | (Ok bs, s) \<Rightarrow> if body_finished s then (Ok (output @ bs), s) else body_loop (output @ bs) s)"
  by auto
termination
proof (relation "measures [\<lambda>(acc, s). bytes_left s, \<lambda>(acc, s). read_rank s]", goal_cases)
  case (2 acc s r s' bs)
  then have "read_body 8192 s = (Ok bs, s')" "read_state s \<noteq> BodyComplete" "read_state s' \<noteq> BodyComplete"
    by (simp_all add: body_finished_def)
  from read_body_left [OF this(1) _ this(2)] this(3) show ?case by (auto simp: read_rank_def)
qed simp

declare body_loop.simps [simp del]

definition read_body_all :: "(bytes \<times> HttpHeaders) reader_op" where
  "read_body_all =
     http_then (body_loop []) (\<lambda>output. http_then finish_body (\<lambda>trailers. http_return (output, trailers)))"

definition read_request :: "HttpRequest option reader_op" where
  "read_request =
     http_then read_request_head (\<lambda>head.
       case head of
         None \<Rightarrow> http_return None
       | Some h \<Rightarrow> http_then read_body_all (\<lambda>(body, trailers).
           http_return (Some (HttpRequestHead.extend h (HttpRequest.fields body trailers)))))"

definition read_response :: "bytes \<Rightarrow> HttpResponse option reader_op" where
  "read_response request_method =
     http_then (read_response_head request_method) (\<lambda>head.
       case head of
         None \<Rightarrow> http_return None
       | Some h \<Rightarrow> http_then read_body_all (\<lambda>(body, trailers).
           http_return (Some (HttpResponseHead.extend h (HttpResponse.fields body trailers)))))"

end
