(* ===== verification/Http_Delivery.thy ===== *)
theory Http_Delivery
  imports Http_Reader
begin

text \<open>
  The reader does not depend on how the stream cuts its bytes: \<open>view\<close> is the state that has
  everything the stream will deliver in its buffer already, and an operation \<open>segment_free\<close>
  commutes with it.
\<close>

section \<open>Views\<close>

text \<open>Segments that the buffer of the reader holds.\<close>

definition in_segments :: "reader \<Rightarrow> bool" where
  "in_segments r = well_delivered 8192 r"

lemma in_segments_simps [simp]:
  "in_segments []" "in_segments (Received bs # r) \<longleftrightarrow> bs \<noteq> [] \<and> length bs \<le> 8192 \<and> in_segments r"
  "in_segments (ReadFailed e # r) \<longleftrightarrow> io_kind e = Interrupted \<and> in_segments r"
  by (simp_all add: in_segments_def)

definition rest :: "Http1Reader \<Rightarrow> bytes" where
  "rest s = unread s @ stream_bytes (rd_stream s)"

definition view :: "Http1Reader \<Rightarrow> Http1Reader" where
  "view s = s\<lparr>rd_stream := [], unread := rest s\<rparr>"

lemma view_fields [simp]:
  "rd_stream (view s) = []" "unread (view s) = rest s" "limits (view s) = limits s" "read_state (view s) = read_state s"
  "body_info (view s) = body_info s" "body_remaining (view s) = body_remaining s" "body_decoded (view s) = body_decoded s"
  "used_header_bytes (view s) = used_header_bytes s" "used_header_count (view s) = used_header_count s"
  "body_trailers (view s) = body_trailers s" "last_head_method (view s) = last_head_method s"
  by (simp_all add: view_def)

lemma rest_simps [simp]: "rest (view s) = rest s" "view (view s) = view s"
  by (simp_all add: rest_def view_def)

lemma rest_update [simp]:
  "rest (s\<lparr>read_state := a\<rparr>) = rest s" "rest (s\<lparr>body_info := b\<rparr>) = rest s" "rest (s\<lparr>body_remaining := n\<rparr>) = rest s"
  "rest (s\<lparr>body_decoded := n\<rparr>) = rest s" "rest (s\<lparr>used_header_bytes := n\<rparr>) = rest s"
  "rest (s\<lparr>used_header_count := n\<rparr>) = rest s" "rest (s\<lparr>body_trailers := hs\<rparr>) = rest s"
  "rest (s\<lparr>last_head_method := m\<rparr>) = rest s" "rest (s\<lparr>unread := u\<rparr>) = u @ stream_bytes (rd_stream s)"
  "rest (s\<lparr>rd_stream := r\<rparr>) = unread s @ stream_bytes r"
  by (simp_all add: rest_def)

lemma view_update [simp]:
  "view (s\<lparr>read_state := a\<rparr>) = (view s)\<lparr>read_state := a\<rparr>" "view (s\<lparr>body_info := b\<rparr>) = (view s)\<lparr>body_info := b\<rparr>"
  "view (s\<lparr>body_remaining := n\<rparr>) = (view s)\<lparr>body_remaining := n\<rparr>"
  "view (s\<lparr>body_decoded := n\<rparr>) = (view s)\<lparr>body_decoded := n\<rparr>"
  "view (s\<lparr>used_header_bytes := n\<rparr>) = (view s)\<lparr>used_header_bytes := n\<rparr>"
  "view (s\<lparr>used_header_count := n\<rparr>) = (view s)\<lparr>used_header_count := n\<rparr>"
  "view (s\<lparr>body_trailers := hs\<rparr>) = (view s)\<lparr>body_trailers := hs\<rparr>"
  "view (s\<lparr>last_head_method := m\<rparr>) = (view s)\<lparr>last_head_method := m\<rparr>"
  "view (s\<lparr>unread := u\<rparr>) = (view s)\<lparr>unread := u @ stream_bytes (rd_stream s)\<rparr>"
  by (simp_all add: view_def)

section \<open>Operations that do not see the segments\<close>

definition segment_free :: "(Http1Reader \<Rightarrow> 'a \<times> Http1Reader) \<Rightarrow> bool" where
  "segment_free m \<longleftrightarrow> (\<forall>s. in_segments (rd_stream s) \<longrightarrow>
     in_segments (rd_stream (snd (m s))) \<and> m (view s) = map_prod id view (m s))"

named_theorems segments

lemma segment_freeI:
  assumes "\<And>s v s'. in_segments (rd_stream s) \<Longrightarrow> m s = (v, s') \<Longrightarrow> in_segments (rd_stream s') \<and> m (view s) = (v, view s')"
  shows "segment_free m"
  unfolding segment_free_def
proof (intro allI impI)
  fix s :: Http1Reader assume "in_segments (rd_stream s)"
  from assms [OF this, of "fst (m s)" "snd (m s)"] show "in_segments (rd_stream (snd (m s))) \<and> m (view s) = map_prod id view (m s)"
    by (simp add: prod_eq_iff)
qed

lemma segment_freeD:
  "segment_free m \<Longrightarrow> in_segments (rd_stream s) \<Longrightarrow> m s = (v, s') \<Longrightarrow> in_segments (rd_stream s') \<and> m (view s) = (v, view s')"
  unfolding segment_free_def by (metis map_prod_simp id_apply snd_conv)

lemma segment_free_return [segments]: "segment_free (http_return v)"
  by (auto intro: segment_freeI simp: http_return_def)

lemma segment_free_fail [segments]: "segment_free (http_fail k msg)"
  by (auto intro: segment_freeI simp: http_fail_def)

lemma segment_free_lift [segments]: "segment_free (http_lift r)"
  by (auto intro: segment_freeI simp: http_lift_def)

lemma segment_free_modify:
  "(\<And>s. view (f s) = f (view s)) \<Longrightarrow> (\<And>s. rd_stream (f s) = rd_stream s) \<Longrightarrow> segment_free (http_modify f)"
  by (auto intro!: segment_freeI simp: http_modify_def)

lemma segment_free_then [segments]:
  assumes "segment_free m" and "\<And>v. segment_free (f v)"
  shows "segment_free (http_then m f)"
proof (rule segment_freeI)
  fix s w and s' :: Http1Reader assume d: "in_segments (rd_stream s)" and r: "http_then m f s = (w, s')"
  obtain v s1 where m: "m s = (v, s1)" by (cases "m s")
  note m' = segment_freeD [OF assms(1) d m]
  show "in_segments (rd_stream s') \<and> http_then m f (view s) = (w, view s')"
  proof (cases v)
    case (Ok a)
    then have "f a s1 = (w, s')" using r by (simp add: http_then_def m)
    from segment_freeD [OF assms(2) _ this] m' Ok show ?thesis by (simp add: http_then_def)
  next
    case (Err e)
    with m' r m show ?thesis by (auto simp: http_then_def)
  qed
qed

lemma segment_free_read:
  assumes "\<And>s. f (view s) = f s" and "\<And>a. segment_free (m a)"
  shows "segment_free (\<lambda>s. m (f s) s)"
proof (rule segment_freeI)
  fix s v and s' :: Http1Reader assume "in_segments (rd_stream s)" "m (f s) s = (v, s')"
  from segment_freeD [OF assms(2) this] show "in_segments (rd_stream s') \<and> m (f (view s)) (view s) = (v, view s')"
    by (simp add: assms(1))
qed

lemma segment_free_if [segments]: "segment_free m \<Longrightarrow> segment_free m' \<Longrightarrow> segment_free (if b then m else m')"
  by simp

lemma segment_free_option [segments]:
  "segment_free m \<Longrightarrow> (\<And>v. segment_free (f v)) \<Longrightarrow> segment_free (case x of None \<Rightarrow> m | Some v \<Rightarrow> f v)"
  by (simp split: option.split)

lemma segment_free_prod [segments]: "(\<And>a b. segment_free (f a b)) \<Longrightarrow> segment_free (case p of (a, b) \<Rightarrow> f a b)"
  by (simp split: prod.split)

section \<open>Lines, headers and heads\<close>

lemma fill_from_delivered:
  "in_segments r \<Longrightarrow> fill_from r = (v, r') \<Longrightarrow>
     in_segments r' \<and> (\<exists>bs. v = Ok bs \<and> bs @ stream_bytes r' = stream_bytes r \<and> (bs = [] \<longrightarrow> stream_bytes r = []))"
  by (induction r rule: fill_from.induct) auto

lemma fill_buffer_segments [segments]: "segment_free fill_buffer"
proof (rule segment_freeI)
  fix s v and s' :: Http1Reader assume d: "in_segments (rd_stream s)" and f: "fill_buffer s = (v, s')"
  show "in_segments (rd_stream s') \<and> fill_buffer (view s) = (v, view s')"
  proof (cases "unread s = []")
    case False
    then show ?thesis using d f by (auto simp: fill_buffer_def rest_def)
  next
    case True
    obtain w r where r: "fill_from (rd_stream s) = (w, r)" by (cases "fill_from (rd_stream s)")
    from fill_from_delivered [OF d r] obtain bs where bs: "in_segments r" "w = Ok bs"
      "bs @ stream_bytes r = stream_bytes (rd_stream s)" "bs = [] \<longrightarrow> stream_bytes (rd_stream s) = []" by blast
    then have s': "v = Ok (bs \<noteq> [])" "s' = s\<lparr>rd_stream := r, unread := bs\<rparr>"
      using f True r by (auto simp: fill_buffer_def)
    have "view s' = view s" using bs True by (simp add: s' view_def rest_def)
    moreover have "fill_buffer (view s) = (Ok (rest s \<noteq> []), view s)"
      by (auto simp: fill_buffer_def view_def rest_def)
    ultimately show ?thesis using bs True s' by (auto simp: rest_def)
  qed
qed

lemma read_byte_segments [segments]: "segment_free read_byte"
  unfolding read_byte_def
proof (rule segment_freeI)
  fix s v and s' :: Http1Reader
  let ?k = "\<lambda>filled s. if \<not> filled then (Ok None, s) else (Ok (Some (hd (unread s))), s\<lparr>unread := tl (unread s)\<rparr>)"
  assume d: "in_segments (rd_stream s)" and r: "http_then fill_buffer ?k s = (v, s')"
  obtain w s1 where f: "fill_buffer s = (w, s1)" by (cases "fill_buffer s")
  note f' = segment_freeD [OF fill_buffer_segments d f] fill_buffer_left [OF f]
  show "in_segments (rd_stream s') \<and> http_then fill_buffer ?k (view s) = (v, view s')"
  proof (cases "w = Ok True")
    case True
    then obtain c cs where c: "unread s1 = c # cs" using f' by (auto simp: neq_Nil_conv)
    then show ?thesis using r f f' True by (auto simp: http_then_def view_def rest_def)
  next
    case False
    then show ?thesis using r f f' by (auto simp: http_then_def split: Result.splits)
  qed
qed

lemma read_line_loop_segments [segments]: "segment_free (read_line_loop limit clean line cr any)"
proof (rule segment_freeI)
  fix s v and s' :: Http1Reader assume "in_segments (rd_stream s)" and "read_line_loop limit clean line cr any s = (v, s')"
  then show "in_segments (rd_stream s') \<and> read_line_loop limit clean line cr any (view s) = (v, view s')"
  proof (induction limit clean line cr any s rule: read_line_loop.induct)
    case (1 limit clean line cr any s)
    obtain r s1 where r: "read_byte s = (r, s1)" by (cases "read_byte s")
    note v = segment_freeD [OF read_byte_segments 1(3) r]
    show ?case
    proof (cases r)
      case (Err e)
      then show ?thesis using 1(4) r v by (subst (asm) read_line_loop.simps) (auto simp: read_line_loop.simps)
    next
      case (Ok b)
      show ?thesis
      proof (cases b)
        case None
        then show ?thesis
          using 1(4) r v Ok by (subst (asm) read_line_loop.simps) (auto simp: http_fail_def read_line_loop.simps split: if_splits)
      next
        case (Some c)
        have eq: "read_line_loop limit clean line cr any s =
           (if cr then if c \<noteq> LF then http_fail InvalidMessage ''HTTP lines must end with CRLF'' s1 else (Ok (Some line), s1)
            else if c = CR then read_line_loop limit clean line True True s1
            else if c = LF then http_fail InvalidMessage ''bare LF is not allowed in HTTP/1'' s1
            else if length line \<ge> limit then http_fail HeaderLimitExceeded ''HTTP line exceeds configured limit'' s1
            else read_line_loop limit clean (line @ [c]) False True s1)"
          by (subst read_line_loop.simps) (simp add: r Ok Some)
        have eq': "read_line_loop limit clean line cr any (view s) =
           (if cr then if c \<noteq> LF then http_fail InvalidMessage ''HTTP lines must end with CRLF'' (view s1) else (Ok (Some line), view s1)
            else if c = CR then read_line_loop limit clean line True True (view s1)
            else if c = LF then http_fail InvalidMessage ''bare LF is not allowed in HTTP/1'' (view s1)
            else if length line \<ge> limit then http_fail HeaderLimitExceeded ''HTTP line exceeds configured limit'' (view s1)
            else read_line_loop limit clean (line @ [c]) False True (view s1))"
          using v by (subst read_line_loop.simps) (simp add: Ok Some)
        note ih = 1(1) [OF r [symmetric] Ok Some] 1(2) [OF r [symmetric] Ok Some]
        show ?thesis
          using 1(4) v ih unfolding eq eq' by (auto simp: http_fail_def split: if_splits)
      qed
    qed
  qed
qed

lemma read_line_segments [segments]: "segment_free (read_line limit clean)"
  unfolding read_line_def by (rule read_line_loop_segments)

lemma read_headers_segments: "segment_free (read_headers hs ub uc)"
proof (rule segment_freeI)
  fix s v and s' :: Http1Reader assume "in_segments (rd_stream s)" and "read_headers hs ub uc s = (v, s')"
  then show "in_segments (rd_stream s') \<and> read_headers hs ub uc (view s) = (v, view s')"
  proof (induction hs ub uc s arbitrary: v rule: read_headers.induct)
    case (1 hs ub uc s)
    obtain r s1 where r: "read_line (max_header_bytes (limits s) - ub) False s = (r, s1)"
      by (cases "read_line (max_header_bytes (limits s) - ub) False s")
    note w = segment_freeD [OF read_line_segments 1(2) r]
    show ?case
    proof (cases "ub \<ge> max_header_bytes (limits s) \<or> is_err r")
      case True
      then show ?thesis
        using 1(2,3) r w by (cases r; subst (asm) read_headers.simps) (auto simp: read_headers.simps is_err_def is_ok_def
            del: diff_is_0_eq)
    next
      case False
      then obtain line where ok: "r = Ok line" and ub: "\<not> ub \<ge> max_header_bytes (limits s)"
        by (cases r) (auto simp: is_err_def is_ok_def)
      note ih = 1(1) [OF ub r [symmetric] ok refl _ refl]
      show ?thesis
        using 1(3) w ub ih unfolding read_headers.simps [of hs ub uc s] read_headers.simps [of hs ub uc "view s"]
        by (auto simp: r ok Let_def split: if_splits option.splits Result.splits)
    qed
  qed
qed

lemma headers_of_head_segments [segments]: "segment_free headers_of_head"
proof (rule segment_freeI)
  fix s v and s' :: Http1Reader assume d: "in_segments (rd_stream s)" and r: "headers_of_head s = (v, s')"
  obtain a s1 where h: "read_headers [] 0 0 s = (a, s1)" by (cases "read_headers [] 0 0 s")
  from segment_freeD [OF read_headers_segments d h] r
  show "in_segments (rd_stream s') \<and> headers_of_head (view s) = (v, view s')"
    by (cases a) (auto simp: headers_of_head_def h split: Result.splits)
qed

lemma ensure_ready_segments [segments]: "segment_free ensure_ready"
  by (rule segment_freeI) (auto simp: ensure_ready_def validate_limits_def http_then_def http_fail_def http_return_def http_modify_def split: if_splits)

lemma begin_body_segments [segments]: "segment_free (begin_body body used_bytes used_count)"
  by (rule segment_freeI)
     (auto simp: begin_body_def Let_def http_fail_def http_return_def split: HttpBodyKind.splits if_splits)

lemma read_start_line_segments [segments]: "segment_free read_start_line"
  unfolding read_start_line_def
  by (rule segment_free_read [where f = "\<lambda>s. max_start_line_bytes (limits s)"]) (simp_all add: read_line_segments)

lemma segment_free_state [segments]: "segment_free (http_modify (\<lambda>s. s\<lparr>read_state := st\<rparr>))"
  by (rule segment_free_modify) simp_all

lemma segment_free_head_method [segments]: "segment_free (http_modify (\<lambda>s. s\<lparr>last_head_method := m\<rparr>))"
  by (rule segment_free_modify) simp_all


lemma read_request_head_segments [segments]: "segment_free read_request_head"
  unfolding read_request_head_def request_head_after_def by (intro segments)

lemma read_response_head_segments [segments]: "segment_free (read_response_head request_method)"
  unfolding read_response_head_def response_head_after_def by (intro segments)

lemma read_chunk_head_segments [segments]: "segment_free read_chunk_head"
proof -
  have "segment_free (\<lambda>s. case read_headers [] (used_header_bytes s) (used_header_count s) s of
           ((r, used_bytes, used_count), s) \<Rightarrow>
             let s = s\<lparr>used_header_bytes := used_bytes, used_header_count := used_count\<rparr> in
             (case r of
                Err e \<Rightarrow> (Err e, s)
              | Ok trailers \<Rightarrow>
                  http_then (http_lift (validate_trailers trailers))
                    (\<lambda>_ s. (Ok False, s\<lparr>read_state := BodyComplete\<rparr>)) (s\<lparr>body_trailers := trailers\<rparr>)))"
    (is "segment_free ?m")
  proof (rule segment_freeI)
    fix s v and s' :: Http1Reader assume d: "in_segments (rd_stream s)" and r: "?m s = (v, s')"
    obtain a s1 where h: "read_headers [] (used_header_bytes s) (used_header_count s) s = (a, s1)"
      by (cases "read_headers [] (used_header_bytes s) (used_header_count s) s")
    from segment_freeD [OF read_headers_segments d h] r
    show "in_segments (rd_stream s') \<and> ?m (view s) = (v, view s')"
      by (cases a) (auto simp: h Let_def http_then_def http_lift_def split: Result.splits)
  qed
  then show ?thesis
    unfolding read_chunk_head_def
    by (intro segment_free_then segment_free_read [where f = "\<lambda>s. max_start_line_bytes (limits s)" and m = "\<lambda>n. read_line n False"] segments)
       (auto intro!: segment_freeI dest: segment_freeD simp: http_fail_def split: if_splits)
qed

lemma read_chunk_ending_segments [segments]: "segment_free read_chunk_ending"
  unfolding read_chunk_ending_def by (intro segments)

lemma finish_body_segments [segments]: "segment_free finish_body"
  by (rule segment_freeI) (auto simp: finish_body_def http_fail_def split: if_splits)

section \<open>Bodies\<close>

lemma bytes_left_rest: "in_segments (rd_stream s) \<Longrightarrow> bytes_left s = length (rest s)"
proof -
  have "in_segments r \<Longrightarrow> sum_list (map outcome_size r) = length (stream_bytes r)" for r
    by (induction r rule: stream_bytes.induct) auto
  then show "in_segments (rd_stream s) \<Longrightarrow> bytes_left s = length (rest s)" by (simp add: bytes_left_def rest_def)
qed

lemma view_eqD:
  "view t = v \<Longrightarrow> body_remaining t = body_remaining v \<and> rest t = unread v \<and> read_state t = read_state v
     \<and> body_decoded t = body_decoded v"
  by auto

lemma view_id: "rd_stream s = [] \<Longrightarrow> view s = s"
  by (simp add: view_def rest_def)

lemma body_loop_step:
  assumes "\<not> body_finished s"
  shows "body_loop acc s = (case read_body 8192 s of (Err e, s) \<Rightarrow> (Err e, s) | (Ok bs, s) \<Rightarrow> body_loop (acc @ bs) s)"
  using assms by (subst body_loop.simps) (auto simp: body_loop.simps [of "_ @ _"] split: prod.splits Result.splits)

definition copying :: "ReadState \<Rightarrow> ReadState \<Rightarrow> string \<Rightarrow> bool" where
  "copying st next_state msg \<longleftrightarrow>
     st = FixedBody \<and> next_state = BodyComplete \<and> msg = ''unexpected EOF inside HTTP body''
     \<or> st = ChunkData \<and> next_state = ChunkDataEnding \<and> msg = ''unexpected EOF inside HTTP chunk''"

lemma fill_buffer_rest:
  assumes "in_segments (rd_stream s)"
  obtains s1 where "fill_buffer s = (Ok (rest s \<noteq> []), s1)" and "in_segments (rd_stream s1)" and "view s1 = view s"
    and "rest s \<noteq> [] \<Longrightarrow> unread s1 \<noteq> []" and "rd_stream s = [] \<Longrightarrow> rd_stream s1 = []"
proof -
  obtain r s1 where f: "fill_buffer s = (r, s1)" by (cases "fill_buffer s")
  note v = segment_freeD [OF fill_buffer_segments assms f]
  have "fill_buffer (view s) = (Ok (rest s \<noteq> []), view s)" by (auto simp: fill_buffer_def view_def rest_def)
  with v have "r = Ok (rest s \<noteq> [])" "view s1 = view s" by auto
  moreover have "rd_stream s = [] \<Longrightarrow> rd_stream s1 = []" using f by (auto simp: fill_buffer_def split: if_splits)
  ultimately show thesis using that f v fill_buffer_left [OF f] by auto
qed

text \<open>One call copies a nonempty piece of what is left, or fails at the end of the input.\<close>

lemma copy_step:
  assumes "in_segments (rd_stream s)" and "copying (read_state s) next_state msg" and "rest s \<noteq> []"
  obtains k s' where "read_body 8192 s = (Ok (take k (rest s)), s')" and "in_segments (rd_stream s')"
    and "k \<le> body_remaining s" and "k \<le> length (rest s)" and "k = 0 \<Longrightarrow> body_remaining s = 0"
    and "view s' = (view s)\<lparr>unread := drop k (rest s), body_remaining := body_remaining s - k,
           body_decoded := body_decoded s + k, read_state := (if k = body_remaining s then next_state else read_state s)\<rparr>"
    and "rd_stream s = [] \<Longrightarrow> rd_stream s' = []"
proof -
  obtain s1 where f: "fill_buffer s = (Ok (rest s \<noteq> []), s1)" and d: "in_segments (rd_stream s1)" and v: "view s1 = view s"
    and u: "unread s1 \<noteq> []" and n: "rd_stream s = [] \<Longrightarrow> rd_stream s1 = []"
    using fill_buffer_rest [OF assms(1)] assms(3) by metis
  define k where "k = min 8192 (min (body_remaining s1) (length (unread s1)))"
  let ?k = k
  let ?t = "s1\<lparr>unread := drop ?k (unread s1), body_remaining := body_remaining s1 - ?k, body_decoded := body_decoded s1 + ?k\<rparr>"
  let ?s = "if body_remaining s1 - ?k = 0 then ?t\<lparr>read_state := next_state\<rparr> else ?t"
  from v have same: "body_remaining s1 = body_remaining s" "body_decoded s1 = body_decoded s" "read_state s1 = read_state s"
    "rest s1 = rest s"
    by (metis view_fields(6)) (metis v view_fields(7), metis v view_fields(4), metis v view_fields(2))
  have le: "k \<le> body_remaining s1" "k \<le> length (unread s1)" "k = 0 \<Longrightarrow> body_remaining s1 = 0" using u
    by (simp_all add: k_def min_def split: if_splits)
  then have k: "take ?k (unread s1) = take ?k (rest s)" "drop ?k (unread s1) @ stream_bytes (rd_stream s1) = drop ?k (rest s)"
    unfolding same(4) [symmetric] by (simp_all add: rest_def [of s1])
  show thesis
  proof (rule that [of ?k ?s])
    show "read_body 8192 s = (Ok (take ?k (rest s)), ?s)"
      using assms(2) unfolding copying_def k(1) [symmetric]
    proof (elim disjE conjE)
      assume "read_state s = FixedBody" "next_state = BodyComplete"
      then show "read_body 8192 s = (Ok (take k (unread s1)), ?s)"
        using f assms(3) by (simp add: read_body_def read_fixed_body_part_def http_then_def take_part_def k_def [symmetric]
            is_err_def is_ok_def
            del: diff_is_0_eq)
    next
      assume "read_state s = ChunkData" "next_state = ChunkDataEnding"
      then show "read_body 8192 s = (Ok (take k (unread s1)), ?s)"
        using f assms(3) by (simp add: read_body_def read_chunked_body_part_def chunk_round_def read_chunk_data_def
            http_then_def take_part_def k_def [symmetric] is_err_def is_ok_def del: diff_is_0_eq)
    qed
    show "view ?s = (view s)\<lparr>unread := drop ?k (rest s), body_remaining := body_remaining s - ?k,
           body_decoded := body_decoded s + ?k, read_state := (if ?k = body_remaining s then next_state else read_state s)\<rparr>"
      using same v k(2) le(1) by auto
    show "k \<le> length (rest s)" using le(2) unfolding same(4) [symmetric] by (simp add: rest_def)
  qed (use d n same le in simp_all)
qed

lemma copy_end:
  assumes "in_segments (rd_stream s)" and "copying (read_state s) next_state msg" and "rest s = []"
  obtains s' where "read_body 8192 s = (Err (http_error InvalidMessage msg), s')" and "in_segments (rd_stream s')"
    and "view s' = (view s)\<lparr>read_state := Failed\<rparr>" and "rd_stream s = [] \<Longrightarrow> rd_stream s' = []"
proof -
  obtain s1 where f: "fill_buffer s = (Ok False, s1)" and d: "in_segments (rd_stream s1)" and v: "view s1 = view s"
    and n: "rd_stream s = [] \<Longrightarrow> rd_stream s1 = []"
    using fill_buffer_rest [OF assms(1)] assms(3) by metis
  show thesis
  proof (rule that [of "s1\<lparr>read_state := Failed\<rparr>"])
    show "read_body 8192 s = (Err (http_error InvalidMessage msg), s1\<lparr>read_state := Failed\<rparr>)"
      using assms(2) f
      by (auto simp: copying_def read_body_def read_fixed_body_part_def read_chunked_body_part_def chunk_round_def
          read_chunk_data_def http_then_def http_fail_def is_err_def is_ok_def)
  qed (use d v n in simp_all)
qed

text \<open>All the bytes that a fixed body or a chunk still lacks.\<close>

lemma copy_all:
  assumes "in_segments (rd_stream s)" and "copying (read_state s) next_state msg"
    and "body_remaining s \<le> length (rest s)" and "rest s \<noteq> []"
  obtains s' where "body_loop acc s = body_loop (acc @ take (body_remaining s) (rest s)) s'" and "in_segments (rd_stream s')"
    and "view s' = (view s)\<lparr>unread := drop (body_remaining s) (rest s), body_remaining := 0,
           body_decoded := body_decoded s + body_remaining s, read_state := next_state\<rparr>"
    and "rd_stream s = [] \<Longrightarrow> rd_stream s' = []"
  using assms
proof (induction "body_remaining s" arbitrary: acc s thesis rule: less_induct)
  case less
  obtain k t where t: "read_body 8192 s = (Ok (take k (rest s)), t)" "in_segments (rd_stream t)" "k \<le> body_remaining s"
    "k \<le> length (rest s)" "k = 0 \<Longrightarrow> body_remaining s = 0"
    "view t = (view s)\<lparr>unread := drop k (rest s), body_remaining := body_remaining s - k,
       body_decoded := body_decoded s + k, read_state := (if k = body_remaining s then next_state else read_state s)\<rparr>"
    "rd_stream s = [] \<Longrightarrow> rd_stream t = []"
    using copy_step [OF less(3,4,6)] by metis
  have nf: "\<not> body_finished s" using less(4) by (auto simp: copying_def body_finished_def)
  have step: "body_loop acc s = body_loop (acc @ take k (rest s)) t"
    using body_loop_step [OF nf, of acc] t(1) by simp
  show ?case
  proof (cases "k = body_remaining s")
    case True
    show ?thesis by (rule less(2) [of t]) (use step t True in simp_all)
  next
    case False
    have same: "body_remaining t = body_remaining s - k" "rest t = drop k (rest s)" "read_state t = read_state s"
      "body_decoded t = body_decoded s + k"
      using view_eqD [OF t(6)] False by simp_all
    have c: "body_remaining t < body_remaining s" "copying (read_state t) next_state msg" "body_remaining t \<le> length (rest t)"
      "rest t \<noteq> []"
      using less(4,5) t(3-5) False by (cases "k = 0"; auto simp: same)+
    obtain s' where s': "body_loop (acc @ take k (rest s)) t = body_loop ((acc @ take k (rest s)) @ take (body_remaining t) (rest t)) s'"
      "in_segments (rd_stream s')"
      "view s' = (view t)\<lparr>unread := drop (body_remaining t) (rest t), body_remaining := 0,
           body_decoded := body_decoded t + body_remaining t, read_state := next_state\<rparr>"
      "rd_stream t = [] \<Longrightarrow> rd_stream s' = []"
      by (rule less(1) [OF c(1) _ t(2) c(2) c(3) c(4)], rule that)
    show ?thesis
    proof (rule less(2) [of s'])
      show "body_loop acc s = body_loop (acc @ take (body_remaining s) (rest s)) s'"
        using step s'(1) t(3) by (simp add: same take_add [symmetric])
      show "view s' = (view s)\<lparr>unread := drop (body_remaining s) (rest s), body_remaining := 0,
           body_decoded := body_decoded s + body_remaining s, read_state := next_state\<rparr>"
        using s'(3) t(3,6) by (simp add: same)
    qed (use s' t in simp_all)
  qed
qed

lemma copy_short:
  assumes "in_segments (rd_stream s)" and "copying (read_state s) next_state msg"
    and "length (rest s) < body_remaining s \<or> rest s = []"
  obtains s' where "body_loop acc s = (Err (http_error InvalidMessage msg), s')" and "in_segments (rd_stream s')"
    and "view s' = (view s)\<lparr>unread := [], body_remaining := body_remaining s - length (rest s),
           body_decoded := body_decoded s + length (rest s), read_state := Failed\<rparr>"
    and "rd_stream s = [] \<Longrightarrow> rd_stream s' = []"
  using assms
proof (induction "length (rest s)" arbitrary: acc s thesis rule: less_induct)
  case less
  have nf: "\<not> body_finished s" using less(4) by (auto simp: copying_def body_finished_def)
  show ?case
  proof (cases "rest s = []")
    case True
    obtain t where t: "read_body 8192 s = (Err (http_error InvalidMessage msg), t)" "in_segments (rd_stream t)"
      "view t = (view s)\<lparr>read_state := Failed\<rparr>" "rd_stream s = [] \<Longrightarrow> rd_stream t = []"
      using copy_end [OF less(3,4) True] by metis
    have "view s = (view s)\<lparr>unread := [], body_remaining := body_remaining s, body_decoded := body_decoded s\<rparr>"
      using True by (simp add: view_def)
    then show ?thesis
      by (intro less(2) [of t]) (use t True body_loop_step [OF nf, of acc] in simp_all)
  next
    case False
    obtain k t where t: "read_body 8192 s = (Ok (take k (rest s)), t)" "in_segments (rd_stream t)" "k \<le> body_remaining s"
      "k \<le> length (rest s)" "k = 0 \<Longrightarrow> body_remaining s = 0"
      "view t = (view s)\<lparr>unread := drop k (rest s), body_remaining := body_remaining s - k,
         body_decoded := body_decoded s + k, read_state := (if k = body_remaining s then next_state else read_state s)\<rparr>"
      "rd_stream s = [] \<Longrightarrow> rd_stream t = []"
      using copy_step [OF less(3,4) False] by metis
    have ne: "k \<noteq> body_remaining s" using t(4) less(5) False by auto
    have same: "body_remaining t = body_remaining s - k" "rest t = drop k (rest s)" "read_state t = read_state s"
      "body_decoded t = body_decoded s + k"
      using view_eqD [OF t(6)] ne by simp_all
    have step: "body_loop acc s = body_loop (acc @ take k (rest s)) t"
      using body_loop_step [OF nf, of acc] t(1) by simp
    have "length (rest t) < length (rest s)" using t(5) ne False same by (cases k) auto
    note c = this
    have c': "copying (read_state t) next_state msg" "length (rest t) < body_remaining t \<or> rest t = []"
      using less(4,5) t(3-5) ne False by (auto simp: same)
    obtain s' where s': "body_loop (acc @ take k (rest s)) t = (Err (http_error InvalidMessage msg), s')"
      "in_segments (rd_stream s')"
      "view s' = (view t)\<lparr>unread := [], body_remaining := body_remaining t - length (rest t),
           body_decoded := body_decoded t + length (rest t), read_state := Failed\<rparr>"
      "rd_stream t = [] \<Longrightarrow> rd_stream s' = []"
      by (rule less(1) [OF c _ t(2) c'], rule that)
    show ?thesis
    proof (rule less(2) [of s'])
      show "view s' = (view s)\<lparr>unread := [], body_remaining := body_remaining s - length (rest s),
           body_decoded := body_decoded s + length (rest s), read_state := Failed\<rparr>"
        using s'(3) t(4,6) by (simp add: same)
    qed (use s' step t in simp_all)
  qed
qed

text \<open>The other steps of a chunked body.\<close>

lemma body_loop_chunk_size:
  assumes "read_state s = ChunkSize"
  shows "body_loop acc s = (case read_chunk_head s of
      (Err e, t) \<Rightarrow> (Err e, t\<lparr>read_state := Failed\<rparr>)
    | (Ok _, t) \<Rightarrow> body_loop acc t)"
proof -
  have nf: "\<not> body_finished s" using assms by (simp add: body_finished_def)
  obtain r t where h: "read_chunk_head s = (r, t)" by (cases "read_chunk_head s")
  show ?thesis
  proof (cases r)
    case (Err e)
    then show ?thesis
      using body_loop_step [OF nf, of acc] assms h
      by (simp add: read_body_def read_chunked_body_part_def chunk_round_def http_then_def is_err_def is_ok_def)
  next
    case (Ok go)
    then have st: "read_state t = (if go then ChunkData else BodyComplete)" using chunk_head_left(3) [OF h] by simp
    show ?thesis
    proof (cases go)
      case True
      then have "read_body 8192 s = read_body 8192 t"
        using assms h Ok st by (simp add: read_body_def read_chunked_body_part_def chunk_round_def http_then_def)
      moreover have "\<not> body_finished t" using st True by (simp add: body_finished_def)
      ultimately show ?thesis using body_loop_step [OF nf, of acc] body_loop_step [of t acc] h Ok by simp
    next
      case False
      then have "read_body 8192 s = (Ok [], t)"
        using assms h Ok
        by (simp add: read_body_def read_chunked_body_part_def chunk_round_def http_then_def http_return_def is_err_def is_ok_def)
      then show ?thesis using body_loop_step [OF nf, of acc] h Ok by simp
    qed
  qed
qed

lemma body_loop_chunk_ending:
  assumes "read_state s = ChunkDataEnding"
  shows "body_loop acc s = (case read_chunk_ending s of
      (Err e, t) \<Rightarrow> (Err e, t\<lparr>read_state := Failed\<rparr>)
    | (Ok _, t) \<Rightarrow> body_loop acc t)"
proof -
  have nf: "\<not> body_finished s" using assms by (simp add: body_finished_def)
  obtain r t where h: "read_chunk_ending s = (r, t)" by (cases "read_chunk_ending s")
  show ?thesis
  proof (cases r)
    case (Err e)
    then show ?thesis
      using body_loop_step [OF nf, of acc] assms h
      by (simp add: read_body_def read_chunked_body_part_def http_then_def is_err_def is_ok_def)
  next
    case (Ok u)
    then have st: "read_state t = ChunkSize" using chunk_ending_left(2) h by simp
    then have "read_body 8192 s = read_body 8192 t"
      using assms h Ok by (simp add: read_body_def read_chunked_body_part_def http_then_def)
    moreover have "\<not> body_finished t" using st by (simp add: body_finished_def)
    ultimately show ?thesis using body_loop_step [OF nf, of acc] body_loop_step [of t acc] h Ok by simp
  qed
qed

lemma body_loop_done: "read_state s = BodyComplete \<Longrightarrow> body_loop acc s = (Ok acc, s)"
  by (subst body_loop.simps) (simp add: body_finished_def)

lemma body_loop_unreadable:
  "read_state s = Ready \<or> read_state s = ReadingHead \<or> read_state s = Failed \<Longrightarrow>
     body_loop acc s = (Err (http_error InvalidState ''there is no readable HTTP body''), s)"
  by (subst body_loop.simps) (auto simp: body_finished_def read_body_def http_fail_def)

definition copy_rank :: "Http1Reader \<Rightarrow> nat" where
  "copy_rank s = (if read_state s = ChunkData \<or> read_state s = FixedBody then 1 else 0)"

text \<open>A body whose end the message itself marks is read alike however the stream cuts it.\<close>

lemma body_loop_segments:
  assumes "in_segments (rd_stream s)" and "read_state s \<noteq> CloseDelimitedBody" and "body_loop acc s = (v, s')"
  shows "in_segments (rd_stream s') \<and> body_loop acc (view s) = (v, view s')"
  using assms
proof (induction "2 * length (rest s) + copy_rank s" arbitrary: acc s rule: less_induct)
  case less
  consider (copy) next_state msg where "copying (read_state s) next_state msg" | (size) "read_state s = ChunkSize"
    | (ending) "read_state s = ChunkDataEnding" | (complete) "read_state s = BodyComplete"
    | (bad) "read_state s = Ready \<or> read_state s = ReadingHead \<or> read_state s = Failed"
    using less(3) by (cases "read_state s") (auto simp: copying_def)
  then show ?case
  proof cases
    case copy
    have view_copy: "in_segments (rd_stream (view s))" "copying (read_state (view s)) next_state msg" using copy by simp_all
    show ?thesis
    proof (cases "body_remaining s \<le> length (rest s) \<and> rest s \<noteq> []")
      case True
      obtain t where t: "body_loop acc s = body_loop (acc @ take (body_remaining s) (rest s)) t" "in_segments (rd_stream t)"
        "view t = (view s)\<lparr>unread := drop (body_remaining s) (rest s), body_remaining := 0,
           body_decoded := body_decoded s + body_remaining s, read_state := next_state\<rparr>"
        using copy_all [OF less(2) copy] True by metis
      obtain u where u: "body_loop acc (view s) = body_loop (acc @ take (body_remaining s) (rest s)) u"
        "view u = (view s)\<lparr>unread := drop (body_remaining s) (rest s), body_remaining := 0,
           body_decoded := body_decoded s + body_remaining s, read_state := next_state\<rparr>" "rd_stream u = []"
        using copy_all [OF view_copy] True by (metis rest_simps view_fields(1,6,7))
      have "u = view t" using t(3) u(2,3) view_id by metis
      moreover have "read_state t = next_state" "length (rest t) = length (rest s) - body_remaining s"
        using view_eqD [OF t(3)] by simp_all
      moreover have "read_state t \<noteq> CloseDelimitedBody" "2 * length (rest t) + copy_rank t < 2 * length (rest s) + copy_rank s"
        using calculation(2,3) copy True by (auto simp: copying_def copy_rank_def)
      ultimately show ?thesis using less(1) [of t "acc @ take (body_remaining s) (rest s)"] less(4) t(1,2) u(1) by simp
    next
      case False
      then have short: "length (rest s) < body_remaining s \<or> rest s = []" "length (rest (view s)) < body_remaining (view s) \<or> rest (view s) = []"
        by auto
      obtain t where t: "body_loop acc s = (Err (http_error InvalidMessage msg), t)" "in_segments (rd_stream t)"
        "view t = (view s)\<lparr>unread := [], body_remaining := body_remaining s - length (rest s),
           body_decoded := body_decoded s + length (rest s), read_state := Failed\<rparr>"
        using copy_short [OF less(2) copy short(1)] by metis
      obtain u where u: "body_loop acc (view s) = (Err (http_error InvalidMessage msg), u)"
        "view u = (view s)\<lparr>unread := [], body_remaining := body_remaining s - length (rest s),
           body_decoded := body_decoded s + length (rest s), read_state := Failed\<rparr>" "rd_stream u = []"
        using copy_short [OF view_copy short(2)] by (metis rest_simps view_fields(1,6,7))
      have "u = view t" using t(3) u(2,3) view_id by metis
      then show ?thesis using t u less(4) by simp
    qed
  next
    case size
    obtain r t where h: "read_chunk_head s = (r, t)" by (cases "read_chunk_head s")
    note v = segment_freeD [OF read_chunk_head_segments less(2) h]
    show ?thesis
    proof (cases r)
      case (Err e)
      then show ?thesis using less(4) size v h by (auto simp: body_loop_chunk_size)
    next
      case (Ok go)
      have "bytes_left t < bytes_left s" "read_state t = (if go then ChunkData else BodyComplete)"
        using chunk_head_left(2,3) [OF h Ok] by simp_all
      then have "2 * length (rest t) + copy_rank t < 2 * length (rest s) + copy_rank s" "read_state t \<noteq> CloseDelimitedBody"
        using v bytes_left_rest less(2) by (auto simp: copy_rank_def)
      then show ?thesis using less(1) [of t acc] less(4) size v h Ok by (simp add: body_loop_chunk_size)
    qed
  next
    case ending
    obtain r t where h: "read_chunk_ending s = (r, t)" by (cases "read_chunk_ending s")
    note v = segment_freeD [OF read_chunk_ending_segments less(2) h]
    show ?thesis
    proof (cases r)
      case (Err e)
      then show ?thesis using less(4) ending v h by (auto simp: body_loop_chunk_ending)
    next
      case (Ok u)
      have "bytes_left t < bytes_left s" "read_state t = ChunkSize"
        using chunk_ending_left h Ok by simp_all
      then have "2 * length (rest t) + copy_rank t < 2 * length (rest s) + copy_rank s" "read_state t \<noteq> CloseDelimitedBody"
        using v bytes_left_rest less(2) by (auto simp: copy_rank_def)
      then show ?thesis using less(1) [of t acc] less(4) ending v h Ok by (simp add: body_loop_chunk_ending)
    qed
  next
    case complete
    then show ?thesis using less(2,4) by (auto simp: body_loop_done)
  next
    case bad
    then show ?thesis using less(2,4) by (auto simp: body_loop_unreadable)
  qed
qed

section \<open>Whole requests\<close>

lemma http_then_Ok: "http_then m f s = (Ok v, s') \<longleftrightarrow> (\<exists>a t. m s = (Ok a, t) \<and> f a t = (Ok v, s'))"
  by (auto simp: http_then_def split: prod.splits Result.splits)

lemma http_lift_Ok: "http_lift r s = (Ok v, s') \<longleftrightarrow> r = Ok v \<and> s' = s"
  by (auto simp: http_lift_def)

lemma http_return_Ok: "http_return v s = (w, s') \<longleftrightarrow> w = Ok v \<and> s' = s"
  by (auto simp: http_return_def)

lemma http_modify_Ok: "http_modify f s = (w, s') \<longleftrightarrow> w = Ok () \<and> s' = f s"
  by (auto simp: http_modify_def)

lemmas http_op_Ok = http_then_Ok http_lift_Ok http_return_Ok http_modify_Ok

lemma body_framing_not_close: "body_framing hs False = Ok f \<Longrightarrow> body_kind f \<noteq> CloseDelimited"
  by (auto simp: body_framing_def and_then_def split: Result.splits if_splits option.splits)

lemma begin_body_state:
  "begin_body f a b s = (Ok u, s') \<Longrightarrow> body_kind f \<noteq> CloseDelimited \<Longrightarrow>
     read_state s' = BodyComplete \<or> read_state s' = FixedBody \<or> read_state s' = ChunkSize"
  by (auto simp: begin_body_def Let_def http_fail_def http_return_def split: HttpBodyKind.splits if_splits)

lemma read_request_head_state:
  assumes "read_request_head s = (Ok (Some h), s')"
  shows "read_state s' = BodyComplete \<or> read_state s' = FixedBody \<or> read_state s' = ChunkSize"
proof -
  obtain line t where "request_head_after line t = (Ok (Some h), s')"
    using assms by (auto simp: read_request_head_def http_op_Ok split: option.splits)
  then show ?thesis
    by (auto simp: request_head_after_def http_op_Ok split: prod.splits dest!: body_framing_not_close begin_body_state)
qed

lemma read_body_all_segments:
  assumes "in_segments (rd_stream s)" and "read_state s \<noteq> CloseDelimitedBody" and "read_body_all s = (v, s')"
  shows "in_segments (rd_stream s') \<and> read_body_all (view s) = (v, view s')"
proof -
  let ?k = "\<lambda>output. http_then finish_body (\<lambda>trailers. http_return (output, trailers))"
  have k: "segment_free (?k acc)" for acc by (intro segments)
  obtain r t where b: "body_loop [] s = (r, t)" by (cases "body_loop [] s")
  note l = body_loop_segments [OF assms(1,2) b]
  show ?thesis
  proof (cases r)
    case (Err e)
    then show ?thesis using assms(3) b l by (auto simp: read_body_all_def http_then_def)
  next
    case (Ok bs)
    then have "?k bs t = (v, s')" using assms(3) b by (simp add: read_body_all_def http_then_def [of "body_loop []"])
    from segment_freeD [OF k _ this] l Ok show ?thesis
      by (simp add: read_body_all_def http_then_def [of "body_loop []"])
  qed
qed

lemma read_request_segments [segments]: "segment_free read_request"
proof (rule segment_freeI)
  fix s v and s' :: Http1Reader assume d: "in_segments (rd_stream s)" and r: "read_request s = (v, s')"
  obtain a t where h: "read_request_head s = (a, t)" by (cases "read_request_head s")
  note w = segment_freeD [OF read_request_head_segments d h]
  consider e where "a = Err e" | "a = Ok None" | head where "a = Ok (Some head)" by (cases a) auto
  then show "in_segments (rd_stream s') \<and> read_request (view s) = (v, view s')"
  proof cases
    case 3
    obtain b u where b: "read_body_all t = (b, u)" by (cases "read_body_all t")
    have "read_state t \<noteq> CloseDelimitedBody" using read_request_head_state [of s head t] h 3 by auto
    from read_body_all_segments [OF _ this b] w r h 3 b show ?thesis
      by (auto simp: read_request_def http_then_def http_return_def split: Result.splits)
  qed (use r w h in \<open>auto simp: read_request_def http_then_def http_return_def\<close>)
qed

end
