(* ===== verification/Http_Writer.thy ===== *)
theory Http_Writer
  imports Http_Codec
begin

text \<open>
  \<^verbatim>\<open>Http1Writer\<close> and \<^verbatim>\<open>Http1ChunkedBodyWriter\<close>.  A message is checked first, and its head
  and body are then written piece by piece with \<^verbatim>\<open>write_all\<close>.
\<close>

section \<open>The writer\<close>

record Http1Writer =
  wr_sink :: writer
  chunked_body_active :: bool

type_synonym 'a writer_op = "(Http1Writer, 'a) http_op"

definition http1_writer :: "writer \<Rightarrow> Http1Writer" where
  "http1_writer w = \<lparr>wr_sink = w, chunked_body_active = False\<rparr>"

definition ensure_idle :: "unit writer_op" where
  "ensure_idle w =
     (if chunked_body_active w
      then http_fail InvalidState ''finish the active HTTP chunked body before writing another message'' w
      else http_return () w)"

text \<open>\<^verbatim>\<open>write_all\<close> on the sink, its error carried over with the name of the operation.\<close>

definition write_sink :: "string \<Rightarrow> bytes \<Rightarrow> unit writer_op" where
  "write_sink operation data w =
     (case write_all data (wr_sink w) of
        (Err e, k) \<Rightarrow> (Err (from_io e operation), w\<lparr>wr_sink := k\<rparr>)
      | (Ok _, k) \<Rightarrow> (Ok (), w\<lparr>wr_sink := k\<rparr>))"

definition write_bytes :: "bytes \<Rightarrow> unit writer_op" where
  "write_bytes v = (if v = [] then http_return () else write_sink ''write HTTP stream'' v)"

primrec write_headers :: "HttpHeaders \<Rightarrow> unit writer_op" where
  "write_headers [] = http_return ()"
| "write_headers (h # hs) =
     http_then (write_bytes (hname h)) (\<lambda>_.
     http_then (write_bytes [COLON, SPACE]) (\<lambda>_.
     http_then (write_bytes (hvalue h)) (\<lambda>_.
     http_then (write_bytes [CR, LF]) (\<lambda>_. write_headers hs))))"

text \<open>The data of one chunk, and what ends a chunked body.\<close>

definition write_one_chunk :: "bytes \<Rightarrow> unit writer_op" where
  "write_one_chunk data =
     http_then (write_bytes (hex_text (length data))) (\<lambda>_.
     http_then (write_bytes [CR, LF]) (\<lambda>_.
     http_then (write_sink ''write HTTP chunk'' data) (\<lambda>_. write_bytes [CR, LF])))"

definition write_last_chunk :: "HttpHeaders \<Rightarrow> unit writer_op" where
  "write_last_chunk trailers =
     http_then (write_bytes [ZERO, CR, LF]) (\<lambda>_.
     http_then (write_headers trailers) (\<lambda>_. write_bytes [CR, LF]))"

definition write_body :: "bytes \<Rightarrow> HttpHeaders \<Rightarrow> bool \<Rightarrow> bool \<Rightarrow> unit writer_op" where
  "write_body body trailers chunked send_body =
     (if \<not> send_body then http_return ()
      else if \<not> chunked then (if body = [] then http_return () else write_sink ''write HTTP body'' body)
      else http_then (if body = [] then http_return () else write_one_chunk body) (\<lambda>_. write_last_chunk trailers))"

section \<open>Requests\<close>

definition request_line :: "('a HttpRequestHead_scheme) \<Rightarrow> bytes" where
  "request_line r = req_method r @ [SPACE] @ req_target r @ [SPACE] @ http_version_name (req_version r) @ [CR, LF]"

text \<open>The headers a request is sent with and whether its body is chunked.\<close>

definition request_framing :: "HttpRequest \<Rightarrow> (HttpHeaders \<times> bool, HttpError) Result" where
  "request_framing r =
     and_then (body_framing (req_headers r) False) (\<lambda>framing.
     and_then (if body_kind framing = NoBody \<and> req_body r \<noteq> []
               then and_then (set_content_length (length (req_body r)) (req_headers r)) (\<lambda>hs.
                 Ok (hs, \<lparr>body_kind = ContentLength, content_length = length (req_body r)\<rparr>))
               else Ok (req_headers r, framing)) (\<lambda>(hs, framing).
       if body_kind framing = ContentLength \<and> content_length framing \<noteq> length (req_body r)
       then Err (http_error InvalidMessage ''Content-Length does not match HTTP request body'')
       else if body_kind framing \<noteq> Chunked \<and> req_trailers r \<noteq> []
       then Err (http_error InvalidMessage ''HTTP trailers require chunked transfer coding'')
       else Ok (hs, body_kind framing = Chunked)))"

definition check_request :: "HttpRequest \<Rightarrow> (HttpHeaders \<times> bool, HttpError) Result" where
  "check_request r =
     (if \<not> valid_name (req_method r) \<or> \<not> valid_request_target (req_target r)
      then Err (http_error InvalidMessage ''HTTP request method or target is invalid'')
      else and_then (check_host (req_version r) (req_headers r)) (\<lambda>_.
      and_then (check_http10_encoding ''HTTP/1.0 request cannot use Transfer-Encoding'' (req_version r) (req_headers r)) (\<lambda>_.
      and_then (validate_trailers (req_trailers r)) (\<lambda>_. request_framing r))))"

definition write_request :: "HttpRequest \<Rightarrow> unit writer_op" where
  "write_request r =
     http_then ensure_idle (\<lambda>_.
     http_then (http_lift (check_request r)) (\<lambda>(hs, chunked).
     http_then (write_bytes (request_line r)) (\<lambda>_.
     http_then (write_headers hs) (\<lambda>_.
     http_then (write_bytes [CR, LF]) (\<lambda>_. write_body (req_body r) (req_trailers r) chunked True)))))"

section \<open>Responses\<close>

definition status_line :: "('a HttpResponseHead_scheme) \<Rightarrow> bytes" where
  "status_line r =
     (let reason = (if resp_reason r = [] then ascii (default_reason_phrase (resp_status r)) else resp_reason r) in
      http_version_name (resp_version r) @ [SPACE] @ decimal_text (unat (resp_status r))
      @ (if reason \<noteq> [] then [SPACE] @ reason else []) @ [CR, LF])"

definition check_status :: "('a HttpResponseHead_scheme) \<Rightarrow> (unit, HttpError) Result" where
  "check_status r =
     (if resp_status r < 100 \<or> resp_status r > 999 \<or> \<not> valid_value (resp_reason r)
      then Err (http_error InvalidMessage ''HTTP response status or reason phrase is invalid'') else Ok ())"

definition sends_body :: "bytes \<Rightarrow> u16 \<Rightarrow> bool" where
  "sends_body request_method status \<longleftrightarrow>
     \<not> status_forbids_body status \<and> \<not> is_head_response request_method \<and> \<not> is_connect_tunnel request_method status"

definition response_framing :: "HttpResponse \<Rightarrow> (HttpHeaders \<times> bool, HttpError) Result" where
  "response_framing r =
     and_then (body_framing (resp_headers r) False) (\<lambda>framing.
     and_then (if body_kind framing = NoBody
               then and_then (set_content_length (length (resp_body r)) (resp_headers r)) (\<lambda>hs.
                 Ok (hs, \<lparr>body_kind = ContentLength, content_length = length (resp_body r)\<rparr>))
               else Ok (resp_headers r, framing)) (\<lambda>(hs, framing).
       if body_kind framing = ContentLength \<and> content_length framing \<noteq> length (resp_body r)
       then Err (http_error InvalidMessage ''Content-Length does not match HTTP response body'')
       else if body_kind framing \<noteq> Chunked \<and> resp_trailers r \<noteq> []
       then Err (http_error InvalidMessage ''HTTP trailers require chunked transfer coding'')
       else Ok (hs, body_kind framing = Chunked)))"

definition check_response :: "bytes \<Rightarrow> HttpResponse \<Rightarrow> (HttpHeaders \<times> bool, HttpError) Result" where
  "check_response request_method r =
     and_then (check_status r) (\<lambda>_.
     and_then (validate_trailers (resp_trailers r)) (\<lambda>_.
       let status = resp_status r;
           hs = resp_headers r;
           connect_tunnel = is_connect_tunnel request_method status;
           send_body = sends_body request_method status in
       if (status_forbids_body status \<or> connect_tunnel) \<and> resp_body r \<noteq> []
       then Err (http_error InvalidMessage ''HTTP response status or CONNECT tunnel forbids body'')
       else and_then (check_http10_encoding ''HTTP/1.0 response cannot use Transfer-Encoding'' (resp_version r) hs) (\<lambda>_.
         if (status_forbids_framing status \<or> connect_tunnel)
            \<and> (headers_contains (ascii ''Content-Length'') hs \<or> headers_contains (ascii ''Transfer-Encoding'') hs)
         then Err (http_error InvalidMessage ''response status or CONNECT tunnel cannot contain body framing fields'')
         else if \<not> send_body \<and> resp_trailers r \<noteq> []
         then Err (http_error InvalidMessage ''a response without a body cannot contain trailers'')
         else if send_body then response_framing r
         else if is_head_response request_method \<and> \<not> headers_contains (ascii ''Content-Length'') hs
              \<and> \<not> headers_contains (ascii ''Transfer-Encoding'') hs
         then and_then (set_content_length (length (resp_body r)) hs) (\<lambda>hs. Ok (hs, False))
         else Ok (hs, False))))"

definition write_response :: "bytes \<Rightarrow> HttpResponse \<Rightarrow> unit writer_op" where
  "write_response request_method r =
     http_then ensure_idle (\<lambda>_.
     http_then (http_lift (check_response request_method r)) (\<lambda>(hs, chunked).
     http_then (write_bytes (status_line r)) (\<lambda>_.
     http_then (write_headers hs) (\<lambda>_.
     http_then (write_bytes [CR, LF]) (\<lambda>_.
       write_body (resp_body r) (resp_trailers r) chunked (sends_body request_method (resp_status r)))))))"

section \<open>Chunked bodies\<close>

text \<open>
  A chunked body writer holds a pointer to its owner until it is finished or moved from; an
  operation on it maps both.
\<close>

record Http1ChunkedBodyWriter =
  has_owner :: bool
  finished :: bool

type_synonym 'a chunk_op = "(Http1ChunkedBodyWriter \<times> Http1Writer, 'a) http_op"

definition chunked_body_writer :: Http1ChunkedBodyWriter where
  "chunked_body_writer = \<lparr>has_owner = True, finished = False\<rparr>"

text \<open>The new object and what the old one becomes.\<close>

definition move_body_writer :: "Http1ChunkedBodyWriter \<Rightarrow> Http1ChunkedBodyWriter \<times> Http1ChunkedBodyWriter" where
  "move_body_writer b = (b, \<lparr>has_owner = False, finished = True\<rparr>)"

definition chunked_headers :: "string \<Rightarrow> HttpHeaders \<Rightarrow> (HttpHeaders, HttpError) Result" where
  "chunked_headers msg hs =
     (if headers_contains (ascii ''Content-Length'') hs then Err (http_error InvalidMessage msg)
      else and_then (parse_chunked_transfer_encoding hs) (\<lambda>chunked.
        if chunked then Ok hs else headers_append (ascii ''Transfer-Encoding'') (ascii ''chunked'') hs))"

definition check_chunked_request :: "HttpRequestHead \<Rightarrow> (HttpHeaders, HttpError) Result" where
  "check_chunked_request r =
     (if \<not> valid_name (req_method r) \<or> \<not> valid_request_target (req_target r)
      then Err (http_error InvalidMessage ''HTTP request method or target is invalid'')
      else if req_version r \<noteq> Http11 then Err (http_error Unsupported ''chunked requests require HTTP/1.1'')
      else and_then (check_host (req_version r) (req_headers r)) (\<lambda>_.
        chunked_headers ''chunked request cannot contain Content-Length'' (req_headers r)))"

definition begin_chunked :: "bytes \<Rightarrow> HttpHeaders \<Rightarrow> Http1ChunkedBodyWriter writer_op" where
  "begin_chunked start_line hs =
     http_then (write_bytes start_line) (\<lambda>_.
     http_then (write_headers hs) (\<lambda>_.
     http_then (write_bytes [CR, LF]) (\<lambda>_.
     http_then (http_modify (\<lambda>w. w\<lparr>chunked_body_active := True\<rparr>)) (\<lambda>_. http_return chunked_body_writer))))"

definition begin_chunked_request :: "HttpRequestHead \<Rightarrow> Http1ChunkedBodyWriter writer_op" where
  "begin_chunked_request r =
     http_then ensure_idle (\<lambda>_.
     http_then (http_lift (check_chunked_request r)) (begin_chunked (request_line r)))"

definition check_chunked_response :: "bytes \<Rightarrow> HttpResponseHead \<Rightarrow> (HttpHeaders, HttpError) Result" where
  "check_chunked_response request_method r =
     and_then (check_status r) (\<lambda>_.
       if resp_version r \<noteq> Http11 then Err (http_error Unsupported ''chunked responses require HTTP/1.1'')
       else if \<not> sends_body request_method (resp_status r)
       then Err (http_error InvalidMessage ''this HTTP response cannot have a chunked body'')
       else chunked_headers ''chunked response cannot contain Content-Length'' (resp_headers r))"

definition begin_chunked_response :: "bytes \<Rightarrow> HttpResponseHead \<Rightarrow> Http1ChunkedBodyWriter writer_op" where
  "begin_chunked_response request_method r =
     http_then ensure_idle (\<lambda>_.
     http_then (http_lift (check_chunked_response request_method r)) (begin_chunked (status_line r)))"

definition on_owner :: "'a writer_op \<Rightarrow> 'a chunk_op" where
  "on_owner m s = (let (r, w) = m (snd s) in (r, (fst s, w)))"

definition ensure_active :: "unit chunk_op" where
  "ensure_active s =
     (if \<not> has_owner (fst s) \<or> finished (fst s) \<or> \<not> chunked_body_active (snd s)
      then http_fail InvalidState ''HTTP chunked body writer is not active'' s
      else http_return () s)"

definition write_chunk :: "bytes \<Rightarrow> unit chunk_op" where
  "write_chunk data =
     http_then ensure_active (\<lambda>_. if data = [] then http_return () else on_owner (write_one_chunk data))"

definition flush_chunks :: "unit chunk_op" where
  "flush_chunks =
     http_then ensure_active (\<lambda>_. on_owner (\<lambda>w.
       case flush_to (wr_sink w) of
         (Err e, k) \<Rightarrow> (Err (from_io e ''flush HTTP chunks''), w\<lparr>wr_sink := k\<rparr>)
       | (Ok _, k) \<Rightarrow> (Ok (), w\<lparr>wr_sink := k\<rparr>)))"

definition finish_chunks :: "HttpHeaders \<Rightarrow> unit chunk_op" where
  "finish_chunks trailers =
     http_then ensure_active (\<lambda>_.
     http_then (http_lift (validate_trailers trailers)) (\<lambda>_.
     http_then (on_owner (write_last_chunk trailers)) (\<lambda>_.
     http_modify (\<lambda>(b, w). (b\<lparr>has_owner := False, finished := True\<rparr>, w\<lparr>chunked_body_active := False\<rparr>)))))"

end
