(* ===== verification/Http_Encoding.thy ===== *)
theory Http_Encoding
  imports Http_Writer
begin

text \<open>
  The bytes of a message, and what the writer does with them: on any sink, whatever it takes
  of a call and however it fails, the writer sends a first part of these bytes, all of them
  when it succeeds.
\<close>

section \<open>Bytes of a message\<close>

definition header_bytes :: "HttpHeader \<Rightarrow> bytes" where
  "header_bytes h = hname h @ [COLON, SPACE] @ hvalue h @ [CR, LF]"

definition headers_bytes :: "HttpHeaders \<Rightarrow> bytes" where
  "headers_bytes hs = concat (map header_bytes hs)"

definition chunk_bytes :: "bytes \<Rightarrow> bytes" where
  "chunk_bytes data = hex_text (length data) @ [CR, LF] @ data @ [CR, LF]"

definition last_chunk_bytes :: "HttpHeaders \<Rightarrow> bytes" where
  "last_chunk_bytes trailers = [ZERO, CR, LF] @ headers_bytes trailers @ [CR, LF]"

definition body_bytes :: "bytes \<Rightarrow> HttpHeaders \<Rightarrow> bool \<Rightarrow> bytes" where
  "body_bytes body trailers chunked =
     (if chunked then (if body = [] then [] else chunk_bytes body) @ last_chunk_bytes trailers else body)"

definition request_bytes :: "HttpRequest \<Rightarrow> HttpHeaders \<Rightarrow> bool \<Rightarrow> bytes" where
  "request_bytes r hs chunked =
     request_line r @ headers_bytes hs @ [CR, LF] @ body_bytes (req_body r) (req_trailers r) chunked"

lemma headers_bytes_simps [simp]:
  "headers_bytes [] = []" "headers_bytes (h # hs) = header_bytes h @ headers_bytes hs"
  by (simp_all add: headers_bytes_def)

section \<open>What the writer sends\<close>

text \<open>An operation that sends \<open>bs\<close>, and what a failure has left of it.\<close>

definition sends :: "unit writer_op \<Rightarrow> bytes \<Rightarrow> bool" where
  "sends m bs \<longleftrightarrow> (\<forall>w v w'. m w = (v, w') \<longrightarrow>
     chunked_body_active w' = chunked_body_active w
     \<and> (\<exists>p q. bs = p @ q \<and> sent (wr_sink w') = sent (wr_sink w) @ p \<and> (is_ok v \<longrightarrow> q = []))
     \<and> (\<forall>e. v = Err e \<longrightarrow> http_kind e = Io))"

named_theorems sending

lemma sendsE:
  assumes "sends m bs" and "m w = (v, w')"
  obtains p q where "bs = p @ q" and "sent (wr_sink w') = sent (wr_sink w) @ p" and "is_ok v \<longrightarrow> q = []"
    and "chunked_body_active w' = chunked_body_active w" and "\<forall>e. v = Err e \<longrightarrow> http_kind e = Io"
proof -
  from assms have "chunked_body_active w' = chunked_body_active w
     \<and> (\<exists>p q. bs = p @ q \<and> sent (wr_sink w') = sent (wr_sink w) @ p \<and> (is_ok v \<longrightarrow> q = []))
     \<and> (\<forall>e. v = Err e \<longrightarrow> http_kind e = Io)" unfolding sends_def by (elim allE impE)
  then show thesis by (elim conjE exE) (rule that)
qed

lemma write_all_sends:
  "write_all data w = (v, w') \<Longrightarrow> \<exists>p q. data = p @ q \<and> sent w' = sent w @ p \<and> (is_ok v \<longrightarrow> q = [])"
proof (induction data w rule: write_all.induct)
  case (1 data w)
  show ?case
  proof (cases "data = []")
    case True
    then show ?thesis using 1(3) by (simp add: write_all.simps)
  next
    case False
    obtain r w1 where r: "write_to data w = (r, w1)" by (cases "write_to data w")
    show ?thesis
    proof (cases r)
      case (Err e)
      have s: "sent w1 = sent w" using write_to_Err r Err by blast
      show ?thesis
      proof (cases "io_kind e = Interrupted")
        case True
        then have "write_all data w1 = (v, w')" using 1(3) False r Err by (simp add: write_all.simps [of data w])
        from 1(2) [OF False r [symmetric] Err True this] s show ?thesis by simp
      next
        case nint: False
        then show ?thesis
          using 1(3) False r Err s by (auto simp: write_all.simps [of data w] is_ok_def intro!: exI [of _ "[]"])
      qed
    next
      case (Ok n)
      have s: "sent w1 = sent w @ take n data" using write_to_Ok r Ok by blast
      show ?thesis
      proof (cases "n > length data \<or> n = 0")
        case True
        then show ?thesis
          using 1(3) False r Ok s
          by (auto simp: write_all.simps [of data w] is_ok_def intro: exI [of _ "[]"] exI [of _ data] split: if_splits)
      next
        case go: False
        then have "write_all (drop n data) w1 = (v, w')"
          using 1(3) False r Ok by (simp add: write_all.simps [of data w])
        with 1(1) [OF False r [symmetric] Ok] go obtain p q where
          "drop n data = p @ q" "sent w' = sent w1 @ p" "is_ok v \<longrightarrow> q = []" by auto
        moreover have "data = take n data @ drop n data" by simp
        ultimately have "data = (take n data @ p) @ q" "sent w' = sent w @ (take n data @ p)" using s by simp_all
        with \<open>is_ok v \<longrightarrow> q = []\<close> show ?thesis by blast
      qed
    qed
  qed
qed

lemma sends_return [sending]: "sends (http_return ()) []"
  by (auto simp: sends_def http_return_def)

lemma sends_sink [sending]: "sends (write_sink operation data) data"
  unfolding sends_def
proof (intro allI impI)
  fix w v w' assume r: "write_sink operation data w = (v, w')"
  obtain a k where k: "write_all data (wr_sink w) = (a, k)" by (cases "write_all data (wr_sink w)")
  obtain p q where p: "data = p @ q" "sent k = sent (wr_sink w) @ p" "is_ok a \<longrightarrow> q = []"
    using write_all_sends [OF k] by blast
  have vw: "v = (case a of Ok _ \<Rightarrow> Ok () | Err e \<Rightarrow> Err (from_io e operation))" and w': "w' = w\<lparr>wr_sink := k\<rparr>"
    using r unfolding write_sink_def k by (simp_all split: Result.splits)
  have "is_ok v = is_ok a" unfolding vw is_ok_def by (simp split: Result.split)
  moreover have "http_kind e = Io" if "v = Err e" for e
    using that unfolding vw by (simp add: from_io_def split: Result.splits) auto
  ultimately show "chunked_body_active w' = chunked_body_active w
     \<and> (\<exists>p q. data = p @ q \<and> sent (wr_sink w') = sent (wr_sink w) @ p \<and> (is_ok v \<longrightarrow> q = [])) \<and> (\<forall>e. v = Err e \<longrightarrow> http_kind e = Io)"
    unfolding w' using p by (intro conjI exI [of _ p] exI [of _ q]) auto
qed

lemma sends_bytes [sending]: "sends (write_bytes v) v"
  unfolding write_bytes_def by (simp add: sends_return sends_sink)

lemma sends_then:
  assumes "sends m xs" and "sends m' ys"
  shows "sends (http_then m (\<lambda>_. m')) (xs @ ys)"
  unfolding sends_def
proof (intro allI impI)
  fix w v w' assume r: "http_then m (\<lambda>_. m') w = (v, w')"
  obtain a w1 where m: "m w = (a, w1)" by (cases "m w")
  obtain p q where p: "xs = p @ q" "sent (wr_sink w1) = sent (wr_sink w) @ p" "is_ok a \<longrightarrow> q = []"
    "chunked_body_active w1 = chunked_body_active w" "\<forall>e. a = Err e \<longrightarrow> http_kind e = Io"
    by (rule sendsE [OF assms(1) m])
  show "chunked_body_active w' = chunked_body_active w
     \<and> (\<exists>p q. xs @ ys = p @ q \<and> sent (wr_sink w') = sent (wr_sink w) @ p \<and> (is_ok v \<longrightarrow> q = [])) \<and> (\<forall>e. v = Err e \<longrightarrow> http_kind e = Io)"
  proof (cases a)
    case (Err e)
    then show ?thesis using r m p by (auto simp: http_then_def is_ok_def)
  next
    case (Ok u)
    then have "m' w1 = (v, w')" using r m by (simp add: http_then_def)
    then obtain p' q' where p': "ys = p' @ q'" "sent (wr_sink w') = sent (wr_sink w1) @ p'" "is_ok v \<longrightarrow> q' = []"
      "chunked_body_active w' = chunked_body_active w1" "\<forall>e. v = Err e \<longrightarrow> http_kind e = Io"
      by (rule sendsE [OF assms(2)])
    have "q = []" using p(3) Ok by (simp add: is_ok_def)
    then show ?thesis using p p' by (intro conjI exI [of _ "p @ p'"] exI [of _ q']) auto
  qed
qed

lemma sends_cong: "sends m xs \<Longrightarrow> xs = ys \<Longrightarrow> sends m ys"
  by simp

lemma sends_headers [sending]: "sends (write_headers hs) (headers_bytes hs)"
proof (induction hs)
  case Nil
  then show ?case by (simp add: sends_return)
next
  case (Cons h hs)
  show ?case
    by (rule sends_cong, simp, (rule sends_then sending Cons.IH)+) (simp add: header_bytes_def)
qed

lemma sends_one_chunk [sending]: "sends (write_one_chunk data) (chunk_bytes data)"
  unfolding write_one_chunk_def chunk_bytes_def by (intro sends_then sending)

lemma sends_last_chunk [sending]: "sends (write_last_chunk trailers) (last_chunk_bytes trailers)"
  unfolding write_last_chunk_def last_chunk_bytes_def by (intro sends_then sending)

lemma sends_body [sending]: "sends (write_body body trailers chunked True) (body_bytes body trailers chunked)"
  by (auto simp: write_body_def body_bytes_def intro!: sending sends_then [of _ "[]", simplified] sends_then)

section \<open>Checks do not fail like the sink\<close>

definition not_io :: "('a, HttpError) Result \<Rightarrow> bool" where
  "not_io r \<longleftrightarrow> (\<forall>e. r = Err e \<longrightarrow> http_kind e \<noteq> Io)"

lemma not_io_intros:
  "not_io (Ok v)" "k \<noteq> Io \<Longrightarrow> not_io (Err (http_error k msg))"
  "not_io r \<Longrightarrow> (\<And>v. not_io (f v)) \<Longrightarrow> not_io (and_then r f)"
  "not_io r \<Longrightarrow> not_io r' \<Longrightarrow> not_io (if b then r else r')"
  by (auto simp: not_io_def http_error_def and_then_def split: Result.splits)

lemma decimal_loop_not_io: "not_io (decimal_loop cs n)"
  by (induction cs n rule: decimal_loop.induct) (auto simp: not_io_def http_error_def Let_def)

lemma content_length_loop_not_io: "not_io (content_length_loop ts l)"
proof (induction ts l rule: content_length_loop.induct)
  case (2 t ts l)
  then show ?case
    using decimal_loop_not_io [of "trim_ows t" 0] by (auto simp: not_io_def http_error_def Let_def split: Result.splits)
qed (simp add: not_io_intros)

lemma codings_loop_not_io: "not_io (codings_loop ts l)"
  by (induction ts l rule: codings_loop.induct) (auto simp: not_io_def http_error_def)

lemma body_framing_not_io: "not_io (body_framing hs close)"
  unfolding body_framing_def parse_content_length_def parse_chunked_transfer_encoding_def Let_def
  by (intro not_io_intros content_length_loop_not_io codings_loop_not_io) (auto simp: not_io_def http_error_def split: option.splits)

lemma check_request_not_io: "not_io (check_request r)"
proof -
  have "not_io (set_content_length n hs)" for n hs
    by (auto simp: not_io_def set_content_length_def headers_set_def http_error_def)
  then have "not_io (request_framing r)"
    unfolding request_framing_def
    by (intro not_io_intros body_framing_not_io) (auto intro!: not_io_intros split: prod.splits)
  then show ?thesis
    unfolding check_request_def check_host_def check_http10_encoding_def validate_trailers_def Let_def
    by (intro not_io_intros) simp_all
qed

lemma write_request_sends:
  assumes "write_request r w = (v, w')" and "check_request r = Ok (hs, chunked)" and "\<not> chunked_body_active w"
  shows "\<exists>p q. request_bytes r hs chunked = p @ q \<and> sent (wr_sink w') = sent (wr_sink w) @ p \<and> (is_ok v \<longrightarrow> q = [])"
    and "v = Err e \<Longrightarrow> http_kind e = Io"
proof -
  let ?m = "http_then (write_bytes (request_line r)) (\<lambda>_. http_then (write_headers hs) (\<lambda>_.
    http_then (write_bytes [CR, LF]) (\<lambda>_. write_body (req_body r) (req_trailers r) chunked True)))"
  have "?m w = (v, w')"
    using assms by (simp add: write_request_def http_then_def [of ensure_idle] ensure_idle_def http_return_def
        http_then_def [of "http_lift _"] http_lift_def)
  moreover have "sends ?m (request_bytes r hs chunked)"
    unfolding request_bytes_def by (intro sends_then sending)
  ultimately show "\<exists>p q. request_bytes r hs chunked = p @ q \<and> sent (wr_sink w') = sent (wr_sink w) @ p \<and> (is_ok v \<longrightarrow> q = [])"
    "v = Err e \<Longrightarrow> http_kind e = Io" by (blast elim: sendsE)+
qed

lemma write_request_refused:
  assumes "chunked_body_active w \<or> check_request r = Err e"
  shows "\<exists>e. write_request r w = (Err e, w) \<and> http_kind e \<noteq> Io"
  using assms check_request_not_io [of r]
  by (auto simp: write_request_def http_then_def ensure_idle_def http_fail_def http_return_def http_lift_def not_io_def http_error_def)

end
