(* ===== verification/Http_Parsing.thy ===== *)
theory Http_Parsing
  imports Http_Delivery Http_Encoding
begin

text \<open>
  The fields of a message as they are read back: blanks around a value are gone, and what the
  checks and the framing say of the headers does not depend on them.
\<close>

section \<open>Values without surrounding blanks\<close>

definition trimmed :: "HttpHeader \<Rightarrow> HttpHeader" where
  "trimmed h = h\<lparr>hvalue := trim_ows (hvalue h)\<rparr>"

definition header_ok :: "HttpHeader \<Rightarrow> bool" where
  "header_ok h \<longleftrightarrow> valid_name (hname h) \<and> valid_value (hvalue h)"

lemma trimmed_fields [simp]: "hname (trimmed h) = hname h" "hvalue (trimmed h) = trim_ows (hvalue h)"
  by (simp_all add: trimmed_def)

lemma trim_ows_cons [simp]: "is_ows c \<Longrightarrow> trim_ows (c # v) = trim_ows v"
  by (simp add: trim_ows_def)

lemma trim_ows_snoc [simp]: "is_ows c \<Longrightarrow> trim_ows (v @ [c]) = trim_ows v"
proof (cases "\<forall>x \<in> set v. is_ows x")
  case True
  then have "dropWhile is_ows v = []" by (simp add: dropWhile_eq_Nil_conv)
  moreover have "dropWhile is_ows (v @ [c]) = []" if "is_ows c" using True that by (subst dropWhile_eq_Nil_conv) simp
  ultimately show "is_ows c \<Longrightarrow> ?thesis" by (simp only: trim_ows_def)
next
  case False
  then show "is_ows c \<Longrightarrow> ?thesis" by (auto simp: trim_ows_def dropWhile_append)
qed

lemma trim_ows_split: "\<exists>a b. v = a @ trim_ows v @ b \<and> list_all is_ows a \<and> list_all is_ows b"
proof -
  let ?u = "dropWhile is_ows v"
  have "v = takeWhile is_ows v @ ?u" by simp
  moreover have "?u = trim_ows v @ rev (takeWhile is_ows (rev ?u))"
    unfolding trim_ows_def by (metis rev_append rev_rev_ident takeWhile_dropWhile_id)
  moreover have "list_all is_ows (takeWhile is_ows v)" "list_all is_ows (rev (takeWhile is_ows (rev ?u)))"
    by (auto simp: list_all_iff dest: set_takeWhileD)
  ultimately show ?thesis by (metis append.assoc)
qed

lemma trim_ows_set: "set (trim_ows v) \<subseteq> set v"
  using trim_ows_split [of v] by (metis Un_iff set_append subsetI)

lemma trim_ows_ends: "list_all is_ows a \<Longrightarrow> list_all is_ows b \<Longrightarrow> trim_ows (a @ v @ b) = trim_ows v"
proof (induction a)
  case Nil
  then show ?case
  proof (induction b rule: rev_induct)
    case (snoc x b)
    then show ?case using trim_ows_snoc [of x "v @ b"] by simp
  qed simp
qed simp

lemma trim_ows_idem [simp]: "trim_ows (trim_ows v) = trim_ows v"
  using trim_ows_split [of v] trim_ows_ends by metis

lemma valid_value_trim: "valid_value v \<Longrightarrow> valid_value (trim_ows v)"
  using trim_ows_set [of v] by (auto simp: valid_value_def list_all_iff)

subsection \<open>Lists of values\<close>

lemma split_commas_ne [simp]: "split_commas v \<noteq> []"
  by (induction v) (auto split: list.splits)

lemma is_ows_not_comma: "is_ows c \<Longrightarrow> c \<noteq> COMMA"
  by (auto simp: is_ows_def)

lemma split_commas_cons: "is_ows c \<Longrightarrow> map trim_ows (split_commas (c # v)) = map trim_ows (split_commas v)"
  by (auto simp: is_ows_not_comma split: list.splits)

lemma split_commas_last:
  "c \<noteq> COMMA \<Longrightarrow> split_commas (v @ [c]) = butlast (split_commas v) @ [last (split_commas v) @ [c]]"
  by (induction v) (auto split: list.splits)

lemma split_commas_snoc:
  assumes "is_ows c" shows "map trim_ows (split_commas (v @ [c])) = map trim_ows (split_commas v)"
proof -
  have "map trim_ows (split_commas (v @ [c])) = map trim_ows (butlast (split_commas v) @ [last (split_commas v)])"
    unfolding split_commas_last [OF is_ows_not_comma [OF assms]] using assms by (simp only: map_append list.map trim_ows_snoc)
  then show ?thesis by (metis append_butlast_last_id split_commas_ne)
qed

lemma split_commas_trim [simp]: "map trim_ows (split_commas (trim_ows v)) = map trim_ows (split_commas v)"
proof -
  obtain a b where v: "v = a @ trim_ows v @ b" "list_all is_ows a" "list_all is_ows b" using trim_ows_split by blast
  have "list_all is_ows b \<Longrightarrow> map trim_ows (split_commas (u @ b)) = map trim_ows (split_commas u)" for u
  proof (induction b rule: rev_induct)
    case (snoc x b)
    then show ?case using split_commas_snoc [of x "u @ b"] by simp
  qed simp
  moreover have "list_all is_ows a \<Longrightarrow> map trim_ows (split_commas (a @ u)) = map trim_ows (split_commas u)" for u
    by (induction a) (simp_all add: split_commas_cons del: split_commas.simps)
  ultimately show ?thesis using v by metis
qed

section \<open>Headers\<close>

lemma get_all_trimmed [simp]: "headers_get_all name (map trimmed hs) = map trim_ows (headers_get_all name hs)"
  by (induction hs) (auto simp: headers_get_all_def)

lemma get_trimmed: "headers_get name (map trimmed hs) = map_option trim_ows (headers_get name hs)"
  by (induction hs) auto

lemma contains_trimmed [simp]: "headers_contains name (map trimmed hs) = headers_contains name hs"
  by (auto simp: headers_contains_def get_trimmed)

lemma content_length_loop_cong:
  "map trim_ows ts = map trim_ows ts' \<Longrightarrow> content_length_loop ts l = content_length_loop ts' l"
proof (induction ts arbitrary: ts' l)
  case (Cons t ts)
  then obtain t' ts'' where "ts' = t' # ts''" "trim_ows t = trim_ows t'" "map trim_ows ts = map trim_ows ts''" by (cases ts') auto
  then show ?case using Cons.IH [of ts''] by (auto simp: Let_def split: Result.splits)
qed simp

lemma codings_loop_cong: "map trim_ows ts = map trim_ows ts' \<Longrightarrow> codings_loop ts l = codings_loop ts' l"
proof (induction ts arbitrary: ts' l)
  case (Cons t ts)
  then obtain t' ts'' where "ts' = t' # ts''" "trim_ows t = trim_ows t'" "map trim_ows ts = map trim_ows ts''" by (cases ts') auto
  then show ?case using Cons.IH [of ts''] by auto
qed simp

lemma split_commas_map_trim:
  "map trim_ows (concat (map split_commas (map trim_ows vs))) = map trim_ows (concat (map split_commas vs))"
  by (induction vs) simp_all

lemma parse_content_length_trimmed [simp]: "parse_content_length (map trimmed hs) = parse_content_length hs"
  unfolding parse_content_length_def get_all_trimmed by (rule content_length_loop_cong) (rule split_commas_map_trim)

lemma parse_chunked_trimmed [simp]:
  "parse_chunked_transfer_encoding (map trimmed hs) = parse_chunked_transfer_encoding hs"
proof -
  have "codings_loop (concat (map split_commas (map trim_ows vs))) [] = codings_loop (concat (map split_commas vs)) []" for vs
    by (rule codings_loop_cong) (rule split_commas_map_trim)
  then show ?thesis unfolding parse_chunked_transfer_encoding_def get_all_trimmed Let_def by simp
qed

lemma body_framing_trimmed [simp]: "body_framing (map trimmed hs) close = body_framing hs close"
  by (simp add: body_framing_def)

lemma check_host_trimmed: "check_host v hs = Ok () \<Longrightarrow> check_host v (map trimmed hs) = Ok ()"
  using trim_ows_set [of "hd (headers_get_all (ascii ''Host'') hs)"]
  by (auto simp: check_host_def Let_def hd_map length_Suc_conv split: if_splits)

lemma check_http10_trimmed [simp]: "check_http10_encoding msg v (map trimmed hs) = check_http10_encoding msg v hs"
  by (simp add: check_http10_encoding_def)

lemma validate_trailers_trimmed [simp]: "validate_trailers (map trimmed hs) = validate_trailers hs"
  by (simp add: validate_trailers_def list_ex_iff)

section \<open>Lines\<close>

lemma token_character: "is_token_character c \<Longrightarrow> c \<noteq> CR \<and> c \<noteq> LF \<and> c \<noteq> SPACE \<and> c \<noteq> TAB \<and> c \<noteq> COLON"
  by (auto simp: is_token_character_def ascii_def)

lemma valid_name_chars: "valid_name v \<Longrightarrow> v \<noteq> [] \<and> CR \<notin> set v \<and> LF \<notin> set v \<and> SPACE \<notin> set v \<and> TAB \<notin> set v \<and> COLON \<notin> set v"
  using token_character by (auto simp: valid_name_def list_all_iff)

lemma valid_value_chars: "valid_value v \<Longrightarrow> CR \<notin> set v \<and> LF \<notin> set v"
  by (auto simp: valid_value_def list_all_iff)

lemma valid_target_chars: "valid_request_target v \<Longrightarrow> v \<noteq> [] \<and> CR \<notin> set v \<and> LF \<notin> set v \<and> SPACE \<notin> set v"
  by (auto simp: valid_request_target_def list_all_iff)

lemma find_byte_append: "c \<notin> set u \<Longrightarrow> find_byte c (u @ c # v) = Some (length u)"
  by (induction u) (auto simp: find_byte_def)

lemma find_byte_None: "c \<notin> set u \<Longrightarrow> find_byte c u = None"
  by (simp add: find_byte_def)

lemma read_byte_unread: "unread s = c # u \<Longrightarrow> read_byte s = (Ok (Some c), s\<lparr>unread := u\<rparr>)"
  by (simp add: read_byte_def http_then_def fill_buffer_def)

lemma read_line_loop_unread:
  "CR \<notin> set l \<Longrightarrow> LF \<notin> set l \<Longrightarrow> length line + length l \<le> limit \<Longrightarrow> unread s = l @ CR # LF # u \<Longrightarrow>
     read_line_loop limit clean line False any s = (Ok (Some (line @ l)), s\<lparr>unread := u\<rparr>)"
proof (induction l arbitrary: line any s)
  case Nil
  then show ?case by (subst read_line_loop.simps, subst read_line_loop.simps) (simp add: read_byte_unread)
next
  case (Cons c l)
  then show ?case by (subst read_line_loop.simps) (simp add: read_byte_unread [of s c])
qed

lemma read_line_unread:
  "CR \<notin> set l \<Longrightarrow> LF \<notin> set l \<Longrightarrow> length l \<le> limit \<Longrightarrow> unread s = l @ CR # LF # u \<Longrightarrow>
     read_line limit clean s = (Ok (Some l), s\<lparr>unread := u\<rparr>)"
  unfolding read_line_def using read_line_loop_unread [of l "[]"] by simp

definition header_line :: "HttpHeader \<Rightarrow> bytes" where
  "header_line h = hname h @ COLON # SPACE # hvalue h"

definition headers_size :: "HttpHeaders \<Rightarrow> nat" where
  "headers_size hs = sum_list (map (\<lambda>h. length (header_line h) + 2) hs)"

lemma read_headers_unread:
  assumes "list_all header_ok hs" and "ub + headers_size hs + 2 \<le> max_header_bytes (limits s)"
    and "uc + length hs \<le> max_header_count (limits s)" and "unread s = headers_bytes hs @ CR # LF # u"
  shows "read_headers acc ub uc s = ((Ok (acc @ map trimmed hs), ub + headers_size hs + 2, uc + length hs), s\<lparr>unread := u\<rparr>)"
  using assms
proof (induction hs arbitrary: acc ub uc s)
  case Nil
  have "read_line (max_header_bytes (limits s) - ub) False s = (Ok (Some []), s\<lparr>unread := u\<rparr>)"
    using Nil by (intro read_line_unread) auto
  then show ?case using Nil by (subst read_headers.simps) (simp add: headers_size_def)
next
  case (Cons h hs)
  have ok: "header_ok h" "list_all header_ok hs" using Cons.prems(1) by simp_all
  note n = valid_name_chars [of "hname h"] and v = valid_value_chars [of "hvalue h"]
  let ?l = "header_line h"
  let ?s = "s\<lparr>unread := headers_bytes hs @ CR # LF # u\<rparr>"
  have size: "headers_size (h # hs) = length ?l + 2 + headers_size hs" by (simp add: headers_size_def)
  have r: "read_line (max_header_bytes (limits s) - ub) False s = (Ok (Some ?l), ?s)"
    using Cons.prems ok(1) n v size
    by (intro read_line_unread) (auto simp: header_line_def header_bytes_def header_ok_def)
  have l: "?l \<noteq> []" "hd ?l \<noteq> SPACE" "hd ?l \<noteq> TAB" "find_byte COLON ?l = Some (length (hname h))"
    "take (length (hname h)) ?l = hname h" "trim_ows (drop (Suc (length (hname h))) ?l) = trim_ows (hvalue h)"
    using n ok(1) by (auto simp: header_line_def header_ok_def find_byte_append is_ows_def neq_Nil_conv)
  have a: "headers_append (hname h) (trim_ows (hvalue h)) acc = Ok (acc @ [trimmed h])"
    using ok(1) by (simp add: headers_append_def header_ok_def valid_value_trim trimmed_def)
  have "read_headers (acc @ [trimmed h]) (ub + length ?l + 2) (uc + 1) ?s =
      ((Ok ((acc @ [trimmed h]) @ map trimmed hs), ub + length ?l + 2 + headers_size hs + 2, uc + 1 + length hs), ?s\<lparr>unread := u\<rparr>)"
    by (rule Cons.IH) (use Cons.prems ok size in simp_all)
  then show ?case
    using Cons.prems(2,3) size by (subst read_headers.simps) (simp add: r l a Let_def)
qed

lemma split_request_line_of:
  assumes "valid_name m" and "valid_request_target t"
  shows "split_request_line (m @ SPACE # t @ SPACE # http_version_name v) = Ok (m, t, http_version_name v)"
proof -
  have "SPACE \<notin> set (http_version_name v)" by (cases v) (simp_all add: http_version_name_def ascii_def)
  then show ?thesis
    using valid_name_chars [OF assms(1)] valid_target_chars [OF assms(2)]
    by (simp add: split_request_line_def find_byte_append Let_def)
qed

lemma parse_http_version_of: "parse_http_version (http_version_name v) = Ok v"
  by (cases v) (simp_all add: parse_http_version_def http_version_name_def ascii_def)

section \<open>Lengths\<close>

lemma digit_char_values:
  "d < 10 \<Longrightarrow> \<not> digit_char d < ZERO \<and> \<not> digit_char d > NINE \<and> unat (digit_char d - ZERO) = d"
  "d < 16 \<Longrightarrow> hex_value (digit_char d) = Some d \<and> is_token_character (digit_char d) \<and> valid_value [digit_char d]
     \<and> digit_char d \<noteq> 0x3B \<and> \<not> is_ows (digit_char d) \<and> digit_char d \<noteq> COMMA"
proof -
  have "list_all (\<lambda>d. \<not> digit_char d < ZERO \<and> \<not> digit_char d > NINE \<and> unat (digit_char d - ZERO) = d) [0..<10]" by code_simp
  then show "d < 10 \<Longrightarrow> \<not> digit_char d < ZERO \<and> \<not> digit_char d > NINE \<and> unat (digit_char d - ZERO) = d"
    by (auto simp: list_all_iff)
  have "list_all (\<lambda>d. hex_value (digit_char d) = Some d \<and> is_token_character (digit_char d) \<and> valid_value [digit_char d]
     \<and> digit_char d \<noteq> 0x3B \<and> \<not> is_ows (digit_char d) \<and> digit_char d \<noteq> COMMA) [0..<16]" by code_simp
  then show "d < 16 \<Longrightarrow> hex_value (digit_char d) = Some d \<and> is_token_character (digit_char d) \<and> valid_value [digit_char d]
     \<and> digit_char d \<noteq> 0x3B \<and> \<not> is_ows (digit_char d) \<and> digit_char d \<noteq> COMMA"
    by (auto simp: list_all_iff)
qed

lemma decimal_loop_snoc: "decimal_loop (xs @ ys) l = and_then (decimal_loop xs l) (decimal_loop ys)"
  by (induction xs l rule: decimal_loop.induct) (auto simp: and_then_def Let_def)

lemma chunk_size_loop_snoc: "chunk_size_loop (xs @ ys) l = and_then (chunk_size_loop xs l) (chunk_size_loop ys)"
  by (induction xs l rule: chunk_size_loop.induct) (auto simp: and_then_def split: option.splits)

lemma last_digit_fits: "n \<le> SIZE_MAX \<Longrightarrow> 0 < b \<Longrightarrow> n div b \<le> (SIZE_MAX - n mod b) div b"
proof -
  assume "n \<le> SIZE_MAX" "0 < b"
  then have "(n - n mod b) div b \<le> (SIZE_MAX - n mod b) div b" by (intro div_le_mono diff_le_mono)
  then show ?thesis using \<open>0 < b\<close> by (simp add: minus_mod_eq_mult_div)
qed

lemma decimal_text_read: "n \<le> SIZE_MAX \<Longrightarrow> decimal_loop (decimal_text n) 0 = Ok n"
proof (induction "10 :: nat" n rule: digits_of.induct)
  case (1 n)
  show ?case
  proof (cases "n < 10")
    case True
    then show ?thesis using digit_char_values(1) [OF True]
      by (simp add: decimal_text_def digits_of.simps [of 10 n])
  next
    case False
    then have "decimal_loop (decimal_text (n div 10)) 0 = Ok (n div 10)" using 1 by simp
    moreover have "decimal_text n = decimal_text (n div 10) @ [digit_char (n mod 10)]"
      using False by (simp add: decimal_text_def digits_of.simps [of 10 n])
    moreover have "n mod 10 < 10" by simp
    ultimately show ?thesis using digit_char_values(1) [of "n mod 10"] last_digit_fits [OF 1(2), of 10]
      by (simp add: decimal_loop_snoc and_then_def Let_def)
  qed
qed

lemma hex_text_read: "n \<le> SIZE_MAX \<Longrightarrow> chunk_size_loop (hex_text n) 0 = Ok n"
proof (induction "16 :: nat" n rule: digits_of.induct)
  case (1 n)
  show ?case
  proof (cases "n < 16")
    case True
    then show ?thesis using digit_char_values(2) [OF True]
      by (simp add: hex_text_def digits_of.simps [of 16 n])
  next
    case False
    then have "chunk_size_loop (hex_text (n div 16)) 0 = Ok (n div 16)" using 1 by simp
    moreover have "hex_text n = hex_text (n div 16) @ [digit_char (n mod 16)]"
      using False by (simp add: hex_text_def digits_of.simps [of 16 n])
    moreover have "n mod 16 < 16" by simp
    ultimately show ?thesis using digit_char_values(2) [of "n mod 16"] last_digit_fits [OF 1(2), of 16]
      by (simp add: chunk_size_loop_snoc and_then_def)
  qed
qed

lemma digits_text_chars:
  assumes "1 < b" and "b \<le> 16" and "c \<in> set (map digit_char (digits_of b n))"
  shows "is_token_character c \<and> valid_value [c] \<and> c \<noteq> 0x3B \<and> \<not> is_ows c \<and> c \<noteq> COMMA"
proof -
  obtain d where d: "c = digit_char d" "d \<in> set (digits_of b n)" using assms(3) by auto
  then have "d < 16" using digits_of_less [OF assms(1) d(2)] assms(2) by simp
  from digit_char_values(2) [OF this] show ?thesis unfolding d(1) by simp
qed

lemma digits_text_ne: "map digit_char (digits_of b n) \<noteq> []"
  by (subst digits_of.simps) auto

lemma hex_text_chars: "c \<in> set (hex_text n) \<Longrightarrow> valid_value [c] \<and> c \<noteq> 0x3B"
  unfolding hex_text_def using digits_text_chars [of 16 c n] by simp

lemma hex_text_ok: "valid_value (hex_text n)" "hex_text n \<noteq> []" "takeWhile (\<lambda>c. c \<noteq> 0x3B) (hex_text n) = hex_text n"
proof -
  show "valid_value (hex_text n)" using hex_text_chars [of _ n] by (auto simp: valid_value_def list_all_iff)
  show "hex_text n \<noteq> []" by (simp only: hex_text_def digits_text_ne not_False_eq_True)
  show "takeWhile (\<lambda>c. c \<noteq> 0x3B) (hex_text n) = hex_text n" using hex_text_chars [of _ n] by (simp add: takeWhile_eq_all_conv)
qed

lemma parse_chunk_size_hex: "n \<le> SIZE_MAX \<Longrightarrow> parse_chunk_size (hex_text n) = Ok n"
  by (simp add: parse_chunk_size_def hex_text_ok Let_def hex_text_read)

lemma trim_ows_id: "list_all (\<lambda>c. \<not> is_ows c) v \<Longrightarrow> trim_ows v = v"
proof -
  assume "list_all (\<lambda>c. \<not> is_ows c) v"
  then have "dropWhile is_ows v = v" "dropWhile is_ows (rev v) = rev v"
    by (cases v; simp; fail) (cases v rule: rev_cases; use \<open>list_all (\<lambda>c. \<not> is_ows c) v\<close> in simp)
  then show ?thesis by (simp add: trim_ows_def)
qed

lemma split_commas_none: "COMMA \<notin> set v \<Longrightarrow> split_commas v = [v]"
  by (induction v) auto

definition length_header :: "nat \<Rightarrow> HttpHeader" where
  "length_header n = \<lparr>hname = ascii ''Content-Length'', hvalue = decimal_text n\<rparr>"

lemma decimal_text_ok:
  "valid_value (decimal_text n)" "trim_ows (decimal_text n) = decimal_text n" "split_commas (decimal_text n) = [decimal_text n]"
  "decimal_text n \<noteq> []"
proof -
  have c: "valid_value [c] \<and> \<not> is_ows c \<and> c \<noteq> COMMA" if "c \<in> set (decimal_text n)" for c
    unfolding decimal_text_def using digits_text_chars [of 10 c n] that by (simp add: decimal_text_def)
  show "valid_value (decimal_text n)" using c by (auto simp: valid_value_def list_all_iff)
  show "trim_ows (decimal_text n) = decimal_text n" using c by (intro trim_ows_id) (auto simp: list_all_iff)
  show "split_commas (decimal_text n) = [decimal_text n]" using c by (intro split_commas_none) auto
  show "decimal_text n \<noteq> []" by (simp only: decimal_text_def digits_text_ne not_False_eq_True)
qed

lemma length_header_ok: "header_ok (length_header n)" "trimmed (length_header n) = length_header n"
proof -
  have "valid_name (ascii ''Content-Length'')" by code_simp
  then show "header_ok (length_header n)" by (simp add: header_ok_def length_header_def decimal_text_ok)
  show "trimmed (length_header n) = length_header n" by (simp add: trimmed_def length_header_def decimal_text_ok)
qed

section \<open>Framing\<close>

lemma content_length_loop_Some: "content_length_loop ts (Some l) = Ok v \<Longrightarrow> v = Some l"
  by (induction ts) (auto simp: Let_def split: Result.splits if_splits)

lemma content_length_loop_None: "content_length_loop ts None = Ok None \<longleftrightarrow> ts = []"
  by (cases ts) (auto simp: Let_def split: Result.splits dest: content_length_loop_Some)

lemma concat_split_commas: "concat (map split_commas vs) = [] \<longleftrightarrow> vs = []"
  by (cases vs) simp_all

lemma parse_content_length_None: "parse_content_length hs = Ok None \<longleftrightarrow> headers_get_all (ascii ''Content-Length'') hs = []"
  by (simp add: parse_content_length_def content_length_loop_None concat_split_commas)

lemma get_all_empty: "headers_get_all name hs = [] \<longleftrightarrow> \<not> headers_contains name hs"
  by (induction hs) (auto simp: headers_get_all_def headers_contains_def)

lemma parse_chunked_Ok: "parse_chunked_transfer_encoding hs = Ok c \<Longrightarrow> c = headers_contains (ascii ''Transfer-Encoding'') hs"
  using get_all_empty [of "ascii ''Transfer-Encoding''" hs]
  by (auto simp: parse_chunked_transfer_encoding_def Let_def and_then_def split: Result.splits if_splits)

lemma framing_kinds:
  assumes "body_framing hs close = Ok f"
  shows "body_kind f = Chunked \<longleftrightarrow> headers_contains (ascii ''Transfer-Encoding'') hs"
    and "body_kind f = ContentLength \<longleftrightarrow> headers_contains (ascii ''Content-Length'') hs"
    and "\<not> (headers_contains (ascii ''Transfer-Encoding'') hs \<and> headers_contains (ascii ''Content-Length'') hs)"
proof -
  obtain l c where l: "parse_content_length hs = Ok l" and c: "parse_chunked_transfer_encoding hs = Ok c"
    using assms by (auto simp: body_framing_def and_then_def split: Result.splits)
  have "l = None \<longleftrightarrow> \<not> headers_contains (ascii ''Content-Length'') hs"
    using l parse_content_length_None [of hs] get_all_empty by auto
  moreover note parse_chunked_Ok [OF c]
  ultimately show "body_kind f = Chunked \<longleftrightarrow> headers_contains (ascii ''Transfer-Encoding'') hs"
    "body_kind f = ContentLength \<longleftrightarrow> headers_contains (ascii ''Content-Length'') hs"
    "\<not> (headers_contains (ascii ''Transfer-Encoding'') hs \<and> headers_contains (ascii ''Content-Length'') hs)"
    using assms by (auto simp: body_framing_def and_then_def l c split: if_splits option.splits)
qed

lemma contains_append: "headers_contains name (hs @ [h]) \<longleftrightarrow> headers_contains name hs \<or> ascii_equals (hname h) name"
  by (induction hs) (auto simp: headers_contains_def)

lemma get_all_append: "headers_get_all name (hs @ [h]) = headers_get_all name hs @ (if ascii_equals (hname h) name then [hvalue h] else [])"
  by (simp add: headers_get_all_def)

lemma length_header_name:
  "ascii_equals (hname (length_header n)) (ascii ''Content-Length'')"
  "\<not> ascii_equals (hname (length_header n)) (ascii ''Transfer-Encoding'')"
  "\<not> ascii_equals (hname (length_header n)) (ascii ''Host'')"
proof -
  have "ascii_equals (ascii ''Content-Length'') (ascii ''Content-Length'')"
    "\<not> ascii_equals (ascii ''Content-Length'') (ascii ''Transfer-Encoding'')"
    "\<not> ascii_equals (ascii ''Content-Length'') (ascii ''Host'')" by code_simp+
  then show "ascii_equals (hname (length_header n)) (ascii ''Content-Length'')"
    "\<not> ascii_equals (hname (length_header n)) (ascii ''Transfer-Encoding'')"
    "\<not> ascii_equals (hname (length_header n)) (ascii ''Host'')" by (simp_all add: length_header_def)
qed

lemma remove_absent: "\<not> headers_contains name hs \<Longrightarrow> snd (headers_remove name hs) = hs"
proof -
  have "\<not> headers_contains name hs \<Longrightarrow> filter (\<lambda>h. \<not> ascii_equals (hname h) name) hs = hs"
    by (induction hs) (auto simp: headers_contains_def split: if_splits)
  then show "\<not> headers_contains name hs \<Longrightarrow> snd (headers_remove name hs) = hs" by (simp add: headers_remove_def Let_def)
qed

lemma set_content_length_new:
  "\<not> headers_contains (ascii ''Content-Length'') hs \<Longrightarrow> set_content_length n hs = Ok (hs @ [length_header n])"
  using length_header_ok(1) [of n]
  by (simp add: set_content_length_def headers_set_def remove_absent header_ok_def length_header_def)

lemma framing_with_length:
  assumes "\<not> headers_contains (ascii ''Content-Length'') hs" and "\<not> headers_contains (ascii ''Transfer-Encoding'') hs"
    and "n \<le> SIZE_MAX"
  shows "body_framing (hs @ [length_header n]) close = Ok \<lparr>body_kind = ContentLength, content_length = n\<rparr>"
proof -
  have "headers_get_all (ascii ''Content-Length'') hs = []" "headers_get_all (ascii ''Transfer-Encoding'') hs = []"
    using assms(1,2) get_all_empty by auto
  then show ?thesis
    using assms(3) decimal_text_ok [of n]
    by (simp add: body_framing_def parse_content_length_def parse_chunked_transfer_encoding_def get_all_append
        length_header_name and_then_def decimal_text_read Let_def) (simp add: length_header_def decimal_text_ok decimal_text_read)
qed

text \<open>The headers that a request is sent with.\<close>

definition message_headers :: "HttpRequest \<Rightarrow> HttpHeaders" where
  "message_headers r =
     (if req_body r \<noteq> [] \<and> \<not> headers_contains (ascii ''Content-Length'') (req_headers r)
         \<and> \<not> headers_contains (ascii ''Transfer-Encoding'') (req_headers r)
      then req_headers r @ [length_header (length (req_body r))] else req_headers r)"

definition is_chunked :: "HttpRequest \<Rightarrow> bool" where
  "is_chunked r \<longleftrightarrow> headers_contains (ascii ''Transfer-Encoding'') (req_headers r)"

lemma check_host_length [simp]: "check_host v (hs @ [length_header n]) = check_host v hs"
  by (simp add: check_host_def get_all_append length_header_name)

lemma check_http10_length [simp]: "check_http10_encoding msg v (hs @ [length_header n]) = check_http10_encoding msg v hs"
  by (simp add: check_http10_encoding_def contains_append length_header_name)

lemma request_framing_Ok:
  assumes "request_framing r = Ok (hs, chunked)" and "length (req_body r) \<le> SIZE_MAX"
  shows "hs = message_headers r" and "chunked = is_chunked r"
    and "\<exists>f. body_framing hs False = Ok f \<and> (body_kind f = Chunked \<longleftrightarrow> chunked) \<and> body_kind f \<noteq> CloseDelimited
      \<and> (body_kind f = ContentLength \<longrightarrow> content_length f = length (req_body r))
      \<and> (body_kind f = NoBody \<longrightarrow> req_body r = [])"
    and "\<not> chunked \<Longrightarrow> req_trailers r = []"
proof -
  obtain f where f: "body_framing (req_headers r) False = Ok f"
    using assms(1) by (auto simp: request_framing_def and_then_def split: Result.splits)
  note k = framing_kinds [OF f] body_framing_not_close [OF f]
  have all: "hs = message_headers r \<and> chunked = is_chunked r
    \<and> (\<exists>f. body_framing hs False = Ok f \<and> (body_kind f = Chunked \<longleftrightarrow> chunked) \<and> body_kind f \<noteq> CloseDelimited
      \<and> (body_kind f = ContentLength \<longrightarrow> content_length f = length (req_body r))
      \<and> (body_kind f = NoBody \<longrightarrow> req_body r = []))
    \<and> (\<not> chunked \<longrightarrow> req_trailers r = [])"
  proof (cases "body_kind f = NoBody \<and> req_body r \<noteq> []")
    case True
    then have n: "\<not> headers_contains (ascii ''Content-Length'') (req_headers r)"
      "\<not> headers_contains (ascii ''Transfer-Encoding'') (req_headers r)" using k by auto
    show ?thesis
      using assms(1) True framing_with_length [OF n assms(2)] n
      by (auto simp: request_framing_def and_then_def f set_content_length_new message_headers_def is_chunked_def split: if_splits)
  next
    case False
    then have "hs = req_headers r \<and> chunked = (body_kind f = Chunked) \<and> (body_kind f = ContentLength \<longrightarrow> content_length f = length (req_body r))
      \<and> (\<not> chunked \<longrightarrow> req_trailers r = [])"
      using assms(1) by (auto simp: request_framing_def and_then_def f split: if_splits)
    then show ?thesis using False f k by (cases "body_kind f") (auto simp: message_headers_def is_chunked_def)
  qed
  then show "hs = message_headers r" "chunked = is_chunked r"
    "\<exists>f. body_framing hs False = Ok f \<and> (body_kind f = Chunked \<longleftrightarrow> chunked) \<and> body_kind f \<noteq> CloseDelimited
      \<and> (body_kind f = ContentLength \<longrightarrow> content_length f = length (req_body r))
      \<and> (body_kind f = NoBody \<longrightarrow> req_body r = [])"
    "\<not> chunked \<Longrightarrow> req_trailers r = []" by blast+
qed

lemma check_request_Ok:
  assumes "check_request r = Ok (hs, chunked)"
  shows "valid_name (req_method r)" "valid_request_target (req_target r)" "check_host (req_version r) (req_headers r) = Ok ()"
    "check_http10_encoding ''HTTP/1.0 request cannot use Transfer-Encoding'' (req_version r) (req_headers r) = Ok ()"
    "validate_trailers (req_trailers r) = Ok ()" "request_framing r = Ok (hs, chunked)"
  using assms by (auto simp: check_request_def and_then_def split: if_splits Result.splits)

end
