(* ===== verification/Http_Roundtrip.thy ===== *)
theory Http_Roundtrip
  imports Http_Parsing
begin

text \<open>What the writer wrote is read back: heads, bodies, and whole requests.\<close>

section \<open>Heads\<close>

definition fits :: "HttpLimits \<Rightarrow> HttpRequest \<Rightarrow> bool" where
  "fits l r \<longleftrightarrow>
     length (request_line r) \<le> max_start_line_bytes l + 2
     \<and> length (hex_text (length (req_body r))) \<le> max_start_line_bytes l
     \<and> headers_size (message_headers r) + 2 + (if is_chunked r then headers_size (req_trailers r) + 2 else 0) \<le> max_header_bytes l
     \<and> length (message_headers r) + (if is_chunked r then length (req_trailers r) else 0) \<le> max_header_count l
     \<and> length (req_body r) \<le> max_body_bytes l \<and> max_body_bytes l \<le> SIZE_MAX
     \<and> 0 < max_header_count l \<and> 0 < max_body_bytes l"

definition body_state :: "HttpBodyInfo \<Rightarrow> ReadState" where
  "body_state f =
     (case body_kind f of
        NoBody \<Rightarrow> BodyComplete
      | ContentLength \<Rightarrow> if content_length f = 0 then BodyComplete else FixedBody
      | Chunked \<Rightarrow> ChunkSize
      | CloseDelimited \<Rightarrow> CloseDelimitedBody)"

lemma begin_body_Ok:
  "body_kind f = ContentLength \<longrightarrow> content_length f \<le> max_body_bytes (limits s) \<Longrightarrow>
     begin_body f used_bytes used_count s = (Ok (),
       s\<lparr>body_info := f, body_remaining := content_length f, body_decoded := 0, used_header_bytes := used_bytes,
         used_header_count := used_count, body_trailers := [], read_state := body_state f\<rparr>)"
  by (cases "body_kind f") (simp_all add: begin_body_def body_state_def Let_def http_return_def)

lemma ensure_ready_Ok:
  "read_state s = Ready \<Longrightarrow> 0 < max_start_line_bytes (limits s) \<Longrightarrow> 0 < max_header_bytes (limits s) \<Longrightarrow>
     0 < max_header_count (limits s) \<Longrightarrow> 0 < max_body_bytes (limits s) \<Longrightarrow>
     ensure_ready s = (Ok (), s\<lparr>read_state := ReadingHead\<rparr>)"
  by (simp add: ensure_ready_def validate_limits_def http_then_def http_return_def http_modify_def)

lemma headers_of_head_unread:
  assumes "list_all header_ok hs" and "headers_size hs + 2 \<le> max_header_bytes (limits s)"
    and "length hs \<le> max_header_count (limits s)" and "unread s = headers_bytes hs @ CR # LF # u"
  shows "headers_of_head s = (Ok (map trimmed hs, headers_size hs + 2, length hs), s\<lparr>unread := u\<rparr>)"
  using read_headers_unread [of hs 0 s 0 u "[]"] assms by (simp add: headers_of_head_def)

definition start_line :: "('a HttpRequestHead_scheme) \<Rightarrow> bytes" where
  "start_line r = req_method r @ SPACE # req_target r @ SPACE # http_version_name (req_version r)"

lemma request_line_start: "request_line r = start_line r @ [CR, LF]"
  by (simp add: request_line_def start_line_def)

lemma ne_pos: "xs \<noteq> [] \<Longrightarrow> length xs \<le> n \<Longrightarrow> 0 < n"
  by (cases xs) auto

lemma start_line_chars:
  assumes "valid_name (req_method r)" and "valid_request_target (req_target r)"
  shows "CR \<notin> set (start_line r)" "LF \<notin> set (start_line r)" "start_line r \<noteq> []"
proof -
  have "CR \<notin> set (http_version_name v) \<and> LF \<notin> set (http_version_name v)" for v
    by (cases v) (simp_all add: http_version_name_def ascii_def)
  then show "CR \<notin> set (start_line r)" "LF \<notin> set (start_line r)" "start_line r \<noteq> []"
    using valid_name_chars [OF assms(1)] valid_target_chars [OF assms(2)] by (auto simp: start_line_def)
qed

definition head_of :: "HttpRequest \<Rightarrow> HttpRequestHead" where
  "head_of r = \<lparr>req_method = req_method r, req_target = req_target r, req_version = req_version r,
                req_headers = map trimmed (message_headers r)\<rparr>"

lemma read_request_head_unread:
  assumes "check_request r = Ok (message_headers r, chunked)" and "fits (limits s) r" and "read_state s = Ready"
    and "list_all header_ok (req_headers r)" and "unread s = request_line r @ headers_bytes (message_headers r) @ CR # LF # u"
    and "body_framing (message_headers r) False = Ok f"
    and "body_kind f = ContentLength \<longrightarrow> content_length f = length (req_body r)"
  shows "read_request_head s = (Ok (Some (head_of r)),
    s\<lparr>unread := u, last_head_method := req_method r, body_info := f, body_remaining := content_length f, body_decoded := 0,
      used_header_bytes := headers_size (message_headers r) + 2, used_header_count := length (message_headers r),
      body_trailers := [], read_state := body_state f\<rparr>)"
proof -
  note c = check_request_Ok [OF assms(1)]
  let ?hs = "message_headers r"
  have ok: "list_all header_ok ?hs" using assms(4) length_header_ok(1) by (simp add: message_headers_def)
  have host: "check_host (req_version r) (map trimmed ?hs) = Ok ()"
    using c(3) by (intro check_host_trimmed) (simp add: message_headers_def)
  have http10: "check_http10_encoding ''HTTP/1.0 request cannot use Transfer-Encoding'' (req_version r) ?hs = Ok ()"
    using c(4) by (simp add: message_headers_def)
  have fit: "length (start_line r) \<le> max_start_line_bytes (limits s)" "0 < max_start_line_bytes (limits s)"
    "headers_size ?hs + 2 \<le> max_header_bytes (limits s)" "length ?hs \<le> max_header_count (limits s)"
    "0 < max_header_count (limits s)" "0 < max_body_bytes (limits s)" "length (req_body r) \<le> max_body_bytes (limits s)"
    using assms(2) ne_pos [OF start_line_chars(3) [OF c(1,2)]] by (auto simp: fits_def request_line_start)
  let ?s = "s\<lparr>read_state := ReadingHead\<rparr>"
  have ready: "ensure_ready s = (Ok (), ?s)" by (rule ensure_ready_Ok) (use fit assms(3) in simp_all)
  have line: "read_start_line ?s = (Ok (Some (start_line r)), ?s\<lparr>unread := headers_bytes ?hs @ CR # LF # u\<rparr>)"
    unfolding read_start_line_def
    by (rule read_line_unread) (use start_line_chars [OF c(1,2)] fit assms(5) in \<open>simp_all add: request_line_start\<close>)
  have split: "split_request_line (start_line r) = Ok (req_method r, req_target r, http_version_name (req_version r))"
    unfolding start_line_def by (rule split_request_line_of [OF c(1,2)])
  let ?t = "?s\<lparr>unread := headers_bytes ?hs @ CR # LF # u, last_head_method := req_method r\<rparr>"
  have hs: "headers_of_head ?t = (Ok (map trimmed ?hs, headers_size ?hs + 2, length ?hs), ?t\<lparr>unread := u\<rparr>)"
    by (rule headers_of_head_unread) (use ok fit in simp_all)
  have begun: "begin_body f (headers_size ?hs + 2) (length ?hs) (?t\<lparr>unread := u\<rparr>) = (Ok (),
    s\<lparr>unread := u, last_head_method := req_method r, body_info := f, body_remaining := content_length f, body_decoded := 0,
      used_header_bytes := headers_size (message_headers r) + 2, used_header_count := length (message_headers r),
      body_trailers := [], read_state := body_state f\<rparr>)"
    by (subst begin_body_Ok) (use fit assms(7) in simp_all)
  show ?thesis
    using c(1,2) assms(6) begun
    by (simp add: read_request_head_def request_head_after_def http_then_def ready line http_lift_def split
        check_request_line_def http_modify_def parse_http_version_of hs host http10 http_return_def head_of_def)
qed

section \<open>Bodies\<close>

lemma body_loop_copy:
  assumes "rd_stream s = []" and "copying (read_state s) next_state msg" and "unread s = data @ u" and "data \<noteq> []"
    and "body_remaining s = length data"
  shows "body_loop acc s = body_loop (acc @ data)
    (s\<lparr>unread := u, body_remaining := 0, body_decoded := body_decoded s + length data, read_state := next_state\<rparr>)"
proof -
  have r: "rest s = data @ u" "view s = s" using assms(1,3) view_id by (simp_all add: rest_def)
  obtain t where t: "body_loop acc s = body_loop (acc @ take (body_remaining s) (rest s)) t"
    "view t = (view s)\<lparr>unread := drop (body_remaining s) (rest s), body_remaining := 0,
           body_decoded := body_decoded s + body_remaining s, read_state := next_state\<rparr>" "rd_stream t = []"
    using copy_all [of s next_state msg acc] assms r by auto
  have "t = s\<lparr>unread := u, body_remaining := 0, body_decoded := body_decoded s + length data, read_state := next_state\<rparr>"
    using t(2) view_id [OF t(3)] r assms(5) by simp
  with t(1) r assms(5) show ?thesis by simp
qed

lemma read_chunk_head_data:
  assumes "unread s = hex_text n @ CR # LF # u" and "0 < n" and "n \<le> SIZE_MAX"
    and "length (hex_text n) \<le> max_start_line_bytes (limits s)" and "n + body_decoded s \<le> max_body_bytes (limits s)"
  shows "read_chunk_head s = (Ok True, s\<lparr>unread := u, body_remaining := n, read_state := ChunkData\<rparr>)"
proof -
  have "read_line (max_start_line_bytes (limits s)) False s = (Ok (Some (hex_text n)), s\<lparr>unread := u\<rparr>)"
    using hex_text_ok(1) [of n] valid_value_chars assms(1,4) by (intro read_line_unread) auto
  then show ?thesis
    using assms(2,3,5) parse_chunk_size_hex [OF assms(3)] by (auto simp: read_chunk_head_def http_then_def http_lift_def)
qed

lemma read_chunk_head_last:
  assumes "unread s = last_chunk_bytes trailers @ u" and "0 < max_start_line_bytes (limits s)"
    and "list_all header_ok trailers" and "validate_trailers trailers = Ok ()"
    and "used_header_bytes s + headers_size trailers + 2 \<le> max_header_bytes (limits s)"
    and "used_header_count s + length trailers \<le> max_header_count (limits s)"
  shows "read_chunk_head s = (Ok False, s\<lparr>unread := u, used_header_bytes := used_header_bytes s + headers_size trailers + 2,
    used_header_count := used_header_count s + length trailers, body_trailers := map trimmed trailers, read_state := BodyComplete\<rparr>)"
proof -
  let ?s = "s\<lparr>unread := headers_bytes trailers @ CR # LF # u\<rparr>"
  have "read_line (max_start_line_bytes (limits s)) False s = (Ok (Some [ZERO]), ?s)"
    using assms(1,2) by (intro read_line_unread) (auto simp: last_chunk_bytes_def)
  moreover have "parse_chunk_size [ZERO] = Ok 0"
    using parse_chunk_size_hex [of 0] by (simp add: hex_text_def digits_of.simps digit_char_def)
  moreover have "read_headers [] (used_header_bytes s) (used_header_count s) ?s =
      ((Ok ([] @ map trimmed trailers), used_header_bytes s + headers_size trailers + 2, used_header_count s + length trailers),
       ?s\<lparr>unread := u\<rparr>)"
    by (rule read_headers_unread) (use assms in simp_all)
  ultimately show ?thesis
    using assms(4) by (simp add: read_chunk_head_def http_then_def http_lift_def Let_def)
qed

lemma read_chunk_ending_unread: "unread s = CR # LF # u \<Longrightarrow> read_chunk_ending s = (Ok (), s\<lparr>unread := u, read_state := ChunkSize\<rparr>)"
  by (simp add: read_chunk_ending_def http_then_def read_byte_unread http_modify_def)

lemma chunked_body_read:
  assumes "rd_stream s = []" and "read_state s = ChunkSize" and "unread s = body_bytes body trailers True @ u"
    and "body_decoded s = 0" and "length body \<le> max_body_bytes (limits s)" and "max_body_bytes (limits s) \<le> SIZE_MAX"
    and "length (hex_text (length body)) \<le> max_start_line_bytes (limits s)"
    and "list_all header_ok trailers" and "validate_trailers trailers = Ok ()"
    and "used_header_bytes s + headers_size trailers + 2 \<le> max_header_bytes (limits s)"
    and "used_header_count s + length trailers \<le> max_header_count (limits s)"
  obtains s' where "body_loop [] s = (Ok body, s')" and "read_state s' = BodyComplete" and "unread s' = u" and "rd_stream s' = []"
    and "body_trailers s' = map trimmed trailers" and "limits s' = limits s"
proof -
  have start: "0 < max_start_line_bytes (limits s)" by (rule ne_pos [OF hex_text_ok(2) assms(7)])
  have last_chunk: "\<exists>s'. body_loop acc t = (Ok acc, s') \<and> read_state s' = BodyComplete \<and> unread s' = u \<and> rd_stream s' = []
      \<and> body_trailers s' = map trimmed trailers \<and> limits s' = limits s"
    if "rd_stream t = []" "read_state t = ChunkSize" "unread t = last_chunk_bytes trailers @ u" "limits t = limits s"
      "used_header_bytes t = used_header_bytes s" "used_header_count t = used_header_count s" for t acc
    using read_chunk_head_last [of t trailers u] that start assms(8-11)
    by (simp add: body_loop_chunk_size body_loop_done)
  show thesis
  proof (cases "body = []")
    case True
    with last_chunk [of s "[]"] assms(1-3) that show ?thesis by (auto simp: body_bytes_def)
  next
    case False
    let ?v = "CR # LF # last_chunk_bytes trailers @ u"
    let ?t = "s\<lparr>unread := body @ ?v, body_remaining := length body, read_state := ChunkData\<rparr>"
    let ?w = "?t\<lparr>unread := ?v, body_remaining := 0, body_decoded := length body, read_state := ChunkDataEnding\<rparr>"
    have "read_chunk_head s = (Ok True, ?t)"
      by (rule read_chunk_head_data) (use False assms in \<open>simp_all add: body_bytes_def chunk_bytes_def\<close>)
    then have "body_loop [] s = body_loop [] ?t" using assms(2) by (simp add: body_loop_chunk_size)
    also have "\<dots> = body_loop body ?w"
      using body_loop_copy [of ?t ChunkDataEnding "''unexpected EOF inside HTTP chunk''" body ?v "[]"] assms(1,4) False
      by (simp add: copying_def)
    also have "\<dots> = body_loop body (?w\<lparr>unread := last_chunk_bytes trailers @ u, read_state := ChunkSize\<rparr>)"
      by (subst body_loop_chunk_ending) (simp_all add: read_chunk_ending_unread)
    finally show ?thesis
      using last_chunk [of "?w\<lparr>unread := last_chunk_bytes trailers @ u, read_state := ChunkSize\<rparr>" body] assms(1) that by auto
  qed
qed

lemma fixed_body_read:
  assumes "rd_stream s = []" and "read_state s = FixedBody" and "unread s = body @ u" and "body \<noteq> []"
    and "body_remaining s = length body"
  shows "body_loop [] s = (Ok body,
    s\<lparr>unread := u, body_remaining := 0, body_decoded := body_decoded s + length body, read_state := BodyComplete\<rparr>)"
  using body_loop_copy [of s BodyComplete "''unexpected EOF inside HTTP body''" body u "[]"] assms
  by (simp add: copying_def body_loop_done)

section \<open>Requests\<close>

definition received :: "HttpRequest \<Rightarrow> HttpRequest" where
  "received r = r\<lparr>req_headers := map trimmed (message_headers r), req_trailers := map trimmed (req_trailers r)\<rparr>"

lemma finish_body_Ok:
  "read_state s = BodyComplete \<Longrightarrow> finish_body s = (Ok (body_trailers s),
     s\<lparr>body_trailers := [], body_info := no_body, body_remaining := 0, body_decoded := 0, used_header_bytes := 0,
       used_header_count := 0, read_state := Ready\<rparr>)"
  by (simp add: finish_body_def)

lemma request_body_read:
  assumes "rd_stream s = []" and "read_state s = body_state f" and "body_remaining s = content_length f" and "body_decoded s = 0"
    and "used_header_bytes s = headers_size (message_headers r) + 2" and "used_header_count s = length (message_headers r)"
    and "body_trailers s = []" and "unread s = body_bytes (req_body r) (req_trailers r) chunked @ u"
    and "fits (limits s) r" and "list_all header_ok (req_trailers r)" and "validate_trailers (req_trailers r) = Ok ()"
    and "chunked = is_chunked r" and "body_kind f = Chunked \<longleftrightarrow> chunked" and "body_kind f \<noteq> CloseDelimited"
    and "body_kind f = ContentLength \<longrightarrow> content_length f = length (req_body r)" and "body_kind f = NoBody \<longrightarrow> req_body r = []"
    and "\<not> chunked \<Longrightarrow> req_trailers r = []"
  obtains s' where "body_loop [] s = (Ok (req_body r), s')" and "read_state s' = BodyComplete" and "unread s' = u"
    and "rd_stream s' = []" and "body_trailers s' = map trimmed (req_trailers r)" and "limits s' = limits s"
proof (cases "body_kind f")
  case Chunked
  then have c: "chunked" "is_chunked r" using assms(12,13) by simp_all
  show ?thesis
    by (rule chunked_body_read [of s "req_body r" "req_trailers r" u]; (rule that; assumption)?)
       (use assms c Chunked in \<open>simp_all add: body_state_def fits_def\<close>)
next
  case ContentLength
  then have c: "\<not> chunked" "req_trailers r = []" "content_length f = length (req_body r)" using assms(13,15,17) by simp_all
  show ?thesis
  proof (cases "req_body r = []")
    case True
    show ?thesis
      by (rule that [of s]) (use assms c ContentLength True in \<open>simp_all add: body_state_def body_bytes_def body_loop_done\<close>)
  next
    case False
    have "body_loop [] s = (Ok (req_body r), s\<lparr>unread := u, body_remaining := 0,
        body_decoded := body_decoded s + length (req_body r), read_state := BodyComplete\<rparr>)"
      by (rule fixed_body_read) (use assms c ContentLength False in \<open>simp_all add: body_state_def body_bytes_def\<close>)
    then show ?thesis by (rule that) (use assms c in simp_all)
  qed
next
  case NoBody
  then have c: "\<not> chunked" "req_trailers r = []" "req_body r = []" using assms(13,16,17) by simp_all
  show ?thesis
    by (rule that [of s]) (use assms c NoBody in \<open>simp_all add: body_state_def body_bytes_def body_loop_done\<close>)
qed (use assms(14) in simp)

lemma request_eqI:
  "HttpRequestHead.extend (head_of r) (HttpRequest.fields (req_body r) (map trimmed (req_trailers r))) = received r"
  by (cases r) (simp add: head_of_def received_def HttpRequestHead.defs HttpRequest.defs message_headers_def is_chunked_def)

lemma read_request_unread:
  assumes "check_request r = Ok (hs, chunked)" and "fits (limits s) r" and "read_state s = Ready" and "rd_stream s = []"
    and "list_all header_ok (req_headers r)" and "list_all header_ok (req_trailers r)" and "unread s = request_bytes r hs chunked @ u"
  obtains s' where "read_request s = (Ok (Some (received r)), s')" and "unread s' = u" and "read_state s' = Ready"
    and "rd_stream s' = []" and "limits s' = limits s"
proof -
  note c = check_request_Ok [OF assms(1)]
  have n: "length (req_body r) \<le> SIZE_MAX" using assms(2) by (simp add: fits_def)
  note k = request_framing_Ok [OF c(6) n]
  from k(3) obtain f where f: "body_framing hs False = Ok f" "body_kind f = Chunked \<longleftrightarrow> chunked" "body_kind f \<noteq> CloseDelimited"
    "body_kind f = ContentLength \<longrightarrow> content_length f = length (req_body r)" "body_kind f = NoBody \<longrightarrow> req_body r = []" by blast
  let ?b = "body_bytes (req_body r) (req_trailers r) chunked"
  let ?s = "s\<lparr>unread := ?b @ u, last_head_method := req_method r, body_info := f, body_remaining := content_length f,
      body_decoded := 0, used_header_bytes := headers_size (message_headers r) + 2,
      used_header_count := length (message_headers r), body_trailers := [], read_state := body_state f\<rparr>"
  have head: "read_request_head s = (Ok (Some (head_of r)), ?s)"
    by (rule read_request_head_unread [where chunked = chunked])
       (use assms c f k(1) in \<open>simp_all add: request_bytes_def\<close>)
  obtain t where t: "body_loop [] ?s = (Ok (req_body r), t)" "read_state t = BodyComplete" "unread t = u" "rd_stream t = []"
    "body_trailers t = map trimmed (req_trailers r)" "limits t = limits ?s"
    by (rule request_body_read [of ?s f r chunked u]; (rule that; assumption)?) (use assms c f k in simp_all)
  show thesis
    by (rule that [of "t\<lparr>body_trailers := [], body_info := no_body, body_remaining := 0, body_decoded := 0,
        used_header_bytes := 0, used_header_count := 0, read_state := Ready\<rparr>"]) (use t in \<open>simp_all add: read_request_def read_body_all_def http_then_def head finish_body_Ok http_return_def request_eqI\<close>)
qed

end
