(* ===== verification/Http_Safety.thy ===== *)
theory Http_Safety
  imports Http_Roundtrip
begin

text \<open>
  What holds of every request that is accepted, whatever the stream does: it may be cut in any
  way, fail, or report more than was asked for.
\<close>

section \<open>What reading leaves alone\<close>

definition only_stream :: "Http1Reader \<Rightarrow> Http1Reader \<Rightarrow> bool" where
  "only_stream s s' \<longleftrightarrow> s'\<lparr>rd_stream := [], unread := []\<rparr> = s\<lparr>rd_stream := [], unread := []\<rparr>"

lemma only_stream_refl [simp]: "only_stream s s"
  by (simp add: only_stream_def)

lemma only_stream_trans: "only_stream s t \<Longrightarrow> only_stream t u \<Longrightarrow> only_stream s u"
  by (simp add: only_stream_def)

lemma only_stream_fields:
  assumes "only_stream s s'"
  shows "limits s' = limits s" "read_state s' = read_state s" "body_info s' = body_info s" "body_remaining s' = body_remaining s"
    "body_decoded s' = body_decoded s" "used_header_bytes s' = used_header_bytes s" "used_header_count s' = used_header_count s"
    "body_trailers s' = body_trailers s"
  using assms unfolding only_stream_def by (cases s; cases s'; simp)+

lemma fill_buffer_only: "fill_buffer s = (v, s') \<Longrightarrow> only_stream s s'"
  by (auto simp: fill_buffer_def only_stream_def split: if_splits prod.splits Result.splits)

lemma read_byte_only:
  assumes "read_byte s = (v, s')" shows "only_stream s s'"
proof -
  obtain a t where f: "fill_buffer s = (a, t)" by (cases "fill_buffer s")
  have "only_stream t s'"
    using assms by (auto simp: read_byte_def http_then_def f only_stream_def split: Result.splits if_splits)
  with fill_buffer_only [OF f] show ?thesis by (rule only_stream_trans)
qed

lemma read_line_loop_only: "read_line_loop limit clean line cr any s = (v, s') \<Longrightarrow> only_stream s s'"
proof (induction limit clean line cr any s rule: read_line_loop.induct)
  case (1 limit clean line cr any s)
  obtain r s1 where r: "read_byte s = (r, s1)" by (cases "read_byte s")
  note o1 = read_byte_only [OF r]
  have "only_stream s1 s'"
  proof (cases r)
    case (Err e)
    then show ?thesis using 1(3) r by (simp add: read_line_loop.simps [of limit clean line cr any s])
  next
    case (Ok b)
    then show ?thesis
      using 1(1,2) [OF r [symmetric] Ok] 1(3) r
      by (cases b) (auto simp: read_line_loop.simps [of limit clean line cr any s] http_fail_def split: if_splits)
  qed
  with o1 show ?case by (rule only_stream_trans)
qed

lemma read_line_only: "read_line limit clean s = (v, s') \<Longrightarrow> only_stream s s'"
  unfolding read_line_def by (rule read_line_loop_only)

lemma read_line_loop_length:
  "read_line_loop limit clean line cr any s = (Ok (Some l), s') \<Longrightarrow> length line \<le> limit \<Longrightarrow> length l \<le> limit"
proof (induction limit clean line cr any s rule: read_line_loop.induct)
  case (1 limit clean line cr any s)
  obtain c s1 where r: "read_byte s = (Ok (Some c), s1)"
    using 1(3) by (auto simp: read_line_loop.simps [of limit clean line cr any s] http_fail_def split: prod.splits Result.splits option.splits if_splits)
  then show ?case
    using 1(1,2) [OF r [symmetric] refl refl] 1(3,4)
    by (auto simp: read_line_loop.simps [of limit clean line cr any s] http_fail_def split: if_splits)
qed

lemma read_line_length: "read_line limit clean s = (Ok (Some l), s') \<Longrightarrow> length l \<le> limit"
  unfolding read_line_def by (drule read_line_loop_length) simp_all

text \<open>The least number of bytes that fields take in a header block: a name, a colon, a value and the end of the line.\<close>

definition fields_size :: "HttpHeaders \<Rightarrow> nat" where
  "fields_size hs = sum_list (map (\<lambda>h. length (hname h) + length (hvalue h) + 3) hs)"

lemma fields_size_simps [simp]:
  "fields_size [] = 0" "fields_size (h # hs) = length (hname h) + length (hvalue h) + 3 + fields_size hs"
  "fields_size (hs @ hs') = fields_size hs + fields_size hs'"
  by (simp_all add: fields_size_def)

lemma find_byte_less:
  assumes "find_byte c v = Some n" shows "n < length v"
proof -
  have c: "c \<in> set v" "n = length (takeWhile (\<lambda>x. x \<noteq> c) v)"
    using assms by (auto simp: find_byte_def split: if_splits)
  obtain p q where "v = p @ c # q" "c \<notin> set p" using split_list_first [OF c(1)] by blast
  moreover from this have "takeWhile (\<lambda>x. x \<noteq> c) (p @ c # q) = p" by (subst takeWhile_append2) auto
  ultimately show ?thesis using c(2) by simp
qed

lemma field_size:
  assumes "find_byte COLON v = Some colon"
  shows "length (take colon v) + length (trim_ows (drop (colon + 1) v)) + 1 \<le> length v"
proof -
  have "length (trim_ows u) \<le> length u" for u
    unfolding trim_ows_def by (metis length_dropWhile_le length_rev le_trans)
  from this [of "drop (colon + 1) v"] have "length (trim_ows (drop (colon + 1) v)) \<le> length v - (colon + 1)" by simp
  then show ?thesis using find_byte_less [OF assms] by simp
qed

lemma headers_append_ok:
  "headers_append name v hs = Ok hs' \<Longrightarrow> \<exists>h. hs' = hs @ [h] \<and> header_ok h \<and> length (hname h) = length name \<and> length (hvalue h) = length v"
  by (auto simp: headers_append_def header_ok_def split: if_splits)

lemma read_headers_accepted:
  "read_headers hs ub uc s = ((r, ub', uc'), s') \<Longrightarrow> only_stream s s'
     \<and> (\<forall>hs'. r = Ok hs' \<longrightarrow> (\<exists>new. hs' = hs @ new \<and> list_all header_ok new \<and> uc' = uc + length new
          \<and> (new \<noteq> [] \<longrightarrow> uc' \<le> max_header_count (limits s))
          \<and> ub + fields_size new + 2 \<le> ub' \<and> ub' \<le> max_header_bytes (limits s)))"
proof (induction hs ub uc s rule: read_headers.induct)
  case (1 hs ub uc s)
  obtain a s1 where a: "read_line (max_header_bytes (limits s) - ub) False s = (a, s1)"
    by (cases "read_line (max_header_bytes (limits s) - ub) False s")
  note o1 = read_line_only [OF a]
  show ?case
  proof (cases "ub \<ge> max_header_bytes (limits s) \<or> (\<exists>e. a = Err e)")
    case True
    then have "(\<exists>e. r = Err e) \<and> (s' = s \<or> s' = s1)"
    proof
      assume "ub \<ge> max_header_bytes (limits s)"
      then show ?thesis using 1(2) by (auto simp: read_headers.simps [of hs ub uc s])
    next
      assume "\<exists>e. a = Err e"
      then show ?thesis using 1(2) a by (auto simp: read_headers.simps [of hs ub uc s] split: if_splits)
    qed
    then show ?thesis using o1 by auto
  next
    case False
    then obtain line where ok: "a = Ok line" and ub: "\<not> ub \<ge> max_header_bytes (limits s)" by (cases a) auto
    note ih = 1(1) [OF ub a [symmetric] ok refl _ refl]
    consider (stop) "only_stream s s' \<and> (\<forall>hs'. r = Ok hs' \<longrightarrow> hs' = hs \<and> uc' = uc \<and> ub' = ub + 2 \<and> ub' \<le> max_header_bytes (limits s))"
      | (more) colon hs1 where "headers_append (take colon (the line)) (trim_ows (drop (colon + 1) (the line))) hs = Ok hs1"
        "uc < max_header_count (limits s)" "find_byte COLON (the line) = Some colon"
        "\<not> length (the line) + 2 > max_header_bytes (limits s) - ub" "the line \<noteq> []" "\<not> (hd (the line) = SPACE \<or> hd (the line) = TAB)"
        "read_headers hs1 (ub + length (the line) + 2) (uc + 1) s1 = ((r, ub', uc'), s')"
    proof (cases "find_byte COLON (the line)")
      case None
      then show ?thesis
        using 1(2) a ok ub o1 by (intro stop) (auto simp: read_headers.simps [of hs ub uc s] Let_def split: if_splits)
    next
      case (Some colon)
      show ?thesis
      proof (cases "headers_append (take colon (the line)) (trim_ows (drop (colon + 1) (the line))) hs")
        case (Ok hs1)
        then show ?thesis
          using 1(2) a ok ub o1 Some stop more [of colon hs1]
          by (auto simp: read_headers.simps [of hs ub uc s] Let_def split: if_splits)
      next
        case (Err e)
        then show ?thesis
          using 1(2) a ok ub o1 Some by (intro stop) (auto simp: read_headers.simps [of hs ub uc s] Let_def split: if_splits)
      qed
    qed
    then show ?thesis
    proof cases
      case stop
      then show ?thesis by (auto intro!: exI [of _ "[]"])
    next
      case more
      obtain h where h: "hs1 = hs @ [h]" "header_ok h" "length (hname h) + length (hvalue h) + 1 \<le> length (the line)"
        using headers_append_ok [OF more(1)] field_size [OF more(3)] by force
      have "only_stream s1 s' \<and> (\<forall>hs'. r = Ok hs' \<longrightarrow> (\<exists>new. hs' = hs1 @ new \<and> list_all header_ok new \<and> uc' = uc + 1 + length new
          \<and> (new \<noteq> [] \<longrightarrow> uc' \<le> max_header_count (limits s1))
          \<and> ub + length (the line) + 2 + fields_size new + 2 \<le> ub' \<and> ub' \<le> max_header_bytes (limits s1)))"
        by (rule ih) (use more in auto)
      moreover note only_stream_trans [OF o1] only_stream_fields(1) [OF o1]
      ultimately show ?thesis using h more(2) by fastforce
    qed
  qed
qed

section \<open>Bodies within their limits\<close>

lemma copied_fields:
  assumes "read_body 8192 s = (Ok bs, s')" and "copying (read_state s) next_state msg"
  shows "length bs \<le> body_remaining s" and "body_remaining s' = body_remaining s - length bs"
    and "body_decoded s' = body_decoded s + length bs" and "limits s' = limits s" and "body_info s' = body_info s"
    and "body_trailers s' = body_trailers s" and "used_header_count s' = used_header_count s"
    and "used_header_bytes s' = used_header_bytes s" and "read_state s' = (if length bs = body_remaining s then next_state else read_state s)"
proof -
  let ?copy = "\<lambda>s. let count = min 8192 (min (body_remaining s) (length (unread s))) in
         http_then (take_part count) (\<lambda>part s. (Ok part, if body_remaining s = 0 then s\<lparr>read_state := next_state\<rparr> else s)) s"
  obtain r t where f: "fill_buffer s = (r, t)" by (cases "fill_buffer s")
  have c: "?copy t = (Ok bs, s')"
    using assms f
    by (auto simp: copying_def read_body_def read_fixed_body_part_def read_chunked_body_part_def chunk_round_def read_chunk_data_def
        http_then_def [of fill_buffer] http_fail_def is_err_def is_ok_def split: if_splits prod.splits Result.splits)
  define k where "k = min 8192 (min (body_remaining t) (length (unread t)))"
  have k: "k \<le> body_remaining t" "k \<le> length (unread t)" by (simp_all add: k_def)
  have "bs = take k (unread t)" "s' = (let u = t\<lparr>unread := drop k (unread t), body_remaining := body_remaining t - k,
      body_decoded := body_decoded t + k\<rparr> in if body_remaining t - k = 0 then u\<lparr>read_state := next_state\<rparr> else u)"
    using c by (simp_all add: http_then_def take_part_def Let_def k_def [symmetric] del: diff_is_0_eq split: if_splits)
  moreover from this have "length bs = k" using k by simp
  moreover note only_stream_fields [OF fill_buffer_only [OF f]]
  ultimately show "length bs \<le> body_remaining s" "body_remaining s' = body_remaining s - length bs"
    "body_decoded s' = body_decoded s + length bs" "limits s' = limits s" "body_info s' = body_info s"
    "body_trailers s' = body_trailers s" "used_header_count s' = used_header_count s" "used_header_bytes s' = used_header_bytes s"
    "read_state s' = (if length bs = body_remaining s then next_state else read_state s)"
    using k by (simp_all add: Let_def split: if_splits)
qed

lemma chunk_head_fields:
  assumes "read_chunk_head s = (Ok go, s')"
  shows "limits s' = limits s" and "body_info s' = body_info s" and "body_decoded s' = body_decoded s"
    and "go \<Longrightarrow> read_state s' = ChunkData \<and> body_remaining s' + body_decoded s \<le> max_body_bytes (limits s) \<or> max_body_bytes (limits s) < body_decoded s"
    and "go \<Longrightarrow> used_header_count s' = used_header_count s \<and> used_header_bytes s' = used_header_bytes s"
    and "\<not> go \<Longrightarrow> read_state s' = BodyComplete \<and> list_all header_ok (body_trailers s') \<and> validate_trailers (body_trailers s') = Ok ()
      \<and> (body_trailers s' = [] \<or> used_header_count s + length (body_trailers s') \<le> max_header_count (limits s))
      \<and> used_header_bytes s + fields_size (body_trailers s') + 2 \<le> max_header_bytes (limits s)"
proof -
  obtain line t where l: "read_line (max_start_line_bytes (limits s)) False s = (Ok line, t)"
    using assms by (auto simp: read_chunk_head_def http_then_Ok)
  note o = only_stream_fields [OF read_line_only [OF l]]
  obtain n where n: "parse_chunk_size (the line) = Ok n"
    using assms by (auto simp: read_chunk_head_def http_then_Ok http_lift_Ok l)
  have "limits s' = limits s \<and> body_info s' = body_info s \<and> body_decoded s' = body_decoded s
    \<and> (go \<longrightarrow> (read_state s' = ChunkData \<and> body_remaining s' + body_decoded s \<le> max_body_bytes (limits s) \<or> max_body_bytes (limits s) < body_decoded s)
         \<and> used_header_count s' = used_header_count s \<and> used_header_bytes s' = used_header_bytes s)
    \<and> (\<not> go \<longrightarrow> read_state s' = BodyComplete \<and> list_all header_ok (body_trailers s') \<and> validate_trailers (body_trailers s') = Ok ()
      \<and> (body_trailers s' = [] \<or> used_header_count s + length (body_trailers s') \<le> max_header_count (limits s))
      \<and> used_header_bytes s + fields_size (body_trailers s') + 2 \<le> max_header_bytes (limits s))"
  proof (cases "n = 0")
    case True
    obtain r ub uc u where h: "read_headers [] (used_header_bytes t) (used_header_count t) t = ((r, ub, uc), u)"
      by (cases "read_headers [] (used_header_bytes t) (used_header_count t) t") auto
    note a = read_headers_accepted [OF h]
    obtain hs where hs: "r = Ok hs" using assms l n True h by (cases r) (auto simp: read_chunk_head_def http_then_def http_lift_def)
    have s': "\<not> go" "validate_trailers hs = Ok ()"
      "s' = u\<lparr>used_header_bytes := ub, used_header_count := uc, body_trailers := hs, read_state := BodyComplete\<rparr>"
      using assms l n True h hs
      by (auto simp: read_chunk_head_def http_then_def http_lift_def Let_def split: Result.splits)
    then show ?thesis using a hs o only_stream_fields [of t u] by auto
  next
    case False
    then show ?thesis
      using assms l n o by (auto simp: read_chunk_head_def http_then_def http_lift_def http_fail_def split: if_splits)
  qed
  then show "limits s' = limits s" "body_info s' = body_info s" "body_decoded s' = body_decoded s"
    "go \<Longrightarrow> read_state s' = ChunkData \<and> body_remaining s' + body_decoded s \<le> max_body_bytes (limits s) \<or> max_body_bytes (limits s) < body_decoded s"
    "go \<Longrightarrow> used_header_count s' = used_header_count s \<and> used_header_bytes s' = used_header_bytes s"
    "\<not> go \<Longrightarrow> read_state s' = BodyComplete \<and> list_all header_ok (body_trailers s') \<and> validate_trailers (body_trailers s') = Ok ()
      \<and> (body_trailers s' = [] \<or> used_header_count s + length (body_trailers s') \<le> max_header_count (limits s))
      \<and> used_header_bytes s + fields_size (body_trailers s') + 2 \<le> max_header_bytes (limits s)" by blast+
qed

lemma chunk_ending_fields:
  assumes "read_chunk_ending s = (Ok u, s')"
  shows "limits s' = limits s" "body_info s' = body_info s" "body_decoded s' = body_decoded s" "read_state s' = ChunkSize"
    "used_header_count s' = used_header_count s" "used_header_bytes s' = used_header_bytes s"
proof -
  obtain a t where a: "read_byte s = (a, t)" by (cases "read_byte s")
  obtain b v where b: "read_byte t = (b, v)" by (cases "read_byte t")
  have "s' = v\<lparr>read_state := ChunkSize\<rparr>"
    using assms
    by (simp add: read_chunk_ending_def http_then_def a b http_modify_def http_fail_def split: Result.splits if_splits)
  then show "limits s' = limits s" "body_info s' = body_info s" "body_decoded s' = body_decoded s" "read_state s' = ChunkSize"
    "used_header_count s' = used_header_count s" "used_header_bytes s' = used_header_bytes s"
    using only_stream_fields [OF only_stream_trans [OF read_byte_only [OF a] read_byte_only [OF b]]] by simp_all
qed

text \<open>
  Under the limits \<open>l\<close> and the framing \<open>f\<close>: what has been read, \<open>acc\<close>, is as long as the state
  says and within the limit; \<open>n\<close> header fields in \<open>m\<close> bytes stand before the body.
\<close>

definition body_inv :: "HttpLimits \<Rightarrow> HttpBodyInfo \<Rightarrow> nat \<Rightarrow> nat \<Rightarrow> bytes \<Rightarrow> Http1Reader \<Rightarrow> bool" where
  "body_inv l f n m acc s \<longleftrightarrow>
     limits s = l \<and> body_info s = f \<and> length acc = body_decoded s \<and> body_decoded s \<le> max_body_bytes (limits s)
     \<and> (case body_kind (body_info s) of
          NoBody \<Rightarrow> read_state s = BodyComplete \<and> body_decoded s = 0 \<and> body_trailers s = []
        | ContentLength \<Rightarrow> body_decoded s + body_remaining s = content_length (body_info s)
            \<and> content_length (body_info s) \<le> max_body_bytes (limits s) \<and> body_trailers s = []
            \<and> (read_state s = FixedBody \<or> read_state s = BodyComplete \<and> body_remaining s = 0)
        | Chunked \<Rightarrow>
            (read_state s = ChunkSize \<or> read_state s = ChunkDataEnding
              \<or> read_state s = ChunkData \<and> body_decoded s + body_remaining s \<le> max_body_bytes (limits s))
              \<and> used_header_count s = n \<and> used_header_bytes s = m
            \<or> read_state s = BodyComplete \<and> list_all header_ok (body_trailers s) \<and> validate_trailers (body_trailers s) = Ok ()
              \<and> (body_trailers s = [] \<or> n + length (body_trailers s) \<le> max_header_count (limits s))
              \<and> m + fields_size (body_trailers s) + 2 \<le> max_header_bytes (limits s)
        | CloseDelimited \<Rightarrow> False)"

lemma body_inv_chunk_data:
  assumes "body_inv l f n m acc s" and "read_state s = ChunkData" and "read_body 8192 s = (Ok bs, s')"
  shows "body_inv l f n m (acc @ bs) s'"
proof -
  have "copying (read_state s) ChunkDataEnding ''unexpected EOF inside HTTP chunk''" using assms(2) by (simp add: copying_def)
  note c = copied_fields [OF assms(3) this]
  show ?thesis using assms(1,2) c by (auto simp: body_inv_def split: HttpBodyKind.splits)
qed

lemma body_inv_chunk_size:
  assumes "body_inv l f n m acc s" and "read_state s = ChunkSize" and "read_body 8192 s = (Ok bs, s')"
  shows "body_inv l f n m (acc @ bs) s'"
proof -
  obtain r t where h: "read_chunk_head s = (r, t)" by (cases "read_chunk_head s")
  obtain go where r: "r = Ok go"
    using assms(2,3) h
    by (cases r) (auto simp: read_body_def read_chunked_body_part_def chunk_round_def http_then_def is_err_def is_ok_def)
  note f = chunk_head_fields [OF h [unfolded r]]
  show ?thesis
  proof (cases go)
    case True
    then have st: "read_state t = ChunkData" using chunk_head_left(3) [OF h r] by simp
    have "body_inv l f n m acc t" using assms(1,2) f True st by (auto simp: body_inv_def split: HttpBodyKind.splits)
    moreover have "read_body 8192 t = (Ok bs, s')"
      using assms(2,3) h r True st by (simp add: read_body_def read_chunked_body_part_def chunk_round_def http_then_def)
    ultimately show ?thesis using body_inv_chunk_data st by blast
  next
    case False
    then have "bs = [] \<and> s' = t"
      using assms(2,3) h r
      by (simp add: read_body_def read_chunked_body_part_def chunk_round_def http_then_def http_return_def is_err_def is_ok_def)
    then show ?thesis using assms(1,2) f False by (auto simp: body_inv_def split: HttpBodyKind.splits)
  qed
qed

lemma body_inv_step:
  assumes "body_inv l f n m acc s" and "read_body 8192 s = (Ok bs, s')"
  shows "body_inv l f n m (acc @ bs) s'"
proof -
  consider "read_state s = BodyComplete" | "read_state s = FixedBody" | "read_state s = ChunkSize" | "read_state s = ChunkData"
    | "read_state s = ChunkDataEnding"
    using assms(1) by (auto simp: body_inv_def split: HttpBodyKind.splits)
  then show ?thesis
  proof cases
    case 1
    then show ?thesis using assms by (simp add: read_body_def)
  next
    case 2
    then have "copying (read_state s) BodyComplete ''unexpected EOF inside HTTP body''" by (simp add: copying_def)
    note c = copied_fields [OF assms(2) this]
    show ?thesis using assms(1) 2 c by (auto simp: body_inv_def split: HttpBodyKind.splits)
  next
    case 3
    show ?thesis by (rule body_inv_chunk_size [OF assms(1) 3 assms(2)])
  next
    case 4
    show ?thesis by (rule body_inv_chunk_data [OF assms(1) 4 assms(2)])
  next
    case 5
    obtain r t where h: "read_chunk_ending s = (r, t)" by (cases "read_chunk_ending s")
    obtain u where r: "r = Ok u"
      using assms(2) 5 h by (cases r) (auto simp: read_body_def read_chunked_body_part_def http_then_def is_err_def is_ok_def)
    note f = chunk_ending_fields [OF h [unfolded r]]
    have "body_inv l f n m acc t" using assms(1) 5 f by (auto simp: body_inv_def split: HttpBodyKind.splits)
    moreover have "read_body 8192 t = (Ok bs, s')"
      using assms(2) 5 h r f(4) by (simp add: read_body_def read_chunked_body_part_def http_then_def)
    ultimately show ?thesis using body_inv_chunk_size f(4) by blast
  qed
qed

lemma body_loop_inv: "body_loop acc s = (Ok bs, s') \<Longrightarrow> body_inv l f n m acc s \<Longrightarrow> body_inv l f n m bs s' \<and> read_state s' = BodyComplete"
proof (induction acc s rule: body_loop.induct)
  case (1 acc s)
  show ?case
  proof (cases "body_finished s")
    case True
    then show ?thesis using 1(2,3) by (auto simp: body_loop.simps [of acc s] body_finished_def)
  next
    case False
    obtain r t where b: "read_body 8192 s = (r, t)" by (cases "read_body 8192 s")
    obtain part where r: "r = Ok part" using 1(2) False b by (cases r) (simp_all add: body_loop_step)
    note inv = body_inv_step [OF 1(3) b [unfolded r]]
    show ?thesis
    proof (cases "body_finished t")
      case True
      then show ?thesis using 1(2) inv False b r by (auto simp: body_loop.simps [of acc s] body_finished_def)
    next
      case nf: False
      then have "body_loop (acc @ part) t = (Ok bs, s')" using 1(2) False b r by (simp add: body_loop_step)
      from 1(1) [OF False b [symmetric] r nf this inv] show ?thesis .
    qed
  qed
qed

section \<open>Heads that are accepted\<close>

lemma begin_body_accepted:
  assumes "begin_body f ub uc s = (Ok u, s')" and "body_kind f \<noteq> CloseDelimited"
  shows "body_inv (limits s) f uc ub [] s'"
  using assms
  by (auto simp: begin_body_def Let_def http_fail_def http_return_def body_inv_def split: HttpBodyKind.splits if_splits)

definition head_accepted :: "HttpLimits \<Rightarrow> HttpRequestHead \<Rightarrow> bool" where
  "head_accepted l h \<longleftrightarrow>
     valid_name (req_method h) \<and> valid_request_target (req_target h) \<and> list_all header_ok (req_headers h)
     \<and> length (req_method h) + length (req_target h) + length (http_version_name (req_version h)) + 2 \<le> max_start_line_bytes l
     \<and> length (req_headers h) \<le> max_header_count l
     \<and> check_host (req_version h) (req_headers h) = Ok ()
     \<and> check_http10_encoding ''HTTP/1.0 request cannot use Transfer-Encoding'' (req_version h) (req_headers h) = Ok ()"

lemma split_request_line_length:
  assumes "split_request_line line = Ok (meth, tgt, ver)"
  shows "length meth + length tgt + length ver + 2 = length line"
proof -
  have split: "length (take n v) + length (drop (n + 1) v) + 1 = length v" if "find_byte c v = Some n" for c n v
    using find_byte_less [OF that] by simp
  show ?thesis
    using assms split by (fastforce simp: split_request_line_def Let_def split: option.splits if_splits)
qed

lemma parse_http_version_Ok: "parse_http_version v = Ok ver \<Longrightarrow> v = http_version_name ver"
  by (auto simp: parse_http_version_def http_version_name_def split: if_splits)

lemma request_head_after_accepted:
  assumes "request_head_after line s = (Ok (Some h), s')" and "length line \<le> max_start_line_bytes (limits s)"
  obtains f ub where "head_accepted (limits s) h" and "body_framing (req_headers h) False = Ok f"
    and "fields_size (req_headers h) + 2 \<le> ub" and "ub \<le> max_header_bytes (limits s)"
    and "body_inv (limits s) f (length (req_headers h)) ub [] s'"
proof -
  obtain meth tgt version_text where l: "split_request_line line = Ok (meth, tgt, version_text)"
    "check_request_line meth tgt = Ok ()"
    using assms(1) by (auto simp: request_head_after_def http_op_Ok)
  obtain version where v: "parse_http_version version_text = Ok version"
    using assms(1) by (auto simp: request_head_after_def http_op_Ok l)
  let ?s = "s\<lparr>last_head_method := meth\<rparr>"
  obtain r ub uc t where hs: "read_headers [] 0 0 ?s = ((r, ub, uc), t)"
    by (cases "read_headers [] 0 0 ?s") auto
  note a = read_headers_accepted [OF hs]
  obtain hs f where k: "r = Ok hs" "check_host version hs = Ok ()"
    "check_http10_encoding ''HTTP/1.0 request cannot use Transfer-Encoding'' version hs = Ok ()"
    "body_framing hs False = Ok f" "begin_body f ub uc t = (Ok (), s')"
    "h = \<lparr>req_method = meth, req_target = tgt, req_version = version, req_headers = hs\<rparr>"
    using assms(1)
    by (cases r) (auto simp: request_head_after_def http_op_Ok l v headers_of_head_def hs)
  have new: "list_all header_ok hs" "uc = length hs" "length hs \<le> max_header_count (limits s)" "limits t = limits s"
    "fields_size hs + 2 \<le> ub" "ub \<le> max_header_bytes (limits s)"
    using a k(1) only_stream_fields(1) [of ?s t] by auto
  note b = begin_body_accepted [OF k(5) body_framing_not_close [OF k(4)]]
  have "length meth + length tgt + length (http_version_name version) + 2 \<le> max_start_line_bytes (limits s)"
    using split_request_line_length [OF l(1)] parse_http_version_Ok [OF v] assms(2) by simp
  then show thesis
    by (intro that [of f ub])
       (use k new b l(2) in \<open>auto simp: head_accepted_def check_request_line_def split: if_splits\<close>)
qed

lemma ensure_ready_limits: "ensure_ready s = (v, s') \<Longrightarrow> limits s' = limits s"
  by (auto simp: ensure_ready_def validate_limits_def http_then_def http_fail_def http_return_def http_modify_def split: if_splits)

lemma read_request_head_accepted:
  assumes "read_request_head s = (Ok (Some h), s')"
  obtains f ub where "head_accepted (limits s) h" and "body_framing (req_headers h) False = Ok f"
    and "fields_size (req_headers h) + 2 \<le> ub" and "ub \<le> max_header_bytes (limits s)"
    and "body_inv (limits s) f (length (req_headers h)) ub [] s'"
proof -
  obtain t u line where t: "ensure_ready s = (Ok (), t)" "read_start_line t = (Ok (Some line), u)"
    "request_head_after line u = (Ok (Some h), s')"
    using assms by (auto simp: read_request_head_def http_op_Ok split: option.splits)
  note l = t(2) [unfolded read_start_line_def]
  have "limits u = limits s" "limits t = limits s"
    using ensure_ready_limits [OF t(1)] only_stream_fields(1) [OF read_line_only [OF l]] by simp_all
  moreover have "length line \<le> max_start_line_bytes (limits u)" using read_line_length [OF l] calculation by simp
  ultimately show thesis by (rule_tac request_head_after_accepted [OF t(3)]) (use that in auto)
qed

section \<open>Framing fields that are accepted\<close>

text \<open>A text that is a decimal numeral of \<open>n\<close>.\<close>

definition decimal_of :: "nat \<Rightarrow> bytes \<Rightarrow> bool" where
  "decimal_of n ds \<longleftrightarrow> ds \<noteq> [] \<and> list_all (\<lambda>c. ZERO \<le> c \<and> c \<le> NINE) ds \<and> foldl (\<lambda>k c. 10 * k + unat (c - ZERO)) 0 ds = n"

text \<open>A value of Content-Length that says \<open>n\<close> and nothing else: a numeral between blanks, or a list of such.\<close>

inductive says_length :: "nat \<Rightarrow> bytes \<Rightarrow> bool" where
  one: "list_all is_ows a \<Longrightarrow> decimal_of n ds \<Longrightarrow> list_all is_ows b \<Longrightarrow> says_length n (a @ ds @ b)"
| more: "says_length n v \<Longrightarrow> says_length n w \<Longrightarrow> says_length n (v @ COMMA # w)"

lemma decimal_loop_decimal:
  "decimal_loop ds k = Ok n \<Longrightarrow> list_all (\<lambda>c. ZERO \<le> c \<and> c \<le> NINE) ds \<and> foldl (\<lambda>k c. 10 * k + unat (c - ZERO)) k ds = n"
  by (induction ds k rule: decimal_loop.induct) (auto simp: Let_def not_less mult.commute split: if_splits)

lemma content_length_loop_says:
  "content_length_loop ts l = Ok (Some n) \<Longrightarrow> (\<forall>t \<in> set ts. says_length n t) \<and> (ts = [] \<or> l = None \<or> l = Some n)"
proof (induction ts arbitrary: l)
  case (Cons t ts)
  obtain k where k: "trim_ows t \<noteq> []" "decimal_loop (trim_ows t) 0 = Ok k" "l = None \<or> l = Some k"
    "content_length_loop ts (Some k) = Ok (Some n)"
    using Cons.prems by (auto simp: Let_def split: if_splits Result.splits)
  have n: "k = n" using content_length_loop_Some [OF k(4)] by simp
  obtain a b where t: "t = a @ trim_ows t @ b" "list_all is_ows a" "list_all is_ows b" using trim_ows_split by blast
  have "decimal_of n (trim_ows t)" using decimal_loop_decimal [OF k(2)] k(1) n by (simp add: decimal_of_def)
  then have "says_length n t" using says_length.one [OF t(2) _ t(3)] t(1) by metis
  then show ?case using Cons.IH [OF k(4)] k(3) n by auto
qed simp

lemma split_commas_join: "split_commas v = t # ts \<Longrightarrow> v = t @ concat (map ((#) COMMA) ts)"
proof (induction v arbitrary: t ts)
  case (Cons c v)
  obtain u us where u: "split_commas v = u # us" by (cases "split_commas v") simp_all
  have "t = [] \<and> ts = u # us \<and> c = COMMA \<or> t = c # u \<and> ts = us"
    using Cons.prems by (auto simp: u split: if_splits)
  then show ?case by (subst Cons.IH [OF u]) auto
qed simp

lemma says_length_split:
  assumes "\<forall>t \<in> set (split_commas v). says_length n t" shows "says_length n v"
proof -
  obtain t ts where v: "split_commas v = t # ts" by (cases "split_commas v") simp_all
  have "says_length n t \<Longrightarrow> \<forall>t \<in> set ts. says_length n t \<Longrightarrow> says_length n (t @ concat (map ((#) COMMA) ts))"
  proof (induction ts arbitrary: t)
    case (Cons u ts)
    then show ?case using Cons.IH [of "t @ COMMA # u"] says_length.more [of n t u] by simp
  qed simp
  then show ?thesis using assms v split_commas_join [OF v] by simp
qed

lemma parse_content_length_says:
  assumes "parse_content_length hs = Ok (Some n)"
  shows "list_all (says_length n) (headers_get_all (ascii ''Content-Length'') hs)"
proof -
  have "\<forall>v \<in> set (headers_get_all (ascii ''Content-Length'') hs). \<forall>t \<in> set (split_commas v). says_length n t"
    using content_length_loop_says [OF assms [unfolded parse_content_length_def]] by fastforce
  then show ?thesis using says_length_split by (simp add: list_all_iff)
qed

lemma codings_loop_Ok: "codings_loop ts l = Ok cs \<Longrightarrow> cs = l @ map trim_ows ts"
  by (induction ts l rule: codings_loop.induct) (auto split: if_splits)

lemma split_commas_one: "split_commas v = [t] \<Longrightarrow> t = v"
  using split_commas_join [of v t "[]"] by simp

lemma parse_chunked_only:
  assumes "parse_chunked_transfer_encoding hs = Ok True"
  obtains v where "headers_get_all (ascii ''Transfer-Encoding'') hs = [v]" and "ascii_equals (trim_ows v) (ascii ''chunked'')"
proof -
  define vs where "vs = headers_get_all (ascii ''Transfer-Encoding'') hs"
  obtain cs where cs: "vs \<noteq> []" "codings_loop (concat (map split_commas vs)) [] = Ok cs" "length cs = 1" "ascii_equals (hd cs) (ascii ''chunked'')"
    using assms by (auto simp: parse_chunked_transfer_encoding_def Let_def and_then_def vs_def split: if_splits Result.splits)
  have l: "length (concat (map split_commas vs)) = 1" using codings_loop_Ok [OF cs(2)] cs(3) by simp
  obtain v ws where v: "vs = v # ws" using cs(1) by (cases vs) auto
  obtain t ts where t: "split_commas v = t # ts" by (cases "split_commas v") simp_all
  have "ts = []" "concat (map split_commas ws) = []" using l unfolding v by (simp_all add: t)
  then have "vs = [v]" "t = v" using concat_split_commas split_commas_one t v by auto
  then show thesis using that codings_loop_Ok [OF cs(2)] cs(4) t \<open>ts = []\<close> by (simp add: vs_def)
qed

lemma framing_chunked:
  assumes "body_framing hs close = Ok f" and "body_kind f = Chunked"
  shows "\<exists>v. headers_get_all (ascii ''Transfer-Encoding'') hs = [v] \<and> ascii_equals (trim_ows v) (ascii ''chunked'')"
proof -
  have "parse_chunked_transfer_encoding hs = Ok True"
    using assms by (auto simp: body_framing_def and_then_def split: Result.splits if_splits option.splits)
  then show ?thesis by (rule parse_chunked_only) blast
qed

lemma framing_length:
  assumes "body_framing hs close = Ok f" and "body_kind f = ContentLength"
  shows "list_all (says_length (content_length f)) (headers_get_all (ascii ''Content-Length'') hs)"
proof -
  have "parse_content_length hs = Ok (Some (content_length f))"
    using assms by (auto simp: body_framing_def and_then_def split: Result.splits if_splits option.splits)
  then show ?thesis by (rule parse_content_length_says)
qed

lemma head_accepted_host:
  assumes "head_accepted l h" and "req_version h = Http11"
  shows "\<exists>host. headers_get_all (ascii ''Host'') (req_headers h) = [host] \<and> trim_ows host \<noteq> [] \<and> COMMA \<notin> set host"
  using assms by (auto simp: head_accepted_def check_host_def Let_def length_Suc_conv split: if_splits)

lemma head_accepted_encoding:
  "head_accepted l h \<Longrightarrow> headers_contains (ascii ''Transfer-Encoding'') (req_headers h) \<Longrightarrow> req_version h = Http11"
  by (cases "req_version h") (auto simp: head_accepted_def check_http10_encoding_def)

lemma validate_trailers_names:
  assumes "validate_trailers hs = Ok ()"
  shows "list_all (\<lambda>name. headers_get_all (ascii name) hs = []) [''Content-Length'', ''Transfer-Encoding'', ''Host'', ''Trailer'']"
  using assms by (auto simp: validate_trailers_def list_ex_iff forbidden_trailer_name_def headers_get_all_def filter_empty_conv split: if_splits)

section \<open>Requests that are accepted\<close>

lemma read_body_all_accepted:
  assumes "read_body_all s = (Ok (body, trailers), s')" and "body_inv l f n m [] s"
  obtains t where "body_inv l f n m body t" and "read_state t = BodyComplete" and "trailers = body_trailers t"
proof -
  obtain t where t: "body_loop [] s = (Ok body, t)" "finish_body t = (Ok trailers, s')"
    using assms(1) by (auto simp: read_body_all_def http_op_Ok)
  note inv = body_loop_inv [OF t(1) assms(2)]
  show thesis using that [of t] inv t(2) by (auto simp: finish_body_Ok)
qed

lemma body_accepted:
  assumes "body_inv l f n m body u" and "read_state u = BodyComplete"
  shows "length body \<le> max_body_bytes l" and "validate_trailers (body_trailers u) = Ok ()" and "list_all header_ok (body_trailers u)"
    and "n \<le> max_header_count l \<Longrightarrow> n + length (body_trailers u) \<le> max_header_count l"
    and "m \<le> max_header_bytes l \<Longrightarrow> m + fields_size (body_trailers u) \<le> max_header_bytes l"
    and "body_kind f \<noteq> Chunked \<Longrightarrow> body_trailers u = []" and "body_kind f = NoBody \<Longrightarrow> body = []"
    and "body_kind f = ContentLength \<Longrightarrow> length body = content_length f"
  using assms by (auto simp: body_inv_def validate_trailers_def split: HttpBodyKind.splits)

end
