(* ===== verification/Http_Props.thy ===== *)
theory Http_Props
  imports Http_Safety "HOL-Library.Code_Target_Nat"
begin

text \<open>Properties of the HTTP/1 codec.\<close>

section \<open>A request that is written is read back\<close>

text \<open>C32: A request that \<open>write_request\<close> has put on its sink, followed by anything else, and
  delivered in any segments and with any interruptions to a reader that is ready and whose limits
  the request fits, is what \<open>read_request\<close> returns, with its header values trimmed and the
  Content-Length that was added; the reader is ready again, and what follows is still unread.\<close>

theorem http_request_roundtrip:
  assumes "write_request r w = (Ok (), w')" and "sent (wr_sink w') = sent (wr_sink w) @ bs"
    and "list_all header_ok (req_headers r)" and "list_all header_ok (req_trailers r)" and "fits (limits s) r"
    and "read_state s = Ready" and "in_segments (rd_stream s)" and "rest s = bs @ tail"
  shows "\<exists>s'. read_request s = (Ok (Some (received r)), s') \<and> read_state s' = Ready \<and> rest s' = tail
    \<and> limits s' = limits s \<and> in_segments (rd_stream s')"
proof -
  obtain hs chunked where c: "check_request r = Ok (hs, chunked)"
    using assms(1) by (auto simp: write_request_def http_op_Ok)
  have "\<not> chunked_body_active w" using write_request_refused [of w r] assms(1) by auto
  then have bs: "bs = request_bytes r hs chunked"
    using write_request_sends(1) [OF assms(1) c] assms(2) by (auto simp: is_ok_def)
  obtain t where t: "read_request (view s) = (Ok (Some (received r)), t)" "unread t = tail" "read_state t = Ready"
    "rd_stream t = []" "limits t = limits (view s)"
    by (rule read_request_unread [OF c, of "view s" tail]; (rule that; assumption)?) (use assms bs in simp_all)
  obtain v s' where r: "read_request s = (v, s')" by (cases "read_request s")
  from segment_freeD [OF read_request_segments assms(7) r] t have "v = Ok (Some (received r))" "view s' = t" "in_segments (rd_stream s')"
    by simp_all
  moreover from this have "read_state s' = Ready" "rest s' = tail" "limits s' = limits s" using t by auto
  ultimately show ?thesis using r by blast
qed

definition sample_request :: HttpRequest where
  "sample_request =
     \<lparr>req_method = ascii ''POST'', req_target = ascii ''/a'', req_version = Http11,
      req_headers = [\<lparr>hname = ascii ''Host'', hvalue = ascii '' h''\<rparr>], req_body = [1, 2], req_trailers = []\<rparr>"

definition sample_limits :: HttpLimits where
  "sample_limits = \<lparr>max_start_line_bytes = 40, max_header_bytes = 60, max_header_count = 3, max_body_bytes = 2\<rparr>"

definition sample_bytes :: bytes where
  "sample_bytes = ascii ''POST /a HTTP/1.1'' @ [CR, LF] @ ascii ''Host:  h'' @ [CR, LF] @ ascii ''Content-Length: 2'' @ [CR, LF, CR, LF, 1, 2]"

text \<open>The sink takes three bytes, is interrupted, and takes the others as they come.\<close>

definition sample_sink :: writer where
  "sample_sink = \<lparr>sent = [], outcomes = [Wrote 3, WriteFailed (io_error Interrupted []), Wrote 13]\<rparr>"

definition segmented_reader :: Http1Reader where
  "segmented_reader = http1_reader
     [Received (take 5 sample_bytes), ReadFailed (io_error Interrupted []), Received (drop 5 sample_bytes @ [7])] sample_limits"

theorem http_request_roundtrip_witness:
  "\<exists>s'. read_request segmented_reader = (Ok (Some (received sample_request)), s') \<and> read_state s' = Ready \<and> rest s' = [7]
    \<and> limits s' = limits segmented_reader \<and> in_segments (rd_stream s')"
proof (rule http_request_roundtrip [where w = "http1_writer sample_sink" and bs = sample_bytes
        and w' = "http1_writer \<lparr>sent = sample_bytes, outcomes = []\<rparr>"])
  show "write_request sample_request (http1_writer sample_sink) = (Ok (), http1_writer \<lparr>sent = sample_bytes, outcomes = []\<rparr>)"
    by code_simp
  show "sent (wr_sink (http1_writer \<lparr>sent = sample_bytes, outcomes = []\<rparr>)) = sent (wr_sink (http1_writer sample_sink)) @ sample_bytes"
    by (simp add: http1_writer_def sample_sink_def)
  show "list_all header_ok (req_headers sample_request)" "list_all header_ok (req_trailers sample_request)" by code_simp+
  have "length (request_line sample_request) \<le> 42" "length (hex_text 2) \<le> 40"
    "message_headers sample_request = req_headers sample_request @ [length_header 2]" "\<not> is_chunked sample_request"
    "headers_size (req_headers sample_request @ [length_header 2]) \<le> 58" "length (req_headers sample_request) = 1"
    "length (req_body sample_request) = 2" by code_simp+
  then show "fits (limits segmented_reader) sample_request"
    by (simp add: fits_def segmented_reader_def http1_reader_def sample_limits_def)
  show "read_state segmented_reader = Ready" by code_simp
  show "in_segments (rd_stream segmented_reader)" "rest segmented_reader = sample_bytes @ [7]"
    by (simp_all add: segmented_reader_def http1_reader_def rest_def io_error_def sample_bytes_def ascii_def)
qed

section \<open>Segments do not matter\<close>

text \<open>C33: Two readers in the same state whose streams will deliver the same bytes, whatever the
  segments and the interruptions, return the same from \<open>read_request\<close>, an error included, and
  have the same bytes unread and the same state afterwards.\<close>

theorem http_segmentation_independent:
  assumes "in_segments (rd_stream s)" and "in_segments (rd_stream t)" and "view s = view t"
  shows "fst (read_request s) = fst (read_request t) \<and> view (snd (read_request s)) = view (snd (read_request t))"
proof -
  have "read_request (view s) = (fst (read_request s), view (snd (read_request s)))"
    using segment_freeD [OF read_request_segments assms(1), of "fst (read_request s)" "snd (read_request s)"] by simp
  moreover have "read_request (view t) = (fst (read_request t), view (snd (read_request t)))"
    using segment_freeD [OF read_request_segments assms(2), of "fst (read_request t)" "snd (read_request t)"] by simp
  ultimately show ?thesis using assms(3) by simp
qed

theorem http_segmentation_independent_witness:
  "fst (read_request segmented_reader) = fst (read_request (http1_reader [Received (sample_bytes @ [7])] sample_limits))
    \<and> view (snd (read_request segmented_reader)) = view (snd (read_request (http1_reader [Received (sample_bytes @ [7])] sample_limits)))"
  by (rule http_segmentation_independent)
     (simp_all add: segmented_reader_def http1_reader_def view_def rest_def io_error_def sample_bytes_def ascii_def)

section \<open>Requests that are accepted\<close>

text \<open>C34: Whatever a stream does, a request that \<open>read_request\<close> accepts has a valid method and target
  and valid fields; with HTTP/1.1 it has one Host, neither empty nor a list; there is never both a
  Content-Length and a Transfer-Encoding; every value of Content-Length, and every member of a list
  of them, is a numeral of the length of the body; Transfer-Encoding is the one coding \<open>chunked\<close>;
  a body or trailers without either is not accepted; no trailer is a Content-Length, a
  Transfer-Encoding, a Host or a Trailer; and the request line, the header and trailer lines, their
  number and the body are within the four limits.\<close>

theorem http_request_safe:
  assumes "read_request s = (Ok (Some r), s')"
  shows "valid_name (req_method r) \<and> valid_request_target (req_target r)
    \<and> list_all header_ok (req_headers r @ req_trailers r)
    \<and> (req_version r = Http11 \<longrightarrow>
         (\<exists>host. headers_get_all (ascii ''Host'') (req_headers r) = [host] \<and> trim_ows host \<noteq> [] \<and> COMMA \<notin> set host))
    \<and> \<not> (headers_contains (ascii ''Transfer-Encoding'') (req_headers r) \<and> headers_contains (ascii ''Content-Length'') (req_headers r))
    \<and> list_all (says_length (length (req_body r))) (headers_get_all (ascii ''Content-Length'') (req_headers r))
    \<and> (if headers_contains (ascii ''Transfer-Encoding'') (req_headers r)
       then req_version r = Http11
         \<and> (\<exists>v. headers_get_all (ascii ''Transfer-Encoding'') (req_headers r) = [v] \<and> ascii_equals (trim_ows v) (ascii ''chunked''))
       else req_trailers r = [] \<and> (req_body r = [] \<or> headers_contains (ascii ''Content-Length'') (req_headers r)))
    \<and> list_all (\<lambda>name. headers_get_all (ascii name) (req_trailers r) = [])
        [''Content-Length'', ''Transfer-Encoding'', ''Host'', ''Trailer'']
    \<and> length (req_method r) + length (req_target r) + length (http_version_name (req_version r)) + 2 \<le> max_start_line_bytes (limits s)
    \<and> fields_size (req_headers r @ req_trailers r) + 2 \<le> max_header_bytes (limits s)
    \<and> length (req_headers r @ req_trailers r) \<le> max_header_count (limits s)
    \<and> length (req_body r) \<le> max_body_bytes (limits s)"
proof -
  obtain h t body trailers where h: "read_request_head s = (Ok (Some h), t)" "read_body_all t = (Ok (body, trailers), s')"
    "r = HttpRequestHead.extend h (HttpRequest.fields body trailers)"
    using assms by (auto simp: read_request_def http_op_Ok split: option.splits)
  obtain f ub where f: "head_accepted (limits s) h" "body_framing (req_headers h) False = Ok f"
    "fields_size (req_headers h) + 2 \<le> ub" "ub \<le> max_header_bytes (limits s)"
    "body_inv (limits s) f (length (req_headers h)) ub [] t" by (rule read_request_head_accepted [OF h(1)])
  obtain u where u: "body_inv (limits s) f (length (req_headers h)) ub body u" "read_state u = BodyComplete" "trailers = body_trailers u"
    by (rule read_body_all_accepted [OF h(2) f(5)])
  have r: "req_method r = req_method h" "req_target r = req_target h" "req_version r = req_version h"
    "req_headers r = req_headers h" "req_body r = body" "req_trailers r = trailers"
    by (simp_all add: h(3) HttpRequestHead.defs HttpRequest.defs)
  note k = framing_kinds [OF f(2)] and b = body_accepted [OF u(1,2), folded u(3)]
  have "if headers_contains (ascii ''Transfer-Encoding'') (req_headers h)
    then req_version h = Http11 \<and> (\<exists>v. headers_get_all (ascii ''Transfer-Encoding'') (req_headers h) = [v] \<and> ascii_equals (trim_ows v) (ascii ''chunked''))
    else trailers = [] \<and> (body = [] \<or> headers_contains (ascii ''Content-Length'') (req_headers h))"
    using head_accepted_encoding [OF f(1)] framing_chunked [OF f(2)] k b body_framing_not_close [OF f(2)]
    by (cases "body_kind f") auto
  moreover have "list_all (says_length (length body)) (headers_get_all (ascii ''Content-Length'') (req_headers h))"
    using framing_length [OF f(2)] b(8) k(2) get_all_empty [of "ascii ''Content-Length''" "req_headers h"]
    by (cases "body_kind f = ContentLength") auto
  ultimately show ?thesis
    using k(3) b f(1,3,4) head_accepted_host [OF f(1)] validate_trailers_names [of trailers] unfolding r head_accepted_def by auto
qed

definition get_request :: HttpRequest where
  "get_request =
     \<lparr>req_method = ascii ''GET'', req_target = ascii ''/'', req_version = Http11,
      req_headers = [\<lparr>hname = ascii ''Host'', hvalue = ascii ''h''\<rparr>], req_body = [], req_trailers = []\<rparr>"

text \<open>A request whose length is a list of equal numbers, in two segments.\<close>

definition listed_request :: HttpRequest where
  "listed_request =
     \<lparr>req_method = ascii ''PUT'', req_target = ascii ''/'', req_version = Http11,
      req_headers = [\<lparr>hname = ascii ''Host'', hvalue = ascii ''h''\<rparr>, \<lparr>hname = ascii ''content-length'', hvalue = ascii ''2, 2''\<rparr>],
      req_body = [1, 2], req_trailers = []\<rparr>"

definition listed_reader :: Http1Reader where
  "listed_reader = http1_reader
     [Received (ascii ''PUT / HTTP/1.1'' @ [CR, LF] @ ascii ''Host: h'' @ [CR, LF] @ ascii ''content-le''),
      Received (ascii ''ngth:2, 2'' @ [CR, LF, CR, LF, 1, 2, 3])] sample_limits"

theorem http_request_safe_witness:
  "fst (read_request listed_reader) = Ok (Some listed_request)
    \<and> list_all (says_length 2) [ascii ''2, 2'']
    \<and> (\<exists>host. headers_get_all (ascii ''Host'') (req_headers listed_request) = [host] \<and> trim_ows host \<noteq> [] \<and> COMMA \<notin> set host)
    \<and> fields_size (req_headers listed_request @ req_trailers listed_request) + 2 \<le> max_header_bytes (limits listed_reader)"
proof -
  have r: "fst (read_request listed_reader) = Ok (Some listed_request)" by code_simp
  have "req_version listed_request = Http11" "length (req_body listed_request) = 2"
    "headers_get_all (ascii ''Content-Length'') (req_headers listed_request) = [ascii ''2, 2'']" by code_simp+
  moreover have "read_request listed_reader = (Ok (Some listed_request), snd (read_request listed_reader))"
    using r by (simp only: prod_eq_iff fst_conv snd_conv simp_thms)
  note safe = http_request_safe [OF this]
  ultimately show ?thesis using safe [THEN conjunct2] r by simp
qed

section \<open>What a failure leaves on the sink\<close>

text \<open>C35: A request that \<open>write_request\<close> refuses has put nothing on the sink; when the sink fails,
  an initial part of the encoded request is on it, and nothing else; and on success all
  of it is.\<close>

theorem http_write_prefix:
  assumes "write_request r w = (v, w')"
  shows "(case v of
      Ok _ \<Rightarrow> \<exists>hs chunked. check_request r = Ok (hs, chunked) \<and> sent (wr_sink w') = sent (wr_sink w) @ request_bytes r hs chunked
    | Err e \<Rightarrow>
        if http_kind e = Io
        then \<exists>hs chunked p q. check_request r = Ok (hs, chunked) \<and> request_bytes r hs chunked = p @ q \<and> sent (wr_sink w') = sent (wr_sink w) @ p
        else wr_sink w' = wr_sink w)"
proof -
  consider (refused) "chunked_body_active w \<or> (\<exists>e. check_request r = Err e)"
    | (sent) hs chunked where "\<not> chunked_body_active w" "check_request r = Ok (hs, chunked)"
    by (cases "check_request r") auto
  then show ?thesis
  proof cases
    case refused
    then obtain e where "v = Err e" "w' = w" "http_kind e \<noteq> Io" using write_request_refused [of w r] assms by fastforce
    then show ?thesis by simp
  next
    case sent
    from write_request_sends [OF assms sent(2,1)] show ?thesis
      using sent(2) by (cases v) (auto simp: is_ok_def)
  qed
qed

theorem http_write_prefix_witness:
  "case fst (write_request get_request (http1_writer \<lparr>sent = [9], outcomes = [Wrote 3, WriteFailed (io_error BrokenPipe [])]\<rparr>)) of
      Ok _ \<Rightarrow> False
    | Err e \<Rightarrow>
        if http_kind e = Io
        then \<exists>hs chunked p q. check_request get_request = Ok (hs, chunked) \<and> request_bytes get_request hs chunked = p @ q
          \<and> sent (wr_sink (snd (write_request get_request
              (http1_writer \<lparr>sent = [9], outcomes = [Wrote 3, WriteFailed (io_error BrokenPipe [])]\<rparr>)))) = [9] @ p
        else False"
proof -
  let ?w = "http1_writer \<lparr>sent = [9], outcomes = [Wrote 3, WriteFailed (io_error BrokenPipe [])]\<rparr>"
  have "(case fst (write_request get_request ?w) of Ok _ \<Rightarrow> False | Err e \<Rightarrow> http_kind e = Io)" by code_simp
  moreover have "sent (wr_sink ?w) = [9]" by (simp add: http1_writer_def)
  ultimately show ?thesis
    using http_write_prefix [OF surjective_pairing, of get_request ?w] by (auto split: Result.splits)
qed

end
