(* ===== verification/Spec2Isabelle.thy ===== *)
theory Spec2Isabelle
  imports Core_Bytes_Codec Crypto_Text_Props Crypto_Cipher_Props Crypto_Hash_Props Crypto_Mac_Props Thread_Props Csv_Props Ini_Props Collection_Lru_Props Json_Props Io_Props Http_Props
begin

text \<open>
  A verification development for \<^verbatim>\<open>libca\<close>, a C++17 library of modules that share a small core
  (\<^verbatim>\<open>src/libca/<module>/src/libca/<module>\<close>).  The modules modelled here are the ones that
  carry logic of their own: the result and buffer types of \<^verbatim>\<open>core\<close>, the encodings, ciphers
  and hashes of \<^verbatim>\<open>crypto\<close>, the text codecs of \<^verbatim>\<open>str\<close>, the readers and writers of \<^verbatim>\<open>csv\<close>,
  \<^verbatim>\<open>ini\<close> and \<^verbatim>\<open>json\<close>, the streams of \<^verbatim>\<open>io\<close>, the HTTP/1 codec of \<^verbatim>\<open>http\<close>, the blocking classes of \<^verbatim>\<open>thread\<close>
  and the cache of \<^verbatim>\<open>collection\<close>.

  \<^bold>\<open>How the parts interact.\<close>  Every module reports errors through \<^verbatim>\<open>ca::Result\<close>
  (\<open>Core_Result\<close>) or \<^verbatim>\<open>ca::Status\<close> (\<open>Core_Status\<close>).  The byte buffers are what
  \<^verbatim>\<open>crypto\<close> encodes into and reads from; the hash classes feed the keyed hashes; the
  CSV and INI readers reject text that the UTF-8 validator of \<^verbatim>\<open>str\<close> rejects; the queue and the
  channel are monitors that return \<^verbatim>\<open>Status\<close> values; the HTTP codec reads from and writes to
  the streams of \<^verbatim>\<open>io\<close>, whose errors it wraps.  In each case the model of the client
  calls the model of the provider.

  \<^bold>\<open>Theories.\<close>  A component has a theory of definitions, in the order of its source files
  and with their names, and a theory of lemmas with the suffix \<open>Props\<close> (or \<open>Codec\<close>).

  \<^item> \<open>Libca_Prelude\<close>: the integer types of \<^verbatim>\<open>core/datatype.hpp\<close> (\<open>u8\<close> to \<open>u64\<close> are words,
    \<open>usize\<close> is a natural number with wrapping \<open>usize_add\<close>, \<open>usize_sub\<close>, \<open>usize_mul\<close>
    written where the code does the arithmetic) and shared lemmas.
  \<^item> \<open>Libca_Chars\<close>: characters and literals as bytes, and the digits of a number.
  \<^item> \<open>Libca_Simulation\<close>: the locale \<open>simulation\<close> carries a step-wise refinement to sequences of
    operations; it is interpreted for the cache and for the INI document.
  \<^item> \<open>Core_Result\<close>: \<^verbatim>\<open>result.hpp\<close>, \<^verbatim>\<open>option.hpp\<close>.  The values and their combinators, and the
    representation of a \<^verbatim>\<open>Result\<close>: a raw storage with a tag in an object that has an address, so
    that an object can be assigned to itself.  Construction, assignment and destruction end in
    \<open>Completed\<close>, in \<open>Threw\<close> when the constructor of the element throws, or in \<open>Violation\<close> when they
    destroy or read an object that is not alive.  Shown: what assignment does in each case.
  \<^item> \<open>Core_Bytes\<close>, \<open>Core_Bytes_Codec\<close>: \<^verbatim>\<open>bytes.hpp\<close>, \<^verbatim>\<open>bytes.cpp\<close>.  A heap block is a list, a
    buffer a record of block, length and cursor.  The locales \<open>fixed_codec\<close>,
    \<open>var_codec\<close> and \<open>wire_format\<close> state what a put and a get promise; the theorems show
    memory safety of every program that copies, moves and uses buffers (a moved-from one is
    only assigned to), round trips of any sequence of fields,
    that exactly the canonical varints are accepted, and which error is reported otherwise.
  \<^item> \<open>Core_Status\<close>: \<^verbatim>\<open>status.hpp\<close>.
  \<^item> \<open>Crypto_Text\<close>, \<open>Crypto_Text_Props\<close>: \<^verbatim>\<open>hex.cpp\<close>, \<^verbatim>\<open>base64.cpp\<close>, \<^verbatim>\<open>base32.cpp\<close>,
    \<^verbatim>\<open>crypto_util.cpp\<close>.  The locale \<open>text_codec\<close> is the contract of an encoder and a strict
    decoder: round trip, and acceptance of encodings only;
    for Base64 and Base32 the accepted strings are exactly the encodings.
  \<^item> \<open>Crypto_Cipher\<close>, \<open>Crypto_Cipher_Props\<close>: \<^verbatim>\<open>rc4.cpp\<close>, \<^verbatim>\<open>chacha20.cpp\<close>, \<^verbatim>\<open>crc.cpp\<close>, \<^verbatim>\<open>murmur3.cpp\<close>.
    The locale \<open>keystream_cipher\<close> gives the involutions; further theorems show seeking in
    the ChaCha20 key stream, that the RC4 state stays a permutation, that the CRC table is
    the polynomial division and that MurmurHash3 is a bijection of the seed.
  \<^item> \<open>Crypto_Hash\<close>, \<open>Crypto_Hash_Props\<close>: \<^verbatim>\<open>md5.cpp\<close>, \<^verbatim>\<open>sha1.cpp\<close>, \<^verbatim>\<open>sha256.cpp\<close>, \<^verbatim>\<open>sha512.cpp\<close>.  The
    locale \<open>merkle_damgard\<close> relates a streaming hasher to the hash of the whole message: the
    digest after any sequence of additions and intermediate digests is the digest of the
    concatenation, with the padding of the standard.  Local arrays start uninitialised, as
    unknown bytes.  SHA-384 is right at its first digest only: it does not restore its state.
  \<^item> \<open>Crypto_Mac\<close>, \<open>Crypto_Mac_Props\<close>: \<^verbatim>\<open>hmac.cpp\<close>, \<^verbatim>\<open>hkdf.cpp\<close>, \<^verbatim>\<open>pbkdf2.cpp\<close>, on the buffers of
    \<open>Core_Bytes\<close> and the hashers of \<open>Crypto_Hash\<close>.  The buffers reserved are large enough,
    and the results are those of RFC 2104, RFC 5869 and RFC 8018.  The locales
    \<open>mac_hash\<close> and \<open>keyed\<close> are what HMAC needs of a hash and what HKDF needs of HMAC.
  \<^item> \<open>Str_Utf8\<close>, \<open>Str_Utf8_Props\<close>: \<^verbatim>\<open>utf8_util.cpp\<close>, \<^verbatim>\<open>bom.cpp\<close>, \<^verbatim>\<open>char_util.hpp\<close>, \<^verbatim>\<open>conversion.cpp\<close>.
    The validator accepts exactly the encodings of sequences of scalar values; the
    converters are round trips on them, and on every input write as much as their length
    functions say, or, when they reject it, no more than a multiple of its length.
  \<^item> \<open>Str_Arena\<close>: \<^verbatim>\<open>utf8_string_arena.cpp\<close>, what an interned reference shows.
  \<^item> \<open>Csv\<close>, \<open>Csv_Props\<close>: \<^verbatim>\<open>csv_document.cpp\<close>, \<^verbatim>\<open>csv_reader.cpp\<close>, \<^verbatim>\<open>csv_writer.cpp\<close>.  A written
    document is read back, under any pair of options that agree, with the exceptions the theorem
    names; an error is reported at the line and column of the character it is about.
  \<^item> \<open>Ini\<close>: \<^verbatim>\<open>ini_document.cpp\<close>, \<^verbatim>\<open>ini_reader.cpp\<close>, \<^verbatim>\<open>ini_writer.cpp\<close>.  The document is its
    line records, the public lines and the two indexes; an edit changes the lines and then the
    indexes, as in the source.  An exception of a string constructor is an outer error.
  \<^item> \<open>Ini_Edits\<close>, \<open>Ini_Reading\<close>, \<open>Ini_Persist\<close>, \<open>Ini_Props\<close>: the indexes agree with the lines, so
    a document without duplicates refines a map; a line is cut at ASCII bytes only, so nothing throws and
    nothing but a byte order mark is lost; and a value that was set is found when the text is read
    again, under conditions on the old lines and the new names.  The last section of \<open>Ini_Props\<close>
    evaluates edits whose text is not read back.
  \<^item> \<open>Json_Value\<close>, \<open>Json_Parser\<close>, \<open>Json_Writer\<close>: \<^verbatim>\<open>json_value.cpp\<close>, \<^verbatim>\<open>json_parser.cpp\<close>,
    \<^verbatim>\<open>json_dom_builder.cpp\<close>, \<^verbatim>\<open>json_reader.cpp\<close>, \<^verbatim>\<open>json_writer.cpp\<close>.  The parser is the source's
    recursive descent, with its locations, options, limits and errors, and records the
    calls of its handler; the tree builder is the handler the reader installs.  Strings are
    bytes: the arena and the string builder are what they hold.  The conversions of
    \<^verbatim>\<open>double\<close> belong to the C++ library and are the parameter \<open>float_chars\<close>; \<open>float_conversions\<close> is
    what its documentation promises of them.
  \<^item> \<open>Json_Parser_Props\<close>, \<open>Json_Scalar_Props\<close>, \<open>Json_Props\<close>: the parser returns on every input
    and a document it accepts is well formed; literals, numbers and strings, then arrays
    and objects, are read back as they were written.  The locales \<open>bracketed\<close> and
    \<open>container\<close> state what arrays and objects share.
  \<^item> \<open>Io_Stream\<close>, \<open>Io_Props\<close>: \<^verbatim>\<open>error.cpp\<close>, \<^verbatim>\<open>reader.cpp\<close>, \<^verbatim>\<open>writer.cpp\<close>, \<^verbatim>\<open>buffered.cpp\<close>.  A stream
    behind the virtual functions is the list of what its calls return: short transfers,
    interruptions and failures are explicit.  A buffered writer neither loses nor repeats
    what it took, a buffered reader cuts the stream after a delimiter wherever its buffer ends.
  \<^item> \<open>Http_Message\<close>, \<open>Http_Codec\<close>, \<open>Http_Reader\<close>, \<open>Http_Writer\<close>: \<^verbatim>\<open>http_error.cpp\<close>, \<^verbatim>\<open>headers.cpp\<close>,
    \<^verbatim>\<open>message.cpp\<close>, \<^verbatim>\<open>http1_codec.cpp\<close>.  The reader is a record with the state machine of the
    source; its loops end because each round uses bytes of the stream.
  \<^item> \<open>Http_Delivery\<close>, \<open>Http_Encoding\<close>, \<open>Http_Parsing\<close>, \<open>Http_Roundtrip\<close>, \<open>Http_Safety\<close>, \<open>Http_Props\<close>:
    the reader commutes with putting the whole stream into its buffer, so segments do not
    matter; the writer sends an initial part of the encoding on any sink; a written request
    is read back; and a request that is accepted has one framing, with lengths that all agree,
    and is within the four limits.
  \<^item> \<open>Thread_Monitor\<close>: the semantics of calls on one object guarded by a mutex and
    condition variables, under every schedule, with spurious wake-ups and time-outs.  The
    locale \<open>signalling\<close> states which predicates and notifications a class has; inside it,
    no wake-up is lost.
  \<^item> \<open>Thread_Queue\<close>, \<open>Thread_Props\<close>: \<^verbatim>\<open>bounded_queue.hpp\<close>, \<^verbatim>\<open>channel.hpp\<close>, \<^verbatim>\<open>stop_token.cpp\<close>,
    interpretations of \<open>signalling\<close>; the queue and the channel are first-in first-out and
    deliver each value once, in every interleaving.
  \<^item> \<open>Collection_Lru\<close>, \<open>Collection_Lru_Props\<close>: \<^verbatim>\<open>lru_cache.hpp\<close>, with nodes that have an identity.
    The cache refines the list of its pairs in order of use.  The implicit copy of a cache, whose
    index would point into the list of the original, is not modelled.

  \<^bold>\<open>Bounds and fuel.\<close>  Loops are structural recursions over the input that is left, or
  \<open>function\<close>s with a measure.  Only the descent of the JSON parser carries fuel, one unit
  more than the input has bytes: every round of a loop and every level of the recursion
  consumes a byte, and \<open>json_parse_terminates\<close> shows that it never runs out.  Sizes are
  bounded by \<open>SIZE_MAX\<close> where the code adds them; a theorem that needs that bound states it.

  \<^bold>\<open>Not modelled.\<close>  Calls of the operating system and third-party libraries (\<^verbatim>\<open>net\<close>,
  \<^verbatim>\<open>process\<close>, native handles in \<^verbatim>\<open>io\<close>, \<^verbatim>\<open>fs\<close>, \<^verbatim>\<open>env\<close>, \<^verbatim>\<open>zip\<close>, client, server and TLS in \<^verbatim>\<open>http\<close>, the backends of \<^verbatim>\<open>log\<close>, file functions
  of the text formats) and wrappers of standard containers.  Of \<^verbatim>\<open>json\<close>, the schema, the
  key-value store and the accessors that convert between \<^verbatim>\<open>double\<close> and integer.  Also left: the
  remaining text formats, the URL parser, \<^verbatim>\<open>opt\<close>, and the remaining classes of \<^verbatim>\<open>thread\<close>.
\<close>

end
